(* ===== verification/Prelude.thy ===== *)
theory Prelude
  imports Main "HOL-Library.Char_ord" "HOL-Library.List_Lexorder" "HOL-Library.Word"
begin

text \<open>
  Shared vocabulary of the development.

  A Rust \<open>String\<close> or \<open>&str\<close> is its list of UTF-8 bytes, a \<open>string\<close>: every \<open>char\<close> of HOL is
  one byte, so \<open>length\<close> is Rust's \<open>len()\<close>, list order is Rust's \<open>Ord for str\<close>, and an
  ASCII literal stands for itself. This theory models what the code uses of \<open>str\<close> and the
  integer types: UTF-8 validity, \<open>trim\<close>, checked slicing, \<open>strip_prefix\<close>, \<open>split_once\<close>,
  decimal parsing and zero-padded printing. The two error types of the domain crate are sums'
  left components.
\<close>

named_theorems model_defs \<open>definitions that evaluate or unfold in component proofs\<close>

subsection \<open>Errors\<close>

text \<open>\<open>DomainError\<close>: an empty required value names its field, a refused state carries its text.\<close>

datatype domain_error = EmptyValue string | InvalidState string

type_synonym 'a domain_result = "domain_error + 'a"

text \<open>The \<open>?\<close> operator on \<open>Result\<close>: an error is returned at once.\<close>

definition try_bind :: "'e + 'a \<Rightarrow> ('a \<Rightarrow> 'e + 'b) \<Rightarrow> 'e + 'b" where
  "try_bind r f = (case r of Inl e \<Rightarrow> Inl e | Inr x \<Rightarrow> f x)"

lemma try_bind_simps [simp]: "try_bind (Inl e) f = Inl e" "try_bind (Inr x) f = f x"
  by (simp_all add: try_bind_def)

lemma try_bind_Inr_iff: "try_bind r f = Inr y \<longleftrightarrow> (\<exists>x. r = Inr x \<and> f x = Inr y)"
  by (cases r) auto

subsection \<open>Bytes\<close>

definition byte :: "char \<Rightarrow> nat" where
  "byte c = of_char c"

lemma byte_inject [simp]: "byte c = byte d \<longleftrightarrow> c = d"
  by (simp add: byte_def)

lemma byte_less_256 [simp]: "byte c < 256"
  by (simp add: byte_def)

lemma byte_less_iff: "c < d \<longleftrightarrow> byte c < byte d"
  by (simp add: byte_def less_char_def)

lemma byte_char_of [simp]: "n < 256 \<Longrightarrow> byte (char_of n) = n"
  by (simp add: byte_def)

lemma char_of_byte [simp]: "char_of (byte c) = c"
  by (simp add: byte_def)

text \<open>Validity of a byte sequence as UTF-8, as \<open>String::from_utf8\<close> decides it.\<close>

definition utf8_cont :: "char \<Rightarrow> bool" where
  "utf8_cont c \<longleftrightarrow> 128 \<le> byte c \<and> byte c < 192"

text \<open>\<open>utf8_first s\<close> is what follows the first character, \<open>None\<close> when \<open>s\<close> does not start with
  one: no overlong forms, no surrogates, nothing past U+10FFFF.\<close>

fun utf8_first :: "string \<Rightarrow> string option" where
  "utf8_first [] = None"
| "utf8_first (a # s) =
     (if byte a < 128 then Some s
      else case s of [] \<Rightarrow> None | b # s \<Rightarrow>
        if 194 \<le> byte a \<and> byte a \<le> 223 then (if utf8_cont b then Some s else None)
        else case s of [] \<Rightarrow> None | c # s \<Rightarrow>
          if 224 \<le> byte a \<and> byte a \<le> 239 then
            (if utf8_cont b \<and> utf8_cont c \<and> (byte a = 224 \<longrightarrow> 160 \<le> byte b)
                \<and> (byte a = 237 \<longrightarrow> byte b < 160)
             then Some s else None)
          else case s of [] \<Rightarrow> None | d # s \<Rightarrow>
            if 240 \<le> byte a \<and> byte a \<le> 244 \<and> utf8_cont b \<and> utf8_cont c \<and> utf8_cont d
               \<and> (byte a = 240 \<longrightarrow> 144 \<le> byte b) \<and> (byte a = 244 \<longrightarrow> byte b < 144)
            then Some s else None)"

lemma utf8_first_length: "utf8_first s = Some r \<Longrightarrow> length r < length s"
  by (cases s) (auto split: if_splits list.splits)

function utf8_valid :: "string \<Rightarrow> bool" where
  "utf8_valid s = (s = [] \<or> (case utf8_first s of None \<Rightarrow> False | Some r \<Rightarrow> utf8_valid r))"
  by pat_completeness auto
termination
  by (relation "measure length") (auto dest: utf8_first_length)

declare utf8_valid.simps [simp del]

lemma utf8_valid_Nil [simp]: "utf8_valid []"
  by (subst utf8_valid.simps) simp

lemma utf8_valid_first: "utf8_first s = Some r \<Longrightarrow> utf8_valid s \<longleftrightarrow> utf8_valid r"
  by (subst utf8_valid.simps) (auto split: option.splits)

lemma utf8_valid_Cons_first: "utf8_valid (a # s) \<longleftrightarrow>
    (case utf8_first (a # s) of None \<Rightarrow> False | Some r \<Rightarrow> utf8_valid r)"
  by (subst utf8_valid.simps) simp

lemma utf8_first_prefix:
  "utf8_first (p @ q) = Some r \<Longrightarrow> p \<noteq> [] \<Longrightarrow> q = [] \<or> \<not> utf8_cont (hd q)
     \<Longrightarrow> \<exists>p'. utf8_first p = Some p' \<and> r = p' @ q"
  by (cases p; cases q) (auto split: if_splits list.splits simp: Cons_eq_append_conv)

lemma utf8_valid_prefix:
  "utf8_valid (p @ q) \<Longrightarrow> q = [] \<or> \<not> utf8_cont (hd q) \<Longrightarrow> utf8_valid p"
proof (induction p rule: utf8_valid.induct)
  case (1 p)
  show ?case
  proof (cases "p = []")
    case False
    then obtain r where r: "utf8_first (p @ q) = Some r"
      using "1.prems"(1) by (subst (asm) utf8_valid.simps) (auto split: option.splits)
    then obtain p' where p': "utf8_first p = Some p'" "r = p' @ q"
      using utf8_first_prefix False "1.prems"(2) by blast
    have "utf8_valid (p' @ q)" using "1.prems"(1) r p' utf8_valid_first by metis
    then have "utf8_valid p'" using "1.IH" False p' "1.prems"(2) by blast
    then show ?thesis using p' utf8_valid_first by blast
  qed simp
qed

definition is_ascii :: "string \<Rightarrow> bool" where
  "is_ascii s \<longleftrightarrow> (\<forall>c \<in> set s. byte c < 128)"

lemma ascii_utf8_valid: "is_ascii s \<Longrightarrow> utf8_valid s"
  by (induction s) (auto simp: is_ascii_def utf8_valid_Cons_first)

subsection \<open>Trimming\<close>

text \<open>
  \<open>str::trim\<close> removes characters of Unicode \<open>White_Space\<close>. On UTF-8 bytes these are six
  one-byte characters, two of two bytes and the three-byte ones below. \<open>drop_space\<close> removes
  one such character from the front, \<open>drop_space_rev\<close> from the front of the reversed string.
\<close>

definition is_space1 :: "char \<Rightarrow> bool" where
  "is_space1 a \<longleftrightarrow> (9 \<le> byte a \<and> byte a \<le> 13) \<or> byte a = 32"

definition is_space2 :: "char \<Rightarrow> char \<Rightarrow> bool" where
  "is_space2 a b \<longleftrightarrow> byte a = 194 \<and> (byte b = 133 \<or> byte b = 160)"

definition is_space3 :: "char \<Rightarrow> char \<Rightarrow> char \<Rightarrow> bool" where
  "is_space3 a b c \<longleftrightarrow>
     (byte a = 225 \<and> byte b = 154 \<and> byte c = 128) \<or>
     (byte a = 226 \<and> byte b = 128 \<and>
        ((128 \<le> byte c \<and> byte c \<le> 138) \<or> byte c = 168 \<or> byte c = 169 \<or> byte c = 175)) \<or>
     (byte a = 226 \<and> byte b = 129 \<and> byte c = 159) \<or>
     (byte a = 227 \<and> byte b = 128 \<and> byte c = 128)"

fun drop_space :: "string \<Rightarrow> string option" where
  "drop_space [] = None"
| "drop_space (a # s) =
     (if is_space1 a then Some s
      else case s of [] \<Rightarrow> None | b # s \<Rightarrow>
        if is_space2 a b then Some s
        else case s of [] \<Rightarrow> None | c # s \<Rightarrow>
          if is_space3 a b c then Some s else None)"

fun drop_space_rev :: "string \<Rightarrow> string option" where
  "drop_space_rev [] = None"
| "drop_space_rev (c # s) =
     (if is_space1 c then Some s
      else case s of [] \<Rightarrow> None | b # s \<Rightarrow>
        if is_space2 b c then Some s
        else case s of [] \<Rightarrow> None | a # s \<Rightarrow>
          if is_space3 a b c then Some s else None)"

lemma drop_space_cases:
  assumes "drop_space s = Some r"
  obtains a where "s = a # r" "is_space1 a"
  | a b where "s = a # b # r" "is_space2 a b"
  | a b c where "s = a # b # c # r" "is_space3 a b c"
  using assms by (cases s) (auto split: if_splits list.splits)

lemma drop_space_rev_cases:
  assumes "drop_space_rev s = Some r"
  obtains a where "s = a # r" "is_space1 a"
  | a b where "s = b # a # r" "is_space2 a b"
  | a b c where "s = c # b # a # r" "is_space3 a b c"
  using assms by (cases s) (auto split: if_splits list.splits)

lemma is_space3_bounds:
  assumes "is_space3 a b c"
  shows "225 \<le> byte a" "byte a \<le> 227" "utf8_cont b" "utf8_cont c"
  using assms unfolding is_space3_def utf8_cont_def
  by (elim disjE conjE; simp)+

lemma is_space2_bounds: "is_space2 a b \<Longrightarrow> byte a = 194 \<and> utf8_cont b"
  by (auto simp: is_space2_def utf8_cont_def)

lemma is_space1_bounds: "is_space1 a \<Longrightarrow> byte a < 33"
  by (auto simp: is_space1_def)

lemma drop_space_length: "drop_space s = Some r \<Longrightarrow> length r < length s"
  by (cases s) (auto split: if_splits list.splits)

lemma drop_space_rev_length: "drop_space_rev s = Some r \<Longrightarrow> length r < length s"
  by (cases s) (auto split: if_splits list.splits)

function trim_start :: "string \<Rightarrow> string" where
  "trim_start s = (case drop_space s of None \<Rightarrow> s | Some r \<Rightarrow> trim_start r)"
  by pat_completeness auto
termination
  by (relation "measure length") (auto dest: drop_space_length)

function trim_end_rev :: "string \<Rightarrow> string" where
  "trim_end_rev s = (case drop_space_rev s of None \<Rightarrow> s | Some r \<Rightarrow> trim_end_rev r)"
  by pat_completeness auto
termination
  by (relation "measure length") (auto dest: drop_space_rev_length)

declare trim_start.simps [simp del] trim_end_rev.simps [simp del]

definition trim_end :: "string \<Rightarrow> string" where
  "trim_end s = rev (trim_end_rev (rev s))"

definition trim :: "string \<Rightarrow> string" where
  "trim s = trim_end (trim_start s)"

lemma drop_space_trim_start: "drop_space (trim_start s) = None"
  by (induction s rule: trim_start.induct) (subst trim_start.simps, auto split: option.splits)

lemma trim_start_id: "drop_space s = None \<Longrightarrow> trim_start s = s"
  by (subst trim_start.simps) simp

lemma drop_space_trim_end_rev: "drop_space_rev (trim_end_rev s) = None"
  by (induction s rule: trim_end_rev.induct) (subst trim_end_rev.simps, auto split: option.splits)

lemma trim_end_rev_id: "drop_space_rev s = None \<Longrightarrow> trim_end_rev s = s"
  by (subst trim_end_rev.simps) simp

lemma drop_space_rev_suffix: "drop_space_rev s = Some r \<Longrightarrow> \<exists>p. s = p @ r"
  by (cases s) (force split: if_splits list.splits)+

lemma trim_end_rev_suffix: "\<exists>p. s = p @ trim_end_rev s"
proof (induction s rule: trim_end_rev.induct)
  case (1 s)
  show ?case
  proof (cases "drop_space_rev s")
    case None
    then show ?thesis by (simp add: trim_end_rev_id)
  next
    case (Some r)
    then obtain p where "s = p @ r" using drop_space_rev_suffix by blast
    moreover obtain q where "r = q @ trim_end_rev r" using "1.IH" Some by blast
    moreover have "trim_end_rev s = trim_end_rev r"
      by (subst trim_end_rev.simps) (simp add: Some)
    ultimately show ?thesis by (metis append.assoc)
  qed
qed

lemma trim_end_prefix: "\<exists>q. s = trim_end s @ q"
proof -
  obtain p where "rev s = p @ trim_end_rev (rev s)" using trim_end_rev_suffix by blast
  then have "s = rev (trim_end_rev (rev s)) @ rev p" by (metis rev_append rev_rev_ident)
  then show ?thesis by (auto simp: trim_end_def)
qed

lemma drop_space_append: "drop_space p = Some r \<Longrightarrow> drop_space (p @ q) = Some (r @ q)"
  by (cases p) (auto split: if_splits list.splits)

lemma trim_idem [simp]: "trim (trim s) = trim s"
proof -
  let ?t = "trim_start s"
  obtain q where q: "?t = trim_end ?t @ q" using trim_end_prefix by blast
  have "drop_space (trim_end ?t) = None"
  proof (rule ccontr)
    assume "drop_space (trim_end ?t) \<noteq> None"
    then obtain r where "drop_space (trim_end ?t) = Some r" by blast
    then have "drop_space ?t = Some (r @ q)" using q drop_space_append by metis
    then show False by (simp add: drop_space_trim_start)
  qed
  then have "trim_start (trim_end ?t) = trim_end ?t" by (rule trim_start_id)
  moreover have "trim_end (trim_end ?t) = trim_end ?t"
    by (simp add: trim_end_def trim_end_rev_id drop_space_trim_end_rev)
  ultimately show ?thesis by (simp add: trim_def)
qed

lemma trim_Nil [simp]: "trim [] = []"
  by (simp add: trim_def trim_start_id trim_end_def trim_end_rev_id)

text \<open>A string whose first and last bytes are printable ASCII is its own trimming.\<close>

lemma trim_id:
  assumes "drop_space s = None" and "drop_space_rev (rev s) = None"
  shows "trim s = s"
  using assms by (simp add: trim_def trim_start_id trim_end_def trim_end_rev_id)

lemma drop_space_graphic: "33 \<le> byte a \<Longrightarrow> byte a < 128 \<Longrightarrow> drop_space (a # s) = None"
  by (auto simp: is_space1_def is_space2_def is_space3_def split: list.splits)

lemma drop_space_rev_graphic: "33 \<le> byte a \<Longrightarrow> byte a < 128 \<Longrightarrow> drop_space_rev (a # s) = None"
  by (auto simp: is_space1_def is_space2_def is_space3_def split: list.splits)

subsection \<open>Slicing and splitting\<close>

text \<open>
  \<open>str::get(a..b)\<close> is \<open>None\<close> when the range leaves the string or an end falls inside a
  multi-byte character.
\<close>

definition char_boundary :: "string \<Rightarrow> nat \<Rightarrow> bool" where
  "char_boundary s i \<longleftrightarrow> i = 0 \<or> i = length s \<or> (i < length s \<and> \<not> utf8_cont (s ! i))"

definition str_get :: "string \<Rightarrow> nat \<Rightarrow> nat \<Rightarrow> string option" where
  "str_get s a b =
     (if a \<le> b \<and> b \<le> length s \<and> char_boundary s a \<and> char_boundary s b
      then Some (take (b - a) (drop a s)) else None)"

text \<open>\<open>str::get(a..)\<close>.\<close>

definition str_from :: "string \<Rightarrow> nat \<Rightarrow> string option" where
  "str_from s a = str_get s a (length s)"

fun strip_prefix :: "string \<Rightarrow> string \<Rightarrow> string option" where
  "strip_prefix [] s = Some s"
| "strip_prefix (p # ps) [] = None"
| "strip_prefix (p # ps) (c # s) = (if p = c then strip_prefix ps s else None)"

lemma strip_prefix_iff: "strip_prefix p s = Some r \<longleftrightarrow> s = p @ r"
  by (induction p s rule: strip_prefix.induct) auto

lemma strip_prefix_append [simp]: "strip_prefix p (p @ r) = Some r"
  by (simp add: strip_prefix_iff)

text \<open>\<open>str::split_once\<close> at the first occurrence of an ASCII character.\<close>

fun split_once :: "char \<Rightarrow> string \<Rightarrow> (string \<times> string) option" where
  "split_once c [] = None"
| "split_once c (x # s) =
     (if x = c then Some ([], s)
      else case split_once c s of None \<Rightarrow> None | Some (a, b) \<Rightarrow> Some (x # a, b))"

lemma split_once_append: "c \<notin> set a \<Longrightarrow> split_once c (a @ c # b) = Some (a, b)"
  by (induction a) auto

text \<open>\<open>str::split\<close> on an ASCII character: always at least one part.\<close>

fun split_on :: "char \<Rightarrow> string \<Rightarrow> string list" where
  "split_on c [] = [[]]"
| "split_on c (x # s) =
     (if x = c then [] # split_on c s
      else case split_on c s of [] \<Rightarrow> [[x]] | p # ps \<Rightarrow> (x # p) # ps)"

lemma split_on_not_Nil [simp]: "split_on c s \<noteq> []"
  by (cases s) (auto split: list.splits)

lemma split_on_free: "c \<notin> set a \<Longrightarrow> split_on c a = [a]"
  by (induction a) auto

lemma split_on_append: "c \<notin> set a \<Longrightarrow> split_on c (a @ c # b) = a # split_on c b"
  by (induction a) auto

lemma ascii_not_cont: "byte c < 128 \<Longrightarrow> \<not> utf8_cont c"
  by (simp add: utf8_cont_def)

lemma str_get_append:
  assumes "\<not> utf8_cont (hd (b @ [CHR ''0'']))" and "\<not> utf8_cont (hd (r @ [CHR ''0'']))"
  shows "str_get (a @ b @ r) (length a) (length a + length b) = Some b"
  using assms by (cases b; cases r) (auto simp: str_get_def char_boundary_def nth_append)

text \<open>\<open>Option::filter\<close> after \<open>map(str::trim)\<close>: the reading of an optional text field.\<close>

definition normalize_optional :: "string option \<Rightarrow> string option" where
  "normalize_optional v =
     (case v of None \<Rightarrow> None | Some s \<Rightarrow> if trim s = [] then None else Some (trim s))"

definition normalize_required :: "string \<Rightarrow> string \<Rightarrow> string domain_result" where
  "normalize_required v field = (if trim v = [] then Inl (EmptyValue field) else Inr (trim v))"

lemma normalize_required_Inr:
  "normalize_required v f = Inr t \<Longrightarrow> t = trim v \<and> t \<noteq> [] \<and> trim t = t"
  by (auto simp: normalize_required_def split: if_splits)

lemma normalize_optional_Some:
  "normalize_optional v = Some t \<Longrightarrow> t \<noteq> [] \<and> trim t = t"
  by (auto simp: normalize_optional_def split: option.splits if_splits)

end
