(* ===== verification/Numerals.thy ===== *)
theory Numerals
  imports Prelude
begin

text \<open>
  Decimal text. \<open>str::parse\<close> for the integer types accepts an optional sign and at least
  one digit and fails outside the type's range; \<open>format!\<close> with a \<open>{:0w}\<close> directive pads
  with zeros after the sign. The lemmas are the round trip between the two and the fact that
  fixed-width decimals sort like the numbers they write. Checked slicing, \<open>strip_prefix\<close> and
  \<open>split_once\<close> of \<open>str\<close> are here too.
\<close>

subsection \<open>Digits\<close>

definition is_digit :: "char \<Rightarrow> bool" where
  "is_digit c \<longleftrightarrow> 48 \<le> byte c \<and> byte c \<le> 57"

definition digit_val :: "char \<Rightarrow> nat" where
  "digit_val c = byte c - 48"

definition digit_char :: "nat \<Rightarrow> char" where
  "digit_char d = char_of (48 + d)"

lemma digit_char [simp]:
  assumes "d < 10"
  shows "is_digit (digit_char d)" and "digit_val (digit_char d) = d"
    and "byte (digit_char d) = 48 + d"
  using assms by (simp_all add: is_digit_def digit_val_def digit_char_def)

lemma digit_val_less [simp]: "is_digit c \<Longrightarrow> digit_val c < 10"
  by (auto simp: is_digit_def digit_val_def)

lemma digit_char_val [simp]: "is_digit c \<Longrightarrow> digit_char (digit_val c) = c"
  by (simp add: is_digit_def digit_val_def digit_char_def)

definition digits_value :: "string \<Rightarrow> nat" where
  "digits_value s = foldl (\<lambda>n c. 10 * n + digit_val c) 0 s"

lemma digits_value_Nil [simp]: "digits_value [] = 0"
  by (simp add: digits_value_def)

lemma digits_value_snoc [simp]: "digits_value (s @ [c]) = 10 * digits_value s + digit_val c"
  by (simp add: digits_value_def)

lemma digits_value_zeros: "digits_value (replicate k CHR ''0'' @ s) = digits_value s"
  by (induction k) (simp_all add: digits_value_def digit_val_def byte_def)

lemma digits_value_bound: "list_all is_digit s \<Longrightarrow> digits_value s < 10 ^ length s"
proof (induction s rule: rev_induct)
  case Nil
  then show ?case by simp
next
  case (snoc c s)
  then have "digits_value s < 10 ^ length s" and "digit_val c < 10" by auto
  then show ?case by simp
qed

subsection \<open>Parsing and printing\<close>

definition parse_nat :: "string \<Rightarrow> nat option" where
  "parse_nat s = (if s \<noteq> [] \<and> list_all is_digit s then Some (digits_value s) else None)"

text \<open>\<open>parse::<T>()\<close> for a signed \<open>T\<close> whose values are \<open>lo .. hi\<close>.\<close>

definition parse_int :: "int \<Rightarrow> int \<Rightarrow> string \<Rightarrow> int option" where
  "parse_int lo hi s =
     (let v = (case s of [] \<Rightarrow> None
               | c # r \<Rightarrow> if c = CHR ''-'' then map_option (\<lambda>n. - int n) (parse_nat r)
                         else if c = CHR ''+'' then map_option int (parse_nat r)
                         else map_option int (parse_nat s))
      in case v of None \<Rightarrow> None | Some n \<Rightarrow> if lo \<le> n \<and> n \<le> hi then Some n else None)"

fun dec :: "nat \<Rightarrow> string" where
  "dec n = (if n < 10 then [digit_char n] else dec (n div 10) @ [digit_char (n mod 10)])"

declare dec.simps [simp del]

definition pad0 :: "nat \<Rightarrow> string \<Rightarrow> string" where
  "pad0 w s = replicate (w - length s) CHR ''0'' @ s"

text \<open>\<open>format!("{:0w}", i)\<close> for an integer \<open>i\<close>.\<close>

definition fmt_int :: "nat \<Rightarrow> int \<Rightarrow> string" where
  "fmt_int w i = (if i < 0 then CHR ''-'' # pad0 (w - 1) (dec (nat (- i))) else pad0 w (dec (nat i)))"

lemma dec_digits [simp]: "list_all is_digit (dec n)"
  by (induction n rule: dec.induct) (subst dec.simps, simp)

lemma dec_not_Nil [simp]: "dec n \<noteq> []"
  by (subst dec.simps) simp

lemma digits_value_dec [simp]: "digits_value (dec n) = n"
proof (induction n rule: dec.induct)
  case (1 n)
  show ?case
  proof (cases "n < 10")
    case True
    then show ?thesis using digits_value_snoc [of "[]"] by (subst dec.simps) simp
  next
    case False
    with 1 show ?thesis by (subst dec.simps) simp
  qed
qed

lemma dec_length: "n < 10 ^ w \<Longrightarrow> 0 < w \<Longrightarrow> length (dec n) \<le> w"
proof (induction n arbitrary: w rule: dec.induct)
  case (1 n)
  show ?case
  proof (cases "n < 10")
    case True
    with 1 show ?thesis by (subst dec.simps) simp
  next
    case False
    with "1.prems" obtain v where w: "w = Suc v" "0 < v"
      by (cases w) (auto intro: Suc_lessI split: nat.splits, metis gr0I less_one mult.right_neutral
        power_0)
    with "1.prems" have "n div 10 < 10 ^ v" by simp
    then have "length (dec (n div 10)) \<le> v" using "1.IH" False w by simp
    with False w show ?thesis by (subst dec.simps) simp
  qed
qed

lemma digit_zero [simp]: "is_digit CHR ''0''"
  by (simp add: is_digit_def byte_def)

lemma pad0_digits [simp]: "list_all is_digit s \<Longrightarrow> list_all is_digit (pad0 w s)"
  by (simp add: pad0_def list_all_length)
     (metis digit_zero diff_add_inverse length_replicate nth_append nth_replicate
        add_diff_inverse_nat nat_add_left_cancel_less)

lemma pad0_value [simp]: "digits_value (pad0 w s) = digits_value s"
  by (simp add: pad0_def digits_value_zeros)

lemma pad0_length: "length s \<le> w \<Longrightarrow> length (pad0 w s) = w"
  by (simp add: pad0_def)

lemma pad0_not_Nil [simp]: "s \<noteq> [] \<Longrightarrow> pad0 w s \<noteq> []"
  by (simp add: pad0_def)

lemma parse_nat_pad0 [simp]: "parse_nat (pad0 w (dec n)) = Some n"
  by (simp add: parse_nat_def)

lemma parse_nat_dec [simp]: "parse_nat (dec n) = Some n"
  by (simp add: parse_nat_def)

lemma digits_not_sign: "list_all is_digit (c # s) \<Longrightarrow> c \<noteq> CHR ''-'' \<and> c \<noteq> CHR ''+''"
  by (auto simp: is_digit_def byte_def)

lemma parse_int_digits:
  assumes "list_all is_digit s" and "s \<noteq> []" and "lo \<le> int (digits_value s)"
    and "int (digits_value s) \<le> hi"
  shows "parse_int lo hi s = Some (int (digits_value s))"
  using assms digits_not_sign
  by (cases s) (auto simp: parse_int_def parse_nat_def Let_def)

lemma parse_int_fmt_int:
  assumes "lo \<le> i" and "i \<le> hi"
  shows "parse_int lo hi (fmt_int w i) = Some i"
proof (cases "i < 0")
  case True
  with assms show ?thesis by (simp add: parse_int_def fmt_int_def)
next
  case False
  with assms show ?thesis by (simp add: parse_int_digits fmt_int_def)
qed

lemma parse_int_range: "parse_int lo hi s = Some i \<Longrightarrow> lo \<le> i \<and> i \<le> hi"
  by (auto simp: parse_int_def Let_def split: option.splits if_splits)

subsection \<open>Fixed width sorts like the number\<close>

lemma less_snoc_iff:
  fixes xs ys :: "'a::linorder list"
  shows "length xs = length ys \<Longrightarrow> xs @ [a] < ys @ [b] \<longleftrightarrow> xs < ys \<or> xs = ys \<and> a < b"
  by (induction xs ys rule: list_induct2) auto

lemma less_append_iff:
  fixes xs ys :: "'a::linorder list"
  shows "length xs = length ys \<Longrightarrow> xs @ us < ys @ vs \<longleftrightarrow> xs < ys \<or> xs = ys \<and> us < vs"
  by (induction xs ys rule: list_induct2) auto

lemma digits_value_inject:
  "length s = length t \<Longrightarrow> list_all is_digit s \<Longrightarrow> list_all is_digit t
     \<Longrightarrow> digits_value s = digits_value t \<Longrightarrow> s = t"
proof (induction s arbitrary: t rule: rev_induct)
  case Nil
  then show ?case by simp
next
  case (snoc a s)
  then obtain u b where t: "t = u @ [b]" "length s = length u" "list_all is_digit u" "is_digit b"
    by (cases t rule: rev_cases) auto
  have lt: "digit_val a < 10" "digit_val b < 10" using snoc.prems t by auto
  have eq: "10 * digits_value s + digit_val a = 10 * digits_value u + digit_val b"
    using snoc.prems t by simp
  from lt eq have "digits_value s = digits_value u" "digit_val a = digit_val b" by presburger+
  moreover have "is_digit a" using snoc.prems by simp
  ultimately show ?case using snoc t by (metis digit_char_val list_all_append)
qed

lemma digits_less_mono:
  "length s = length t \<Longrightarrow> list_all is_digit s \<Longrightarrow> list_all is_digit t
     \<Longrightarrow> s < t \<Longrightarrow> digits_value s < digits_value t"
proof (induction s arbitrary: t rule: rev_induct)
  case Nil
  then show ?case by simp
next
  case (snoc a s)
  then obtain u b where t: "t = u @ [b]" "length s = length u" "list_all is_digit u" "is_digit b"
    by (cases t rule: rev_cases) auto
  have lt: "digit_val a < 10" "digit_val b < 10" using snoc.prems t by auto
  consider "s < u" | "s = u" "a < b"
    using snoc.prems t by (auto simp: less_snoc_iff)
  then show ?case
  proof cases
    case 1
    then have "digits_value s < digits_value u" using snoc t by auto
    with lt t show ?thesis by simp
  next
    case 2
    moreover have "is_digit a" using snoc.prems by simp
    ultimately show ?thesis
      using t by (auto simp: byte_less_iff digit_val_def is_digit_def)
  qed
qed

lemma digits_less_iff:
  assumes "length s = length t" and "list_all is_digit s" and "list_all is_digit t"
  shows "s < t \<longleftrightarrow> digits_value s < digits_value t"
  using assms digits_less_mono [of s t] digits_less_mono [of t s] digits_value_inject [of s t]
  by (metis less_asym less_irrefl not_less_iff_gr_or_eq)

lemma fmt_int_less_iff:
  assumes "0 \<le> i" and "0 \<le> j" and "i < 10 ^ w" and "j < 10 ^ w" and "0 < w"
  shows "fmt_int w i < fmt_int w j \<longleftrightarrow> i < j"
proof -
  have "nat i < 10 ^ w" "nat j < 10 ^ w"
    using assms by (auto simp: nat_less_iff)
  then have "length (fmt_int w i) = w" "length (fmt_int w j) = w"
    using assms by (simp_all add: fmt_int_def pad0_length dec_length)
  then show ?thesis
    using assms digits_less_iff [of "fmt_int w i" "fmt_int w j"]
    by (auto simp: fmt_int_def)
qed

lemma fmt_int_length:
  assumes "0 \<le> i" and "i < 10 ^ w" and "0 < w"
  shows "length (fmt_int w i) = w"
proof -
  have "nat i < 10 ^ w" using assms by (auto simp: nat_less_iff)
  then show ?thesis using assms by (simp add: fmt_int_def pad0_length dec_length)
qed

lemma fmt_int_inject: "fmt_int w i = fmt_int w j \<longleftrightarrow> i = j"
proof
  assume "fmt_int w i = fmt_int w j"
  then have "parse_int (min i j) (max i j) (fmt_int w i) = parse_int (min i j) (max i j) (fmt_int w j)"
    by simp
  then show "i = j" by (simp add: parse_int_fmt_int)
qed simp

end
