(* ===== verification/Instants.thy ===== *)
theory Instants
  imports Numerals
begin

text \<open>
  The canonical time axis (\<open>model/temporal_memory/axis_key.rs\<close>). An instant is stored either as
  \<open>unix:<offset seconds>:<nanos>\<close>, whose byte order is chronological, or as RFC 3339; both are
  read as nanoseconds. The arithmetic is \<open>i64\<close> and \<open>i128\<close> arithmetic of a release build, which
  wraps; the wrap is written out where an input can reach it, and only there: everywhere else
  the operands are bounded by the text they were parsed from.
\<close>

subsection \<open>Integer arithmetic\<close>

definition wrap :: "nat \<Rightarrow> int \<Rightarrow> int" where
  "wrap n x = (x + 2 ^ (n - 1)) mod 2 ^ n - 2 ^ (n - 1)"

abbreviation wrap128 :: "int \<Rightarrow> int" where "wrap128 \<equiv> wrap 128"
abbreviation wrap64 :: "int \<Rightarrow> int" where "wrap64 \<equiv> wrap 64"

lemma wrap128_id: "- (2 ^ 127) \<le> x \<Longrightarrow> x < 2 ^ 127 \<Longrightarrow> wrap128 x = x"
  by (simp add: wrap_def)

lemma wrap64_id: "- (2 ^ 63) \<le> x \<Longrightarrow> x < 2 ^ 63 \<Longrightarrow> wrap64 x = x"
  by (simp add: wrap_def)

text \<open>Rust's \<open>/\<close> on signed integers truncates towards zero; every divisor here is positive.\<close>

definition tdiv :: "int \<Rightarrow> int \<Rightarrow> int" where
  "tdiv a b = (if a < 0 then - ((- a) div b) else a div b)"

lemma tdiv_nonneg [simp]: "0 \<le> a \<Longrightarrow> tdiv a b = a div b"
  by (simp add: tdiv_def)

lemma tdiv_floor:
  assumes "0 < b"
  shows "tdiv (if 0 \<le> a then a else a - (b - 1)) b = a div b"
proof (cases "0 \<le> a")
  case False
  have "b - 1 - a = b * (- (a div b)) + (b - 1 - a mod b)"
    by (simp add: minus_mult_div_eq_mod algebra_simps)
  moreover have "0 \<le> b - 1 - a mod b" "b - 1 - a mod b < b"
    using assms pos_mod_bound [of b a] pos_mod_sign [of b a] by linarith+
  ultimately have "(b - 1 - a) div b = - (a div b)" by (rule int_div_pos_eq)
  with False assms show ?thesis by (simp add: tdiv_def)
qed simp

subsection \<open>The civil calendar\<close>

text \<open>Proleptic Gregorian day counts, after Howard Hinnant.\<close>

definition days_from_civil :: "int \<Rightarrow> int \<Rightarrow> int \<Rightarrow> int" where
  "days_from_civil year month day =
     (let year = (if month \<le> 2 then year - 1 else year);
          era = tdiv (if year \<ge> 0 then year else year - 399) 400;
          year_of_era = year - era * 400;
          day_of_year = tdiv (153 * (if month > 2 then month - 3 else month + 9) + 2) 5 + day - 1;
          day_of_era = year_of_era * 365 + tdiv year_of_era 4 - tdiv year_of_era 100 + day_of_year
      in era * 146097 + day_of_era - 719468)"

definition u32_or_1 :: "int \<Rightarrow> int" where
  "u32_or_1 x = (if 0 \<le> x \<and> x < 2 ^ 32 then x else 1)"

definition civil_from_days :: "int \<Rightarrow> int \<times> int \<times> int" where
  "civil_from_days days =
     (let z = wrap64 (days + 719468);
          era = tdiv (if z \<ge> 0 then z else wrap64 (z - 146096)) 146097;
          day_of_era = z - era * 146097;
          year_of_era = tdiv (day_of_era - tdiv day_of_era 1460 + tdiv day_of_era 36524
                              - tdiv day_of_era 146096) 365;
          year = year_of_era + era * 400;
          day_of_year = day_of_era - (365 * year_of_era + tdiv year_of_era 4 - tdiv year_of_era 100);
          shifted_month = tdiv (5 * day_of_year + 2) 153;
          day = day_of_year - tdiv (153 * shifted_month + 2) 5 + 1;
          month = (if shifted_month < 10 then shifted_month + 3 else shifted_month - 9);
          year = (if month \<le> 2 then year + 1 else year)
      in (year, u32_or_1 month, u32_or_1 day))"

text \<open>First day of a year of the era, the years starting in March.\<close>

definition year_start :: "int \<Rightarrow> int" where
  "year_start y = 365 * y + y div 4 - y div 100 + y div 400"

definition year_guess :: "int \<Rightarrow> int" where
  "year_guess n = n - n div 1460 + n div 36524 - n div 146096"

lemma year_guess_ends:
  "list_all (\<lambda>y. 365 * y \<le> year_guess (year_start y)
      \<and> year_guess (year_start (y + 1) - 1) < 365 * (y + 1)
      \<and> 0 \<le> year_start y \<and> year_start (y + 1) \<le> 146097) [0..399]"
  by code_simp

lemma div_step:
  assumes "(a::int) \<le> b"
  shows "a - a div 1460 \<le> b - b div 1460"
proof -
  have "b div 1460 \<le> (a + (b - a) * 1460) div 1460" using assms by (intro zdiv_mono1) simp_all
  also have "\<dots> = a div 1460 + (b - a)" by simp
  finally show ?thesis by simp
qed

lemma year_guess_mono:
  assumes "0 \<le> a" and "a \<le> b" and "b < 146097"
  shows "year_guess a \<le> year_guess b"
proof (cases "b = 146096")
  case True
  have "a div 36524 \<le> b div 36524" using assms by (simp add: zdiv_mono1)
  show ?thesis
  proof (cases "a = b")
    case False
    then have "a \<le> 146095" using True assms by simp
    then have "a - a div 1460 \<le> 146095 - 146095 div 1460" "a div 36524 \<le> 146095 div 36524"
      "0 \<le> a div 146096"
      using assms div_step [of a 146095] by (simp_all add: zdiv_mono1 pos_imp_zdiv_nonneg_iff)
    then show ?thesis using True by (simp add: year_guess_def)
  qed simp
next
  case False
  then have "a div 146096 = 0" "b div 146096 = 0" using assms by simp_all
  moreover have "a div 36524 \<le> b div 36524" using assms by (simp add: zdiv_mono1)
  ultimately show ?thesis using div_step assms by (fastforce simp: year_guess_def)
qed

lemma year_of_day:
  assumes "0 \<le> y" and "y < 400" and "year_start y \<le> n" and "n < year_start (y + 1)"
  shows "year_guess n div 365 = y"
proof -
  have "y \<in> set [0..399]" using assms by simp
  then have ends: "365 * y \<le> year_guess (year_start y)"
    "year_guess (year_start (y + 1) - 1) < 365 * (y + 1)"
    "0 \<le> year_start y" "year_start (y + 1) \<le> 146097"
    using year_guess_ends by (auto simp: list_all_iff simp del: set_upto)
  have "year_guess (year_start y) \<le> year_guess n" "year_guess n \<le> year_guess (year_start (y + 1) - 1)"
    using assms ends by (simp_all add: year_guess_mono)
  then have "year_guess n = 365 * y + (year_guess n - 365 * y)" "0 \<le> year_guess n - 365 * y"
    "year_guess n - 365 * y < 365"
    using ends by simp_all
  then show ?thesis by (rule int_div_pos_eq)
qed

lemma year_of_day_ex:
  assumes "0 \<le> n" and "n < year_start (int k)"
  shows "\<exists>y. 0 \<le> y \<and> y < int k \<and> year_start y \<le> n \<and> n < year_start (y + 1)"
  using assms
proof (induction k)
  case 0
  then show ?case by (simp add: year_start_def)
next
  case (Suc k)
  show ?case
  proof (cases "n < year_start (int k)")
    case True
    then show ?thesis using Suc by force
  next
    case False
    then show ?thesis using Suc.prems by (intro exI [of _ "int k"]) (simp add: add.commute)
  qed
qed

text \<open>The calendar itself, against which the two conversions are judged.\<close>

definition leap :: "int \<Rightarrow> bool" where
  "leap y \<longleftrightarrow> y mod 4 = 0 \<and> (y mod 100 \<noteq> 0 \<or> y mod 400 = 0)"

definition month_length :: "int \<Rightarrow> int \<Rightarrow> int" where
  "month_length y m =
     (if m = 2 then (if leap y then 29 else 28) else if m \<in> {4, 6, 9, 11} then 30 else 31)"

definition valid_date :: "int \<Rightarrow> int \<Rightarrow> int \<Rightarrow> bool" where
  "valid_date y m d \<longleftrightarrow> 1 \<le> m \<and> m \<le> 12 \<and> 1 \<le> d \<and> d \<le> month_length y m"

text \<open>Months counted from March, and the day of the year one starts on.\<close>

definition month_start :: "int \<Rightarrow> int" where
  "month_start mp = (153 * mp + 2) div 5"

definition march_month :: "int \<Rightarrow> int" where
  "march_month m = (if m > 2 then m - 3 else m + 9)"

definition civil_month :: "int \<Rightarrow> int" where
  "civil_month mp = (if mp < 10 then mp + 3 else mp - 9)"

lemma month_of_day:
  "list_all (\<lambda>doy. let mp = (5 * doy + 2) div 153; d = doy - month_start mp + 1; m = civil_month mp in
      0 \<le> mp \<and> mp \<le> 11 \<and> march_month m = mp \<and> 1 \<le> m \<and> m \<le> 12 \<and> 1 \<le> d
      \<and> d \<le> month_length 2000 m \<and> (m = 2 \<and> d = 29 \<longrightarrow> doy = 365)) [0..365]"
  by code_simp

lemma day_of_month:
  "list_all (\<lambda>m. list_all (\<lambda>d. let mp = march_month m; doy = month_start mp + d - 1 in
      (5 * doy + 2) div 153 = mp \<and> civil_month mp = m \<and> 0 \<le> doy
      \<and> (if m = 2 \<and> d = 29 then doy = 365 else doy \<le> 364)) [1..month_length 2000 m]) [1..12]"
  by code_simp

lemma year_length:
  "list_all (\<lambda>y. year_start (y + 1) - year_start y = (if leap (y + 1) then 366 else 365)) [0..399]"
  by code_simp

lemma month_length_le: "month_length y m \<le> month_length 2000 m"
  by (simp add: month_length_def leap_def)

lemma leap_era: "leap (y + era * 400) \<longleftrightarrow> leap y"
proof -
  have "(y + era * 100 * 4) mod 4 = y mod 4" "(y + era * 4 * 100) mod 100 = y mod 100"
    by (simp_all only: mod_mult_self1)
  then have "(y + era * 400) mod 4 = y mod 4" "(y + era * 400) mod 100 = y mod 100"
    by (simp_all add: mult.assoc)
  then show ?thesis by (simp add: leap_def)
qed

lemma year_start_span:
  assumes "0 \<le> y" and "y < 400"
  shows "year_start (y + 1) - year_start y = (if leap (y + 1) then 366 else 365)"
    and "0 \<le> year_start y" and "year_start (y + 1) \<le> 146097"
proof -
  have "y \<in> set [0..399]" using assms by simp
  then show "year_start (y + 1) - year_start y = (if leap (y + 1) then 366 else 365)"
    "0 \<le> year_start y" "year_start (y + 1) \<le> 146097"
    using year_length year_guess_ends by (auto simp: list_all_iff simp del: set_upto)
qed

text \<open>Both conversions over the pair of an era and a day of that era.\<close>

lemma civil_from_days_era:
  assumes "- (2 ^ 62) \<le> days" and "days \<le> 2 ^ 62"
    and days: "days = era * 146097 + doe - 719468" and "0 \<le> doe" and "doe < 146097"
    and yoe: "yoe = year_guess doe div 365" "0 \<le> yoe" "yoe < 400"
    and doy: "doy = doe - year_start yoe" "0 \<le> doy"
    and mp: "mp = (5 * doy + 2) div 153" "0 \<le> mp" "mp \<le> 11"
    and day: "day = doy - month_start mp + 1" "1 \<le> day" "day < 2 ^ 32"
  shows "civil_from_days days =
    (yoe + era * 400 + (if civil_month mp \<le> 2 then 1 else 0), civil_month mp, day)"
proof -
  have z: "wrap64 (days + 719468) = era * 146097 + doe"
    using assms(1,2) days by (subst wrap64_id) simp_all
  have era: "tdiv (if era * 146097 + doe \<ge> 0 then era * 146097 + doe
      else wrap64 (era * 146097 + doe - 146096)) 146097 = era"
  proof -
    have "wrap64 (era * 146097 + doe - 146096) = era * 146097 + doe - 146096"
      using assms(1,2) days by (intro wrap64_id) simp_all
    moreover have "(era * 146097 + doe) div 146097 = era" using assms(4,5) by simp
    ultimately show ?thesis
      using tdiv_floor [of 146097 "era * 146097 + doe"] by (simp split: if_splits)
  qed
  have guess: "tdiv (doe - tdiv doe 1460 + tdiv doe 36524 - tdiv doe 146096) 365 = yoe"
  proof -
    have "0 \<le> year_guess doe"
      using yoe(1,2) by (simp add: pos_imp_zdiv_nonneg_iff)
    with assms(4) yoe(1) show ?thesis by (simp add: year_guess_def)
  qed
  have y400: "yoe div 400 = 0" using yoe by simp
  have doy': "doe - (365 * yoe + tdiv yoe 4 - tdiv yoe 100) = doy"
    using yoe doy y400 by (simp add: year_start_def)
  have mp': "tdiv (5 * doy + 2) 153 = mp" using mp doy by simp
  have day': "doy - tdiv (153 * mp + 2) 5 + 1 = day" using mp day by (simp add: month_start_def)
  have "u32_or_1 day = day" "u32_or_1 (civil_month mp) = civil_month mp"
    using day mp by (simp_all add: u32_or_1_def civil_month_def)
  then show ?thesis
    unfolding civil_from_days_def Let_def
    by (simp add: z era guess doy' mp' day' civil_month_def [symmetric] cong: if_cong)
qed

lemma days_from_civil_era:
  assumes "0 \<le> yoe" and "yoe < 400" and m: "1 \<le> m" "m \<le> 12"
    and y: "y = yoe + era * 400 + (if m \<le> 2 then 1 else 0)"
  shows "days_from_civil y m d =
    era * 146097 + year_start yoe + month_start (march_month m) + d - 1 - 719468"
proof -
  have e: "tdiv (if yoe + era * 400 \<ge> 0 then yoe + era * 400 else yoe + era * 400 - 399) 400 = era"
    using tdiv_floor [of 400 "yoe + era * 400"] assms(1,2) by (simp split: if_splits)
  have y': "(if m \<le> 2 then y - 1 else y) = yoe + era * 400" using y by simp
  have "0 \<le> march_month m" using m by (simp add: march_month_def)
  then have "tdiv (153 * march_month m + 2) 5 = month_start (march_month m)"
    by (simp add: month_start_def)
  moreover have "yoe div 400 = 0" using assms by simp
  ultimately show ?thesis
    unfolding days_from_civil_def Let_def y' e march_month_def [symmetric]
    using assms(1) by (simp add: year_start_def)
qed

lemma days_civil_days:
  assumes "- (2 ^ 62) \<le> days" and "days \<le> 2 ^ 62" and civil: "civil_from_days days = (y, m, d)"
  shows "days_from_civil y m d = days \<and> valid_date y m d"
proof -
  define era doe where "era = (days + 719468) div 146097" and "doe = (days + 719468) mod 146097"
  have days: "days = era * 146097 + doe - 719468" and doe: "0 \<le> doe" "doe < 146097"
    by (simp_all add: era_def doe_def)
  have "year_start (int 400) = 146097" by (simp add: year_start_def)
  then obtain yoe where yoe: "0 \<le> yoe" "yoe < 400" "year_start yoe \<le> doe" "doe < year_start (yoe + 1)"
    using year_of_day_ex [of doe 400] doe by auto
  have guess: "year_guess doe div 365 = yoe" using year_of_day yoe by blast
  define doy where "doy = doe - year_start yoe"
  have span: "year_start (yoe + 1) - year_start yoe = (if leap (yoe + 1) then 366 else 365)"
    using year_start_span yoe by blast
  have doy: "0 \<le> doy" "doy \<le> 365" "doy = 365 \<longrightarrow> leap (yoe + 1)"
    using yoe span by (auto simp: doy_def split: if_splits)
  define mp where "mp = (5 * doy + 2) div 153"
  define day where "day = doy - month_start mp + 1"
  define mo where "mo = civil_month mp"
  have "doy \<in> set [0..365]" using doy by simp
  then have month: "0 \<le> mp" "mp \<le> 11" "march_month mo = mp" "1 \<le> mo" "mo \<le> 12" "1 \<le> day"
    "day \<le> month_length 2000 mo" "mo = 2 \<and> day = 29 \<longrightarrow> doy = 365"
    using month_of_day
    by (auto simp: list_all_iff Let_def mp_def day_def mo_def simp del: set_upto)
  have "day < 2 ^ 32" using month(7) by (auto simp: month_length_def split: if_splits)
  then have "civil_from_days days = (yoe + era * 400 + (if mo \<le> 2 then 1 else 0), mo, day)"
    using civil_from_days_era [OF assms(1,2) days doe guess [symmetric] yoe(1,2) doy_def doy(1)
        mp_def month(1,2) day_def month(6)] by (simp add: mo_def)
  with civil have eq: "y = yoe + era * 400 + (if mo \<le> 2 then 1 else 0)" "m = mo" "d = day" by auto
  have "days_from_civil y m d = days"
    using days_from_civil_era [OF yoe(1,2) month(4,5) eq(1), of day] eq month(3) days
    by (simp add: day_def doy_def)
  moreover have "mo = 2 \<Longrightarrow> day \<le> (if leap (yoe + 1) then 29 else 28)"
    using month(7,8) doy(3) by (auto simp: month_length_def leap_def)
  then have "day \<le> month_length y mo"
    using month(7) eq(1) leap_era [of "yoe + 1" era]
    by (auto simp: month_length_def algebra_simps split: if_splits)
  ultimately show ?thesis using eq month by (simp add: valid_date_def)
qed

lemma civil_days_civil:
  assumes date: "valid_date y m d" and "- (10 ^ 12) \<le> y" and "y \<le> 10 ^ 12"
  shows "civil_from_days (days_from_civil y m d) = (y, m, d)"
proof -
  define y' where "y' = (if m \<le> 2 then y - 1 else y)"
  define era yoe where "era = y' div 400" and "yoe = y' mod 400"
  have yoe: "0 \<le> yoe" "yoe < 400" and y': "y' = yoe + era * 400"
    by (simp_all add: era_def yoe_def)
  have m: "1 \<le> m" "m \<le> 12" and d: "1 \<le> d" "d \<le> month_length y m"
    using date by (simp_all add: valid_date_def)
  have y: "y = yoe + era * 400 + (if m \<le> 2 then 1 else 0)"
    using y' by (simp add: y'_def split: if_splits)
  define mp doy where "mp = march_month m" and "doy = month_start mp + d - 1"
  have "m \<in> set [1..12]" "d \<in> set [1..month_length 2000 m]"
    using m d month_length_le [of y m] by simp_all
  then have doy: "(5 * doy + 2) div 153 = mp" "civil_month mp = m" "0 \<le> doy"
    "if m = 2 \<and> d = 29 then doy = 365 else doy \<le> 364"
    using day_of_month [unfolded list_all_iff Let_def, rule_format, of m d]
    unfolding mp_def doy_def by blast+
  have span: "year_start (yoe + 1) - year_start yoe = (if leap (yoe + 1) then 366 else 365)"
    "0 \<le> year_start yoe" "year_start (yoe + 1) \<le> 146097"
    using year_start_span yoe by blast+
  have "doy < year_start (yoe + 1) - year_start yoe"
  proof (cases "m = 2 \<and> d = 29")
    case True
    then have "leap y" using d by (auto simp: month_length_def split: if_splits)
    then have "leap (yoe + 1)"
      using y True leap_era [of "yoe + 1" era] by (simp add: algebra_simps)
    then show ?thesis using span doy True by simp
  next
    case False
    then show ?thesis using span doy by (simp split: if_splits)
  qed
  then have guess: "year_guess (year_start yoe + doy) div 365 = yoe"
    using year_of_day [OF yoe, of "year_start yoe + doy"] doy by simp
  define days where "days = days_from_civil y m d"
  have days: "days = era * 146097 + (year_start yoe + doy) - 719468"
    using days_from_civil_era [OF yoe m y, of d] by (simp add: days_def doy_def mp_def)
  have "y' \<le> 10 ^ 12" "- (10 ^ 12) - 1 \<le> y'" using assms by (auto simp: y'_def)
  then have "- (10 ^ 10) \<le> era" "era \<le> 10 ^ 10" using y' yoe by simp_all
  then have range: "- (2 ^ 62) \<le> days" "days \<le> 2 ^ 62"
    using days span doy \<open>doy < _\<close> by simp_all
  have mp: "0 \<le> mp" "mp \<le> 11" using m by (simp_all add: mp_def march_month_def)
  have d32: "d < 2 ^ 32" using d by (auto simp: month_length_def split: if_splits)
  have doe: "0 \<le> year_start yoe + doy" "year_start yoe + doy < 146097"
    using span(2,3) doy(3) \<open>doy < _\<close> by simp_all
  have "doy = year_start yoe + doy - year_start yoe" "d = doy - month_start mp + 1"
    by (simp_all add: doy_def)
  then have "civil_from_days days = (yoe + era * 400 + (if civil_month mp \<le> 2 then 1 else 0),
      civil_month mp, d)"
    using civil_from_days_era [OF range days doe guess [symmetric] yoe _ doy(3) doy(1) [symmetric] mp _ d(1) d32]
    by blast
  then show ?thesis using y doy(2) by (simp add: days_def)
qed

subsection \<open>Properties\<close>

text \<open>The two halves of the civil calendar are inverse: a valid date counts to a day that
  reads back as that date, and a day reads as a valid date that counts back to it.\<close>

theorem civil_calendar_inverse:
  "(valid_date y m d \<and> \<bar>y\<bar> \<le> 10 ^ 12 \<longrightarrow> civil_from_days (days_from_civil y m d) = (y, m, d))
   \<and> (\<bar>days\<bar> \<le> 2 ^ 62 \<and> civil_from_days days = (y, m, d)
      \<longrightarrow> days_from_civil y m d = days \<and> valid_date y m d)"
  using civil_days_civil [of y m d] days_civil_days [of days y m d] by (auto simp: abs_le_iff)

theorem civil_calendar_inverse_witness:
  "civil_from_days (days_from_civil 2024 2 29) = (2024, 2, 29) \<and> days_from_civil 1970 1 1 = 0"
proof
  have "valid_date 2024 2 29" by code_simp
  then show "civil_from_days (days_from_civil 2024 2 29) = (2024, 2, 29)"
    using civil_calendar_inverse [of 2024 2 29 0] by simp
  have "civil_from_days 0 = (1970, 1, 1)" by code_simp
  then show "days_from_civil 1970 1 1 = 0"
    using civil_calendar_inverse [of 1970 1 1 0] by simp
qed

end
