(* ===== verification/InstantText.thy ===== *)
theory InstantText
  imports Instants
begin

text \<open>
  Reading and writing instants (\<open>model/temporal_memory/axis_key.rs\<close>): the two spellings an
  instant may have, the canonical sort key and the RFC 3339 text. The lemmas are the round
  trips between the three and the fact that the byte order of canonical keys is the order of
  time, for every instant an RFC 3339 text can name.
\<close>

datatype ordering = Less | Equal | Greater

definition ord_cmp :: "'a::linorder \<Rightarrow> 'a \<Rightarrow> ordering" where
  "ord_cmp a b = (if a < b then Less else if a = b then Equal else Greater)"

definition parse_i64 :: "string \<Rightarrow> int option" where
  "parse_i64 = parse_int (- (2 ^ 63)) (2 ^ 63 - 1)"

definition parse_i128 :: "string \<Rightarrow> int option" where
  "parse_i128 = parse_int (- (2 ^ 127)) (2 ^ 127 - 1)"

subsection \<open>RFC 3339\<close>

text \<open>The \<open>number\<close> closure: a slice that does not exist or is no \<open>i64\<close> is \<open>None\<close>.\<close>

definition number :: "string \<Rightarrow> nat \<Rightarrow> nat \<Rightarrow> int option" where
  "number value from to = (case str_get value from to of None \<Rightarrow> None | Some t \<Rightarrow> parse_i64 t)"

text \<open>Where the zone starts: the first \<open>Z\<close>, \<open>+\<close> or \<open>-\<close>.\<close>

fun timezone_start :: "string \<Rightarrow> nat option" where
  "timezone_start [] = None"
| "timezone_start (c # s) =
     (if c \<in> {CHR ''Z'', CHR ''+'', CHR ''-''} then Some 0 else map_option Suc (timezone_start s))"

text \<open>A fraction is a dot and one to nine digits, padded to nine on the right.\<close>

definition fraction_nanos :: "string \<Rightarrow> int option" where
  "fraction_nanos fraction =
     (case strip_prefix ''.'' fraction of
        Some digits \<Rightarrow>
          if digits \<noteq> [] \<and> length digits \<le> 9
          then parse_i128 (digits @ replicate (9 - length digits) CHR ''0'') else None
      | None \<Rightarrow> if fraction = [] then Some 0 else None)"

definition offset_seconds :: "string \<Rightarrow> int option" where
  "offset_seconds timezone =
     (if timezone = ''Z'' then Some 0
      else if length timezone = 6 \<and> str_get timezone 3 4 = Some '':'' then
        (case (if str_get timezone 0 1 = Some ''+'' then Some 1
               else if str_get timezone 0 1 = Some ''-'' then Some (- 1) else None) of
           None \<Rightarrow> None
         | Some sign \<Rightarrow>
             (case (number timezone 1 3, number timezone 4 6) of
                (Some hours, Some minutes) \<Rightarrow>
                  if hours > 23 \<or> minutes > 59 then None
                  else Some (sign * (hours * 3600 + minutes * 60))
              | _ \<Rightarrow> None))
      else None)"

definition civil_nanos :: "int \<Rightarrow> int \<Rightarrow> int \<Rightarrow> int \<Rightarrow> int \<Rightarrow> int \<Rightarrow> int \<Rightarrow> int \<Rightarrow> int" where
  "civil_nanos year month day hour minute second offset nanos =
     (days_from_civil year month day * 86400 + hour * 3600 + minute * 60 + second - offset)
       * 1000000000 + nanos"

definition basic_rfc3339_nanos :: "string \<Rightarrow> int option" where
  "basic_rfc3339_nanos value =
     (let value = trim value in
      if length value < 20 then None
      else case (number value 0 4, number value 5 7, number value 8 10,
                 number value 11 13, number value 14 16, number value 17 19) of
        (Some year, Some month, Some day, Some hour, Some minute, Some second) \<Rightarrow>
          if str_get value 4 5 \<noteq> Some ''-'' \<or> str_get value 7 8 \<noteq> Some ''-''
             \<or> str_get value 10 11 \<noteq> Some ''T'' \<or> str_get value 13 14 \<noteq> Some '':''
             \<or> str_get value 16 17 \<noteq> Some '':'' \<or> \<not> (1 \<le> month \<and> month \<le> 12)
             \<or> \<not> (1 \<le> day \<and> day \<le> 31) \<or> hour > 23 \<or> minute > 59 \<or> second > 60
          then None
          else (case str_from value 19 of None \<Rightarrow> None | Some tail \<Rightarrow>
            (case timezone_start tail of None \<Rightarrow> None | Some at \<Rightarrow>
              (case (str_get tail 0 at, str_from tail at) of
                 (Some fraction, Some timezone) \<Rightarrow>
                   (case (fraction_nanos fraction, offset_seconds timezone) of
                      (Some nanos, Some offset) \<Rightarrow>
                        Some (civil_nanos year month day hour minute second offset nanos)
                    | _ \<Rightarrow> None)
               | _ \<Rightarrow> None)))
      | _ \<Rightarrow> None)"

definition clock_text :: "int \<Rightarrow> int \<Rightarrow> int \<Rightarrow> int \<Rightarrow> string" where
  "clock_text year month day second_of_day =
     fmt_int 4 year @ ''-'' @ fmt_int 2 month @ ''-'' @ fmt_int 2 day @ ''T''
     @ fmt_int 2 (second_of_day div 3600) @ '':'' @ fmt_int 2 ((second_of_day mod 3600) div 60)
     @ '':'' @ fmt_int 2 (second_of_day mod 60)"

definition rfc3339_from_epoch_seconds :: "int \<Rightarrow> string" where
  "rfc3339_from_epoch_seconds seconds =
     (case civil_from_days (seconds div 86400) of (year, month, day) \<Rightarrow>
        clock_text year month day (seconds mod 86400) @ ''Z'')"

subsection \<open>The stored spelling\<close>

definition nanos_timestamp :: "int \<Rightarrow> string" where
  "nanos_timestamp value =
     ''unix:'' @ fmt_int 12 (value div 1000000000 + 100000000000) @ '':''
     @ fmt_int 9 (value mod 1000000000)"

definition timestamp_nanos :: "string \<Rightarrow> int option" where
  "timestamp_nanos value =
     (case strip_prefix ''unix:'' value of
        Some rest \<Rightarrow>
          (case split_once CHR '':'' rest of None \<Rightarrow> None | Some (seconds, nanos) \<Rightarrow>
            (case parse_i128 seconds of None \<Rightarrow> None | Some seconds \<Rightarrow>
              (case parse_i128 nanos of None \<Rightarrow> None | Some nanos \<Rightarrow>
                 if 0 \<le> nanos \<and> nanos < 1000000000
                 then Some (wrap128 (wrap128 (wrap128 (seconds - 100000000000) * 1000000000) + nanos))
                 else None)))
      | None \<Rightarrow> basic_rfc3339_nanos value)"

definition canonical_time_key :: "string \<Rightarrow> string" where
  "canonical_time_key value =
     (case timestamp_nanos value of Some n \<Rightarrow> nanos_timestamp n | None \<Rightarrow> value)"

definition compare_temporal_instants :: "string \<Rightarrow> string \<Rightarrow> ordering option" where
  "compare_temporal_instants left right =
     (case (timestamp_nanos left, timestamp_nanos right) of
        (Some l, Some r) \<Rightarrow> Some (ord_cmp l r) | _ \<Rightarrow> None)"

definition temporal_instant_nanos :: "string \<Rightarrow> int option" where
  "temporal_instant_nanos value = timestamp_nanos value"

definition trim_end_zeros :: "string \<Rightarrow> string" where
  "trim_end_zeros s = rev (dropWhile (\<lambda>c. c = CHR ''0'') (rev s))"

definition temporal_instant_rfc3339 :: "string \<Rightarrow> string option" where
  "temporal_instant_rfc3339 value =
     (case timestamp_nanos value of None \<Rightarrow> None | Some nanos \<Rightarrow>
        (let seconds = nanos div 1000000000; subsec = nanos mod 1000000000;
             days = seconds div 86400 in
         if days < - (2 ^ 63) \<or> 2 ^ 63 \<le> days then None
         else case civil_from_days days of (year, month, day) \<Rightarrow>
           Some (clock_text year month day (seconds mod 86400)
                 @ (if subsec \<noteq> 0 then ''.'' @ trim_end_zeros (fmt_int 9 subsec) else [])
                 @ ''Z'')))"

subsection \<open>The stored spelling reads back\<close>

lemma fmt_int_chars: "c \<in> set (fmt_int w i) \<Longrightarrow> is_digit c \<or> c = CHR ''-''"
  using pad0_digits [OF dec_digits] by (auto simp: fmt_int_def list_all_iff split: if_splits)

lemma fmt_int_no_colon [simp]: "CHR '':'' \<notin> set (fmt_int w i)"
  using fmt_int_chars by (fastforce simp: is_digit_def byte_def)

lemma wrap_add: "wrap128 (wrap128 a + b) = wrap128 (a + b)"
  unfolding wrap_def by (simp add: mod_simps ac_simps)

lemma wrap_range: "- (2 ^ 127) \<le> wrap128 x \<and> wrap128 x < 2 ^ 127"
  by (simp add: wrap_def)

lemma timestamp_nanos_stored:
  assumes "- (2 ^ 127) \<le> n" and "n < 2 ^ 127"
  shows "timestamp_nanos (nanos_timestamp n) = Some n"
proof -
  have s: "parse_i128 (fmt_int 12 (n div 1000000000 + 100000000000)) = Some (n div 1000000000 + 100000000000)"
    using assms by (simp add: parse_i128_def parse_int_fmt_int)
  have f: "parse_i128 (fmt_int 9 (n mod 1000000000)) = Some (n mod 1000000000)"
    by (simp add: parse_i128_def parse_int_fmt_int pos_mod_bound [THEN order_less_le_trans])
  have w: "wrap128 (n div 1000000000) = n div 1000000000"
    using assms by (intro wrap128_id) simp_all
  have "wrap128 (wrap128 (n div 1000000000 * 1000000000) + n mod 1000000000) = n"
    using assms by (simp add: wrap_add wrap128_id)
  then show ?thesis
    by (simp add: timestamp_nanos_def nanos_timestamp_def split_once_append s f w)
qed

subsection \<open>What RFC 3339 can name\<close>

text \<open>The keys of these instants have twelve digits of seconds and no sign.\<close>

definition key_instant :: "int \<Rightarrow> bool" where
  "key_instant n \<longleftrightarrow> 0 \<le> n div 1000000000 + 100000000000 \<and> n div 1000000000 + 100000000000 < 10 ^ 12"

lemma year_start_era: "year_start (y + era * 400) = year_start y + era * 146097"
proof -
  have "(y + era * 100 * 4) div 4 = y div 4 + era * 100"
    "(y + era * 4 * 100) div 100 = y div 100 + era * 4"
    by (simp_all only: div_mult_self1 mult.commute add.commute zero_neq_numeral not_False_eq_True)
  then show ?thesis by (simp add: year_start_def mult.assoc)
qed

lemma days_from_civil_linear:
  assumes "1 \<le> m" and "m \<le> 12"
  shows "days_from_civil y m d =
    year_start (if m \<le> 2 then y - 1 else y) + month_start (march_month m) + d - 1 - 719468"
proof -
  define y' where "y' = (if m \<le> 2 then y - 1 else y)"
  have "y' = y' mod 400 + y' div 400 * 400" by simp
  then have "y = y' mod 400 + y' div 400 * 400 + (if m \<le> 2 then 1 else 0)"
    by (simp add: y'_def split: if_splits)
  then have "days_from_civil y m d = y' div 400 * 146097 + year_start (y' mod 400)
      + month_start (march_month m) + d - 1 - 719468"
    using days_from_civil_era [of "y' mod 400" m y "y' div 400" d] assms by simp
  also have "y' div 400 * 146097 + year_start (y' mod 400) = year_start y'"
    using year_start_era [of "y' mod 400" "y' div 400"] by simp
  finally show ?thesis by (simp add: y'_def)
qed

lemma days_from_civil_bounds:
  assumes "1 \<le> m" and "m \<le> 12" and "1 \<le> d" and "d \<le> 31" and "- 999 \<le> y" and "y \<le> 9999"
  shows "- 1084900 \<le> days_from_civil y m d" and "days_from_civil y m d \<le> 2940000"
proof -
  define y' where "y' = (if m \<le> 2 then y - 1 else y)"
  have "- 1000 \<le> y'" "y' \<le> 9999" using assms by (auto simp: y'_def)
  then have "- 365400 \<le> year_start y'" "year_start y' \<le> 3652200"
    unfolding year_start_def by linarith+
  moreover have "0 \<le> march_month m" "march_month m \<le> 11"
    using assms by (simp_all add: march_month_def)
  then have "0 \<le> month_start (march_month m)" "month_start (march_month m) \<le> 400"
    unfolding month_start_def by linarith+
  ultimately show "- 1084900 \<le> days_from_civil y m d" "days_from_civil y m d \<le> 2940000"
    using assms days_from_civil_linear [of m y d] by (simp_all add: y'_def)
qed

lemma parse_nat_bound: "parse_nat s = Some n \<Longrightarrow> n < 10 ^ length s"
  by (auto simp: parse_nat_def digits_value_bound split: if_splits)

lemma parse_int_bound:
  assumes "parse_int lo hi s = Some i" and "length s = k"
  shows "- (10 ^ (k - 1)) < i" and "i < 10 ^ k"
proof -
  from assms obtain c r where s: "s = c # r" by (cases s) (auto simp: parse_int_def)
  have r: "n < 10 ^ (k - 1)" "n < 10 ^ k" if "parse_nat r = Some n" for n
    using parse_nat_bound [OF that] assms(2) s by (auto intro: less_le_trans)
  have t: "n < 10 ^ k" if "parse_nat s = Some n" for n
    using parse_nat_bound [OF that] assms(2) by simp
  have "(\<exists>n. parse_nat r = Some n \<and> (i = - int n \<or> i = int n)) \<or> (\<exists>n. parse_nat s = Some n \<and> i = int n)"
    using assms(1) s by (auto simp: parse_int_def Let_def split: option.splits if_splits)
  then have "- int (10 ^ (k - 1)) < i \<and> i < int (10 ^ k)"
  proof
    assume "\<exists>n. parse_nat r = Some n \<and> (i = - int n \<or> i = int n)"
    then obtain n where "parse_nat r = Some n" "i = - int n \<or> i = int n" by blast
    moreover from this r have "int n < int (10 ^ (k - 1))" "int n < int (10 ^ k)"
      by (simp_all only: of_nat_less_iff)
    ultimately show ?thesis by linarith
  next
    assume "\<exists>n. parse_nat s = Some n \<and> i = int n"
    then obtain n where "parse_nat s = Some n" "i = int n" by blast
    moreover from this t have "int n < int (10 ^ k)" by (simp only: of_nat_less_iff)
    moreover have "0 < int (10 ^ (k - 1))" by simp
    ultimately show ?thesis by linarith
  qed
  then show "- (10 ^ (k - 1)) < i" "i < 10 ^ k" by simp_all
qed

lemma number_bound:
  assumes "number v a b = Some i"
  shows "- (10 ^ (b - a - 1)) < i" and "i < 10 ^ (b - a)"
proof -
  from assms obtain t where "str_get v a b = Some t" and t: "parse_i64 t = Some i"
    by (auto simp: number_def split: option.splits)
  then have "length t = b - a" by (auto simp: str_get_def split: if_splits)
  with t show "- (10 ^ (b - a - 1)) < i" "i < 10 ^ (b - a)"
    using parse_int_bound [of _ _ t i "b - a"] unfolding parse_i64_def by blast+
qed

lemma number2_bound: "number v a (Suc (Suc a)) = Some i \<Longrightarrow> - 10 < i \<and> i < 100"
  using number_bound [of v a "Suc (Suc a)" i] by simp

lemma number4_bound: "number v 0 4 = Some i \<Longrightarrow> - 1000 < i \<and> i < 10000"
  using number_bound [of v 0 4 i] by simp

lemma fraction_nanos_bound: "fraction_nanos f = Some n \<Longrightarrow> - (10 ^ 8) < n \<and> n < 10 ^ 9"
  by (auto simp: fraction_nanos_def parse_i128_def split: option.splits if_splits
      dest: parse_int_bound [where k = 9])

lemma offset_seconds_bound:
  assumes "offset_seconds z = Some n"
  shows "- 90000 < n" and "n < 90000"
proof -
  have "n = 0 \<or> (\<exists>sign h m. number z 1 3 = Some h \<and> number z 4 6 = Some m \<and> h \<le> 23 \<and> m \<le> 59
      \<and> (sign = 1 \<or> sign = - 1) \<and> n = sign * (h * 3600 + m * 60))"
    using assms by (auto simp: offset_seconds_def split: option.splits if_splits)
  then show "- 90000 < n" "n < 90000"
    using number2_bound [of z 1] number2_bound [of z 4] by (auto simp: numeral_eq_Suc)
qed

text \<open>Every instant a text names lies where its key has twelve digits of seconds.\<close>

lemma rfc3339_key_instant:
  assumes "basic_rfc3339_nanos v = Some n"
  shows "key_instant n"
proof -
  define t where "t = trim v"
  obtain y mo d h mi s fx fr zx off where
    parts: "number t 0 4 = Some y" "number t 5 7 = Some mo" "number t 8 10 = Some d" "number t 11 13 = Some h" "number t 14 16 = Some mi"
      "number t 17 19 = Some s" "1 \<le> mo" "mo \<le> 12" "1 \<le> d" "d \<le> 31" "h \<le> 23" "mi \<le> 59" "s \<le> 60"
    and tail: "fraction_nanos fx = Some fr" "offset_seconds zx = Some off"
    and n: "n = civil_nanos y mo d h mi s off fr"
    using assms unfolding basic_rfc3339_nanos_def Let_def t_def [symmetric]
    by (force split: option.splits if_splits prod.splits)
  have b: "- 1000 < y" "y < 10000" "- 10 < h" "- 10 < mi" "- 10 < s"
    using parts number4_bound number2_bound [of t 11] number2_bound [of t 14] number2_bound [of t 17]
    by (auto simp: numeral_eq_Suc)
  have "- 1084900 \<le> days_from_civil y mo d" "days_from_civil y mo d \<le> 2940000"
    using days_from_civil_bounds [of mo d y] parts b by simp_all
  moreover have "- (10 ^ 8) < fr" "fr < 10 ^ 9" "- 90000 < off" "off < 90000"
    using tail fraction_nanos_bound offset_seconds_bound by blast+
  ultimately have "- 100000000000 * 1000000000 \<le> n" "n < 900000000000 * 1000000000"
    using n parts b by (simp_all add: civil_nanos_def)
  then show ?thesis unfolding key_instant_def by (simp, linarith)
qed

lemma nanos_timestamp_less:
  assumes "key_instant m" and "key_instant n"
  shows "nanos_timestamp m < nanos_timestamp n \<longleftrightarrow> m < n"
proof -
  have "fmt_int 9 (m mod 1000000000) < fmt_int 9 (n mod 1000000000)
      \<longleftrightarrow> m mod 1000000000 < n mod 1000000000"
    by (rule fmt_int_less_iff) (simp_all add: pos_mod_bound [THEN order_less_le_trans])
  moreover have "fmt_int 12 (m div 1000000000 + 100000000000) < fmt_int 12 (n div 1000000000 + 100000000000)
      \<longleftrightarrow> m div 1000000000 + 100000000000 < n div 1000000000 + 100000000000"
    using assms by (intro fmt_int_less_iff) (simp_all add: key_instant_def)
  moreover have "length (fmt_int 12 (m div 1000000000 + 100000000000))
      = length (fmt_int 12 (n div 1000000000 + 100000000000))"
    using assms by (simp add: key_instant_def fmt_int_length)
  moreover have "m < n \<longleftrightarrow> m div 1000000000 < n div 1000000000
      \<or> m div 1000000000 = n div 1000000000 \<and> m mod 1000000000 < n mod 1000000000"
    by (smt (verit) div_mult_mod_eq zdiv_mono1)
  ultimately show ?thesis
    by (simp add: nanos_timestamp_def less_append_iff fmt_int_inject)
qed

subsection \<open>RFC 3339 reads back\<close>

lemma str_get_ascii:
  assumes "is_ascii s"
  shows "str_get s a b = (if a \<le> b \<and> b \<le> length s then Some (take (b - a) (drop a s)) else None)"
proof -
  have "char_boundary s i" if "i \<le> length s" for i
    using assms that by (auto simp: char_boundary_def is_ascii_def intro!: ascii_not_cont)
  then show ?thesis by (auto simp: str_get_def)
qed

lemma number_ascii:
  "is_ascii s \<Longrightarrow> number s a b =
    (if a \<le> b \<and> b \<le> length s then parse_i64 (take (b - a) (drop a s)) else None)"
  by (simp add: number_def str_get_ascii)

lemma digit_ascii: "is_digit c \<Longrightarrow> byte c < 128"
  by (simp add: is_digit_def)

lemma fmt_int_digits: "0 \<le> i \<Longrightarrow> list_all is_digit (fmt_int w i)"
  by (simp add: fmt_int_def)

lemma digits_ascii: "list_all is_digit s \<Longrightarrow> is_ascii s"
  by (auto simp: is_ascii_def list_all_iff digit_ascii)

lemma is_ascii_append [simp]: "is_ascii (s @ t) \<longleftrightarrow> is_ascii s \<and> is_ascii t"
  by (auto simp: is_ascii_def)

lemma is_ascii_Cons [simp]: "is_ascii (c # s) \<longleftrightarrow> byte c < 128 \<and> is_ascii s"
  by (auto simp: is_ascii_def)

lemma is_ascii_Nil [simp]: "is_ascii []"
  by (simp add: is_ascii_def)

lemma parse_i64_fmt_int: "0 \<le> i \<Longrightarrow> i < 10000 \<Longrightarrow> parse_i64 (fmt_int w i) = Some i"
  by (simp add: parse_i64_def parse_int_fmt_int)

lemma take_drop_pieces:
  assumes "length Y = 4" "length M = 2" "length D = 2" "length h = 2" "length m = 2" "length s = 2"
    and t: "t = Y @ ''-'' @ M @ ''-'' @ D @ ''T'' @ h @ '':'' @ m @ '':'' @ s @ r"
  shows "take 4 (drop 0 t) = Y" "take 2 (drop 5 t) = M" "take 2 (drop 8 t) = D"
    "take 2 (drop 11 t) = h" "take 2 (drop 14 t) = m" "take 2 (drop 17 t) = s"
    "take 1 (drop 4 t) = ''-''" "take 1 (drop 7 t) = ''-''" "take 1 (drop 10 t) = ''T''"
    "take 1 (drop 13 t) = '':''" "take 1 (drop 16 t) = '':''" "drop 19 t = r"
    "length t = 19 + length r"
  using assms(1-6) unfolding t by (simp_all add: numeral_eq_Suc)

lemma trim_text:
  assumes "c # s = t" and "33 \<le> byte c" "byte c < 128" and "t = u @ [d]" "33 \<le> byte d" "byte d < 128"
  shows "trim t = t"
proof (rule trim_id)
  show "drop_space t = None" using drop_space_graphic [OF assms(2,3)] assms(1) by metis
  have "rev t = d # rev u" using assms(4) by simp
  then show "drop_space_rev (rev t) = None" using drop_space_rev_graphic [OF assms(5,6)] by metis
qed

lemma clock_text_reads:
  assumes date: "1 \<le> m" "m \<le> 12" "1 \<le> d" "d \<le> 31" and y: "0 \<le> y" "y \<le> 9999"
    and sod: "0 \<le> sod" "sod < 86400"
    and frac: "is_ascii f" "fraction_nanos f = Some fr" "timezone_start (f @ ''Z'') = Some (length f)"
  shows "basic_rfc3339_nanos (clock_text y m d sod @ f @ ''Z'')
    = Some ((days_from_civil y m d * 86400 + sod) * 1000000000 + fr)"
proof -
  define h mi s where "h = sod div 3600" and "mi = sod mod 3600 div 60" and "s = sod mod 60"
  have hms: "0 \<le> h" "h \<le> 23" "0 \<le> mi" "mi \<le> 59" "0 \<le> s" "s \<le> 59"
    using sod unfolding h_def mi_def s_def by auto
  have "sod mod 3600 mod 60 = sod mod 60" by (rule mod_mod_cancel) simp
  then have sum: "sod = h * 3600 + mi * 60 + s"
    using div_mult_mod_eq [of sod 3600] div_mult_mod_eq [of "sod mod 3600" 60]
    unfolding h_def mi_def s_def by linarith
  define t where "t = fmt_int 4 y @ ''-'' @ fmt_int 2 m @ ''-'' @ fmt_int 2 d @ ''T'' @ fmt_int 2 h
    @ '':'' @ fmt_int 2 mi @ '':'' @ fmt_int 2 s @ f @ ''Z''"
  have shown: "clock_text y m d sod @ f @ ''Z'' = t"
    by (simp add: clock_text_def t_def h_def mi_def s_def)
  have len: "length (fmt_int 4 y) = 4" "length (fmt_int 2 m) = 2" "length (fmt_int 2 d) = 2"
    "length (fmt_int 2 h) = 2" "length (fmt_int 2 mi) = 2" "length (fmt_int 2 s) = 2"
    using date y hms by (simp_all add: fmt_int_length)
  note pieces = take_drop_pieces [OF len t_def]
  have ascii: "is_ascii t"
    using frac(1) date y hms by (simp add: t_def digits_ascii fmt_int_digits) (simp add: byte_def)
  have trim: "trim t = t"
  proof (cases "fmt_int 4 y")
    case Nil
    with len show ?thesis by simp
  next
    case (Cons c r)
    with fmt_int_digits [of y 4] y have "is_digit c" by simp
    then have c: "33 \<le> byte c" "byte c < 128" by (auto simp: is_digit_def)
    from Cons obtain q where q: "c # q = t" by (simp add: t_def)
    have "t = butlast t @ ''Z''" by (simp add: t_def butlast_append)
    from trim_text [OF q c this] show ?thesis by (simp add: byte_def)
  qed
  have parts: "number t 0 4 = Some y" "number t 5 7 = Some m" "number t 8 10 = Some d"
    "number t 11 13 = Some h" "number t 14 16 = Some mi" "number t 17 19 = Some s"
    using pieces date y hms ascii by (simp_all add: number_ascii parse_i64_fmt_int)
  have marks: "str_get t 4 5 = Some ''-''" "str_get t 7 8 = Some ''-''" "str_get t 10 11 = Some ''T''"
    "str_get t 13 14 = Some '':''" "str_get t 16 17 = Some '':''" "str_from t 19 = Some (f @ ''Z'')"
    using pieces ascii by (simp_all add: str_get_ascii str_from_def)
  have zone: "str_get (f @ ''Z'') 0 (length f) = Some f" "str_from (f @ ''Z'') (length f) = Some ''Z''"
    using frac(1) by (simp_all add: str_get_ascii str_from_def byte_def)
  have "offset_seconds ''Z'' = Some 0" by (simp add: offset_seconds_def)
  then show ?thesis
    unfolding shown basic_rfc3339_nanos_def Let_def trim
    using pieces(13) parts marks zone frac(2,3) date hms sum
    by (simp add: civil_nanos_def)
qed


subsection \<open>Years of four digits\<close>

text \<open>The days from 0000-01-01 up to 9999-12-31.\<close>

lemma four_digit_years:
  assumes "- 719528 \<le> days" and "days < 2932897" and civil: "civil_from_days days = (y, m, d)"
  shows "0 \<le> y" and "y \<le> 9999"
proof -
  have date: "days_from_civil y m d = days" "1 \<le> m" "m \<le> 12" "1 \<le> d" "d \<le> month_length y m"
    using days_civil_days [OF _ _ civil] assms(1,2) by (simp_all add: valid_date_def)
  have "d \<le> 31" using date(5) by (simp add: month_length_def split: if_splits)
  define y' where "y' = (if m \<le> 2 then y - 1 else y)"
  have lin: "days = year_start y' + month_start (march_month m) + d - 719469"
    using days_from_civil_linear [OF date(2,3), of y d] date(1) by (simp add: y'_def)
  have months: "list_all (\<lambda>m. if m \<le> 2 then 306 \<le> month_start (march_month m) \<and> month_start (march_month m) \<le> 337
      else 0 \<le> month_start (march_month m) \<and> month_start (march_month m) \<le> 275) [1..12]"
    by code_simp
  have m: "if m \<le> 2 then 306 \<le> month_start (march_month m) \<and> month_start (march_month m) \<le> 337
      else 0 \<le> month_start (march_month m) \<and> month_start (march_month m) \<le> 275"
    using months [unfolded list_all_iff, rule_format, of m] date(2,3) by simp
  show "y \<le> 9999"
  proof (rule ccontr)
    assume "\<not> y \<le> 9999"
    then have "if m \<le> 2 then 9999 \<le> y' else 10000 \<le> y'" by (simp add: y'_def)
    then have "if m \<le> 2 then 3652059 \<le> year_start y' else 3652365 \<le> year_start y'"
      unfolding year_start_def by (simp split: if_splits; linarith)
    then show False using lin m date(4) assms(2) by (simp split: if_splits)
  qed
  show "0 \<le> y"
  proof (rule ccontr)
    assume "\<not> 0 \<le> y"
    then have y': "if m \<le> 2 then y' \<le> - 2 else y' \<le> - 1" by (simp add: y'_def)
    then have "y' div 4 \<le> - 1" "y' div 400 \<le> - 1" by (auto split: if_splits)
    then have "if m \<le> 2 then year_start y' \<le> - 700 else year_start y' \<le> - 366"
      using y' unfolding year_start_def by (simp split: if_splits; linarith)
    then show False using lin m \<open>d \<le> 31\<close> assms(1) by (simp split: if_splits)
  qed
qed

lemma timezone_start_Z:
  "list_all is_digit s \<Longrightarrow> timezone_start (s @ ''Z'') = Some (length s)"
  by (induction s) (auto simp: is_digit_def byte_def)

lemma trim_end_zeros_pad:
  "trim_end_zeros s @ replicate (length s - length (trim_end_zeros s)) CHR ''0'' = s"
proof (induction s rule: rev_induct)
  case (snoc c s)
  have "length (trim_end_zeros s) \<le> length s"
    unfolding trim_end_zeros_def by (metis length_dropWhile_le length_rev)
  with snoc show ?case
    by (auto simp: trim_end_zeros_def Suc_diff_le replicate_append_same [symmetric] simp flip: append_assoc)
qed (simp add: trim_end_zeros_def)

lemma trim_end_zeros_set: "set (trim_end_zeros s) \<subseteq> set s"
  unfolding trim_end_zeros_def using set_dropWhileD by fastforce

definition fraction_text :: "int \<Rightarrow> string" where
  "fraction_text subsec = (if subsec \<noteq> 0 then ''.'' @ trim_end_zeros (fmt_int 9 subsec) else [])"

lemma fraction_text_reads:
  assumes "0 \<le> n" and "n < 1000000000"
  shows "is_ascii (fraction_text n)" and "fraction_nanos (fraction_text n) = Some n"
    and "timezone_start (fraction_text n @ ''Z'') = Some (length (fraction_text n))"
proof -
  define t where "t = trim_end_zeros (fmt_int 9 n)"
  have len: "length (fmt_int 9 n) = 9" using assms by (simp add: fmt_int_length)
  have pad: "t @ replicate (9 - length t) CHR ''0'' = fmt_int 9 n"
    using trim_end_zeros_pad [of "fmt_int 9 n"] len by (simp add: t_def)
  have digits: "list_all is_digit t"
    using trim_end_zeros_set [of "fmt_int 9 n"] fmt_int_digits [OF assms(1), of 9]
    by (auto simp: t_def list_all_iff)
  have "t \<noteq> []" if "n \<noteq> 0"
  proof
    assume "t = []"
    moreover have "fmt_int 9 0 = replicate 9 CHR ''0''" by code_simp
    ultimately have "fmt_int 9 n = fmt_int 9 0" using pad by simp
    with that show False by (simp add: fmt_int_inject)
  qed
  moreover have "length t \<le> 9" using pad len by (metis append_eq_conv_conj length_take min.cobounded1)
  moreover have "parse_i128 (fmt_int 9 n) = Some n"
    using assms by (simp add: parse_i128_def parse_int_fmt_int)
  ultimately show "fraction_nanos (fraction_text n) = Some n"
    using pad by (auto simp: fraction_nanos_def fraction_text_def t_def [symmetric])
  show "is_ascii (fraction_text n)"
    using digits by (simp add: fraction_text_def t_def digits_ascii) (simp add: byte_def)
  show "timezone_start (fraction_text n @ ''Z'') = Some (length (fraction_text n))"
    using timezone_start_Z [OF digits] by (simp add: fraction_text_def t_def)
qed

text \<open>Any second from 0000-01-01 to the end of 9999, with any nanosecond part, reads back.\<close>

lemma civil_text_reads:
  assumes "- 62167219200 \<le> s" and "s < 253402300800" and "0 \<le> n" and "n < 1000000000"
    and civil: "civil_from_days (s div 86400) = (y, m, d)"
  shows "basic_rfc3339_nanos (clock_text y m d (s mod 86400) @ fraction_text n @ ''Z'')
    = Some (s * 1000000000 + n)"
proof -
  have days: "- 719528 \<le> s div 86400" "s div 86400 < 2932897" using assms(1,2) by linarith+
  then have date: "days_from_civil y m d = s div 86400" "1 \<le> m" "m \<le> 12" "1 \<le> d" "d \<le> month_length y m"
    using days_civil_days [OF _ _ civil] by (simp_all add: valid_date_def)
  moreover have "d \<le> 31" using date(5) by (simp add: month_length_def split: if_splits)
  moreover have "s div 86400 * 86400 + s mod 86400 = s" by simp
  ultimately show ?thesis
    using clock_text_reads [OF date(2-4) _ four_digit_years [OF days civil] _ _ fraction_text_reads [OF assms(3,4)],
      of "s mod 86400"] by simp
qed

lemma epoch_text_reads:
  assumes "- 62167219200 \<le> s" and "s < 253402300800"
  shows "basic_rfc3339_nanos (rfc3339_from_epoch_seconds s) = Some (s * 1000000000)"
proof -
  obtain y m d where civil: "civil_from_days (s div 86400) = (y, m, d)" by (metis prod_cases3)
  show ?thesis
    using civil_text_reads [OF assms, of 0, OF _ _ civil]
    by (simp add: rfc3339_from_epoch_seconds_def civil fraction_text_def)
qed

lemma instant_text_reads:
  assumes "timestamp_nanos v = Some n"
    and "- 62167219200 \<le> n div 1000000000" and "n div 1000000000 < 253402300800"
  shows "\<exists>t. temporal_instant_rfc3339 v = Some t \<and> basic_rfc3339_nanos t = Some n"
proof -
  define s f where "s = n div 1000000000" and "f = n mod 1000000000"
  have f: "0 \<le> f" "f < 1000000000" and n: "s * 1000000000 + f = n" by (simp_all add: s_def f_def)
  have "- 719528 \<le> s div 86400" "s div 86400 < 2932897" using assms(2,3) unfolding s_def by linarith+
  then have days: "\<not> (s div 86400 < - (2 ^ 63) \<or> 2 ^ 63 \<le> s div 86400)" by simp
  obtain y m d where civil: "civil_from_days (s div 86400) = (y, m, d)" by (metis prod_cases3)
  have "temporal_instant_rfc3339 v = Some (clock_text y m d (s mod 86400) @ fraction_text f @ ''Z'')"
    unfolding temporal_instant_rfc3339_def assms(1) Let_def s_def [symmetric] f_def [symmetric]
      option.case if_not_P [OF days] civil prod.case by (simp add: fraction_text_def)
  moreover have "basic_rfc3339_nanos (clock_text y m d (s mod 86400) @ fraction_text f @ ''Z'') = Some n"
    using civil_text_reads [OF _ _ f civil] assms(2,3) n by (simp add: s_def)
  ultimately show ?thesis by blast
qed

text \<open>The canonical key: reading and writing again changes nothing, and its byte order is the
  order of time wherever RFC 3339 can name both instants.\<close>

lemma timestamp_nanos_rfc3339:
  "strip_prefix ''unix:'' v = None \<Longrightarrow> timestamp_nanos v = basic_rfc3339_nanos v"
  by (simp add: timestamp_nanos_def)

lemma timestamp_nanos_range:
  assumes "timestamp_nanos v = Some n"
  shows "- (2 ^ 127) \<le> n" and "n < 2 ^ 127"
proof -
  have "- (2 ^ 127) \<le> n \<and> n < 2 ^ 127"
  proof (cases "strip_prefix ''unix:'' v")
    case None
    with assms have "key_instant n" by (simp add: timestamp_nanos_def rfc3339_key_instant)
    then have "- 100000000000 \<le> n div 1000000000" "n div 1000000000 < 900000000000"
      by (auto simp: key_instant_def)
    then have "- 100000000000 * 1000000000 \<le> n" "n < 900000000000 * 1000000000" by linarith+
    then show ?thesis by simp
  next
    case (Some r)
    with assms show ?thesis
      using wrap_range by (auto simp: timestamp_nanos_def split: option.splits if_splits)
  qed
  then show "- (2 ^ 127) \<le> n" "n < 2 ^ 127" by simp_all
qed

lemma canonical_key_same_instant:
  "timestamp_nanos (canonical_time_key v) = timestamp_nanos v"
  using timestamp_nanos_stored timestamp_nanos_range
  by (auto simp: canonical_time_key_def split: option.splits)

subsection \<open>Properties\<close>

text \<open>C40. The stored spelling of an instant reads back as that instant, over the whole range of
  \<open>i128\<close> nanoseconds, also where the seconds are negative or need more than twelve digits.\<close>

theorem stored_instant_round_trip:
  assumes "- (2 ^ 127) \<le> n" and "n < 2 ^ 127"
  shows "timestamp_nanos (nanos_timestamp n) = Some n"
  using assms by (rule timestamp_nanos_stored)

theorem stored_instant_round_trip_witness:
  "timestamp_nanos (nanos_timestamp (- (10 ^ 30))) = Some (- (10 ^ 30))"
  by (rule stored_instant_round_trip) simp_all

text \<open>The canonical key of a timestamp names the same instant and is its own canonical key;
  a text the kernel cannot read is kept verbatim.\<close>

theorem canonical_key_normalises:
  "timestamp_nanos (canonical_time_key v) = timestamp_nanos v
   \<and> canonical_time_key (canonical_time_key v) = canonical_time_key v
   \<and> (timestamp_nanos v = None \<longrightarrow> canonical_time_key v = v)"
  using canonical_key_same_instant [of v]
  by (auto simp: canonical_time_key_def split: option.splits)

theorem canonical_key_normalises_witness: "canonical_time_key ''next week'' = ''next week''"
proof -
  have "timestamp_nanos ''next week'' = None" by code_simp
  with canonical_key_normalises [of "''next week''"] show ?thesis by simp
qed

text \<open>C12. For timestamps written in RFC 3339, byte order of the canonical keys is the order of
  time, whatever offsets and fractions the two texts use, and equal instants have equal keys.\<close>

theorem canonical_keys_sort_by_time:
  assumes "basic_rfc3339_nanos u = Some m" and "basic_rfc3339_nanos v = Some n"
    and "strip_prefix ''unix:'' u = None" and "strip_prefix ''unix:'' v = None"
  shows "(canonical_time_key u < canonical_time_key v \<longleftrightarrow> m < n)
    \<and> (canonical_time_key u = canonical_time_key v \<longleftrightarrow> m = n)"
proof -
  have k: "key_instant m" "key_instant n"
    "canonical_time_key u = nanos_timestamp m" "canonical_time_key v = nanos_timestamp n"
    using assms rfc3339_key_instant by (simp_all add: canonical_time_key_def timestamp_nanos_def)
  then show ?thesis
    using nanos_timestamp_less [of m n] nanos_timestamp_less [of n m] by auto
qed

theorem canonical_keys_sort_by_time_witness:
  "canonical_time_key ''2026-03-01T01:00:00+02:00'' < canonical_time_key ''2026-03-01T00:00:00Z''"
proof -
  have "basic_rfc3339_nanos ''2026-03-01T01:00:00+02:00'' = Some 1772319600000000000"
    "basic_rfc3339_nanos ''2026-03-01T00:00:00Z'' = Some 1772323200000000000"
    "strip_prefix ''unix:'' ''2026-03-01T01:00:00+02:00'' = None"
    "strip_prefix ''unix:'' ''2026-03-01T00:00:00Z'' = None" by code_simp+
  from canonical_keys_sort_by_time [OF this] show ?thesis by simp
qed

text \<open>The RFC 3339 text written for epoch seconds reads back as that second, for every
  second of the years 0000 to 9999.\<close>

theorem epoch_seconds_round_trip:
  assumes "- 62167219200 \<le> s" and "s < 253402300800"
  shows "basic_rfc3339_nanos (rfc3339_from_epoch_seconds s) = Some (s * 1000000000)"
  using assms by (rule epoch_text_reads)

theorem epoch_seconds_round_trip_witness:
  "basic_rfc3339_nanos (rfc3339_from_epoch_seconds (- 1)) = Some (- 1000000000)"
  using epoch_seconds_round_trip [of "- 1"] by simp

text \<open>The RFC 3339 text written for a readable timestamp names the same nanosecond, with the
  trailing zeros of the fraction dropped, for every instant of the years 0000 to 9999.\<close>

theorem instant_text_round_trip:
  assumes "timestamp_nanos v = Some n"
    and "- 62167219200 \<le> n div 1000000000" and "n div 1000000000 < 253402300800"
  shows "\<exists>t. temporal_instant_rfc3339 v = Some t \<and> basic_rfc3339_nanos t = Some n"
  using assms by (rule instant_text_reads)

theorem instant_text_round_trip_witness:
  "\<exists>t. temporal_instant_rfc3339 ''2026-03-01T02:00:00+02:00'' = Some t
     \<and> basic_rfc3339_nanos t = Some 1772323200000000000"
proof -
  have "timestamp_nanos ''2026-03-01T02:00:00+02:00'' = Some 1772323200000000000"
    "- 62167219200 \<le> (1772323200000000000 :: int) div 1000000000"
    "(1772323200000000000 :: int) div 1000000000 < 253402300800" by code_simp+
  then show ?thesis by (rule instant_text_round_trip)
qed

end
