(* ===== verification/Relations.thy ===== *)
theory Relations
  imports Numerals
begin

text \<open>
  The relation vocabulary (\<open>value_objects/relation_type.rs\<close>,
  \<open>value_objects/relation_semantic_class.rs\<close>): the semantic classes, the relation types the
  kernel owns with their wire names and aliases, the writer's specification of each, and the
  open type \<open>MemoryRelationType\<close> that keeps what the kernel does not know. The lemmas are
  the round trips of the wire names, canonicity, and how the families of relations exclude
  each other.
\<close>

subsection \<open>Semantic classes\<close>

datatype semantic_class = Structural | Causal | Motivational | Procedural | Evidential | Constraint

fun class_as_str :: "semantic_class \<Rightarrow> string" where
  "class_as_str Structural = ''structural''"
| "class_as_str Causal = ''causal''"
| "class_as_str Motivational = ''motivational''"
| "class_as_str Procedural = ''procedural''"
| "class_as_str Evidential = ''evidential''"
| "class_as_str Constraint = ''constraint''"

definition class_parse :: "string \<Rightarrow> semantic_class domain_result" where
  "class_parse value =
     (let t = trim value in
      if t = ''structural'' then Inr Structural
      else if t = ''causal'' then Inr Causal
      else if t = ''motivational'' then Inr Motivational
      else if t = ''procedural'' then Inr Procedural
      else if t = ''evidential'' then Inr Evidential
      else if t = ''constraint'' then Inr Constraint
      else Inl (InvalidState (''invalid relation semantic_class `'' @ t @ ''`'')))"

fun salience_rank :: "semantic_class \<Rightarrow> 8 word" where
  "salience_rank Causal = 0"
| "salience_rank Motivational = 1"
| "salience_rank Evidential = 2"
| "salience_rank Constraint = 3"
| "salience_rank Procedural = 4"
| "salience_rank Structural = 5"

lemma class_as_str_trim: "trim (class_as_str c) = class_as_str c"
proof -
  have "list_all (\<lambda>c. trim (class_as_str c) = class_as_str c)
    [Structural, Causal, Motivational, Procedural, Evidential, Constraint]" by code_simp
  then show ?thesis by (cases c) simp_all
qed

lemma class_parse_Inr: "class_parse v = Inr c \<longleftrightarrow> trim v = class_as_str c"
  by (cases c) (auto simp: class_parse_def Let_def)

lemma class_round_trip: "class_parse (class_as_str c) = Inr c"
  by (simp add: class_parse_Inr class_as_str_trim)

subsection \<open>The relations the kernel owns\<close>

datatype relation_quality = Rich | Anemic | StructuralQuality | Suspect

fun quality_as_str :: "relation_quality \<Rightarrow> string" where
  "quality_as_str Rich = ''rich''"
| "quality_as_str Anemic = ''anemic''"
| "quality_as_str StructuralQuality = ''structural''"
| "quality_as_str Suspect = ''suspect''"

datatype known_relation =
    Contains | ContainsEntry | HasDimension | HasEvidence | MemberOf |
    Records | ScopedTo | Follows | Answers | UsesBackground |
    DependsOn | ChosenBecause | Triggers | Authorizes | VerifiedBy |
    SemanticDeltaFrom | UpdatesState | Supports | SupportsAnswer | Supersedes |
    Contradicts | ConfirmsSelection | SatisfiesConstraint | ViolatesConstraint | ContributesTo |
    ExcludedFrom | CheckedAgainst | DerivedFrom | Restates | Corrects |
    ComponentOf | TotalOf | SameEventAs | SameEntityAs | QualifiesAs |
    MatchesRequirement

definition known_relations :: "known_relation list" where
  "known_relations =
    [Contains, ContainsEntry, HasDimension, HasEvidence, MemberOf, Records, ScopedTo, Follows,
     Answers, UsesBackground, DependsOn, ChosenBecause, Triggers, Authorizes, VerifiedBy,
     SemanticDeltaFrom, UpdatesState, Supports, SupportsAnswer, Supersedes, Contradicts,
     ConfirmsSelection, SatisfiesConstraint, ViolatesConstraint, ContributesTo, ExcludedFrom,
     CheckedAgainst, DerivedFrom, Restates, Corrects, ComponentOf, TotalOf, SameEventAs,
     SameEntityAs, QualifiesAs, MatchesRequirement]"

fun known_as_str :: "known_relation \<Rightarrow> string" where
  "known_as_str Contains = ''contains''"
| "known_as_str ContainsEntry = ''contains_entry''"
| "known_as_str HasDimension = ''has_dimension''"
| "known_as_str HasEvidence = ''has_evidence''"
| "known_as_str MemberOf = ''member_of''"
| "known_as_str Records = ''records''"
| "known_as_str ScopedTo = ''scoped_to''"
| "known_as_str Follows = ''follows''"
| "known_as_str Answers = ''answers''"
| "known_as_str UsesBackground = ''uses_background''"
| "known_as_str DependsOn = ''depends_on''"
| "known_as_str ChosenBecause = ''chosen_because''"
| "known_as_str Triggers = ''triggers''"
| "known_as_str Authorizes = ''authorizes''"
| "known_as_str VerifiedBy = ''verified_by''"
| "known_as_str SemanticDeltaFrom = ''semantic_delta_from''"
| "known_as_str UpdatesState = ''updates_state''"
| "known_as_str Supports = ''supports''"
| "known_as_str SupportsAnswer = ''supports_answer''"
| "known_as_str Supersedes = ''supersedes''"
| "known_as_str Contradicts = ''contradicts''"
| "known_as_str ConfirmsSelection = ''confirms_selection''"
| "known_as_str SatisfiesConstraint = ''satisfies_constraint''"
| "known_as_str ViolatesConstraint = ''violates_constraint''"
| "known_as_str ContributesTo = ''contributes_to''"
| "known_as_str ExcludedFrom = ''excluded_from''"
| "known_as_str CheckedAgainst = ''checked_against''"
| "known_as_str DerivedFrom = ''derived_from''"
| "known_as_str Restates = ''restates''"
| "known_as_str Corrects = ''corrects''"
| "known_as_str ComponentOf = ''component_of''"
| "known_as_str TotalOf = ''total_of''"
| "known_as_str SameEventAs = ''same_event_as''"
| "known_as_str SameEntityAs = ''same_entity_as''"
| "known_as_str QualifiesAs = ''qualifies_as''"
| "known_as_str MatchesRequirement = ''matches_requirement''"

text \<open>\<open>normalize_relation_type\<close>: trimmed, dashes and spaces as underscores, ASCII upper case
  lowered. On UTF-8 bytes every other character maps to itself.\<close>

definition ascii_lower :: "char \<Rightarrow> char" where
  "ascii_lower c = (if 65 \<le> byte c \<and> byte c \<le> 90 then char_of (byte c + 32) else c)"

definition normalize_relation_type :: "string \<Rightarrow> string" where
  "normalize_relation_type value =
     map (\<lambda>c. if c = CHR ''-'' \<or> c = CHR '' '' then CHR ''_'' else ascii_lower c) (trim value)"

text \<open>The arms of \<open>parse\<close>, aliases included, in the order the code tries them.\<close>

definition known_names :: "(string \<times> known_relation) list" where
  "known_names =
    [(''contains'', Contains), (''contains_entry'', ContainsEntry),
     (''has_dimension'', HasDimension), (''has_evidence'', HasEvidence),
     (''member_of'', MemberOf), (''records'', Records), (''scoped_to'', ScopedTo),
     (''follows'', Follows), (''answers'', Answers), (''uses_background'', UsesBackground),
     (''depends_on'', DependsOn), (''chosen_because'', ChosenBecause), (''triggers'', Triggers),
     (''authorizes'', Authorizes), (''verified_by'', VerifiedBy),
     (''semantic_delta_from'', SemanticDeltaFrom), (''updates_state'', UpdatesState),
     (''supports'', Supports), (''supports_answer'', SupportsAnswer),
     (''supersedes'', Supersedes), (''contradicts'', Contradicts), (''conflicts'', Contradicts),
     (''conflicts_with'', Contradicts), (''conflict_with'', Contradicts),
     (''confirms_selection'', ConfirmsSelection),
     (''satisfies_constraint'', SatisfiesConstraint),
     (''violates_constraint'', ViolatesConstraint), (''contributes_to'', ContributesTo),
     (''excluded_from'', ExcludedFrom), (''checked_against'', CheckedAgainst),
     (''derived_from'', DerivedFrom), (''restates'', Restates), (''corrects'', Corrects),
     (''component_of'', ComponentOf), (''total_of'', TotalOf), (''same_event_as'', SameEventAs),
     (''same_entity_as'', SameEntityAs), (''qualifies_as'', QualifiesAs),
     (''matches_requirement'', MatchesRequirement),
     (''matches_question_item'', MatchesRequirement)]"

definition known_parse :: "string \<Rightarrow> known_relation option" where
  "known_parse value = map_of known_names (normalize_relation_type value)"

definition is_structural :: "known_relation \<Rightarrow> bool" where
  "is_structural k \<longleftrightarrow> k \<in> {
     Contains, ContainsEntry, HasDimension, HasEvidence, MemberOf, Records, ScopedTo}"

definition is_support_only :: "known_relation \<Rightarrow> bool" where
  "is_support_only k \<longleftrightarrow> k \<in> {
     Supports, SupportsAnswer}"

definition may_cross_abouts :: "known_relation \<Rightarrow> bool" where
  "may_cross_abouts k \<longleftrightarrow> k \<in> {
     SameEventAs, SameEntityAs}"

definition is_operand_modeling :: "known_relation \<Rightarrow> bool" where
  "is_operand_modeling k \<longleftrightarrow> k \<in> {
     ContributesTo, ExcludedFrom, CheckedAgainst, DerivedFrom, Restates, Corrects, ComponentOf,
     TotalOf, SameEventAs, SameEntityAs, QualifiesAs, MatchesRequirement}"

definition is_conflict :: "known_relation \<Rightarrow> bool" where
  "is_conflict k \<longleftrightarrow> k \<in> {
     Contradicts}"

record relation_spec =
  spec_relation_type :: known_relation
  spec_quality :: relation_quality
  spec_allowed_classes :: "semantic_class list"
  spec_reason :: string

definition allows_class :: "relation_spec \<Rightarrow> semantic_class \<Rightarrow> bool" where
  "allows_class s c \<longleftrightarrow> c \<in> set (spec_allowed_classes s)"

definition spec_of :: "known_relation \<Rightarrow> relation_quality \<Rightarrow> semantic_class list \<Rightarrow> string \<Rightarrow> relation_spec option" where
  "spec_of k q cs r = Some \<lparr>spec_relation_type = k, spec_quality = q, spec_allowed_classes = cs, spec_reason = r\<rparr>"

fun writer_spec :: "known_relation \<Rightarrow> relation_spec option" where
  "writer_spec Follows = spec_of Follows Anemic [Procedural]
     ''writer proved process succession but not a richer semantic dependency''"
| "writer_spec Answers = spec_of Answers Anemic [Evidential]
     ''writer proved answerhood but not a richer semantic dependency''"
| "writer_spec UsesBackground = spec_of UsesBackground Anemic [Evidential]
     ''writer scoped the node to background without claiming causal semantics''"
| "writer_spec DependsOn = spec_of DependsOn Rich [Causal]
     ''explicit dependency relation with target ref, why, and evidence''"
| "writer_spec ChosenBecause = spec_of ChosenBecause Rich [Causal, Motivational]
     ''decision relation explains why a prior memory led to the current choice''"
| "writer_spec Triggers = spec_of Triggers Rich [Causal]
     ''causal relation identifies the event or decision that triggered an action''"
| "writer_spec Authorizes = spec_of Authorizes Rich [Causal, Motivational]
     ''approval -> authorizes -> permitted action; permission alone does not prove execution''"
| "writer_spec VerifiedBy = spec_of VerifiedBy Rich [Evidential]
     ''claim or outcome -> verified_by -> actual verifying check; approval or an earlier failure is not verification''"
| "writer_spec SemanticDeltaFrom = spec_of SemanticDeltaFrom Rich [Causal]
     ''delta relation explains how current state changes from prior memory''"
| "writer_spec UpdatesState = spec_of UpdatesState Rich [Causal]
     ''state transition relation identifies what memory is being changed''"
| "writer_spec Supersedes = spec_of Supersedes Rich [Evidential]
     ''replacement -> supersedes -> entire old memory; marks the whole target SUPERSEDED, so separate independent facts first''"
| "writer_spec Contradicts = spec_of Contradicts Rich [Evidential]
     ''conflict relation identifies the contradicted memory and evidence''"
| "writer_spec SatisfiesConstraint = spec_of SatisfiesConstraint Rich [Constraint]
     ''constraint relation identifies the rule satisfied by the current memory''"
| "writer_spec ViolatesConstraint = spec_of ViolatesConstraint Rich [Constraint]
     ''constraint relation identifies the rule violated by the current memory''"
| "writer_spec ContributesTo = spec_of ContributesTo Rich [Evidential]
     ''operand relation marks a value as intentionally included in a derived result''"
| "writer_spec ExcludedFrom = spec_of ExcludedFrom Rich [Constraint]
     ''excluded value or exclusion record -> excluded_from -> total or set; the target is not the excluded item''"
| "writer_spec CheckedAgainst = spec_of CheckedAgainst Rich [Constraint]
     ''verification relation marks a value checked against a rule or window''"
| "writer_spec DerivedFrom = spec_of DerivedFrom Rich [Evidential]
     ''derived value relation identifies source operands or evidence''"
| "writer_spec Supports = spec_of Supports Rich [Evidential]
     ''evidence relation identifies the memory supported by the current observation''"
| "writer_spec ConfirmsSelection = spec_of ConfirmsSelection Rich [Evidential, Motivational]
     ''feedback relation identifies the selection confirmed by later evidence''"
| "writer_spec Restates = spec_of Restates Rich [Evidential]
     ''operand relation marks a repeated claim or value as the same fact''"
| "writer_spec Corrects = spec_of Corrects Rich [Evidential]
     ''corrected fact -> corrects -> earlier fact; explain the specific correction without superseding the whole target''"
| "writer_spec ComponentOf = spec_of ComponentOf Rich [Evidential]
     ''operand relation marks a value as part of a larger total or set''"
| "writer_spec TotalOf = spec_of TotalOf Rich [Evidential]
     ''operand relation marks a value as an aggregate total for component values''"
| "writer_spec SameEventAs = spec_of SameEventAs Rich [Evidential]
     ''identity relation declares two refs the same event or entity; the one relation that may cross an about, declared by a writer from a kmp_relate proposal''"
| "writer_spec SameEntityAs = spec_of SameEntityAs Rich [Evidential]
     ''identity relation declares two refs the same event or entity; the one relation that may cross an about, declared by a writer from a kmp_relate proposal''"
| "writer_spec QualifiesAs = spec_of QualifiesAs Rich [Evidential]
     ''identity relation disambiguates whether refs describe the same item''"
| "writer_spec MatchesRequirement = spec_of MatchesRequirement Rich [Constraint]
     ''operand relation marks a ref as satisfying the query or requirement predicate''"
| "writer_spec Contains = spec_of Contains StructuralQuality [Structural]
     ''structural relation is accepted but excluded from semantic writer quality''"
| "writer_spec MemberOf = spec_of MemberOf StructuralQuality [Structural]
     ''structural relation is accepted but excluded from semantic writer quality''"
| "writer_spec ScopedTo = spec_of ScopedTo StructuralQuality [Structural]
     ''structural relation is accepted but excluded from semantic writer quality''"
| "writer_spec ContainsEntry = None"
| "writer_spec HasDimension = None"
| "writer_spec HasEvidence = None"
| "writer_spec Records = None"
| "writer_spec SupportsAnswer = None"

definition writer_relation_types :: "known_relation list" where
  "writer_relation_types =
    [Follows, Answers, UsesBackground, DependsOn, ChosenBecause, Triggers, Authorizes,
     VerifiedBy, SemanticDeltaFrom, UpdatesState, Supports, Supersedes, Contradicts,
     SatisfiesConstraint, ViolatesConstraint, ContributesTo, ExcludedFrom, CheckedAgainst,
     DerivedFrom, ConfirmsSelection, Restates, Corrects, ComponentOf, TotalOf, SameEventAs,
     SameEntityAs, QualifiesAs, MatchesRequirement, Contains, MemberOf, ScopedTo]"

subsection \<open>Relation types a writer may bring\<close>

text \<open>An unknown name is kept as written, trimmed; a known one is replaced by its wire name.\<close>

record relation_type =
  rt_canonical :: string
  rt_known :: "known_relation option"

definition relation_type_new :: "string \<Rightarrow> relation_type domain_result" where
  "relation_type_new value =
     (let trimmed = trim value in
      if trimmed = [] then Inl (EmptyValue ''relation_type'')
      else let known = known_parse trimmed in
        Inr \<lparr>rt_canonical = (case known of Some k \<Rightarrow> known_as_str k | None \<Rightarrow> trimmed), rt_known = known\<rparr>)"

definition is_some_and :: "'a option \<Rightarrow> ('a \<Rightarrow> bool) \<Rightarrow> bool" where
  "is_some_and v p = (case v of None \<Rightarrow> False | Some x \<Rightarrow> p x)"

definition rt_is_structural :: "relation_type \<Rightarrow> bool" where
  "rt_is_structural r = is_some_and (rt_known r) is_structural"

definition rt_may_cross_abouts :: "relation_type \<Rightarrow> bool" where
  "rt_may_cross_abouts r = is_some_and (rt_known r) may_cross_abouts"

definition rt_writer_spec :: "relation_type \<Rightarrow> relation_spec option" where
  "rt_writer_spec r = Option.bind (rt_known r) writer_spec"

definition requires_writer_review :: "relation_type \<Rightarrow> bool" where
  "requires_writer_review r =
     (case rt_writer_spec r of None \<Rightarrow> True | Some s \<Rightarrow> spec_quality s = Rich)"

subsection \<open>Facts\<close>

lemma known_relations_UNIV: "set known_relations = UNIV"
proof -
  have "k \<in> set known_relations" for k
    by (cases k) (simp_all add: known_relations_def)
  then show ?thesis by blast
qed

definition wire_char :: "char \<Rightarrow> bool" where
  "wire_char c \<longleftrightarrow> c = CHR ''_'' \<or> (97 \<le> byte c \<and> byte c \<le> 122)"

lemma known_as_str_wire: "list_all wire_char (known_as_str k) \<and> known_as_str k \<noteq> []"
  by (cases k) (simp_all add: wire_char_def byte_def)

lemma wire_char_graphic: "wire_char c \<Longrightarrow> 33 \<le> byte c \<and> byte c < 128"
  by (auto simp: wire_char_def) (simp_all add: byte_def)

lemma wire_trim: "list_all wire_char s \<Longrightarrow> trim s = s"
proof (rule trim_id)
  assume s: "list_all wire_char s"
  show "drop_space s = None"
    using s wire_char_graphic drop_space_graphic by (cases s) auto
  have "list_all wire_char (rev s)" using s by simp
  then show "drop_space_rev (rev s) = None"
    using wire_char_graphic drop_space_rev_graphic by (cases "rev s") auto
qed

lemma wire_normalize: "list_all wire_char s \<Longrightarrow> normalize_relation_type s = s"
proof -
  assume s: "list_all wire_char s"
  have "(if c = CHR ''-'' \<or> c = CHR '' '' then CHR ''_'' else ascii_lower c) = c" if "wire_char c" for c
    using that by (auto simp: wire_char_def ascii_lower_def) (simp_all add: byte_def)
  with s show ?thesis
    by (simp add: normalize_relation_type_def wire_trim list_all_iff map_idI)
qed

lemma known_as_str_trim: "trim (known_as_str k) = known_as_str k \<and> known_as_str k \<noteq> []"
  using known_as_str_wire wire_trim by blast

lemma known_names_as_str: "map_of known_names (known_as_str k) = Some k"
  by (cases k) (simp_all add: known_names_def)

lemma known_round_trip: "known_parse (known_as_str k) = Some k"
  using known_as_str_wire wire_normalize known_names_as_str by (simp add: known_parse_def)

lemma known_as_str_inject: "known_as_str j = known_as_str k \<longleftrightarrow> j = k"
  by (metis known_round_trip option.inject)

lemma known_parse_cases:
  "known_parse v = Some k \<Longrightarrow> normalize_relation_type v = known_as_str k
     \<or> k = Contradicts \<and> normalize_relation_type v \<in> {''conflicts'', ''conflicts_with'', ''conflict_with''}
     \<or> k = MatchesRequirement \<and> normalize_relation_type v = ''matches_question_item''"
proof -
  assume "known_parse v = Some k"
  then have mem: "(normalize_relation_type v, k) \<in> set known_names"
    unfolding known_parse_def by (rule map_of_SomeD)
  have all: "list_all (\<lambda>(n, k). n = known_as_str k
     \<or> k = Contradicts \<and> n \<in> {''conflicts'', ''conflicts_with'', ''conflict_with''}
     \<or> k = MatchesRequirement \<and> n = ''matches_question_item'') known_names"
    by (simp add: known_names_def)
  from all [unfolded list_all_iff, rule_format, OF mem] show ?thesis by simp
qed

lemma relation_type_new_canonical:
  assumes "relation_type_new v = Inr r"
  shows "relation_type_new (rt_canonical r) = Inr r"
proof -
  let ?t = "trim v"
  have t: "?t \<noteq> []" and r: "r = \<lparr>rt_canonical = (case known_parse ?t of Some k \<Rightarrow> known_as_str k | None \<Rightarrow> ?t),
      rt_known = known_parse ?t\<rparr>"
    using assms by (simp_all add: relation_type_new_def Let_def split: if_splits)
  show ?thesis
  proof (cases "known_parse ?t")
    case None
    then show ?thesis using t by (simp add: r relation_type_new_def Let_def)
  next
    case (Some k)
    then show ?thesis
      using known_as_str_trim by (simp add: r relation_type_new_def Let_def known_round_trip)
  qed
qed

text \<open>Every relation a writer may use has a specification that allows at least one class, and
  none of the relations the kernel writes itself has one.\<close>

lemma writer_relations:
  "k \<in> set writer_relation_types \<longleftrightarrow> (\<exists>s. writer_spec k = Some s)"
  by (cases k) (simp_all add: writer_relation_types_def spec_of_def)

lemma writer_spec_sound:
  assumes "writer_spec k = Some s"
  shows "spec_relation_type s = k" and "spec_allowed_classes s \<noteq> []"
    and "spec_quality s = StructuralQuality \<longleftrightarrow> is_structural k"
    and "allows_class s Structural \<longleftrightarrow> is_structural k"
    and "spec_quality s \<noteq> Suspect"
proof -
  have "spec_relation_type s = k \<and> spec_allowed_classes s \<noteq> []
      \<and> (spec_quality s = StructuralQuality) = is_structural k
      \<and> (Structural \<in> set (spec_allowed_classes s)) = is_structural k
      \<and> spec_quality s \<noteq> Suspect"
    using assms by (cases k) (auto simp: spec_of_def is_structural_def)
  with assms show "spec_relation_type s = k" "spec_allowed_classes s \<noteq> []"
    "spec_quality s = StructuralQuality \<longleftrightarrow> is_structural k"
    "allows_class s Structural \<longleftrightarrow> is_structural k" "spec_quality s \<noteq> Suspect"
    by (simp_all add: allows_class_def)
qed

subsection \<open>Properties\<close>

text \<open>Every relation the kernel owns is read from its wire name as itself, and normalising a
  relation type is idempotent: the canonical name is a fixed point.\<close>

theorem relation_names_canonical:
  "known_parse (known_as_str k) = Some k
   \<and> (relation_type_new v = Inr r \<longrightarrow> relation_type_new (rt_canonical r) = Inr r)"
  using known_round_trip relation_type_new_canonical by blast

theorem relation_names_canonical_witness:
  "relation_type_new ''contradicts'' = Inr \<lparr>rt_canonical = ''contradicts'', rt_known = Some Contradicts\<rparr>"
proof -
  have "relation_type_new '' CONFLICTS-WITH '' = Inr \<lparr>rt_canonical = ''contradicts'', rt_known = Some Contradicts\<rparr>"
    by code_simp
  with relation_names_canonical show ?thesis by fastforce
qed

text \<open>A relation has a writer specification exactly when it is in the writer's list; the
  specification names that relation, allows at least one class, is of structural quality
  exactly for structural relations and only those may be of the structural class.\<close>

theorem writer_specifications:
  "(k \<in> set writer_relation_types \<longleftrightarrow> writer_spec k \<noteq> None)
   \<and> (writer_spec k = Some s \<longrightarrow> spec_relation_type s = k \<and> spec_allowed_classes s \<noteq> []
     \<and> (spec_quality s = StructuralQuality \<longleftrightarrow> is_structural k)
     \<and> (allows_class s Structural \<longleftrightarrow> is_structural k))"
  using writer_relations [of k] writer_spec_sound [of k s] by auto

theorem writer_specifications_witness:
  "allows_class (the (writer_spec MemberOf)) Structural \<longleftrightarrow> is_structural MemberOf"
  using writer_specifications [of MemberOf "the (writer_spec MemberOf)"] by (simp add: spec_of_def)

end
