(* ===== verification/BTree.thy ===== *)
theory BTree
  imports Prelude
begin

text \<open>
  Rust's ordered collections as the code uses them. A \<open>BTreeSet\<close> is its strictly increasing
  list of elements and a \<open>BTreeMap\<close> its association list in increasing key order, so that
  iteration, equality and the derived \<open>Ord\<close> of the collections are those of the lists. The
  contract of each is a locale, interpreted on the list operations; the laws are what the
  components use.
\<close>

subsection \<open>Sets\<close>

type_synonym 'a bset = "'a list"

definition bset_insert :: "'a::linorder \<Rightarrow> 'a bset \<Rightarrow> 'a bset" where
  "bset_insert x s = List.insort_insert x s"

definition bset_of :: "'a::linorder list \<Rightarrow> 'a bset" where
  "bset_of xs = foldl (\<lambda>s x. bset_insert x s) [] xs"

definition bset_ok :: "'a::linorder bset \<Rightarrow> bool" where
  "bset_ok s \<longleftrightarrow> sorted s \<and> distinct s"

lemma set_bset_insert [simp]: "set (bset_insert x s) = insert x (set s)"
  by (simp add: bset_insert_def set_insort_insert)

lemma bset_ok_Nil [simp]: "bset_ok []"
  by (simp add: bset_ok_def)

lemma bset_ok_insert [simp]: "bset_ok s \<Longrightarrow> bset_ok (bset_insert x s)"
  by (simp add: bset_ok_def bset_insert_def sorted_insort_insert distinct_insort_insert)

lemma bset_fold:
  "set (foldl (\<lambda>s x. bset_insert x s) s xs) = set s \<union> set xs"
  "bset_ok s \<Longrightarrow> bset_ok (foldl (\<lambda>s x. bset_insert x s) s xs)"
  by (induction xs arbitrary: s) auto

lemma set_bset_of [simp]: "set (bset_of xs) = set xs"
  by (simp add: bset_of_def bset_fold)

lemma bset_ok_of [simp]: "bset_ok (bset_of xs)"
  by (simp add: bset_of_def bset_fold)

lemma bset_ok_eqI: "bset_ok s \<Longrightarrow> bset_ok t \<Longrightarrow> set s = set t \<Longrightarrow> s = t"
  by (simp add: bset_ok_def sorted_distinct_set_unique)

lemma bset_of_cong: "set xs = set ys \<Longrightarrow> bset_of xs = bset_of ys"
  by (rule bset_ok_eqI) simp_all

lemma bset_of_id: "bset_ok s \<Longrightarrow> bset_of s = s"
  by (rule bset_ok_eqI) simp_all

lemma bset_ok_filter [simp]: "bset_ok s \<Longrightarrow> bset_ok (filter P s)"
  by (simp add: bset_ok_def sorted_wrt_filter)

lemma length_bset: "bset_ok s \<Longrightarrow> length s = card (set s)"
  by (simp add: bset_ok_def distinct_card)

locale ordered_set =
  fixes empty :: "'s"
    and insert :: "'a::linorder \<Rightarrow> 's \<Rightarrow> 's"
    and iter :: "'s \<Rightarrow> 'a list"
    and ok :: "'s \<Rightarrow> bool"
  assumes ok_empty: "ok empty"
    and ok_insert: "ok s \<Longrightarrow> ok (insert x s)"
    and iter_empty: "set (iter empty) = {}"
    and iter_insert: "ok s \<Longrightarrow> set (iter (insert x s)) = Set.insert x (set (iter s))"
    and iter_sorted: "ok s \<Longrightarrow> sorted (iter s) \<and> distinct (iter s)"
begin

text \<open>Collecting an iterator: what is in the set, and that the iteration order forgets the
  order the elements came in.\<close>

lemma collect_ok: "ok s \<Longrightarrow> ok (foldl (\<lambda>s x. insert x s) s xs)"
  by (induction xs arbitrary: s) (simp_all add: ok_insert)

lemma collect_set: "ok s \<Longrightarrow> set (iter (foldl (\<lambda>s x. insert x s) s xs)) = set (iter s) \<union> set xs"
  by (induction xs arbitrary: s) (simp_all add: ok_insert iter_insert)

lemma collect_canonical:
  assumes "set xs = set ys"
  shows "iter (foldl (\<lambda>s x. insert x s) empty xs) = iter (foldl (\<lambda>s x. insert x s) empty ys)"
  using assms by (intro sorted_distinct_set_unique)
    (simp_all add: collect_ok collect_set ok_empty iter_sorted)

end

interpretation bset: ordered_set "[]" bset_insert "\<lambda>s. s" bset_ok
  by unfold_locales (simp_all, simp_all add: bset_ok_def)

subsection \<open>Maps\<close>

type_synonym ('k, 'v) bmap = "('k \<times> 'v) list"

definition bmap_ok :: "('k::linorder, 'v) bmap \<Rightarrow> bool" where
  "bmap_ok m \<longleftrightarrow> sorted (map fst m) \<and> distinct (map fst m)"

text \<open>\<open>entry(k)\<close> followed by a modification of the value there, \<open>d\<close> when there is none.\<close>

fun bmap_update :: "'k::linorder \<Rightarrow> ('v option \<Rightarrow> 'v) \<Rightarrow> ('k, 'v) bmap \<Rightarrow> ('k, 'v) bmap" where
  "bmap_update k f [] = [(k, f None)]"
| "bmap_update k f ((j, v) # m) =
     (if k < j then (k, f None) # (j, v) # m
      else if k = j then (j, f (Some v)) # m
      else (j, v) # bmap_update k f m)"

definition bmap_insert :: "'k::linorder \<Rightarrow> 'v \<Rightarrow> ('k, 'v) bmap \<Rightarrow> ('k, 'v) bmap" where
  "bmap_insert k v m = bmap_update k (\<lambda>_. v) m"

definition bmap_get :: "('k::linorder, 'v) bmap \<Rightarrow> 'k \<Rightarrow> 'v option" where
  "bmap_get m k = map_of m k"

definition bmap_keys :: "('k::linorder, 'v) bmap \<Rightarrow> 'k list" where
  "bmap_keys m = map fst m"

lemma bmap_update_keys: "fst ` set (bmap_update k f m) = insert k (fst ` set m)"
  by (induction k f m rule: bmap_update.induct) auto

lemma bmap_ok_Nil [simp]: "bmap_ok []"
  by (simp add: bmap_ok_def)

lemma bmap_ok_Cons: "bmap_ok ((j, v) # m) \<longleftrightarrow> (\<forall>k \<in> fst ` set m. j < k) \<and> bmap_ok m"
  by (auto simp: bmap_ok_def) (metis fst_conv image_eqI le_neq_trans)

lemma bmap_ok_update [simp]: "bmap_ok m \<Longrightarrow> bmap_ok (bmap_update k f m)"
  by (induction k f m rule: bmap_update.induct) (auto simp: bmap_ok_Cons bmap_update_keys)

lemma bmap_get_update:
  "bmap_ok m \<Longrightarrow> bmap_get (bmap_update k f m) i = (if i = k then Some (f (bmap_get m k)) else bmap_get m i)"
proof (induction k f m rule: bmap_update.induct)
  case (1 k f)
  then show ?case by (simp add: bmap_get_def)
next
  case (2 k f j v m)
  have "map_of m k = None" if "k < j"
    using 2 that by (auto simp: bmap_ok_Cons map_of_eq_None_iff)
  then show ?case using 2 by (auto simp: bmap_get_def bmap_ok_Cons)
qed

lemma bmap_ok_insert [simp]: "bmap_ok m \<Longrightarrow> bmap_ok (bmap_insert k v m)"
  by (simp add: bmap_insert_def)

lemma bmap_get_insert: "bmap_ok m \<Longrightarrow> bmap_get (bmap_insert k v m) i = (if i = k then Some v else bmap_get m i)"
  by (simp add: bmap_insert_def bmap_get_update)

lemma bmap_keys_iff: "k \<in> set (bmap_keys m) \<longleftrightarrow> bmap_get m k \<noteq> None"
  by (simp add: bmap_keys_def bmap_get_def map_of_eq_None_iff)

text \<open>Two maps that answer every lookup alike are the same map.\<close>

lemma bmap_eqI:
  assumes "bmap_ok m" and "bmap_ok n" and "\<And>k. bmap_get m k = bmap_get n k"
  shows "m = n"
proof -
  have "k \<in> set (bmap_keys m) \<longleftrightarrow> k \<in> set (bmap_keys n)" for k
    using assms(3) [of k] by (simp add: bmap_keys_iff)
  then have "set (map fst m) = set (map fst n)" unfolding bmap_keys_def by blast
  then have keys: "map fst m = map fst n"
    using assms(1,2) by (intro sorted_distinct_set_unique) (simp_all add: bmap_ok_def)
  moreover have "map snd m = map snd n"
  proof (rule nth_equalityI)
    have "length (map fst m) = length (map fst n)" using keys by simp
    then show len: "length (map snd m) = length (map snd n)" by simp
    fix j assume j: "j < length (map snd m)"
    have at: "map_of l (fst (l ! j)) = Some (snd (l ! j))" if "bmap_ok l" "j < length l" for l :: "('a, 'b) bmap"
      using that by (intro map_of_is_SomeI) (simp_all add: bmap_ok_def)
    have "fst (m ! j) = fst (n ! j)"
      using arg_cong [OF keys, of "\<lambda>l. l ! j"] j len by simp
    then show "map snd m ! j = map snd n ! j"
      using at [OF assms(1)] at [OF assms(2)] assms(3) [of "fst (m ! j)"] j len
      by (simp add: bmap_get_def)
  qed
  ultimately show ?thesis by (metis zip_map_fst_snd)
qed

lemma bmap_entry_get: "bmap_ok m \<Longrightarrow> (k, v) \<in> set m \<longleftrightarrow> bmap_get m k = Some v"
  by (auto simp: bmap_ok_def bmap_get_def)

definition bmap_remove :: "'k::linorder \<Rightarrow> ('k, 'v) bmap \<Rightarrow> ('k, 'v) bmap" where
  "bmap_remove k m = filter (\<lambda>e. fst e \<noteq> k) m"

lemma bmap_ok_remove [simp]: "bmap_ok m \<Longrightarrow> bmap_ok (bmap_remove k m)"
  by (simp add: bmap_ok_def bmap_remove_def sorted_filter distinct_map_filter)

lemma bmap_get_remove: "bmap_get (bmap_remove k m) i = (if i = k then None else bmap_get m i)"
  by (induction m) (auto simp: bmap_get_def bmap_remove_def)

locale ordered_map =
  fixes empty :: "'m"
    and update :: "'k::linorder \<Rightarrow> ('v option \<Rightarrow> 'v) \<Rightarrow> 'm \<Rightarrow> 'm"
    and get :: "'m \<Rightarrow> 'k \<Rightarrow> 'v option"
    and keys :: "'m \<Rightarrow> 'k list"
    and ok :: "'m \<Rightarrow> bool"
  assumes ok_empty: "ok empty"
    and ok_update: "ok m \<Longrightarrow> ok (update k f m)"
    and get_empty: "get empty k = None"
    and get_update: "ok m \<Longrightarrow> get (update k f m) i = (if i = k then Some (f (get m k)) else get m i)"
    and keys_get: "ok m \<Longrightarrow> i \<in> set (keys m) \<longleftrightarrow> get m i \<noteq> None"
begin

text \<open>Grouping: \<open>for (k, v) in pairs { m.entry(k).or_default().push(v) }\<close>.\<close>

lemma group_ok: "ok m \<Longrightarrow> ok (foldl (\<lambda>m x. update (key x) (g x) m) m xs)"
  by (induction xs arbitrary: m) (simp_all add: ok_update)

lemma group_get:
  assumes "ok m"
  shows "get (foldl (\<lambda>m x. update (key x) (g x) m) m xs) k =
    foldl (\<lambda>v x. if key x = k then Some (g x v) else v) (get m k) xs"
  using assms by (induction xs arbitrary: m) (auto simp: ok_update get_update)

lemma group_keys:
  assumes "ok m"
  shows "set (keys (foldl (\<lambda>m x. update (key x) (g x) m) m xs)) = set (keys m) \<union> key ` set xs"
  using assms
proof (induction xs arbitrary: m)
  case Nil
  then show ?case by simp
next
  case (Cons x xs)
  have "set (keys (update (key x) (g x) m)) = insert (key x) (set (keys m))"
    using Cons.prems by (auto simp: keys_get ok_update get_update split: if_splits)
  with Cons show ?case by (simp add: ok_update)
qed

end

interpretation bmap: ordered_map "[]" bmap_update bmap_get bmap_keys bmap_ok
  by unfold_locales (simp_all add: bmap_get_update bmap_keys_iff, simp add: bmap_get_def)

end
