(* ===== verification/Explanations.thy ===== *)
theory Explanations
  imports Relations BTree
begin

text \<open>
  What an edge says about itself (\<open>value_objects/relation_explanation.rs\<close>) and where a fact came
  from (\<open>value_objects/provenance.rs\<close>, \<open>value_objects/source_kind.rs\<close>). An explanation is stored
  as a property map; the lemmas are that storing and reading is the identity on normalised
  explanations and that whatever is read is normalised.
\<close>

subsection \<open>Unsigned 32-bit numbers as text\<close>

text \<open>\<open>str::parse::<u32>\<close> and the message of its error. The digits are read one at a time, so
  the first fault met decides which error it is.\<close>

datatype parse_int_error = PieEmpty | PieInvalidDigit | PiePosOverflow

fun parse_int_error_text :: "parse_int_error \<Rightarrow> string" where
  "parse_int_error_text PieEmpty = ''cannot parse integer from empty string''"
| "parse_int_error_text PieInvalidDigit = ''invalid digit found in string''"
| "parse_int_error_text PiePosOverflow = ''number too large to fit in target type''"

fun parse_u32_digits :: "nat \<Rightarrow> string \<Rightarrow> parse_int_error + nat" where
  "parse_u32_digits acc [] = Inr acc"
| "parse_u32_digits acc (c # s) =
     (if \<not> is_digit c then Inl PieInvalidDigit
      else if 2 ^ 32 \<le> acc * 10 \<or> 2 ^ 32 \<le> acc * 10 + digit_val c then Inl PiePosOverflow
      else parse_u32_digits (acc * 10 + digit_val c) s)"

definition parse_u32 :: "string \<Rightarrow> parse_int_error + 32 word" where
  "parse_u32 s =
     (case s of [] \<Rightarrow> Inl PieEmpty
      | c # r \<Rightarrow>
          if r = [] \<and> (c = CHR ''+'' \<or> c = CHR ''-'') then Inl PieInvalidDigit
          else map_sum id of_nat (parse_u32_digits 0 (if c = CHR ''+'' then r else s)))"

definition show_u32 :: "32 word \<Rightarrow> string" where
  "show_u32 w = dec (unat w)"

lemma parse_u32_digits_value:
  "list_all is_digit s \<Longrightarrow> digits_value (p @ s) < 2 ^ 32
     \<Longrightarrow> parse_u32_digits (digits_value p) s = Inr (digits_value (p @ s))"
proof (induction s arbitrary: p)
  case (Cons c s)
  have step: "digits_value (p @ [c]) = digits_value p * 10 + digit_val c" by simp
  have le: "digits_value q \<le> digits_value (q @ r)" for q r
  proof (induction r rule: rev_induct)
    case (snoc x r)
    then show ?case by (simp flip: append_assoc)
  qed simp
  have "digits_value (p @ [c]) < 2 ^ 32"
    using Cons.prems(2) le [of "p @ [c]" s] by simp
  then show ?case
    using Cons.IH [of "p @ [c]"] Cons.prems step by (simp add: mult.commute)
qed simp

lemma parse_show_u32 [simp]: "parse_u32 (show_u32 w) = Inr w"
proof -
  obtain c r where s: "show_u32 w = c # r" "is_digit c"
    using dec_digits [of "unat w"] dec_not_Nil [of "unat w"]
    by (cases "dec (unat w)") (auto simp: show_u32_def)
  then have sign: "c \<noteq> CHR ''+''" "c \<noteq> CHR ''-''" by (auto simp: is_digit_def byte_def)
  have "unat w < 2 ^ 32" using unsigned_less [of w] by simp
  then have "parse_u32_digits 0 (show_u32 w) = Inr (unat w)"
    using parse_u32_digits_value [of "show_u32 w" "[]"] by (simp add: show_u32_def)
  with s sign show ?thesis by (simp add: parse_u32_def)
qed

subsection \<open>Relation explanations\<close>

record relation_explanation =
  rex_semantic_class :: semantic_class
  rex_rationale :: "string option"
  rex_motivation :: "string option"
  rex_method :: "string option"
  rex_decision_id :: "string option"
  rex_caused_by_node_id :: "string option"
  rex_evidence :: "string option"
  rex_confidence :: "string option"
  rex_dimension :: "string option"
  rex_scope_id :: "string option"
  rex_occurred_at :: "string option"
  rex_observed_at :: "string option"
  rex_ingested_at :: "string option"
  rex_valid_from :: "string option"
  rex_valid_until :: "string option"
  rex_sequence :: "32 word option"
  rex_rank :: "32 word option"

definition rex_new :: "semantic_class \<Rightarrow> relation_explanation" where
  "rex_new c = \<lparr>rex_semantic_class = c, rex_rationale = None, rex_motivation = None,
     rex_method = None, rex_decision_id = None, rex_caused_by_node_id = None,
     rex_evidence = None, rex_confidence = None, rex_dimension = None, rex_scope_id = None,
     rex_occurred_at = None, rex_observed_at = None, rex_ingested_at = None,
     rex_valid_from = None, rex_valid_until = None, rex_sequence = None, rex_rank = None\<rparr>"

text \<open>The number fields: a missing key is no number, an unreadable one an error.\<close>

definition read_u32 :: "string \<Rightarrow> string option \<Rightarrow> (32 word option) domain_result" where
  "read_u32 name v = (case v of None \<Rightarrow> Inr None | Some value \<Rightarrow>
     (case parse_u32 value of
        Inr w \<Rightarrow> Inr (Some w)
      | Inl e \<Rightarrow> Inl (InvalidState (''invalid relation '' @ name @ '' `'' @ value @ ''`: ''
                     @ parse_int_error_text e))))"

definition or_else :: "'a option \<Rightarrow> 'a option \<Rightarrow> 'a option" where
  "or_else a b = (case a of None \<Rightarrow> b | Some x \<Rightarrow> Some x)"

definition rex_from_properties ::
  "(string, string) bmap \<Rightarrow> relation_explanation domain_result" where
  "rex_from_properties p =
     try_bind (case bmap_get p ''semantic_class'' of
         None \<Rightarrow> Inl (InvalidState ''relation explanation is missing `semantic_class`'')
       | Some c \<Rightarrow> class_parse c) (\<lambda>c.
     try_bind (read_u32 ''sequence'' (or_else (bmap_get p ''sequence'') (bmap_get p ''order''))) (\<lambda>sequence.
     try_bind (read_u32 ''rank'' (bmap_get p ''rank'')) (\<lambda>rank.
     Inr \<lparr>rex_semantic_class = c,
       rex_rationale = normalize_optional (bmap_get p ''rationale''),
       rex_motivation = normalize_optional (bmap_get p ''motivation''),
       rex_method = normalize_optional (bmap_get p ''method''),
       rex_decision_id = normalize_optional (bmap_get p ''decision_id''),
       rex_caused_by_node_id = normalize_optional (bmap_get p ''caused_by_node_id''),
       rex_evidence = normalize_optional (bmap_get p ''evidence''),
       rex_confidence = normalize_optional (bmap_get p ''confidence''),
       rex_dimension = normalize_optional (bmap_get p ''dimension''),
       rex_scope_id = normalize_optional (bmap_get p ''scope_id''),
       rex_occurred_at = normalize_optional (bmap_get p ''occurred_at''),
       rex_observed_at = normalize_optional (bmap_get p ''observed_at''),
       rex_ingested_at = normalize_optional (bmap_get p ''ingested_at''),
       rex_valid_from = normalize_optional (bmap_get p ''valid_from''),
       rex_valid_until = normalize_optional (bmap_get p ''valid_until''),
       rex_sequence = sequence, rex_rank = rank\<rparr>)))"

definition insert_optional :: "string \<Rightarrow> string option \<Rightarrow> (string, string) bmap \<Rightarrow> (string, string) bmap" where
  "insert_optional k v m = (case v of None \<Rightarrow> m | Some x \<Rightarrow> bmap_insert k x m)"

definition rex_to_properties :: "relation_explanation \<Rightarrow> (string, string) bmap" where
  "rex_to_properties e = fold (\<lambda>(k, v). insert_optional k v)
     [(''semantic_class'', Some (class_as_str (rex_semantic_class e))),
      (''rationale'', rex_rationale e), (''motivation'', rex_motivation e),
      (''method'', rex_method e), (''decision_id'', rex_decision_id e),
      (''caused_by_node_id'', rex_caused_by_node_id e), (''evidence'', rex_evidence e),
      (''confidence'', rex_confidence e), (''dimension'', rex_dimension e),
      (''scope_id'', rex_scope_id e), (''occurred_at'', rex_occurred_at e),
      (''observed_at'', rex_observed_at e), (''ingested_at'', rex_ingested_at e),
      (''valid_from'', rex_valid_from e), (''valid_until'', rex_valid_until e),
      (''sequence'', map_option show_u32 (rex_sequence e)),
      (''rank'', map_option show_u32 (rex_rank e))] []"

subsection \<open>Normalised explanations\<close>

definition text_ok :: "string option \<Rightarrow> bool" where
  "text_ok v \<longleftrightarrow> (case v of None \<Rightarrow> True | Some s \<Rightarrow> s \<noteq> [] \<and> trim s = s)"

definition rex_ok :: "relation_explanation \<Rightarrow> bool" where
  "rex_ok e \<longleftrightarrow> list_all (\<lambda>f. text_ok (f e))
     [rex_rationale, rex_motivation, rex_method, rex_decision_id, rex_caused_by_node_id,
      rex_evidence, rex_confidence, rex_dimension, rex_scope_id, rex_occurred_at,
      rex_observed_at, rex_ingested_at, rex_valid_from, rex_valid_until]"

lemma text_ok_normalize [simp]: "text_ok (normalize_optional v)"
  by (auto simp: text_ok_def normalize_optional_def split: option.splits)

lemma normalize_text_ok: "text_ok v \<Longrightarrow> normalize_optional v = v"
  by (auto simp: text_ok_def normalize_optional_def split: option.splits)

lemma rex_from_properties_ok: "rex_from_properties p = Inr e \<Longrightarrow> rex_ok e"
  by (auto simp: rex_from_properties_def try_bind_Inr_iff rex_ok_def)

lemma bmap_ok_insert_optional [simp]: "bmap_ok m \<Longrightarrow> bmap_ok (insert_optional k v m)"
  by (simp add: insert_optional_def split: option.splits)

lemma bmap_get_insert_optional:
  "bmap_ok m \<Longrightarrow> bmap_get (insert_optional k v m) i = (if i = k then or_else v (bmap_get m k) else bmap_get m i)"
  by (simp add: insert_optional_def bmap_get_insert or_else_def split: option.splits)

lemma bmap_ok_fold_optional: "bmap_ok m \<Longrightarrow> bmap_ok (fold (\<lambda>(k, v). insert_optional k v) kvs m)"
  by (induction kvs arbitrary: m) auto

lemma bmap_get_fold_optional:
  "bmap_ok m \<Longrightarrow> distinct (map fst kvs) \<Longrightarrow> bmap_get (fold (\<lambda>(k, v). insert_optional k v) kvs m) i =
     (case map_of kvs i of None \<Rightarrow> bmap_get m i | Some v \<Rightarrow> or_else v (bmap_get m i))"
proof (induction kvs arbitrary: m)
  case (Cons kv kvs)
  obtain k v where kv: "kv = (k, v)" by (cases kv)
  have IH: "bmap_get (fold (\<lambda>(k, v). insert_optional k v) kvs (insert_optional k v m)) i =
      (case map_of kvs i of None \<Rightarrow> bmap_get (insert_optional k v m) i
       | Some w \<Rightarrow> or_else w (bmap_get (insert_optional k v m) i))"
    using Cons by simp
  have "map_of kvs k = None" using Cons.prems kv by (simp add: map_of_eq_None_iff)
  then show ?case
    using IH Cons.prems(1) by (auto simp: kv bmap_get_insert_optional split: option.splits)
qed simp

lemma bmap_get_Nil [simp]: "bmap_get [] k = None"
  by (simp add: bmap_get_def)

lemma or_else_None [simp]: "or_else v None = v" "or_else None v = v"
  by (simp_all add: or_else_def split: option.splits)

lemma read_show_u32 [simp]: "read_u32 f (map_option show_u32 v) = Inr v"
  by (cases v) (simp_all add: read_u32_def)

text \<open>The property each key of the map holds.\<close>

lemma rex_to_properties_get:
  "bmap_get (rex_to_properties e) ''semantic_class'' = Some (class_as_str (rex_semantic_class e))"
  "bmap_get (rex_to_properties e) ''rationale'' = rex_rationale e"
  "bmap_get (rex_to_properties e) ''motivation'' = rex_motivation e"
  "bmap_get (rex_to_properties e) ''method'' = rex_method e"
  "bmap_get (rex_to_properties e) ''decision_id'' = rex_decision_id e"
  "bmap_get (rex_to_properties e) ''caused_by_node_id'' = rex_caused_by_node_id e"
  "bmap_get (rex_to_properties e) ''evidence'' = rex_evidence e"
  "bmap_get (rex_to_properties e) ''confidence'' = rex_confidence e"
  "bmap_get (rex_to_properties e) ''dimension'' = rex_dimension e"
  "bmap_get (rex_to_properties e) ''scope_id'' = rex_scope_id e"
  "bmap_get (rex_to_properties e) ''occurred_at'' = rex_occurred_at e"
  "bmap_get (rex_to_properties e) ''observed_at'' = rex_observed_at e"
  "bmap_get (rex_to_properties e) ''ingested_at'' = rex_ingested_at e"
  "bmap_get (rex_to_properties e) ''valid_from'' = rex_valid_from e"
  "bmap_get (rex_to_properties e) ''valid_until'' = rex_valid_until e"
  "bmap_get (rex_to_properties e) ''sequence'' = map_option show_u32 (rex_sequence e)"
  "bmap_get (rex_to_properties e) ''rank'' = map_option show_u32 (rex_rank e)"
  "bmap_get (rex_to_properties e) ''order'' = None"
  unfolding rex_to_properties_def by (subst bmap_get_fold_optional; simp)+

lemma rex_round_trip:
  assumes "rex_ok e"
  shows "rex_from_properties (rex_to_properties e) = Inr e"
  using assms
  by (simp add: rex_from_properties_def rex_to_properties_get class_round_trip rex_ok_def normalize_text_ok)

subsection \<open>Provenance\<close>

datatype source_kind = Human | Agent | Projection | Derived | UnknownSource

fun source_kind_as_str :: "source_kind \<Rightarrow> string" where
  "source_kind_as_str Human = ''human''"
| "source_kind_as_str Agent = ''agent''"
| "source_kind_as_str Projection = ''projection''"
| "source_kind_as_str Derived = ''derived''"
| "source_kind_as_str UnknownSource = ''unknown''"

definition source_kind_parse :: "string \<Rightarrow> source_kind domain_result" where
  "source_kind_parse value =
     (let t = trim value in
      if t = ''human'' then Inr Human
      else if t = ''agent'' then Inr Agent
      else if t = ''projection'' then Inr Projection
      else if t = ''derived'' then Inr Derived
      else if t = ''unknown'' then Inr UnknownSource
      else Inl (InvalidState (''invalid source_kind `'' @ t @ ''`'')))"

record provenance =
  prov_source_kind :: source_kind
  prov_source_agent :: "string option"
  prov_observed_at :: "string option"

lemma source_kind_parse_Inr: "source_kind_parse v = Inr k \<longleftrightarrow> trim v = source_kind_as_str k"
  by (cases k) (auto simp: source_kind_parse_def Let_def)

subsection \<open>Properties\<close>

text \<open>Storing a normalised relation explanation as properties and reading them returns it
  unchanged, numbers and class included; and whatever is read is normalised.\<close>

theorem explanation_round_trip:
  "(rex_ok e \<longrightarrow> rex_from_properties (rex_to_properties e) = Inr e)
   \<and> (rex_from_properties p = Inr e \<longrightarrow> rex_ok e)"
  using rex_round_trip rex_from_properties_ok by blast

definition sample_explanation :: relation_explanation where
  "sample_explanation = (rex_new Motivational)\<lparr>rex_rationale := Some ''power first'',
     rex_sequence := Some 2, rex_rank := Some 4\<rparr>"

theorem explanation_round_trip_witness:
  "rex_from_properties (rex_to_properties sample_explanation) = Inr sample_explanation"
proof -
  have "rex_ok sample_explanation" by code_simp
  with explanation_round_trip [of sample_explanation] show ?thesis by blast
qed

end
