(* ===== verification/TemporalValues.thy ===== *)
theory TemporalValues
  imports InstantText Explanations
begin

text \<open>
  Where an entry stands in time and what a temporal read may ask for
  (\<open>value_objects/temporal_coordinate.rs\<close>, \<open>coordinate_origin.rs\<close>, \<open>temporal_cursor.rs\<close>,
  \<open>temporal_interval.rs\<close>, \<open>temporal_selection.rs\<close>). The lemmas give the meaning of an interval
  on the nanosecond axis: it is half open, a span overlaps it exactly when the two share an
  instant, and the distance outside it is zero exactly inside.
\<close>

subsection \<open>Coordinates\<close>

text \<open>An edge without a method is the write itself: nothing of it is an origin.\<close>

record coordinate_origin =
  co_method :: "string option"
  co_rationale :: "string option"
  co_motivation :: "string option"

definition origin_default :: coordinate_origin where
  "origin_default = \<lparr>co_method = None, co_rationale = None, co_motivation = None\<rparr>"

definition origin_from_explanation :: "relation_explanation \<Rightarrow> coordinate_origin" where
  "origin_from_explanation e =
     (case normalize_optional (rex_method e) of
        None \<Rightarrow> origin_default
      | Some m \<Rightarrow> \<lparr>co_method = Some m, co_rationale = normalize_optional (rex_rationale e),
                  co_motivation = normalize_optional (rex_motivation e)\<rparr>)"

definition is_write :: "coordinate_origin \<Rightarrow> bool" where
  "is_write o' \<longleftrightarrow> co_method o' = None"

record temporal_coordinate =
  tc_dimension :: string
  tc_scope_id :: string
  tc_sequence :: "32 word option"
  tc_rank :: "32 word option"
  tc_occurred_at :: "string option"
  tc_observed_at :: "string option"
  tc_ingested_at :: "string option"
  tc_valid_from :: "string option"
  tc_valid_until :: "string option"
  tc_origin :: coordinate_origin

definition tc_from_explanation :: "relation_explanation \<Rightarrow> temporal_coordinate option domain_result" where
  "tc_from_explanation e =
     (case normalize_optional (rex_dimension e) of None \<Rightarrow> Inr None | Some dimension \<Rightarrow>
       (case normalize_optional (rex_scope_id e) of None \<Rightarrow> Inr None | Some scope_id \<Rightarrow>
         Inr (Some \<lparr>tc_dimension = dimension, tc_scope_id = scope_id,
           tc_sequence = rex_sequence e, tc_rank = rex_rank e,
           tc_occurred_at = normalize_optional (rex_occurred_at e),
           tc_observed_at = normalize_optional (rex_observed_at e),
           tc_ingested_at = normalize_optional (rex_ingested_at e),
           tc_valid_from = normalize_optional (rex_valid_from e),
           tc_valid_until = normalize_optional (rex_valid_until e),
           tc_origin = origin_from_explanation e\<rparr>)))"

subsection \<open>Cursors, directions and windows\<close>

datatype temporal_direction = Goto | Near | Rewind | Forward

datatype temporal_axis = AxisDefault | AxisOccurred | AxisObserved | AxisIngested | AxisValidity

datatype temporal_cursor = CursorRef string | CursorTime string | CursorSequence "32 word"

definition cursor_ref_id :: "string \<Rightarrow> temporal_cursor domain_result" where
  "cursor_ref_id value =
     try_bind (normalize_required value ''temporal cursor ref'') (\<lambda>v. Inr (CursorRef v))"

definition cursor_time :: "string \<Rightarrow> temporal_cursor domain_result" where
  "cursor_time value =
     try_bind (normalize_required value ''temporal cursor time'') (\<lambda>v. Inr (CursorTime v))"

definition cursor_sequence :: "32 word \<Rightarrow> temporal_cursor domain_result" where
  "cursor_sequence value =
     (if value = 0 then Inl (InvalidState ''temporal cursor sequence must be greater than zero'')
      else Inr (CursorSequence value))"

definition blank_coordinate :: temporal_coordinate where
  "blank_coordinate = \<lparr>tc_dimension = [], tc_scope_id = [], tc_sequence = None, tc_rank = None,
     tc_occurred_at = None, tc_observed_at = None, tc_ingested_at = None, tc_valid_from = None,
     tc_valid_until = None, tc_origin = origin_default\<rparr>"

text \<open>The coordinate a cursor stands on: only the clock of the axis it names is set.\<close>

definition tc_cursor_time :: "string \<Rightarrow> temporal_axis \<Rightarrow> temporal_coordinate domain_result" where
  "tc_cursor_time value axis =
     try_bind (normalize_required value ''temporal cursor time'') (\<lambda>v.
       Inr (case axis of
          AxisDefault \<Rightarrow> blank_coordinate\<lparr>tc_occurred_at := Some v\<rparr>
        | AxisOccurred \<Rightarrow> blank_coordinate\<lparr>tc_occurred_at := Some v\<rparr>
        | AxisObserved \<Rightarrow> blank_coordinate\<lparr>tc_observed_at := Some v\<rparr>
        | AxisIngested \<Rightarrow> blank_coordinate\<lparr>tc_ingested_at := Some v\<rparr>
        | AxisValidity \<Rightarrow> blank_coordinate\<lparr>tc_valid_from := Some v\<rparr>))"

definition tc_cursor_sequence :: "32 word \<Rightarrow> temporal_coordinate domain_result" where
  "tc_cursor_sequence value =
     (if value = 0 then Inl (InvalidState ''temporal cursor sequence must be greater than zero'')
      else Inr (blank_coordinate\<lparr>tc_sequence := Some value\<rparr>))"

record temporal_window =
  tw_before_entries :: nat
  tw_after_entries :: nat

definition window_default :: temporal_window where
  "window_default = \<lparr>tw_before_entries = 2, tw_after_entries = 2\<rparr>"

subsection \<open>Intervals\<close>

record temporal_interval =
  ti_start :: "string option"
  ti_end :: "string option"

definition unreadable_bound :: "string \<Rightarrow> string option \<Rightarrow> domain_error option" where
  "unreadable_bound name bound =
     (case bound of None \<Rightarrow> None | Some b \<Rightarrow>
        if compare_temporal_instants b b = None
        then Some (InvalidState (''temporal interval '' @ name @ '' `'' @ b
                    @ ''` is not an instant the kernel can read''))
        else None)"

definition interval_new :: "string option \<Rightarrow> string option \<Rightarrow> temporal_interval domain_result" where
  "interval_new start end' =
     (let start = normalize_optional start; end' = normalize_optional end' in
      if start = None \<and> end' = None
      then Inl (InvalidState ''temporal interval needs a start or an end'')
      else case unreadable_bound ''start'' start of Some e \<Rightarrow> Inl e | None \<Rightarrow>
        (case unreadable_bound ''end'' end' of Some e \<Rightarrow> Inl e | None \<Rightarrow>
          if (case (start, end') of (Some s, Some e) \<Rightarrow> compare_temporal_instants s e \<noteq> Some Less
              | _ \<Rightarrow> False)
          then Inl (InvalidState ''temporal interval must start before it ends'')
          else Inr \<lparr>ti_start = start, ti_end = end'\<rparr>))"

text \<open>\<open>Option::is_none_or\<close>.\<close>

definition is_none_or :: "'a option \<Rightarrow> ('a \<Rightarrow> bool) \<Rightarrow> bool" where
  "is_none_or v p = (case v of None \<Rightarrow> True | Some x \<Rightarrow> p x)"

definition interval_contains :: "temporal_interval \<Rightarrow> string \<Rightarrow> bool" where
  "interval_contains i instant \<longleftrightarrow>
     is_none_or (ti_start i) (\<lambda>start. compare_temporal_instants start instant = Some Less
        \<or> compare_temporal_instants start instant = Some Equal)
     \<and> is_none_or (ti_end i) (\<lambda>end'. compare_temporal_instants instant end' = Some Less)"

definition interval_overlaps :: "temporal_interval \<Rightarrow> string option \<Rightarrow> string option \<Rightarrow> bool" where
  "interval_overlaps i valid_from valid_until \<longleftrightarrow>
     (case (valid_from, ti_end i) of
        (Some from, Some end') \<Rightarrow> compare_temporal_instants from end' = Some Less
      | _ \<Rightarrow> True)
     \<and> (case (valid_until, ti_start i) of
        (Some until, Some start) \<Rightarrow> compare_temporal_instants until start = Some Greater
      | _ \<Rightarrow> True)"

text \<open>The subtractions are \<open>i128\<close> subtractions: they wrap.\<close>

definition distance_outside :: "temporal_interval \<Rightarrow> string \<Rightarrow> int option" where
  "distance_outside i instant =
     (case temporal_instant_nanos instant of None \<Rightarrow> None | Some at \<Rightarrow>
       (case Option.bind (ti_start i) temporal_instant_nanos of
          Some start \<Rightarrow> if at < start then Some (wrap128 (start - at)) else
            (case Option.bind (ti_end i) temporal_instant_nanos of
               Some end' \<Rightarrow> if at \<ge> end' then Some (wrap128 (wrap128 (at - end') + 1)) else Some 0
             | None \<Rightarrow> Some 0)
        | None \<Rightarrow>
            (case Option.bind (ti_end i) temporal_instant_nanos of
               Some end' \<Rightarrow> if at \<ge> end' then Some (wrap128 (wrap128 (at - end') + 1)) else Some 0
             | None \<Rightarrow> Some 0)))"

subsection \<open>Selections\<close>

datatype temporal_selection =
  Frontier | AsOf temporal_cursor temporal_axis | Within temporal_interval temporal_axis

definition selection_as_of :: "temporal_cursor \<Rightarrow> temporal_axis \<Rightarrow> temporal_selection domain_result" where
  "selection_as_of cursor axis =
     (case cursor of
        CursorSequence _ \<Rightarrow> Inl (InvalidState (''as_of takes a ref or a time; a sequence is relative to one dimension and ''
                                  @ ''names no instant''))
      | _ \<Rightarrow> Inr (AsOf cursor axis))"

fun selection_axis :: "temporal_selection \<Rightarrow> temporal_axis option" where
  "selection_axis Frontier = None"
| "selection_axis (AsOf cursor axis) = Some axis"
| "selection_axis (Within interval axis) = Some axis"

fun selection_interval :: "temporal_selection \<Rightarrow> temporal_interval option" where
  "selection_interval (Within interval axis) = Some interval"
| "selection_interval _ = None"

fun selection_cursor :: "temporal_selection \<Rightarrow> temporal_cursor option" where
  "selection_cursor (AsOf cursor axis) = Some cursor"
| "selection_cursor _ = None"

subsection \<open>The meaning of an interval\<close>

text \<open>The instants an interval or a validity span stands for, on the nanosecond axis.\<close>

definition in_span :: "int option \<Rightarrow> int option \<Rightarrow> int \<Rightarrow> bool" where
  "in_span lo hi n \<longleftrightarrow> (case lo of None \<Rightarrow> True | Some a \<Rightarrow> a \<le> n) \<and> (case hi of None \<Rightarrow> True | Some b \<Rightarrow> n < b)"

definition nanos_of :: "string option \<Rightarrow> int option" where
  "nanos_of v = Option.bind v timestamp_nanos"

abbreviation interval_span :: "temporal_interval \<Rightarrow> int \<Rightarrow> bool" where
  "interval_span i \<equiv> in_span (nanos_of (ti_start i)) (nanos_of (ti_end i))"

text \<open>What the constructor lets through.\<close>

definition interval_ok :: "temporal_interval \<Rightarrow> bool" where
  "interval_ok i \<longleftrightarrow> (ti_start i \<noteq> None \<or> ti_end i \<noteq> None)
     \<and> (ti_start i = None \<or> nanos_of (ti_start i) \<noteq> None)
     \<and> (ti_end i = None \<or> nanos_of (ti_end i) \<noteq> None)
     \<and> (\<exists>n. interval_span i n)"

lemma compare_instants:
  "compare_temporal_instants a b = Some Less \<longleftrightarrow>
     (\<exists>m n. timestamp_nanos a = Some m \<and> timestamp_nanos b = Some n \<and> m < n)"
  "compare_temporal_instants a b = Some Equal \<longleftrightarrow>
     (\<exists>m. timestamp_nanos a = Some m \<and> timestamp_nanos b = Some m)"
  "compare_temporal_instants a b = Some Greater \<longleftrightarrow>
     (\<exists>m n. timestamp_nanos a = Some m \<and> timestamp_nanos b = Some n \<and> n < m)"
  "compare_temporal_instants a b = None \<longleftrightarrow> timestamp_nanos a = None \<or> timestamp_nanos b = None"
  by (auto simp: compare_temporal_instants_def ord_cmp_def split: option.splits if_splits)

lemma in_span_nonempty:
  "(\<exists>n. in_span lo hi n) \<longleftrightarrow> (case (lo, hi) of (Some a, Some b) \<Rightarrow> a < b | _ \<Rightarrow> True)"
  by (cases lo; cases hi) (auto simp: in_span_def intro: exI [of _ "the hi - 1"])

lemma unreadable_bound_None:
  "unreadable_bound name b = None \<longleftrightarrow> b = None \<or> nanos_of b \<noteq> None"
  by (cases b) (simp_all add: unreadable_bound_def nanos_of_def compare_instants)

lemma interval_new_Inr:
  "interval_new s e = Inr i \<longleftrightarrow>
     i = \<lparr>ti_start = normalize_optional s, ti_end = normalize_optional e\<rparr> \<and> interval_ok i"
proof -
  let ?s = "normalize_optional s" and ?e = "normalize_optional e"
  have order: "(case (?s, ?e) of (Some s, Some e) \<Rightarrow> compare_temporal_instants s e \<noteq> Some Less | _ \<Rightarrow> False)
      \<longleftrightarrow> \<not> (\<exists>n. in_span (nanos_of ?s) (nanos_of ?e) n)"
    if "?s = None \<or> nanos_of ?s \<noteq> None" "?e = None \<or> nanos_of ?e \<noteq> None"
    using that unfolding in_span_nonempty
    by (cases ?s; cases ?e) (auto simp: nanos_of_def compare_instants)
  consider "?s = None" "?e = None"
    | er where "?s \<noteq> None \<or> ?e \<noteq> None" "unreadable_bound ''start'' ?s = Some er"
    | er where "?s \<noteq> None \<or> ?e \<noteq> None" "unreadable_bound ''start'' ?s = None" "unreadable_bound ''end'' ?e = Some er"
    | "?s \<noteq> None \<or> ?e \<noteq> None" "unreadable_bound ''start'' ?s = None" "unreadable_bound ''end'' ?e = None"
    by blast
  then show ?thesis
  proof cases
    case 1
    then show ?thesis by (auto simp: interval_new_def Let_def interval_ok_def)
  next
    case 2
    then have "\<not> (?s = None \<or> nanos_of ?s \<noteq> None)"
      using unreadable_bound_None [of "''start''" ?s] by simp
    with 2 show ?thesis by (auto simp: interval_new_def Let_def interval_ok_def)
  next
    case 3
    then have "\<not> (?e = None \<or> nanos_of ?e \<noteq> None)"
      using unreadable_bound_None [of "''end''" ?e] by simp
    with 3 show ?thesis by (auto simp: interval_new_def Let_def interval_ok_def)
  next
    case 4
    then have read: "?s = None \<or> nanos_of ?s \<noteq> None" "?e = None \<or> nanos_of ?e \<noteq> None"
      by (simp_all only: unreadable_bound_None)
    have "\<not> (?s = None \<and> ?e = None)" using 4 by blast
    then show ?thesis
      unfolding interval_new_def Let_def 4 order [OF read]
      using 4(1) read by (auto simp: interval_ok_def)
  qed
qed

lemma interval_contains_span:
  assumes "interval_ok i"
  shows "interval_contains i t \<longleftrightarrow> (\<exists>n. timestamp_nanos t = Some n \<and> interval_span i n)"
  using assms
  by (cases "ti_start i"; cases "ti_end i")
    (auto simp: interval_ok_def interval_contains_def is_none_or_def compare_instants nanos_of_def in_span_def)

lemma interval_overlaps_span:
  assumes ok: "interval_ok i" and since: "valid_from = None \<or> nanos_of valid_from \<noteq> None"
    and until: "valid_until = None \<or> nanos_of valid_until \<noteq> None"
    and span: "\<exists>n. in_span (nanos_of valid_from) (nanos_of valid_until) n"
  shows "interval_overlaps i valid_from valid_until \<longleftrightarrow>
    (\<exists>n. interval_span i n \<and> in_span (nanos_of valid_from) (nanos_of valid_until) n)"
proof -
  let ?a = "nanos_of (ti_start i)" and ?b = "nanos_of (ti_end i)"
  let ?c = "nanos_of valid_from" and ?d = "nanos_of valid_until"
  have both: "(\<exists>n. in_span ?a ?b n \<and> in_span ?c ?d n) \<longleftrightarrow>
      (case (?c, ?b) of (Some c, Some b) \<Rightarrow> c < b | _ \<Rightarrow> True)
      \<and> (case (?d, ?a) of (Some d, Some a) \<Rightarrow> a < d | _ \<Rightarrow> True)" (is "?l = ?r")
  proof
    show "?l \<Longrightarrow> ?r" by (auto simp: in_span_def split: option.splits)
    assume r: ?r
    define n where "n = (case (?a, ?c) of (None, None) \<Rightarrow> (case (?b, ?d) of (None, None) \<Rightarrow> 0
        | (Some b, None) \<Rightarrow> b - 1 | (None, Some d) \<Rightarrow> d - 1 | (Some b, Some d) \<Rightarrow> min b d - 1)
      | (Some a, None) \<Rightarrow> a | (None, Some c) \<Rightarrow> c | (Some a, Some c) \<Rightarrow> max a c)"
    have "in_span ?a ?b n \<and> in_span ?c ?d n"
      using r span ok unfolding interval_ok_def in_span_nonempty
      by (cases ?a; cases ?b; cases ?c; cases ?d) (auto simp: in_span_def n_def)
    then show ?l by blast
  qed
  have "interval_overlaps i valid_from valid_until \<longleftrightarrow>
      (case (?c, ?b) of (Some c, Some b) \<Rightarrow> c < b | _ \<Rightarrow> True)
      \<and> (case (?d, ?a) of (Some d, Some a) \<Rightarrow> a < d | _ \<Rightarrow> True)"
    using ok since until unfolding interval_overlaps_def interval_ok_def
    by (cases valid_from; cases valid_until; cases "ti_start i"; cases "ti_end i")
      (auto simp: compare_instants nanos_of_def)
  with both show ?thesis by simp
qed

text \<open>The distance of an instant RFC 3339 can name, from bounds it can name.\<close>

lemma key_instant_range: "key_instant n \<Longrightarrow> - (10 ^ 20) \<le> n \<and> n < 10 ^ 21"
proof -
  assume "key_instant n"
  then have "- 100000000000 \<le> n div 1000000000" "n div 1000000000 < 900000000000"
    by (auto simp: key_instant_def)
  then have "- 100000000000 * 1000000000 \<le> n" "n < 900000000000 * 1000000000" by linarith+
  then show ?thesis by simp
qed

lemma distance_outside_span:
  assumes ok: "interval_ok i" and t: "timestamp_nanos t = Some n" "key_instant n"
    and bounds: "\<forall>a. nanos_of (ti_start i) = Some a \<longrightarrow> key_instant a"
      "\<forall>b. nanos_of (ti_end i) = Some b \<longrightarrow> key_instant b"
  shows "distance_outside i t = Some 0 \<longleftrightarrow> interval_contains i t"
    and "\<exists>d \<ge> 0. distance_outside i t = Some d"
proof -
  have instant_nanos: "temporal_instant_nanos = timestamp_nanos"
    by (rule ext) (simp add: temporal_instant_nanos_def)
  have w: "wrap128 (a - b) = a - b" "wrap128 (a - b + 1) = a - b + 1"
    if "key_instant a" "key_instant b" for a b
    using key_instant_range [OF that(1)] key_instant_range [OF that(2)]
    by (auto intro!: wrap128_id)
  have d: "distance_outside i t = Some
      (case nanos_of (ti_start i) of Some a \<Rightarrow> (if n < a then a - n else
         case nanos_of (ti_end i) of Some b \<Rightarrow> (if n \<ge> b then n - b + 1 else 0) | None \<Rightarrow> 0)
       | None \<Rightarrow> (case nanos_of (ti_end i) of Some b \<Rightarrow> (if n \<ge> b then n - b + 1 else 0) | None \<Rightarrow> 0))"
    using bounds t w
    by (auto simp: distance_outside_def instant_nanos nanos_of_def [symmetric] split: option.splits)
  show "distance_outside i t = Some 0 \<longleftrightarrow> interval_contains i t"
    unfolding d interval_contains_span [OF ok] t(1)
    by (auto simp: in_span_def split: option.splits)
  show "\<exists>d \<ge> 0. distance_outside i t = Some d"
    unfolding d by (auto split: option.splits)
qed

subsection \<open>Properties\<close>

text \<open>An interval is half open on the nanosecond axis: an instant falls inside exactly when it
  is readable, not before the start and before the end, an open bound admitting its side.\<close>

theorem interval_half_open:
  assumes "interval_new s e = Inr i"
  shows "interval_contains i t \<longleftrightarrow> (\<exists>n. timestamp_nanos t = Some n
    \<and> in_span (nanos_of (normalize_optional s)) (nanos_of (normalize_optional e)) n)"
  using assms by (auto simp: interval_new_Inr interval_contains_span)

definition march :: "temporal_interval" where
  "march = \<lparr>ti_start = Some ''2026-03-01T00:00:00Z'', ti_end = Some ''2026-04-01T00:00:00Z''\<rparr>"

lemma march_new: "interval_new (Some ''2026-03-01T00:00:00Z'') (Some ''2026-04-01T00:00:00Z'') = Inr march"
  by code_simp

lemma march_ok: "interval_ok march"
  using march_new by (simp add: interval_new_Inr)

theorem interval_half_open_witness:
  "interval_contains march ''2026-03-01T00:00:00Z'' \<and> \<not> interval_contains march ''2026-04-01T00:00:00Z''"
proof -
  have "nanos_of (normalize_optional (Some ''2026-03-01T00:00:00Z'')) = Some 1772323200000000000"
    "nanos_of (normalize_optional (Some ''2026-04-01T00:00:00Z'')) = Some 1775001600000000000"
    "timestamp_nanos ''2026-03-01T00:00:00Z'' = Some 1772323200000000000"
    "timestamp_nanos ''2026-04-01T00:00:00Z'' = Some 1775001600000000000" by code_simp+
  then show ?thesis by (simp add: interval_half_open [OF march_new] in_span_def)
qed

text \<open>A validity span overlaps an interval exactly when some instant lies in both.\<close>

theorem interval_overlap_shares_instant:
  assumes "interval_ok i"
    and "valid_from = None \<or> nanos_of valid_from \<noteq> None"
    and "valid_until = None \<or> nanos_of valid_until \<noteq> None"
    and "\<exists>n. in_span (nanos_of valid_from) (nanos_of valid_until) n"
  shows "interval_overlaps i valid_from valid_until \<longleftrightarrow>
    (\<exists>n. in_span (nanos_of (ti_start i)) (nanos_of (ti_end i)) n
       \<and> in_span (nanos_of valid_from) (nanos_of valid_until) n)"
  using assms by (rule interval_overlaps_span)

theorem interval_overlap_shares_instant_witness:
  "interval_overlaps march (Some ''2026-03-31T00:00:00Z'') None \<longleftrightarrow>
    (\<exists>n. in_span (nanos_of (ti_start march)) (nanos_of (ti_end march)) n
       \<and> in_span (nanos_of (Some ''2026-03-31T00:00:00Z'')) (nanos_of None) n)"
proof -
  have readable: "nanos_of (Some ''2026-03-31T00:00:00Z'') = Some 1774915200000000000" by code_simp
  show ?thesis
    by (rule interval_overlap_shares_instant [OF march_ok])
      (simp_all add: readable in_span_nonempty, simp add: nanos_of_def)
qed

text \<open>The distance of an instant from an interval is never negative, and zero exactly inside,
  for instants and bounds whose keys have twelve digits of seconds.\<close>

theorem interval_distance_zero_inside:
  assumes "interval_ok i" and "timestamp_nanos t = Some n" and "key_instant n"
    and "\<forall>a. nanos_of (ti_start i) = Some a \<longrightarrow> key_instant a"
    and "\<forall>b. nanos_of (ti_end i) = Some b \<longrightarrow> key_instant b"
  shows "(distance_outside i t = Some 0 \<longleftrightarrow> interval_contains i t)
    \<and> (\<exists>d. 0 \<le> d \<and> distance_outside i t = Some d)"
  using distance_outside_span [OF assms] by blast

theorem interval_distance_zero_inside_witness:
  "distance_outside march ''2026-04-01T00:00:00Z'' = Some 0
     \<longleftrightarrow> interval_contains march ''2026-04-01T00:00:00Z''"
proof -
  have "timestamp_nanos ''2026-04-01T00:00:00Z'' = Some 1775001600000000000"
    "nanos_of (ti_start march) = Some 1772323200000000000"
    "nanos_of (ti_end march) = Some 1775001600000000000"
    "key_instant 1775001600000000000" "key_instant 1772323200000000000" by code_simp+
  then show ?thesis
    by (intro interval_distance_zero_inside [OF march_ok, THEN conjunct1]) simp_all
qed

end
