(* ===== verification/LabelIdentity.thy ===== *)
theory LabelIdentity
  imports BTree
begin

text \<open>
  The identity of a dimensional label (\<open>value_objects/memory_dimension_identity.rs\<close>) and the
  percent encoding of its components (\<open>value_objects/reference_component.rs\<close>): a label is an
  about, a key and a value, written \<open>label:v1:<about>:<key>:<value>\<close> with every byte outside
  the unreserved set escaped. The lemmas show that the spelling is canonical: \<open>parse\<close> is a
  partial inverse of \<open>node_id\<close> on both sides.
\<close>

subsection \<open>Percent encoding\<close>

text \<open>\<open>u8::is_ascii_alphanumeric\<close> or one of the four unreserved marks.\<close>

definition unreserved :: "char \<Rightarrow> bool" where
  "unreserved c \<longleftrightarrow>
     (48 \<le> byte c \<and> byte c \<le> 57) \<or> (65 \<le> byte c \<and> byte c \<le> 90) \<or> (97 \<le> byte c \<and> byte c \<le> 122)
     \<or> c \<in> set ''-._~''"

definition hex_char :: "nat \<Rightarrow> char" where
  "hex_char d = ''0123456789ABCDEF'' ! d"

fun encode_component :: "string \<Rightarrow> string" where
  "encode_component [] = []"
| "encode_component (b # s) =
     (if unreserved b then b # encode_component s
      else CHR ''%'' # hex_char (byte b div 16) # hex_char (byte b mod 16) # encode_component s)"

text \<open>\<open>char::to_digit(16)\<close>: both letter cases are digits.\<close>

definition to_digit16 :: "char \<Rightarrow> nat option" where
  "to_digit16 c =
     (if 48 \<le> byte c \<and> byte c \<le> 57 then Some (byte c - 48)
      else if 97 \<le> byte c \<and> byte c \<le> 102 then Some (byte c - 87)
      else if 65 \<le> byte c \<and> byte c \<le> 70 then Some (byte c - 55)
      else None)"

text \<open>The loop of \<open>decode_component\<close>; an escape cut short or with a bad digit is \<open>None\<close>.\<close>

fun decode_bytes :: "string \<Rightarrow> string option" where
  "decode_bytes [] = Some []"
| "decode_bytes (b # s) =
     (if b = CHR ''%'' then
        (case s of h # l # r \<Rightarrow>
           (case to_digit16 h of None \<Rightarrow> None | Some high \<Rightarrow>
              (case to_digit16 l of None \<Rightarrow> None | Some low \<Rightarrow>
                 map_option ((#) (char_of (16 * high + low))) (decode_bytes r)))
         | _ \<Rightarrow> None)
      else map_option ((#) b) (decode_bytes s))"

definition decode_component :: "string \<Rightarrow> string option" where
  "decode_component value =
     (case decode_bytes value of None \<Rightarrow> None | Some decoded \<Rightarrow>
        if utf8_valid decoded \<and> encode_component decoded = value then Some decoded else None)"

lemma hex_char_cases:
  assumes "d < 16"
  shows "to_digit16 (hex_char d) = Some d \<and> hex_char d \<noteq> CHR '':'' \<and> byte (hex_char d) < 128"
proof -
  have "d \<in> set [0,1,2,3,4,5,6,7,8,9,10,11,12,13,14,15]" using assms by (simp, arith)
  then show ?thesis by (auto simp: hex_char_def to_digit16_def byte_def)
qed

lemma decode_encode_bytes [simp]: "decode_bytes (encode_component s) = Some s"
proof (induction s)
  case (Cons b s)
  have "byte b div 16 < 16" using byte_less_256 [of b] by (simp add: less_mult_imp_div_less)
  moreover have "char_of (16 * (byte b div 16) + byte b mod 16) = b" by simp
  ultimately show ?case
    using Cons hex_char_cases by (auto simp: unreserved_def byte_def)
qed simp

lemma encode_no_colon [simp]: "CHR '':'' \<notin> set (encode_component s)"
proof (induction s)
  case (Cons b s)
  have "byte b div 16 < 16" using byte_less_256 [of b] by (simp add: less_mult_imp_div_less)
  with Cons show ?case
    using hex_char_cases [of "byte b div 16"] hex_char_cases [of "byte b mod 16"]
    by (auto simp: unreserved_def byte_def)
qed simp

lemma encode_inject: "encode_component s = encode_component t \<longleftrightarrow> s = t"
  by (metis decode_encode_bytes option.inject)

lemma decode_encode: "utf8_valid s \<Longrightarrow> decode_component (encode_component s) = Some s"
  by (simp add: decode_component_def)

lemma decode_canonical:
  "decode_component r = Some s \<Longrightarrow> encode_component s = r \<and> utf8_valid s"
  by (auto simp: decode_component_def split: option.splits if_splits)

subsection \<open>Identities\<close>

record memory_dimension_identity =
  mdi_about :: string
  mdi_key :: string
  mdi_dimension_id :: string

definition mdi_new :: "string \<Rightarrow> string \<Rightarrow> string \<Rightarrow> memory_dimension_identity domain_result" where
  "mdi_new about key value =
     try_bind (normalize_required about ''memory dimension about'') (\<lambda>about.
     try_bind (normalize_required key ''memory dimension key'') (\<lambda>key.
     try_bind (normalize_required value ''memory dimension value'') (\<lambda>dimension_id.
     Inr \<lparr>mdi_about = about, mdi_key = key, mdi_dimension_id = dimension_id\<rparr>)))"

definition LABEL_PREFIX :: string where
  "LABEL_PREFIX = ''label:v1:''"

definition node_id :: "memory_dimension_identity \<Rightarrow> string" where
  "node_id i =
     LABEL_PREFIX @ encode_component (mdi_about i) @ CHR '':'' # encode_component (mdi_key i)
       @ CHR '':'' # encode_component (mdi_dimension_id i)"

definition mdi_parse :: "string \<Rightarrow> memory_dimension_identity option" where
  "mdi_parse reference =
     (case strip_prefix LABEL_PREFIX reference of None \<Rightarrow> None | Some encoded \<Rightarrow>
        (case split_on CHR '':'' encoded of
           [a, k, v] \<Rightarrow>
             (case (decode_component a, decode_component k, decode_component v) of
                (Some about, Some key, Some value) \<Rightarrow>
                  (case mdi_new about key value of Inl _ \<Rightarrow> None | Inr identity \<Rightarrow>
                     if node_id identity = reference then Some identity else None)
              | _ \<Rightarrow> None)
         | _ \<Rightarrow> None))"

definition mdi_resolve :: "string \<Rightarrow> string \<Rightarrow> memory_dimension_identity option" where
  "mdi_resolve about reference =
     (case mdi_parse reference of None \<Rightarrow> None | Some identity \<Rightarrow>
        if mdi_about identity = about then Some identity else None)"

text \<open>What the constructor establishes: every component trimmed and not empty, and, being a
  Rust string, valid UTF-8.\<close>

definition component_ok :: "string \<Rightarrow> bool" where
  "component_ok s \<longleftrightarrow> s \<noteq> [] \<and> trim s = s \<and> utf8_valid s"

definition identity_ok :: "memory_dimension_identity \<Rightarrow> bool" where
  "identity_ok i \<longleftrightarrow>
     component_ok (mdi_about i) \<and> component_ok (mdi_key i) \<and> component_ok (mdi_dimension_id i)"

lemma utf8_first_drop_space: "drop_space s = Some r \<Longrightarrow> utf8_first s = Some r"
  by (erule drop_space_cases)
     (auto dest!: is_space1_bounds is_space2_bounds dest: is_space3_bounds)

lemma utf8_valid_drop_space: "utf8_valid s \<Longrightarrow> drop_space s = Some r \<Longrightarrow> utf8_valid r"
  using utf8_first_drop_space utf8_valid_first by blast

lemma utf8_valid_trim_start: "utf8_valid s \<Longrightarrow> utf8_valid (trim_start s)"
  by (induction s rule: trim_start.induct)
     (subst trim_start.simps, auto split: option.splits dest: utf8_valid_drop_space)

lemma utf8_valid_drop_space_rev:
  assumes "utf8_valid (rev s)" and "drop_space_rev s = Some r"
  shows "utf8_valid (rev r)"
proof -
  obtain p where s: "s = p @ r" and p: "p \<noteq> [] \<and> \<not> utf8_cont (last p)"
    using assms(2)
    by (rule drop_space_rev_cases)
       (auto dest!: is_space1_bounds is_space2_bounds is_space3_bounds(1) simp: utf8_cont_def)
  then have "utf8_valid (rev r @ rev p)" using assms(1) by simp
  moreover have "\<not> utf8_cont (hd (rev p))" using p by (simp add: hd_rev)
  ultimately show ?thesis using utf8_valid_prefix by blast
qed

lemma utf8_valid_trim_end_rev: "utf8_valid (rev s) \<Longrightarrow> utf8_valid (rev (trim_end_rev s))"
  by (induction s rule: trim_end_rev.induct)
     (subst trim_end_rev.simps, auto split: option.splits dest: utf8_valid_drop_space_rev)

lemma utf8_valid_trim [simp]: "utf8_valid s \<Longrightarrow> utf8_valid (trim s)"
  by (simp add: trim_def trim_end_def utf8_valid_trim_start utf8_valid_trim_end_rev)

lemma mdi_new_Inr:
  "mdi_new a k v = Inr i \<longleftrightarrow> trim a \<noteq> [] \<and> trim k \<noteq> [] \<and> trim v \<noteq> []
     \<and> i = \<lparr>mdi_about = trim a, mdi_key = trim k, mdi_dimension_id = trim v\<rparr>"
  by (auto simp: mdi_new_def normalize_required_def split: if_splits)

lemma mdi_new_ok:
  assumes "mdi_new a k v = Inr i" and "utf8_valid a" and "utf8_valid k" and "utf8_valid v"
  shows "identity_ok i"
  using assms by (auto simp: mdi_new_Inr identity_ok_def component_ok_def)

lemma mdi_new_id: "identity_ok i \<Longrightarrow> mdi_new (mdi_about i) (mdi_key i) (mdi_dimension_id i) = Inr i"
  by (simp add: mdi_new_Inr identity_ok_def component_ok_def)

lemma split_node_id:
  "split_on CHR '':'' (encode_component a @ CHR '':'' # encode_component k @ CHR '':'' # encode_component v)
     = [encode_component a, encode_component k, encode_component v]"
  by (simp add: split_on_append split_on_free)

lemma mdi_parse_node_id: "identity_ok i \<Longrightarrow> mdi_parse (node_id i) = Some i"
  by (simp add: mdi_parse_def node_id_def split_node_id decode_encode mdi_new_id
      identity_ok_def component_ok_def mdi_new_Inr)

lemma mdi_parse_Some:
  assumes "mdi_parse r = Some i"
  shows "node_id i = r" and "identity_ok i"
  using assms
  by (auto simp: mdi_parse_def split: option.splits list.splits if_splits sum.splits
      dest!: decode_canonical intro: mdi_new_ok)

lemma node_id_inject: "node_id i = node_id j \<longleftrightarrow> i = j"
proof
  assume "node_id i = node_id j"
  then have "split_on CHR '':'' (drop (length LABEL_PREFIX) (node_id i))
    = split_on CHR '':'' (drop (length LABEL_PREFIX) (node_id j))" by simp
  then show "i = j" by (simp add: node_id_def split_node_id encode_inject)
qed simp

text \<open>\<open>bare_label_value\<close>: a full label reference shows its value, anything else its own text.\<close>

definition bare_label_value :: "string \<Rightarrow> string" where
  "bare_label_value value =
     (case mdi_parse value of Some identity \<Rightarrow> mdi_dimension_id identity | None \<Rightarrow> trim value)"

lemma trim_bare_label_value [simp]: "trim (bare_label_value v) = bare_label_value v"
  by (auto simp: bare_label_value_def identity_ok_def component_ok_def split: option.splits
      dest: mdi_parse_Some(2))

subsection \<open>Properties\<close>

text \<open>C13. Writing a label identity as its reference and parsing the reference gives the identity
  back; resolving it succeeds inside its own about and in no other.\<close>

theorem label_reference_round_trip:
  assumes "identity_ok i"
  shows "mdi_parse (node_id i) = Some i
    \<and> mdi_resolve about (node_id i) = (if about = mdi_about i then Some i else None)"
  using mdi_parse_node_id [OF assms] by (auto simp: mdi_resolve_def)

definition sample_identity :: memory_dimension_identity where
  "sample_identity = \<lparr>mdi_about = ''project:x'', mdi_key = ''alias'', mdi_dimension_id = ''neb 1''\<rparr>"

lemma sample_identity_ok: "identity_ok sample_identity"
  by code_simp

theorem label_reference_round_trip_witness:
  "mdi_parse (node_id sample_identity) = Some sample_identity
     \<and> mdi_resolve ''project:y'' (node_id sample_identity) = None"
  using label_reference_round_trip [OF sample_identity_ok, where about = "''project:y''"]
  by (simp add: sample_identity_def)

text \<open>A label has one spelling: a text that parses is exactly the reference the identity
  writes, so no two texts name one label and no two labels share a text.\<close>

theorem label_reference_canonical:
  assumes "mdi_parse r = Some i"
  shows "node_id i = r \<and> identity_ok i \<and> (mdi_parse s = Some i \<longrightarrow> s = r)"
  using mdi_parse_Some [OF assms] mdi_parse_Some(1) by auto

theorem label_reference_canonical_witness:
  "identity_ok \<lparr>mdi_about = ''project:x'', mdi_key = ''alias'', mdi_dimension_id = ''neb''\<rparr>"
proof -
  have "mdi_parse ''label:v1:project%3Ax:alias:neb''
    = Some \<lparr>mdi_about = ''project:x'', mdi_key = ''alias'', mdi_dimension_id = ''neb''\<rparr>"
    by code_simp
  from label_reference_canonical [OF this] show ?thesis by blast
qed

end
