(* ===== verification/Labels.thy ===== *)
theory Labels
  imports LabelIdentity "HOL-Library.Product_Lexorder"
begin

text \<open>
  The labels of an entry and the two filters of a read (\<open>value_objects/entry_labels.rs\<close>,
  \<open>label_selector.rs\<close>, \<open>dimension_selection.rs\<close>). A selector reads the entry's whole label map,
  a dimension selection one coordinate at a time. The lemmas describe both over the plain
  relation "the entry stands in label \<open>(key, value)\<close>".
\<close>

subsection \<open>Entry labels\<close>

type_synonym entry_labels = "(string, string bset) bmap"

definition add_value :: "string \<Rightarrow> string bset option \<Rightarrow> string bset" where
  "add_value v s = bset_insert v (case s of None \<Rightarrow> [] | Some s \<Rightarrow> s)"

definition labels_from_pairs :: "(string \<times> string) list \<Rightarrow> entry_labels" where
  "labels_from_pairs pairs = foldl (\<lambda>m (k, v).
     if trim k = [] \<or> trim v = [] then m else bmap_update (trim k) (add_value (trim v)) m) [] pairs"

definition labels_from_coordinates :: "(string \<times> string) list \<Rightarrow> entry_labels" where
  "labels_from_coordinates coordinates =
     labels_from_pairs (map (\<lambda>(dimension, scope_id).
       (dimension, case mdi_parse scope_id of Some i \<Rightarrow> mdi_dimension_id i | None \<Rightarrow> trim scope_id)) coordinates)"

definition labels_is_empty :: "entry_labels \<Rightarrow> bool" where
  "labels_is_empty l \<longleftrightarrow> l = []"

definition has_key :: "entry_labels \<Rightarrow> string \<Rightarrow> bool" where
  "has_key l key \<longleftrightarrow> bmap_get l key \<noteq> None"

definition label_values :: "entry_labels \<Rightarrow> string \<Rightarrow> string bset option" where
  "label_values l key = bmap_get l key"

definition label_keys :: "entry_labels \<Rightarrow> string list" where
  "label_keys l = bmap_keys l"

text \<open>What a label map says: the labels the entry stands in. A map built by the code is
  ordered, and each of its keys holds at least one value.\<close>

definition stands_in :: "entry_labels \<Rightarrow> string \<Rightarrow> string \<Rightarrow> bool" where
  "stands_in l k v \<longleftrightarrow> (case bmap_get l k of None \<Rightarrow> False | Some s \<Rightarrow> v \<in> set s)"

definition labels_ok :: "entry_labels \<Rightarrow> bool" where
  "labels_ok l \<longleftrightarrow> bmap_ok l
     \<and> (\<forall>(k, s) \<in> set l. k \<noteq> [] \<and> trim k = k \<and> s \<noteq> [] \<and> bset_ok s \<and> (\<forall>v \<in> set s. v \<noteq> [] \<and> trim v = v))"

lemma labels_ok_Nil [simp]: "labels_ok []"
  by (simp add: labels_ok_def)

lemma labels_ok_add:
  assumes "labels_ok m" and "k \<noteq> []" "trim k = k" "v \<noteq> []" "trim v = v"
  shows "labels_ok (bmap_update k (add_value v) m)"
proof -
  have m: "bmap_ok m" using assms(1) by (simp add: labels_ok_def)
  have "i \<noteq> [] \<and> trim i = i \<and> s \<noteq> [] \<and> bset_ok s \<and> (\<forall>v \<in> set s. v \<noteq> [] \<and> trim v = v)"
    if "(i, s) \<in> set (bmap_update k (add_value v) m)" for i s
  proof -
    have get: "bmap_get (bmap_update k (add_value v) m) i = Some s"
      using that m by (simp add: bmap_entry_get)
    have old: "i \<noteq> [] \<and> trim i = i \<and> t \<noteq> [] \<and> bset_ok t \<and> (\<forall>v \<in> set t. v \<noteq> [] \<and> trim v = v)"
      if "bmap_get m i = Some t" for t
      using assms(1) that m by (auto simp: labels_ok_def bmap_entry_get [symmetric])
    show ?thesis
    proof (cases "i = k")
      case True
      then have s: "s = add_value v (bmap_get m k)" using get m by (simp add: bmap_get_update)
      have ne: "bset_insert v t \<noteq> []" for t by (metis set_bset_insert insert_not_empty set_empty2)
      show ?thesis
        using assms True old ne by (cases "bmap_get m k") (auto simp: s add_value_def)
    next
      case False
      then show ?thesis using get m old by (simp add: bmap_get_update)
    qed
  qed
  then show ?thesis using m by (auto simp: labels_ok_def)
qed

lemma stands_in_add:
  "bmap_ok m \<Longrightarrow> stands_in (bmap_update k (add_value v) m) i x \<longleftrightarrow> (i = k \<and> x = v) \<or> stands_in m i x"
  by (auto simp: stands_in_def bmap_get_update add_value_def split: option.splits)

lemma labels_from_pairs_step:
  "labels_ok m \<Longrightarrow> labels_ok (foldl (\<lambda>m (k, v).
     if trim k = [] \<or> trim v = [] then m else bmap_update (trim k) (add_value (trim v)) m) m ps)
   \<and> (stands_in (foldl (\<lambda>m (k, v).
     if trim k = [] \<or> trim v = [] then m else bmap_update (trim k) (add_value (trim v)) m) m ps) i x
     \<longleftrightarrow> stands_in m i x \<or> (i \<noteq> [] \<and> x \<noteq> [] \<and> (\<exists>(k, v) \<in> set ps. trim k = i \<and> trim v = x)))"
proof (induction ps arbitrary: m)
  case (Cons p ps)
  obtain k v where p: "p = (k, v)" by (cases p)
  have "bmap_ok m" using Cons.prems by (simp add: labels_ok_def)
  then show ?case
    using Cons.IH [OF Cons.prems] Cons.IH [OF labels_ok_add [OF Cons.prems], of "trim k" "trim v"]
    by (auto simp: p stands_in_add)
qed simp

lemma labels_from_pairs_ok: "labels_ok (labels_from_pairs ps)"
  using labels_from_pairs_step [OF labels_ok_Nil] by (simp add: labels_from_pairs_def)

lemma stands_in_from_pairs:
  "stands_in (labels_from_pairs ps) i x \<longleftrightarrow> i \<noteq> [] \<and> x \<noteq> [] \<and> (\<exists>(k, v) \<in> set ps. trim k = i \<and> trim v = x)"
proof -
  have "\<not> stands_in [] i x" by (simp add: stands_in_def bmap_get_def)
  then show ?thesis
    using labels_from_pairs_step [OF labels_ok_Nil, of ps i x]
    unfolding labels_from_pairs_def by blast
qed

lemma labels_ok_has_key:
  assumes "labels_ok l"
  shows "has_key l k \<longleftrightarrow> (\<exists>v. stands_in l k v)"
proof
  assume "has_key l k"
  then obtain s where s: "bmap_get l k = Some s" by (auto simp: has_key_def)
  have "bmap_ok l" using assms by (simp add: labels_ok_def)
  with s have "(k, s) \<in> set l" by (simp add: bmap_entry_get)
  with assms have "s \<noteq> []" by (auto simp: labels_ok_def)
  with s show "\<exists>v. stands_in l k v" by (cases s) (auto simp: stands_in_def)
qed (auto simp: stands_in_def has_key_def split: option.splits)

lemma labels_ok_eqI:
  assumes "labels_ok l" and "labels_ok m" and "\<And>k v. stands_in l k v \<longleftrightarrow> stands_in m k v"
  shows "l = m"
proof (rule bmap_eqI)
  show l: "bmap_ok l" and m: "bmap_ok m" using assms by (simp_all add: labels_ok_def)
  fix k
  show "bmap_get l k = bmap_get m k"
  proof (cases "bmap_get l k")
    case None
    then have "\<not> has_key l k" by (simp add: has_key_def)
    then have "\<not> has_key m k" using assms labels_ok_has_key by blast
    with None show ?thesis by (simp add: has_key_def)
  next
    case (Some s)
    then have "has_key m k" using assms labels_ok_has_key [of l k] labels_ok_has_key [of m k]
      by (auto simp: has_key_def)
    then obtain t where t: "bmap_get m k = Some t" by (auto simp: has_key_def)
    have "(k, s) \<in> set l" "(k, t) \<in> set m" using Some t l m by (simp_all add: bmap_entry_get)
    then have "bset_ok s" "bset_ok t" using assms(1,2) by (auto simp: labels_ok_def)
    moreover have "set s = set t"
      using assms(3) [of k] Some t by (auto simp: stands_in_def)
    ultimately have "s = t" by (rule bset_ok_eqI)
    with Some t show ?thesis by simp
  qed
qed

subsection \<open>Label selectors\<close>

datatype label_selector_operator = SelIn | SelNotIn | SelExists | SelNotExists

fun operator_as_str :: "label_selector_operator \<Rightarrow> string" where
  "operator_as_str SelIn = ''in''"
| "operator_as_str SelNotIn = ''notin''"
| "operator_as_str SelExists = ''exists''"
| "operator_as_str SelNotExists = ''notexists''"

definition takes_values :: "label_selector_operator \<Rightarrow> bool" where
  "takes_values o' \<longleftrightarrow> o' = SelIn \<or> o' = SelNotIn"

text \<open>The derived order compares the variants by position.\<close>

fun operator_index :: "label_selector_operator \<Rightarrow> nat" where
  "operator_index SelIn = 0" | "operator_index SelNotIn = 1"
| "operator_index SelExists = 2" | "operator_index SelNotExists = 3"

lemma operator_index_inject [simp]: "operator_index a = operator_index b \<longleftrightarrow> a = b"
  by (cases a; cases b) simp_all

instantiation label_selector_operator :: linorder
begin

definition less_eq_label_selector_operator :: "label_selector_operator \<Rightarrow> label_selector_operator \<Rightarrow> bool" where
  "a \<le> b \<longleftrightarrow> operator_index a \<le> operator_index b"

definition less_label_selector_operator :: "label_selector_operator \<Rightarrow> label_selector_operator \<Rightarrow> bool" where
  "a < b \<longleftrightarrow> operator_index a < operator_index b"

instance
  by standard (auto simp: less_eq_label_selector_operator_def less_label_selector_operator_def
      dest: order_antisym)

end

datatype label_selector = LabelSelector (ls_key: string) (ls_operator: label_selector_operator) (ls_values: "string bset")

definition selector_fields :: "label_selector \<Rightarrow> string \<times> label_selector_operator \<times> string list" where
  "selector_fields s = (ls_key s, ls_operator s, ls_values s)"

lemma selector_fields_inject [simp]: "selector_fields a = selector_fields b \<longleftrightarrow> a = b"
  by (cases a; cases b) (simp add: selector_fields_def)

text \<open>The derived \<open>Ord\<close>: key, then operator, then values.\<close>

instantiation label_selector :: linorder
begin

definition less_eq_label_selector :: "label_selector \<Rightarrow> label_selector \<Rightarrow> bool" where
  "a \<le> b \<longleftrightarrow> selector_fields a \<le> selector_fields b"

definition less_label_selector :: "label_selector \<Rightarrow> label_selector \<Rightarrow> bool" where
  "a < b \<longleftrightarrow> selector_fields a < selector_fields b"

instance
proof
  fix a b c :: label_selector
  show "a < b \<longleftrightarrow> a \<le> b \<and> \<not> b \<le> a"
    unfolding less_eq_label_selector_def less_label_selector_def by (rule less_le_not_le)
  show "a \<le> a" unfolding less_eq_label_selector_def by (rule order_refl)
  show "a \<le> b \<Longrightarrow> b \<le> c \<Longrightarrow> a \<le> c"
    unfolding less_eq_label_selector_def by (rule order_trans)
  show "a \<le> b \<Longrightarrow> b \<le> a \<Longrightarrow> a = b"
    unfolding less_eq_label_selector_def by (metis order_antisym selector_fields_inject)
  show "a \<le> b \<or> b \<le> a" unfolding less_eq_label_selector_def by (rule linear)
qed

end

definition selector_new :: "string \<Rightarrow> label_selector_operator \<Rightarrow> string list \<Rightarrow> label_selector domain_result" where
  "selector_new key operator values =
     (let key = trim key; values = bset_of (filter (\<lambda>v. v \<noteq> []) (map bare_label_value values)) in
      if key = [] then Inl (EmptyValue ''label selector key'')
      else if takes_values operator \<and> values = []
      then Inl (InvalidState (''label selector `'' @ key @ '' '' @ operator_as_str operator
                @ ''` requires at least one value''))
      else if \<not> takes_values operator \<and> values \<noteq> []
      then Inl (InvalidState (''label selector `'' @ key @ '' '' @ operator_as_str operator
                @ ''` takes no values''))
      else Inr (LabelSelector key operator values))"

definition is_positive :: "label_selector \<Rightarrow> bool" where
  "is_positive s \<longleftrightarrow> ls_operator s = SelIn \<or> ls_operator s = SelExists"

definition shares_value :: "string bset option \<Rightarrow> string bset \<Rightarrow> bool" where
  "shares_value held wanted \<longleftrightarrow>
     (case held of None \<Rightarrow> False | Some s \<Rightarrow> list_ex (\<lambda>v. v \<in> set wanted) s)"

definition selector_admits :: "label_selector \<Rightarrow> entry_labels \<Rightarrow> bool" where
  "selector_admits s l =
     (case ls_operator s of
        SelExists \<Rightarrow> has_key l (ls_key s)
      | SelNotExists \<Rightarrow> \<not> has_key l (ls_key s)
      | SelIn \<Rightarrow> shares_value (label_values l (ls_key s)) (ls_values s)
      | SelNotIn \<Rightarrow> \<not> shares_value (label_values l (ls_key s)) (ls_values s))"

fun join_with :: "string \<Rightarrow> string list \<Rightarrow> string" where
  "join_with sep [] = []"
| "join_with sep [x] = x"
| "join_with sep (x # y # xs) = x @ sep @ join_with sep (y # xs)"

definition selector_display :: "label_selector \<Rightarrow> string" where
  "selector_display s =
     (case ls_operator s of
        SelExists \<Rightarrow> ls_key s
      | SelNotExists \<Rightarrow> ''!'' @ ls_key s
      | o' \<Rightarrow> ls_key s @ '' '' @ operator_as_str o' @ '' ('' @ join_with '', '' (ls_values s) @ '')'')"

text \<open>A selector over the relation "stands in".\<close>

lemma shares_value_iff:
  "shares_value (label_values l k) w \<longleftrightarrow> (\<exists>v \<in> set w. stands_in l k v)"
  by (auto simp: shares_value_def label_values_def stands_in_def list_ex_iff split: option.splits)

lemma selector_admits_iff:
  assumes "labels_ok l"
  shows "selector_admits s l \<longleftrightarrow>
    (case ls_operator s of
       SelIn \<Rightarrow> \<exists>v \<in> set (ls_values s). stands_in l (ls_key s) v
     | SelNotIn \<Rightarrow> \<forall>v \<in> set (ls_values s). \<not> stands_in l (ls_key s) v
     | SelExists \<Rightarrow> \<exists>v. stands_in l (ls_key s) v
     | SelNotExists \<Rightarrow> \<forall>v. \<not> stands_in l (ls_key s) v)"
  using labels_ok_has_key [OF assms]
  by (auto simp: selector_admits_def shares_value_iff split: label_selector_operator.split)

subsection \<open>Dimension selections\<close>

datatype dimension_selection_mode = ModeAll | ModeOnly | ModeExcept

datatype dimension_scope_mode = CurrentAbout | Abouts | AllAbouts

record dimension_selection =
  ds_mode :: dimension_selection_mode
  ds_dimensions :: "string bset"
  ds_scope_mode :: dimension_scope_mode
  ds_abouts :: "string bset"
  ds_scope_ids :: "string bset"
  ds_selectors :: "label_selector list"

definition normalize_dimensions :: "string list \<Rightarrow> string bset" where
  "normalize_dimensions values = bset_of (filter (\<lambda>v. v \<noteq> []) (map trim values))"

definition ds_all :: dimension_selection where
  "ds_all = \<lparr>ds_mode = ModeAll, ds_dimensions = [], ds_scope_mode = CurrentAbout, ds_abouts = [],
     ds_scope_ids = [], ds_selectors = []\<rparr>"

definition ds_only :: "string list \<Rightarrow> dimension_selection" where
  "ds_only values = ds_all\<lparr>ds_mode := ModeOnly, ds_dimensions := normalize_dimensions values\<rparr>"

definition ds_except :: "string list \<Rightarrow> dimension_selection" where
  "ds_except values = ds_all\<lparr>ds_mode := ModeExcept, ds_dimensions := normalize_dimensions values\<rparr>"

definition with_scope_ids :: "dimension_selection \<Rightarrow> string list \<Rightarrow> dimension_selection" where
  "with_scope_ids d scope_ids = d\<lparr>ds_scope_ids := normalize_dimensions scope_ids\<rparr>"

definition with_selectors :: "dimension_selection \<Rightarrow> label_selector list \<Rightarrow> dimension_selection" where
  "with_selectors d selectors = d\<lparr>ds_selectors := bset_of selectors\<rparr>"

definition with_current_about_scope :: "dimension_selection \<Rightarrow> dimension_selection" where
  "with_current_about_scope d = d\<lparr>ds_scope_mode := CurrentAbout, ds_abouts := []\<rparr>"

definition with_about_scope :: "dimension_selection \<Rightarrow> string list \<Rightarrow> dimension_selection" where
  "with_about_scope d abouts = d\<lparr>ds_scope_mode := Abouts, ds_abouts := normalize_dimensions abouts\<rparr>"

definition with_all_about_scope :: "dimension_selection \<Rightarrow> dimension_selection" where
  "with_all_about_scope d = d\<lparr>ds_scope_mode := AllAbouts, ds_abouts := []\<rparr>"

definition resolve_current_about :: "dimension_selection \<Rightarrow> string \<Rightarrow> dimension_selection" where
  "resolve_current_about d about =
     (if ds_scope_mode d \<noteq> CurrentAbout then d else with_about_scope d [about])"

definition includes_dimension :: "dimension_selection \<Rightarrow> string \<Rightarrow> bool" where
  "includes_dimension d dimension =
     (case ds_mode d of ModeAll \<Rightarrow> True | ModeOnly \<Rightarrow> dimension \<in> set (ds_dimensions d)
      | ModeExcept \<Rightarrow> dimension \<notin> set (ds_dimensions d))"

definition includes_scope :: "dimension_selection \<Rightarrow> string \<Rightarrow> bool" where
  "includes_scope d scope_id =
     (case ds_scope_mode d of
        AllAbouts \<Rightarrow> True
      | CurrentAbout \<Rightarrow> True
      | Abouts \<Rightarrow> (case mdi_parse scope_id of None \<Rightarrow> False | Some i \<Rightarrow> mdi_about i \<in> set (ds_abouts d)))"

definition includes_dimension_scope :: "dimension_selection \<Rightarrow> string \<Rightarrow> bool" where
  "includes_dimension_scope d scope_id =
     (ds_scope_ids d = [] \<or> trim scope_id \<in> set (ds_scope_ids d)
      \<or> (case mdi_parse (trim scope_id) of None \<Rightarrow> False | Some i \<Rightarrow> mdi_dimension_id i \<in> set (ds_scope_ids d)))"

definition includes_coordinate :: "dimension_selection \<Rightarrow> string \<Rightarrow> string \<Rightarrow> bool" where
  "includes_coordinate d dimension scope_id \<longleftrightarrow>
     includes_dimension d dimension \<and> includes_scope d scope_id \<and> includes_dimension_scope d scope_id"

definition ds_admits :: "dimension_selection \<Rightarrow> entry_labels \<Rightarrow> bool" where
  "ds_admits d l = list_all (\<lambda>s. selector_admits s l) (ds_selectors d)"

definition has_selectors :: "dimension_selection \<Rightarrow> bool" where
  "has_selectors d \<longleftrightarrow> ds_selectors d \<noteq> []"

definition selector_ids :: "label_selector \<Rightarrow> string list" where
  "selector_ids s = (case ls_operator s of SelExists \<Rightarrow> [ls_key s] | SelIn \<Rightarrow> ls_values s
     | SelNotIn \<Rightarrow> [] | SelNotExists \<Rightarrow> [])"

definition positive_selector_ids :: "dimension_selection \<Rightarrow> string list" where
  "positive_selector_ids d = bset_of (concat (map selector_ids (ds_selectors d)))"

lemma includes_scope_current:
  assumes "ds_scope_mode d = CurrentAbout"
  shows "includes_scope (resolve_current_about d about) s \<longleftrightarrow>
    trim about \<noteq> [] \<and> (\<exists>i. mdi_parse s = Some i \<and> mdi_about i = trim about)"
  using assms
  by (auto simp: includes_scope_def resolve_current_about_def with_about_scope_def
      normalize_dimensions_def split: option.splits)

subsection \<open>Properties\<close>

text \<open>The label map built from pairs holds exactly the trimmed, non-blank pairs, and depends
  only on which pairs there are: neither their order nor repetitions matter.\<close>

theorem label_map_of_pairs:
  "(stands_in (labels_from_pairs ps) k v \<longleftrightarrow>
      k \<noteq> [] \<and> v \<noteq> [] \<and> (\<exists>(a, b) \<in> set ps. trim a = k \<and> trim b = v))
   \<and> (set ps = set qs \<longrightarrow> labels_from_pairs ps = labels_from_pairs qs)"
  using stands_in_from_pairs [of ps] stands_in_from_pairs [of qs]
  by (auto intro!: labels_ok_eqI labels_from_pairs_ok)

theorem label_map_of_pairs_witness:
  "labels_from_pairs [(''env'', ''prod''), ('' env'', ''dev''), ('''', ''x'')]
     = labels_from_pairs [('''', ''x''), ('' env'', ''dev''), (''env'', ''prod''), (''env'', ''prod'')]"
  using label_map_of_pairs [of "[(''env'', ''prod''), ('' env'', ''dev''), ('''', ''x'')]" _ _
      "[('''', ''x''), ('' env'', ''dev''), (''env'', ''prod''), (''env'', ''prod'')]"] by auto

text \<open>C37. What a selector means over the labels an entry stands in: \<open>in\<close> asks for one of its
  values under the key, \<open>exists\<close> for the key, and \<open>notin\<close> and \<open>notexists\<close> are their exact
  negations, so an entry without the key passes both.\<close>

theorem selector_meaning:
  assumes "labels_ok l"
  shows "selector_admits s l \<longleftrightarrow>
    (case ls_operator s of
       SelIn \<Rightarrow> \<exists>v \<in> set (ls_values s). stands_in l (ls_key s) v
     | SelNotIn \<Rightarrow> \<forall>v \<in> set (ls_values s). \<not> stands_in l (ls_key s) v
     | SelExists \<Rightarrow> \<exists>v. stands_in l (ls_key s) v
     | SelNotExists \<Rightarrow> \<forall>v. \<not> stands_in l (ls_key s) v)"
  using assms by (rule selector_admits_iff)

theorem selector_meaning_witness:
  "selector_admits (LabelSelector ''customer'' SelNotIn [''acme'']) [(''env'', [''prod''])]
     \<longleftrightarrow> (\<forall>v \<in> set [''acme'']. \<not> stands_in [(''env'', [''prod''])] ''customer'' v)"
proof -
  have "labels_ok [(''env'', [''prod''])]" by code_simp
  from selector_meaning [OF this] show ?thesis by simp
qed

text \<open>Selectors conjoin, in an order of their own: the selection depends only on which
  selectors were given, admits an entry when every one of them does, and an admitted entry
  stands in one of the labels each positive selector names to an about index.\<close>

theorem selectors_conjoin:
  assumes "labels_ok l"
  shows "(ds_admits (with_selectors d ss) l \<longleftrightarrow> (\<forall>s \<in> set ss. selector_admits s l))
    \<and> (set ss = set ts \<longrightarrow> with_selectors d ss = with_selectors d ts)
    \<and> (ds_admits d l \<longrightarrow> (\<forall>s \<in> set (ds_selectors d). is_positive s \<longrightarrow>
         (\<exists>i \<in> set (positive_selector_ids d). stands_in l (ls_key s) i \<or> has_key l i)))"
proof (intro conjI impI ballI)
  show "ds_admits (with_selectors d ss) l \<longleftrightarrow> (\<forall>s \<in> set ss. selector_admits s l)"
    by (simp add: ds_admits_def with_selectors_def list_all_iff)
  show "with_selectors d ss = with_selectors d ts" if "set ss = set ts"
    using bset_of_cong [OF that] by (simp add: with_selectors_def)
next
  fix s assume d: "ds_admits d l" and s: "s \<in> set (ds_selectors d)" and pos: "is_positive s"
  have adm: "selector_admits s l" using d s by (simp add: ds_admits_def list_all_iff)
  have ids: "set (selector_ids s) \<subseteq> set (positive_selector_ids d)"
    using s by (auto simp: positive_selector_ids_def)
  show "\<exists>i \<in> set (positive_selector_ids d). stands_in l (ls_key s) i \<or> has_key l i"
    using adm pos ids unfolding selector_admits_iff [OF assms]
    by (auto simp: is_positive_def selector_ids_def labels_ok_has_key [OF assms]) blast+
qed

theorem selectors_conjoin_witness:
  "with_selectors ds_all [LabelSelector ''env'' SelExists [], LabelSelector ''a'' SelExists []]
     = with_selectors ds_all [LabelSelector ''a'' SelExists [], LabelSelector ''env'' SelExists []]"
  using selectors_conjoin [OF labels_ok_Nil, of ds_all
      "[LabelSelector ''env'' SelExists [], LabelSelector ''a'' SelExists []]"
      "[LabelSelector ''a'' SelExists [], LabelSelector ''env'' SelExists []]"]
  by (simp add: insert_commute)

text \<open>C36. A selection on the current about, once resolved, lets through only coordinates whose
  reference belongs to that about; a selection with another scope is left alone.\<close>

theorem resolved_scope_isolates_about:
  "(ds_scope_mode d = CurrentAbout \<and> includes_coordinate (resolve_current_about d about) k s \<longrightarrow>
      (\<exists>i. mdi_parse s = Some i \<and> mdi_about i = trim about \<and> node_id i = s))
   \<and> (ds_scope_mode d \<noteq> CurrentAbout \<longrightarrow> resolve_current_about d about = d)"
  using includes_scope_current [of d about s] mdi_parse_Some(1)
  by (auto simp: includes_coordinate_def resolve_current_about_def)

theorem resolved_scope_isolates_about_witness:
  "\<exists>i. mdi_parse ''label:v1:a:k:v'' = Some i \<and> mdi_about i = trim ''a'' \<and> node_id i = ''label:v1:a:k:v''"
proof -
  have "ds_scope_mode ds_all = CurrentAbout
    \<and> includes_coordinate (resolve_current_about ds_all ''a'') ''k'' ''label:v1:a:k:v''" by code_simp
  then show ?thesis using resolved_scope_isolates_about by blast
qed

end
