(* ===== verification/Bundle.thy ===== *)
theory Bundle
  imports Explanations Labels
begin

text \<open>
  The bundle a read works on (\<open>model/kmp_bundle.rs\<close>, \<open>bundle_node.rs\<close>, \<open>bundle_relationship.rs\<close>,
  \<open>bundle_node_detail.rs\<close>, \<open>kmp_stats.rs\<close>, the ids of \<open>value_objects\<close>) and the labels its
  entries stand in (\<open>model/labels/entry_labels.rs\<close>). The constructor is the only way to a
  bundle; the lemmas say which graphs it admits and which error it gives for the others.
\<close>

subsection \<open>Parts\<close>

text \<open>\<open>CaseId\<close> and \<open>Role\<close> keep the text as given, and refuse a blank one.\<close>

definition case_id_new :: "string \<Rightarrow> string domain_result" where
  "case_id_new value = (if trim value = [] then Inl (EmptyValue ''case_id'') else Inr value)"

definition role_new :: "string \<Rightarrow> string domain_result" where
  "role_new value = (if trim value = [] then Inl (EmptyValue ''role'') else Inr value)"

record bundle_node =
  bn_node_id :: string
  bn_node_kind :: string
  bn_title :: string
  bn_summary :: string
  bn_status :: string
  bn_labels :: "string list"
  bn_properties :: "(string, string) bmap"
  bn_provenance :: "provenance option"

record bundle_relationship =
  br_source_node_id :: string
  br_target_node_id :: string
  br_relationship_type :: string
  br_explanation :: relation_explanation
  br_provenance :: "provenance option"

record bundle_node_detail =
  bd_node_id :: string
  bd_detail :: string
  bd_content_hash :: string
  bd_revision :: "64 word"

record bundle_metadata =
  bm_revision :: "64 word"
  bm_content_hash :: string
  bm_generator_version :: string

definition metadata_initial :: "string \<Rightarrow> bundle_metadata" where
  "metadata_initial generator_version =
     \<lparr>bm_revision = 1, bm_content_hash = ''pending'', bm_generator_version = generator_version\<rparr>"

record kmp_stats =
  ks_selected_nodes :: "32 word"
  ks_selected_relationships :: "32 word"
  ks_detailed_nodes :: "32 word"

record kmp_bundle =
  kb_root_node_id :: string
  kb_role :: string
  kb_root_node :: bundle_node
  kb_neighbor_nodes :: "bundle_node list"
  kb_relationships :: "bundle_relationship list"
  kb_node_details :: "bundle_node_detail list"
  kb_stats :: kmp_stats
  kb_metadata :: bundle_metadata

subsection \<open>The constructor\<close>

text \<open>The three loops of \<open>KmpBundle::new\<close>, each stopping at its first offender.\<close>

fun insert_node_ids :: "string bset \<Rightarrow> bundle_node list \<Rightarrow> string bset domain_result" where
  "insert_node_ids ids [] = Inr ids"
| "insert_node_ids ids (n # ns) =
     (if bn_node_id n \<in> set ids
      then Inl (InvalidState (''duplicate bundle node `'' @ bn_node_id n @ ''`''))
      else insert_node_ids (bset_insert (bn_node_id n) ids) ns)"

fun check_relationships :: "string bset \<Rightarrow> bundle_relationship list \<Rightarrow> unit domain_result" where
  "check_relationships ids [] = Inr ()"
| "check_relationships ids (r # rs) =
     (if br_source_node_id r \<notin> set ids \<or> br_target_node_id r \<notin> set ids
      then Inl (InvalidState (''relationship `'' @ br_source_node_id r @ ''` -> `''
             @ br_target_node_id r @ ''` references nodes outside the bundle''))
      else check_relationships ids rs)"

fun check_details :: "string bset \<Rightarrow> bundle_node_detail list \<Rightarrow> unit domain_result" where
  "check_details ids [] = Inr ()"
| "check_details ids (d # ds) =
     (if bd_node_id d \<notin> set ids
      then Inl (InvalidState (''node detail `'' @ bd_node_id d @ ''` does not belong to this bundle''))
      else check_details ids ds)"

definition kmp_bundle_new :: "string \<Rightarrow> string \<Rightarrow> bundle_node \<Rightarrow> bundle_node list
    \<Rightarrow> bundle_relationship list \<Rightarrow> bundle_node_detail list \<Rightarrow> bundle_metadata \<Rightarrow> kmp_bundle domain_result" where
  "kmp_bundle_new root_node_id role root_node neighbors relationships details metadata =
     (if bn_node_id root_node \<noteq> root_node_id
      then Inl (InvalidState (''root node id `'' @ bn_node_id root_node
             @ ''` does not match bundle root `'' @ root_node_id @ ''`''))
      else
        try_bind (insert_node_ids (bset_insert (bn_node_id root_node) []) neighbors) (\<lambda>node_ids.
        try_bind (check_relationships node_ids relationships) (\<lambda>_.
        try_bind (check_details node_ids details) (\<lambda>_.
          Inr \<lparr>kb_root_node_id = root_node_id, kb_role = role, kb_root_node = root_node,
            kb_neighbor_nodes = neighbors, kb_relationships = relationships,
            kb_node_details = details,
            kb_stats = \<lparr>ks_selected_nodes = of_nat (length node_ids),
              ks_selected_relationships = of_nat (length relationships),
              ks_detailed_nodes = of_nat (length details)\<rparr>,
            kb_metadata = metadata\<rparr>))))"

definition with_node_details :: "kmp_bundle \<Rightarrow> bundle_node_detail list \<Rightarrow> kmp_bundle domain_result" where
  "with_node_details b details =
     kmp_bundle_new (kb_root_node_id b) (kb_role b) (kb_root_node b) (kb_neighbor_nodes b)
       (kb_relationships b) details (kb_metadata b)"

definition bundle_node_ids :: "kmp_bundle \<Rightarrow> string list" where
  "bundle_node_ids b = bn_node_id (kb_root_node b) # map bn_node_id (kb_neighbor_nodes b)"

text \<open>What a bundle promises its readers.\<close>

definition bundle_ok :: "kmp_bundle \<Rightarrow> bool" where
  "bundle_ok b \<longleftrightarrow>
     bn_node_id (kb_root_node b) = kb_root_node_id b
     \<and> distinct (bundle_node_ids b)
     \<and> (\<forall>r \<in> set (kb_relationships b). br_source_node_id r \<in> set (bundle_node_ids b)
          \<and> br_target_node_id r \<in> set (bundle_node_ids b))
     \<and> (\<forall>d \<in> set (kb_node_details b). bd_node_id d \<in> set (bundle_node_ids b))
     \<and> kb_stats b = \<lparr>ks_selected_nodes = of_nat (length (bundle_node_ids b)),
         ks_selected_relationships = of_nat (length (kb_relationships b)),
         ks_detailed_nodes = of_nat (length (kb_node_details b))\<rparr>"

lemma insert_node_ids_Inr:
  assumes "bset_ok ids"
  shows "insert_node_ids ids ns = Inr js \<longleftrightarrow>
    distinct (map bn_node_id ns) \<and> set ids \<inter> bn_node_id ` set ns = {}
    \<and> bset_ok js \<and> set js = set ids \<union> bn_node_id ` set ns"
  using assms
proof (induction ns arbitrary: ids)
  case Nil
  then show ?case using bset_ok_eqI by auto
next
  case (Cons n ns)
  then show ?case using Cons.IH [of "bset_insert (bn_node_id n) ids"] by auto
qed

lemma check_relationships_Inr:
  "check_relationships ids rs = Inr u \<longleftrightarrow>
     (\<forall>r \<in> set rs. br_source_node_id r \<in> set ids \<and> br_target_node_id r \<in> set ids)"
  by (induction rs) auto

lemma check_details_Inr: "check_details ids ds = Inr u \<longleftrightarrow> (\<forall>d \<in> set ds. bd_node_id d \<in> set ids)"
  by (induction ds) auto

lemma kmp_bundle_new_Inr:
  "kmp_bundle_new root_id role root ns rs ds md = Inr b \<longleftrightarrow>
     bundle_ok b \<and> kb_root_node_id b = root_id \<and> kb_role b = role \<and> kb_root_node b = root
     \<and> kb_neighbor_nodes b = ns \<and> kb_relationships b = rs \<and> kb_node_details b = ds \<and> kb_metadata b = md"
  (is "?l \<longleftrightarrow> ?r")
proof -
  let ?ids = "bset_insert (bn_node_id root) []"
  have len: "length js = Suc (length ns)"
    if "insert_node_ids ?ids ns = Inr js" for js
  proof -
    have js: "distinct (map bn_node_id ns)" "bn_node_id root \<notin> bn_node_id ` set ns" "bset_ok js"
      "set js = insert (bn_node_id root) (bn_node_id ` set ns)"
      using that by (auto simp: insert_node_ids_Inr)
    then have "length js = card (insert (bn_node_id root) (set (map bn_node_id ns)))"
      by (simp add: length_bset)
    with js show ?thesis by (simp add: distinct_card [OF js(1), simplified])
  qed
  show ?thesis
  proof
    assume ?l
    then obtain js where js: "insert_node_ids ?ids ns = Inr js"
      and rest: "bn_node_id root = root_id" "check_relationships js rs = Inr ()" "check_details js ds = Inr ()"
      and b: "b = \<lparr>kb_root_node_id = root_id, kb_role = role, kb_root_node = root,
            kb_neighbor_nodes = ns, kb_relationships = rs, kb_node_details = ds,
            kb_stats = \<lparr>ks_selected_nodes = of_nat (length js),
              ks_selected_relationships = of_nat (length rs), ks_detailed_nodes = of_nat (length ds)\<rparr>,
            kb_metadata = md\<rparr>"
      by (auto simp: kmp_bundle_new_def try_bind_Inr_iff split: if_splits)
    have "set js = insert (bn_node_id root) (bn_node_id ` set ns)"
      "distinct (map bn_node_id ns)" "bn_node_id root \<notin> bn_node_id ` set ns"
      using js by (auto simp: insert_node_ids_Inr)
    then show ?r
      using rest len [OF js]
      by (auto simp: b bundle_ok_def bundle_node_ids_def check_relationships_Inr check_details_Inr)
  next
    assume r: ?r
    define js where "js = bset_of (map bn_node_id (root # ns))"
    have js: "insert_node_ids ?ids ns = Inr js"
      using r by (auto simp: insert_node_ids_Inr js_def bundle_ok_def bundle_node_ids_def)
    have ids: "set js = set (bundle_node_ids b)" using r by (auto simp: js_def bundle_node_ids_def)
    have "check_relationships js rs = Inr ()" "check_details js ds = Inr ()"
      using r ids by (auto simp: check_relationships_Inr check_details_Inr bundle_ok_def)
    then show ?l
      using r js len [OF js]
      by (cases b) (auto simp: kmp_bundle_new_def bundle_ok_def bundle_node_ids_def)
  qed
qed

lemma with_node_details_ok:
  assumes "bundle_ok b"
  shows "with_node_details b ds = Inr c \<longleftrightarrow>
    c = b\<lparr>kb_node_details := ds, kb_stats := kb_stats b\<lparr>ks_detailed_nodes := of_nat (length ds)\<rparr>\<rparr>
    \<and> (\<forall>d \<in> set ds. bd_node_id d \<in> set (bundle_node_ids b))"
  using assms unfolding with_node_details_def kmp_bundle_new_Inr
  by (cases b; cases c) (auto simp: bundle_ok_def bundle_node_ids_def)

subsection \<open>The labels of the entries\<close>

definition push_value :: "'a \<Rightarrow> 'a list option \<Rightarrow> 'a list" where
  "push_value x v = (case v of None \<Rightarrow> [x] | Some xs \<Rightarrow> xs @ [x])"

definition entry_coordinates :: "bundle_relationship list \<Rightarrow> (string, (string \<times> string) list) bmap" where
  "entry_coordinates rels = foldl (\<lambda>m r.
     if br_relationship_type r = ''contains_entry'' then
       (case (rex_dimension (br_explanation r), rex_scope_id (br_explanation r)) of
          (Some d, Some s) \<Rightarrow> bmap_update (br_target_node_id r) (push_value (d, s)) m
        | _ \<Rightarrow> m)
     else m) [] rels"

definition labels_by_entry :: "kmp_bundle \<Rightarrow> (string, entry_labels) bmap" where
  "labels_by_entry b =
     map (\<lambda>(ref_id, coordinates). (ref_id, labels_from_coordinates coordinates))
       (entry_coordinates (kb_relationships b))"

text \<open>The coordinates of an entry are those of its \<open>contains_entry\<close> edges, in edge order.\<close>

definition edge_coordinate :: "string \<Rightarrow> bundle_relationship \<Rightarrow> (string \<times> string) option" where
  "edge_coordinate ref_id r =
     (if br_relationship_type r = ''contains_entry'' \<and> br_target_node_id r = ref_id then
        (case (rex_dimension (br_explanation r), rex_scope_id (br_explanation r)) of
           (Some d, Some s) \<Rightarrow> Some (d, s) | _ \<Rightarrow> None)
      else None)"

definition coordinates_of :: "bundle_relationship list \<Rightarrow> string \<Rightarrow> (string \<times> string) list" where
  "coordinates_of rels ref_id = List.map_filter (edge_coordinate ref_id) rels"

lemma entry_coordinates_snoc:
  "entry_coordinates (rels @ [r]) =
     (case edge_coordinate (br_target_node_id r) r of
        None \<Rightarrow> entry_coordinates rels
      | Some c \<Rightarrow> bmap_update (br_target_node_id r) (push_value c) (entry_coordinates rels))"
  by (auto simp: entry_coordinates_def edge_coordinate_def split: option.splits)

lemma entry_coordinates_ok: "bmap_ok (entry_coordinates rels)"
proof (induction rels rule: rev_induct)
  case Nil
  show ?case by (simp add: entry_coordinates_def)
next
  case (snoc r rels)
  then show ?case by (simp add: entry_coordinates_snoc split: option.splits)
qed

lemma entry_coordinates_get:
  "bmap_get (entry_coordinates rels) ref_id =
     (if coordinates_of rels ref_id = [] then None else Some (coordinates_of rels ref_id))"
proof (induction rels rule: rev_induct)
  case Nil
  show ?case by (simp add: entry_coordinates_def coordinates_of_def List.map_filter_def)
next
  case (snoc r rels)
  have cs: "coordinates_of (rels @ [r]) ref_id = coordinates_of rels ref_id
      @ (case edge_coordinate ref_id r of None \<Rightarrow> [] | Some c \<Rightarrow> [c])"
    by (cases "edge_coordinate ref_id r") (auto simp: coordinates_of_def List.map_filter_def)
  have other: "edge_coordinate ref_id r = None" if "br_target_node_id r \<noteq> ref_id"
    using that by (simp add: edge_coordinate_def)
  show ?case
    using snoc entry_coordinates_ok [of rels] other
    by (cases "br_target_node_id r = ref_id"; cases "edge_coordinate (br_target_node_id r) r")
      (auto simp: entry_coordinates_snoc cs bmap_get_update push_value_def)
qed

lemma labels_by_entry_get:
  "bmap_get (labels_by_entry b) ref_id =
     (if coordinates_of (kb_relationships b) ref_id = [] then None
      else Some (labels_from_coordinates (coordinates_of (kb_relationships b) ref_id)))"
proof -
  have "bmap_get (labels_by_entry b) ref_id =
      map_option labels_from_coordinates (bmap_get (entry_coordinates (kb_relationships b)) ref_id)"
    unfolding labels_by_entry_def bmap_get_def by (simp add: map_of_map)
  then show ?thesis by (simp add: entry_coordinates_get)
qed

lemma stands_in_from_coordinates:
  "stands_in (labels_from_coordinates cs) k v \<longleftrightarrow>
     k \<noteq> [] \<and> v \<noteq> [] \<and> (\<exists>(d, s) \<in> set cs. trim d = k \<and> bare_label_value s = v)"
proof -
  have "trim (case mdi_parse s of Some i \<Rightarrow> mdi_dimension_id i | None \<Rightarrow> trim s) = bare_label_value s" for s
    using trim_bare_label_value [of s] by (simp add: bare_label_value_def split: option.splits)
  then show ?thesis
    by (force simp: labels_from_coordinates_def stands_in_from_pairs)
qed

subsection \<open>Properties\<close>


definition sample_node :: "string \<Rightarrow> bundle_node" where
  "sample_node i = \<lparr>bn_node_id = i, bn_node_kind = ''entry'', bn_title = i, bn_summary = [],
     bn_status = ''ACTIVE'', bn_labels = [], bn_properties = [], bn_provenance = None\<rparr>"

definition sample_edge :: "string \<Rightarrow> string \<Rightarrow> string \<Rightarrow> bundle_relationship" where
  "sample_edge s t k = \<lparr>br_source_node_id = s, br_target_node_id = t, br_relationship_type = k,
     br_explanation = (rex_new Structural)\<lparr>rex_dimension := Some ''task'', rex_scope_id := Some ''t-1''\<rparr>,
     br_provenance = None\<rparr>"

definition sample_bundle :: "kmp_bundle domain_result" where
  "sample_bundle = kmp_bundle_new ''root'' ''dev'' (sample_node ''root'') [sample_node ''e1'']
     [sample_edge ''root'' ''e1'' ''contains_entry''] [] (metadata_initial ''1'')"


text \<open>The labels of an entry are exactly the label pairs of its \<open>contains_entry\<close> edges: the
  trimmed dimension as key, the bare value of the scope as value, blank ones left out; and an
  entry without such an edge has no entry in the map.\<close>

theorem entry_labels_are_edge_labels:
  "(case bmap_get (labels_by_entry b) ref_id of None \<Rightarrow> coordinates_of (kb_relationships b) ref_id = []
    | Some l \<Rightarrow> labels_ok l \<and> (\<forall>k v. stands_in l k v \<longleftrightarrow> k \<noteq> [] \<and> v \<noteq> [] \<and>
        (\<exists>(d, s) \<in> set (coordinates_of (kb_relationships b) ref_id). trim d = k \<and> bare_label_value s = v)))"
proof (cases "coordinates_of (kb_relationships b) ref_id = []")
  case False
  have "labels_ok (labels_from_coordinates cs)" for cs
    unfolding labels_from_coordinates_def by (rule labels_from_pairs_ok)
  with False show ?thesis
    by (simp only: labels_by_entry_get if_False option.case stands_in_from_coordinates simp_thms)
qed (simp add: labels_by_entry_get)

end
