(* ===== verification/TemporalIndex.thy ===== *)
theory TemporalIndex
  imports TemporalValues Bundle "HOL-Library.Option_ord"
begin

text \<open>
  The ordered catalogue of a temporal read (\<open>model/temporal_memory/axis_key.rs\<close>,
  \<open>position.rs\<close>, \<open>extract.rs\<close>): the typed keys of the axis, the positions the
  \<open>contains_entry\<close> edges of a bundle give, and their order. The positions are sorted with a
  stable sort, so that positions that compare equal keep the order of their edges.
\<close>

subsection \<open>Axis keys\<close>

datatype temporal_key_kind = KindTime | KindSequence | KindRank | KindRef

fun kind_index :: "temporal_key_kind \<Rightarrow> nat" where
  "kind_index KindTime = 0" | "kind_index KindSequence = 1" | "kind_index KindRank = 2" | "kind_index KindRef = 3"

lemma kind_index_inject [simp]: "kind_index a = kind_index b \<longleftrightarrow> a = b"
  by (cases a; cases b) simp_all

instantiation temporal_key_kind :: linorder
begin

definition less_eq_temporal_key_kind :: "temporal_key_kind \<Rightarrow> temporal_key_kind \<Rightarrow> bool" where
  "a \<le> b \<longleftrightarrow> kind_index a \<le> kind_index b"

definition less_temporal_key_kind :: "temporal_key_kind \<Rightarrow> temporal_key_kind \<Rightarrow> bool" where
  "a < b \<longleftrightarrow> kind_index a < kind_index b"

instance
  by standard (auto simp: less_eq_temporal_key_kind_def less_temporal_key_kind_def dest: order_antisym)

end

datatype axis_key = AxisKey (ak_axis: temporal_key_kind) (ak_value: string)

text \<open>The key's \<open>Ord\<close>: the kind first, then the bytes of the value.\<close>

definition axis_key_lt :: "axis_key \<Rightarrow> axis_key \<Rightarrow> bool" where
  "axis_key_lt a b \<longleftrightarrow>
     ak_axis a < ak_axis b \<or> (ak_axis a = ak_axis b \<and> ak_value a < ak_value b)"

definition axis_key_le :: "axis_key \<Rightarrow> axis_key \<Rightarrow> bool" where
  "axis_key_le a b \<longleftrightarrow> axis_key_lt a b \<or> a = b"

instantiation axis_key :: linorder
begin

definition less_eq_axis_key :: "axis_key \<Rightarrow> axis_key \<Rightarrow> bool" where
  "less_eq_axis_key = axis_key_le"

definition less_axis_key :: "axis_key \<Rightarrow> axis_key \<Rightarrow> bool" where
  "less_axis_key = axis_key_lt"

instance
  by standard
    (auto simp: less_eq_axis_key_def less_axis_key_def axis_key_le_def axis_key_lt_def
      intro: axis_key.expand)

end

lemmas axis_key_order =
  less_eq_axis_key_def less_axis_key_def axis_key_le_def axis_key_lt_def

definition time_key :: "string \<Rightarrow> axis_key" where
  "time_key value = AxisKey KindTime (canonical_time_key value)"

definition counter_text :: "32 word \<Rightarrow> string" where
  "counter_text value = pad0 10 (dec (unat value))"

definition sequence_key :: "32 word \<Rightarrow> axis_key" where
  "sequence_key value = AxisKey KindSequence (counter_text value)"

definition rank_key :: "32 word \<Rightarrow> axis_key" where
  "rank_key value = AxisKey KindRank (counter_text value)"

definition ref_key :: "string \<Rightarrow> axis_key" where
  "ref_key value = AxisKey KindRef value"

definition in_interval :: "axis_key \<Rightarrow> temporal_interval \<Rightarrow> bool" where
  "in_interval key i \<longleftrightarrow> ak_axis key = KindTime
     \<and> is_none_or (ti_start i) (\<lambda>start. time_key start \<le> key)
     \<and> is_none_or (ti_end i) (\<lambda>end'. key < time_key end')"

definition selected_time :: "temporal_coordinate \<Rightarrow> temporal_axis \<Rightarrow> string option" where
  "selected_time c axis =
     (case axis of
        AxisDefault \<Rightarrow> or_else (or_else (or_else (tc_occurred_at c) (tc_valid_from c)) (tc_observed_at c)) (tc_ingested_at c)
      | AxisOccurred \<Rightarrow> tc_occurred_at c
      | AxisObserved \<Rightarrow> tc_observed_at c
      | AxisIngested \<Rightarrow> tc_ingested_at c
      | AxisValidity \<Rightarrow> or_else (tc_valid_from c) (tc_valid_until c))"

definition keys_from_coordinate :: "string \<Rightarrow> temporal_coordinate \<Rightarrow> temporal_axis \<Rightarrow> axis_key list" where
  "keys_from_coordinate ref_id c axis =
     (let keys = (case selected_time c axis of Some v \<Rightarrow> [time_key v] | None \<Rightarrow> [])
        @ (case tc_sequence c of Some v \<Rightarrow> [sequence_key v] | None \<Rightarrow> [])
        @ (case tc_rank c of Some v \<Rightarrow> [rank_key v] | None \<Rightarrow> [])
      in if keys = [] then [ref_key ref_id] else keys)"

text \<open>\<open>primary_coordinate_key\<close> takes the first key; there always is one.\<close>

definition primary_coordinate_key :: "temporal_coordinate \<Rightarrow> axis_key" where
  "primary_coordinate_key c = hd (keys_from_coordinate [] c AxisDefault)"

lemma keys_from_coordinate_not_Nil [simp]: "keys_from_coordinate r c a \<noteq> []"
  by (simp add: keys_from_coordinate_def Let_def)

lemma counter_text_length: "length (counter_text w) = 10"
proof -
  have "unat w < 2 ^ 32" using unsigned_less [of w] by simp
  then have "unat w < 10 ^ 10" by simp
  then show ?thesis by (simp add: counter_text_def pad0_length dec_length)
qed

lemma counter_text_less: "counter_text v < counter_text w \<longleftrightarrow> v < w"
proof -
  have "counter_text v < counter_text w \<longleftrightarrow> unat v < unat w"
    using digits_less_iff [of "counter_text v" "counter_text w"] counter_text_length
    by (simp add: counter_text_def)
  then show ?thesis by (simp add: word_less_nat_alt)
qed

lemma counter_keys_less:
  "sequence_key v < sequence_key w \<longleftrightarrow> v < w"
  "rank_key v < rank_key w \<longleftrightarrow> v < w"
  by (simp_all add: axis_key_order sequence_key_def rank_key_def counter_text_less)

subsection \<open>Positions\<close>

record resolved_cursor =
  rc_axis_key :: "axis_key option"
  rc_ref_id :: "string option"
  rc_coordinate :: temporal_coordinate

record temporal_position =
  tp_ref_id :: string
  tp_coordinate :: temporal_coordinate
  tp_axis_key :: axis_key

text \<open>The chain of comparisons of \<open>Ord for TemporalPosition\<close>.\<close>

definition position_order ::
  "temporal_position \<Rightarrow> axis_key \<times> axis_key \<times> string \<times> string \<times> 32 word option \<times> 32 word option \<times> string" where
  "position_order p =
     (tp_axis_key p, primary_coordinate_key (tp_coordinate p), tc_dimension (tp_coordinate p),
      tc_scope_id (tp_coordinate p), tc_sequence (tp_coordinate p), tc_rank (tp_coordinate p),
      tp_ref_id p)"

definition sort_positions :: "temporal_position list \<Rightarrow> temporal_position list" where
  "sort_positions ps = sort_key position_order ps"

abbreviation sorted_positions :: "temporal_position list \<Rightarrow> bool" where
  "sorted_positions ps \<equiv> sorted (map position_order ps)"

text \<open>\<open>Iterator::min\<close>: the first of the least elements.\<close>

fun first_min :: "temporal_position list \<Rightarrow> temporal_position option" where
  "first_min [] = None"
| "first_min (p # ps) = (case first_min ps of None \<Rightarrow> Some p
     | Some q \<Rightarrow> if position_order q < position_order p then Some q else Some p)"

fun positions_of_edges :: "temporal_axis \<Rightarrow> bundle_relationship list \<Rightarrow> temporal_position list domain_result" where
  "positions_of_edges axis [] = Inr []"
| "positions_of_edges axis (r # rs) =
     (if br_relationship_type r \<noteq> ''contains_entry'' then positions_of_edges axis rs
      else try_bind (tc_from_explanation (br_explanation r)) (\<lambda>c. case c of
          None \<Rightarrow> positions_of_edges axis rs
        | Some c \<Rightarrow> try_bind (positions_of_edges axis rs) (\<lambda>ps.
            Inr (map (\<lambda>k. \<lparr>tp_ref_id = br_target_node_id r, tp_coordinate = c, tp_axis_key = k\<rparr>)
                   (keys_from_coordinate (br_target_node_id r) c axis) @ ps))))"

definition temporal_positions :: "kmp_bundle \<Rightarrow> temporal_axis \<Rightarrow> temporal_position list domain_result" where
  "temporal_positions b axis = positions_of_edges axis (kb_relationships b)"

definition bundle_nodes_by_id :: "kmp_bundle \<Rightarrow> (string, bundle_node) bmap" where
  "bundle_nodes_by_id b =
     foldl (\<lambda>m n. bmap_insert (bn_node_id n) n m) [] (kb_root_node b # kb_neighbor_nodes b)"

lemma first_min_None [simp]: "first_min ps = None \<longleftrightarrow> ps = []"
  by (cases ps) (auto split: option.splits)

lemma first_min_Some:
  "first_min ps = Some p \<Longrightarrow> p \<in> set ps \<and> (\<forall>q \<in> set ps. position_order p \<le> position_order q)"
  by (induction ps arbitrary: p) (fastforce split: option.splits if_splits)+

lemma tc_from_explanation_Inr: "\<exists>c. tc_from_explanation e = Inr c"
  by (auto simp: tc_from_explanation_def split: option.splits)

lemma temporal_positions_total: "\<exists>ps. temporal_positions b axis = Inr ps"
proof -
  have "\<exists>ps. positions_of_edges axis rs = Inr ps" for rs
  proof (induction rs)
    case (Cons r rs)
    obtain c where "tc_from_explanation (br_explanation r) = Inr c"
      using tc_from_explanation_Inr by blast
    with Cons show ?case by (cases c) auto
  qed simp
  then show ?thesis by (simp add: temporal_positions_def)
qed

text \<open>Every position comes from a \<open>contains_entry\<close> edge and carries one of its coordinate's keys.\<close>

lemma positions_of_edges_from:
  "positions_of_edges axis rs = Inr ps \<Longrightarrow> p \<in> set ps \<Longrightarrow>
     \<exists>r \<in> set rs. br_relationship_type r = ''contains_entry'' \<and> tp_ref_id p = br_target_node_id r
       \<and> tc_from_explanation (br_explanation r) = Inr (Some (tp_coordinate p))
       \<and> tp_axis_key p \<in> set (keys_from_coordinate (tp_ref_id p) (tp_coordinate p) axis)"
proof (induction rs arbitrary: ps)
  case (Cons r rs)
  obtain c where c: "tc_from_explanation (br_explanation r) = Inr c"
    using tc_from_explanation_Inr by blast
  consider "positions_of_edges axis rs = Inr ps"
    | qs c' where "positions_of_edges axis rs = Inr qs" "c = Some c'" "br_relationship_type r = ''contains_entry''"
      "ps = map (\<lambda>k. \<lparr>tp_ref_id = br_target_node_id r, tp_coordinate = c', tp_axis_key = k\<rparr>)
              (keys_from_coordinate (br_target_node_id r) c' axis) @ qs"
    using Cons.prems(1) c by (auto simp: try_bind_Inr_iff split: if_splits option.splits)
  then show ?case
  proof cases
    case 1
    then show ?thesis using Cons by auto
  next
    case 2
    then show ?thesis using Cons.IH Cons.prems(2) c by auto
  qed
qed simp

lemma sort_positions_sorted [simp]: "sorted_positions (sort_positions ps)"
  by (simp add: sort_positions_def)

lemma set_sort_positions [simp]: "set (sort_positions ps) = set ps"
  by (simp add: sort_positions_def)

lemma sorted_positions_axis: "sorted_positions ps \<Longrightarrow> sorted (map tp_axis_key ps)"
proof -
  have "position_order p \<le> position_order q \<Longrightarrow> tp_axis_key p \<le> tp_axis_key q" for p q
    by (auto simp: position_order_def less_eq_prod_def)
  then show "sorted_positions ps \<Longrightarrow> sorted (map tp_axis_key ps)"
    by (auto simp: sorted_wrt_map intro: sorted_wrt_mono_rel [rotated])
qed

end
