(* ===== verification/TemporalSelect.thy ===== *)
theory TemporalSelect
  imports TemporalIndex
begin

text \<open>
  Resolving a cursor and selecting a page of positions
  (\<open>model/temporal_memory/request.rs\<close>, \<open>entry_selection.rs\<close>, \<open>select.rs\<close>). A slice whose
  bounds cross panics in the code: the selection is an option, \<open>None\<close> being that panic, and a
  lemma shows when it cannot happen. Counts and limits are \<open>usize\<close>, here \<open>nat\<close>: they never
  exceed the length of a list.
\<close>

subsection \<open>Requests\<close>

text \<open>\<open>TemporalEntrySelection\<close> is its set of references.\<close>

definition entry_selection_new :: "string list \<Rightarrow> string bset domain_result" where
  "entry_selection_new refs =
     (if refs = [] then Inl (InvalidState ''temporal refs must be non-empty; omit refs to select all matching entries'')
      else if list_ex (\<lambda>v. v = [] \<or> trim v \<noteq> v) refs
      then Inl (InvalidState ''temporal refs must contain non-blank references without surrounding whitespace'')
      else let s = bset_of refs in
        if length s \<noteq> length refs then Inl (InvalidState ''temporal refs must be unique'') else Inr s)"

record traversal_request =
  tr_direction :: temporal_direction
  tr_axis :: temporal_axis
  tr_cursor :: "temporal_cursor option"
  tr_interval :: "temporal_interval option"
  tr_dimensions :: dimension_selection
  tr_requested_dimensions :: "dimension_selection option"
  tr_window :: temporal_window
  tr_limit_entries :: "nat option"
  tr_entry_selection :: "string bset option"

definition request_new :: "temporal_direction \<Rightarrow> temporal_cursor option \<Rightarrow> traversal_request" where
  "request_new direction cursor = \<lparr>tr_direction = direction, tr_axis = AxisDefault, tr_cursor = cursor,
     tr_interval = None, tr_dimensions = ds_all, tr_requested_dimensions = None,
     tr_window = window_default, tr_limit_entries = None, tr_entry_selection = None\<rparr>"

definition with_limit_entries :: "traversal_request \<Rightarrow> nat \<Rightarrow> traversal_request domain_result" where
  "with_limit_entries r limit =
     (if limit = 0 then Inl (InvalidState ''temporal limit_entries must be greater than zero'')
      else Inr (r\<lparr>tr_limit_entries := Some limit\<rparr>))"

definition request_validate :: "traversal_request \<Rightarrow> unit domain_result" where
  "request_validate r =
     (if tr_cursor r = None \<and> (tr_interval r = None \<or> \<not> (tr_direction r = Forward \<or> tr_direction r = Rewind))
      then Inl (InvalidState ''temporal cursor is required except for Forward/Rewind with an interval'')
      else if tr_interval r \<noteq> None \<and> (case tr_cursor r of Some (CursorSequence _) \<Rightarrow> True | _ \<Rightarrow> False)
      then Inl (InvalidState ''an interval uses a clock; its continuation must be a ref or time, not a sequence'')
      else Inr ())"

subsection \<open>Resolving the cursor\<close>

definition resolve_cursor ::
  "temporal_position list \<Rightarrow> temporal_cursor \<Rightarrow> temporal_axis \<Rightarrow> resolved_cursor domain_result" where
  "resolve_cursor positions cursor axis =
     (case cursor of
        CursorRef ref_id \<Rightarrow>
          (let mine = filter (\<lambda>p. tp_ref_id p = ref_id) positions in
           case first_min mine of
             None \<Rightarrow> Inl (InvalidState (''temporal cursor ref not found: '' @ ref_id))
           | Some first \<Rightarrow>
               (let selected = (if axis = AxisDefault then Some first
                   else first_min (filter (\<lambda>p. ak_axis (tp_axis_key p) = KindTime) mine))
                in Inr \<lparr>rc_axis_key = map_option tp_axis_key selected, rc_ref_id = Some ref_id,
                     rc_coordinate = tp_coordinate (case selected of None \<Rightarrow> first | Some s \<Rightarrow> s)\<rparr>))
      | CursorTime value \<Rightarrow>
          try_bind (tc_cursor_time value axis) (\<lambda>c.
            Inr \<lparr>rc_axis_key = Some (time_key value), rc_ref_id = None, rc_coordinate = c\<rparr>)
      | CursorSequence value \<Rightarrow>
          try_bind (tc_cursor_sequence value) (\<lambda>c.
            Inr \<lparr>rc_axis_key = Some (sequence_key value), rc_ref_id = None, rc_coordinate = c\<rparr>))"

subsection \<open>Pages\<close>

record position_selection =
  ps_positions :: "temporal_position list"
  ps_total_unique_refs :: nat
  ps_next_cursor :: "string option"

datatype page_side = Before | After

definition unique_refs_in_order :: "temporal_position list \<Rightarrow> string list" where
  "unique_refs_in_order ps =
     foldl (\<lambda>acc p. if tp_ref_id p \<in> set acc then acc else acc @ [tp_ref_id p]) [] ps"

definition ordered_unique_ref_ids :: "temporal_position list \<Rightarrow> string list" where
  "ordered_unique_ref_ids ps = unique_refs_in_order (sort_positions ps)"

definition unique_ref_count :: "temporal_position list \<Rightarrow> nat" where
  "unique_ref_count ps = length (bset_of (map tp_ref_id ps))"

definition take_ref_page :: "temporal_position list \<Rightarrow> nat \<Rightarrow> page_side \<Rightarrow> temporal_position list \<times> string list" where
  "take_ref_page positions limit side =
     (let ordered_refs = unique_refs_in_order positions;
          selected_refs = (case side of
              Before \<Rightarrow> drop (length ordered_refs - limit) ordered_refs
            | After \<Rightarrow> take limit ordered_refs)
      in (filter (\<lambda>p. tp_ref_id p \<in> set selected_refs) positions, selected_refs))"

definition first_of :: "'a list \<Rightarrow> 'a option" where
  "first_of xs = (case xs of [] \<Rightarrow> None | x # _ \<Rightarrow> Some x)"

definition last_of :: "'a list \<Rightarrow> 'a option" where
  "last_of xs = first_of (rev xs)"

definition select_limited :: "temporal_position list \<Rightarrow> nat \<Rightarrow> page_side \<Rightarrow> position_selection" where
  "select_limited candidates limit side =
     (let total = unique_ref_count candidates in
      case take_ref_page candidates limit side of (positions, returned_refs) \<Rightarrow>
        \<lparr>ps_positions = positions, ps_total_unique_refs = total,
         ps_next_cursor = (if length returned_refs < total
            then (case side of Before \<Rightarrow> first_of returned_refs | After \<Rightarrow> last_of returned_refs)
            else None)\<rparr>)"

definition labels_for_positions :: "temporal_position list \<Rightarrow> (string, entry_labels) bmap" where
  "labels_for_positions ps =
     map (\<lambda>(i, cs). (i, labels_from_coordinates cs))
       (foldl (\<lambda>m p. bmap_update (tp_ref_id p)
          (push_value (tc_dimension (tp_coordinate p), tc_scope_id (tp_coordinate p))) m) [] ps)"

definition position_in_lane :: "dimension_selection \<Rightarrow> temporal_position \<Rightarrow> bool" where
  "position_in_lane d p =
     includes_coordinate d (tc_dimension (tp_coordinate p)) (tc_scope_id (tp_coordinate p))"

definition entry_selected :: "temporal_position \<Rightarrow> traversal_request \<Rightarrow> (string, entry_labels) bmap \<Rightarrow> bool" where
  "entry_selected p r labels \<longleftrightarrow>
     position_in_lane (tr_dimensions r) p
     \<and> ds_admits (tr_dimensions r) (case bmap_get labels (tp_ref_id p) of None \<Rightarrow> [] | Some l \<Rightarrow> l)
     \<and> is_none_or (tr_entry_selection r) (\<lambda>s. tp_ref_id p \<in> set s)"

definition validity_not_ended :: "temporal_coordinate \<Rightarrow> axis_key \<Rightarrow> bool" where
  "validity_not_ended c k = is_none_or (tc_valid_until c) (\<lambda>e. time_key e > k)"

definition validity_contains :: "temporal_coordinate \<Rightarrow> axis_key \<Rightarrow> bool" where
  "validity_contains c k \<longleftrightarrow> is_none_or (tc_valid_from c) (\<lambda>s. time_key s \<le> k) \<and> validity_not_ended c k"

subsection \<open>Sides of the cursor\<close>

record partitions =
  pt_before :: "temporal_position list"
  pt_exact :: "temporal_position list"
  pt_after :: "temporal_position list"

fun find_index :: "('a \<Rightarrow> bool) \<Rightarrow> 'a list \<Rightarrow> nat option" where
  "find_index P [] = None"
| "find_index P (x # xs) = (if P x then Some 0 else map_option Suc (find_index P xs))"

definition positions_for_refs :: "temporal_position list \<Rightarrow> string list \<Rightarrow> temporal_position list" where
  "positions_for_refs ps refs = filter (\<lambda>p. tp_ref_id p \<in> set refs) ps"

definition partition_positions ::
  "temporal_position list \<Rightarrow> axis_key \<Rightarrow> string option \<Rightarrow> traversal_request \<Rightarrow> partitions" where
  "partition_positions comparable key cursor_ref r =
     (case cursor_ref of
        None \<Rightarrow> \<lparr>pt_before = filter (\<lambda>p. tp_axis_key p < key) comparable,
                 pt_exact = filter (\<lambda>p. tp_axis_key p = key) comparable,
                 pt_after = filter (\<lambda>p. tp_axis_key p > key) comparable\<rparr>
      | Some ref_id \<Rightarrow>
          (let refs = ordered_unique_ref_ids (filter (position_in_lane (tr_dimensions r)) comparable) in
           case find_index (\<lambda>x. x = ref_id) refs of
             None \<Rightarrow> \<lparr>pt_before = [], pt_exact = [], pt_after = []\<rparr>
           | Some anchor \<Rightarrow>
               \<lparr>pt_before = positions_for_refs comparable (take anchor refs),
                pt_exact = positions_for_refs comparable (take 1 (drop anchor refs)),
                pt_after = positions_for_refs comparable (drop (Suc anchor) refs)\<rparr>))"

subsection \<open>The selection\<close>

text \<open>\<open>partition_point\<close> on a partitioned slice, and slicing: \<open>None\<close> where the code panics.\<close>

definition partition_point :: "('a \<Rightarrow> bool) \<Rightarrow> 'a list \<Rightarrow> nat" where
  "partition_point P xs = length (takeWhile P xs)"

definition slice_range :: "'a list \<Rightarrow> nat \<Rightarrow> nat \<Rightarrow> 'a list option" where
  "slice_range xs a b = (if a \<le> b \<and> b \<le> length xs then Some (take (b - a) (drop a xs)) else None)"

definition kind_slice :: "temporal_position list \<Rightarrow> temporal_key_kind \<Rightarrow> temporal_position list option" where
  "kind_slice ps kind =
     slice_range ps (partition_point (\<lambda>p. ak_axis (tp_axis_key p) < kind) ps)
              (partition_point (\<lambda>p. ak_axis (tp_axis_key p) \<le> kind) ps)"

definition interval_slice :: "temporal_position list \<Rightarrow> traversal_request \<Rightarrow> temporal_position list option" where
  "interval_slice indexed r =
     (case tr_interval r of
        None \<Rightarrow> Some indexed
      | Some i \<Rightarrow>
          if tr_axis r = AxisValidity then Some indexed
          else slice_range indexed
            (case ti_start i of None \<Rightarrow> 0
             | Some s \<Rightarrow> partition_point (\<lambda>p. tp_axis_key p < time_key s) indexed)
            (case ti_end i of None \<Rightarrow> length indexed
             | Some e \<Rightarrow> partition_point (\<lambda>p. tp_axis_key p < time_key e) indexed))"

definition position_in_request :: "traversal_request \<Rightarrow> temporal_position \<Rightarrow> bool" where
  "position_in_request r p = is_none_or (tr_interval r) (\<lambda>i.
     if tr_axis r = AxisValidity
     then interval_overlaps i (tc_valid_from (tp_coordinate p)) (tc_valid_until (tp_coordinate p))
     else in_interval (tp_axis_key p) i)"

definition DEFAULT_GOTO_ENTRIES :: nat where
  "DEFAULT_GOTO_ENTRIES = 50"

definition limit_or :: "traversal_request \<Rightarrow> nat \<Rightarrow> nat" where
  "limit_or r d = (case tr_limit_entries r of None \<Rightarrow> d | Some n \<Rightarrow> n)"

text \<open>The \<open>Near\<close> arm: a window on each side of the exact positions.\<close>

definition select_near :: "partitions \<Rightarrow> traversal_request \<Rightarrow> position_selection" where
  "select_near parts r =
     (let before = fst (take_ref_page (pt_before parts) (tw_before_entries (tr_window r)) Before);
          after = fst (take_ref_page (pt_after parts) (tw_after_entries (tr_window r)) After);
          before_more = unique_ref_count before < unique_ref_count (pt_before parts);
          after_more = unique_ref_count after < unique_ref_count (pt_after parts);
          total = unique_ref_count (pt_before parts @ pt_exact parts @ pt_after parts);
          positions = before @ pt_exact parts @ after;
          returned_refs = ordered_unique_ref_ids positions
      in \<lparr>ps_positions = positions, ps_total_unique_refs = total,
          ps_next_cursor =
            (if length returned_refs < total
             then if after_more then last_of returned_refs
                  else if before_more then first_of returned_refs else None
             else None)\<rparr>)"

definition partition_labels :: "partitions \<Rightarrow> temporal_direction \<Rightarrow> (string, entry_labels) bmap" where
  "partition_labels parts dir = labels_for_positions
     ((if dir \<noteq> Forward then pt_before parts else [])
      @ (if dir = Goto \<or> dir = Near then pt_exact parts else [])
      @ (if dir = Forward \<or> dir = Near then pt_after parts else []))"

definition retain_selected :: "traversal_request \<Rightarrow> (string, entry_labels) bmap \<Rightarrow> temporal_position list \<Rightarrow> temporal_position list" where
  "retain_selected r labels ps = filter (\<lambda>p. entry_selected p r labels) ps"

definition select_sides :: "temporal_position list \<Rightarrow> axis_key \<Rightarrow> string option \<Rightarrow> traversal_request \<Rightarrow> position_selection" where
  "select_sides comparable key cursor_ref r =
     (let comparable = (if tr_direction r = Goto then filter (\<lambda>p. tp_axis_key p \<le> key) comparable else comparable);
          parts = partition_positions comparable key cursor_ref r;
          labels = partition_labels parts (tr_direction r);
          parts = \<lparr>pt_before = retain_selected r labels (pt_before parts),
                   pt_exact = retain_selected r labels (pt_exact parts),
                   pt_after = retain_selected r labels (pt_after parts)\<rparr>
      in case tr_direction r of
           Goto \<Rightarrow> select_limited (pt_before parts @ pt_exact parts) (limit_or r DEFAULT_GOTO_ENTRIES) Before
         | Rewind \<Rightarrow> select_limited (pt_before parts) (limit_or r 5) Before
         | Forward \<Rightarrow> select_limited (pt_after parts) (limit_or r 5) After
         | Near \<Rightarrow> select_near parts r)"

definition validity_time_cursor :: "traversal_request \<Rightarrow> bool" where
  "validity_time_cursor r \<longleftrightarrow> tr_axis r = AxisValidity
     \<and> (case tr_cursor r of Some (CursorTime _) \<Rightarrow> True | _ \<Rightarrow> False) \<and> tr_interval r = None"

definition select_at_cursor :: "temporal_position list \<Rightarrow> axis_key \<Rightarrow> string option \<Rightarrow> traversal_request \<Rightarrow> position_selection" where
  "select_at_cursor comparable key cursor_ref r =
     (let comparable = (if validity_time_cursor r
            then filter (\<lambda>p. validity_not_ended (tp_coordinate p) key) comparable else comparable)
      in if validity_time_cursor r \<and> tr_direction r = Goto then
           (let active = filter (\<lambda>p. validity_contains (tp_coordinate p) key) comparable
            in select_limited (retain_selected r (labels_for_positions active) active)
                 (limit_or r DEFAULT_GOTO_ENTRIES) Before)
         else select_sides comparable key cursor_ref r)"

definition select_positions ::
  "temporal_position list \<Rightarrow> resolved_cursor option \<Rightarrow> traversal_request \<Rightarrow> position_selection option" where
  "select_positions positions cursor r =
     (if (case cursor of None \<Rightarrow> False | Some c \<Rightarrow> rc_axis_key c = None)
      then Some \<lparr>ps_positions = [], ps_total_unique_refs = 0, ps_next_cursor = None\<rparr>
      else
        (let key = Option.bind cursor rc_axis_key;
             kind = (case key of None \<Rightarrow> KindTime | Some k \<Rightarrow> ak_axis k)
         in Option.bind (kind_slice positions kind) (\<lambda>indexed.
            Option.bind (interval_slice indexed r) (\<lambda>indexed.
              let comparable = filter (position_in_request r) indexed in
              Some (case key of
                 None \<Rightarrow> select_limited (retain_selected r (labels_for_positions comparable) comparable)
                    (limit_or r 5) (if tr_direction r = Rewind then Before else After)
               | Some k \<Rightarrow> select_at_cursor comparable k (Option.bind cursor rc_ref_id) r)))))"

subsection \<open>Coordinates of the selected entries\<close>

definition compare_temporal_coordinates_key :: "temporal_coordinate \<Rightarrow> axis_key \<times> string \<times> string" where
  "compare_temporal_coordinates_key c = (primary_coordinate_key c, tc_dimension c, tc_scope_id c)"

definition compare_temporal_coordinates :: "temporal_coordinate \<Rightarrow> temporal_coordinate \<Rightarrow> ordering" where
  "compare_temporal_coordinates l r =
     ord_cmp (compare_temporal_coordinates_key l) (compare_temporal_coordinates_key r)"

definition coordinates_by_ref :: "temporal_position list \<Rightarrow> (string, temporal_coordinate list) bmap" where
  "coordinates_by_ref ps =
     map (\<lambda>(i, cs). (i, sort_key compare_temporal_coordinates_key cs))
       (foldl (\<lambda>m p. bmap_update (tp_ref_id p) (\<lambda>v. case v of None \<Rightarrow> [tp_coordinate p]
          | Some cs \<Rightarrow> if tp_coordinate p \<in> set cs then cs else cs @ [tp_coordinate p]) m) [] ps)"

subsection \<open>Slices are filters\<close>

text \<open>A predicate that only holds on a prefix, as \<open>partition_point\<close> asks.\<close>

definition partitioned :: "('a \<Rightarrow> bool) \<Rightarrow> 'a list \<Rightarrow> bool" where
  "partitioned P xs \<longleftrightarrow> sorted_wrt (\<lambda>x y. P y \<longrightarrow> P x) xs"

lemma partitioned_takeWhile:
  "partitioned P xs \<Longrightarrow> takeWhile P xs = filter P xs \<and> dropWhile P xs = filter (\<lambda>x. \<not> P x) xs"
  by (induction xs) (auto simp: partitioned_def filter_empty_conv filter_id_conv)

lemma partitioned_filter: "partitioned P xs \<Longrightarrow> partitioned P (filter Q xs)"
  by (simp add: partitioned_def sorted_wrt_filter)

lemma slice_between:
  assumes "partitioned P xs" and "partitioned Q xs" and "\<And>x. x \<in> set xs \<Longrightarrow> P x \<Longrightarrow> Q x"
  shows "slice_range xs (partition_point P xs) (partition_point Q xs) = Some (filter (\<lambda>x. \<not> P x \<and> Q x) xs)"
proof -
  let ?t = "filter Q xs"
  have q: "takeWhile Q xs = ?t" "xs = ?t @ filter (\<lambda>x. \<not> Q x) xs"
    using partitioned_takeWhile [OF assms(2)] takeWhile_dropWhile_id [of Q xs] by auto
  have pf: "filter P xs = filter P ?t"
    using assms(3) by (auto simp: filter_filter intro: filter_cong)
  have p: "takeWhile P xs = filter P ?t" using partitioned_takeWhile [OF assms(1)] pf by simp
  have pt: "takeWhile P ?t = filter P ?t" "dropWhile P ?t = filter (\<lambda>x. \<not> P x) ?t"
    using partitioned_takeWhile [OF partitioned_filter [OF assms(1)]] by auto
  have len: "length (filter P ?t) \<le> length ?t" by (rule length_filter_le)
  have "drop (length (filter P ?t)) ?t = filter (\<lambda>x. \<not> P x) ?t"
    using pt dropWhile_eq_drop [of P ?t] by simp
  moreover have "take (length ?t - length (filter P ?t)) (drop (length (filter P ?t)) xs)
      = drop (length (filter P ?t)) ?t"
    using len by (subst q(2)) simp
  moreover have "length ?t \<le> length xs" by (rule length_filter_le)
  ultimately show ?thesis
    using len by (simp add: slice_range_def partition_point_def p q(1) filter_filter conj_commute)
qed

lemma slice_from_start:
  assumes "partitioned Q xs"
  shows "slice_range xs 0 (partition_point Q xs) = Some (filter Q xs)"
proof -
  have "takeWhile (\<lambda>_. False) xs = []" by (cases xs) simp_all
  then show ?thesis
    using slice_between [of "\<lambda>_. False" xs Q] assms by (simp add: partitioned_def partition_point_def)
qed

lemma slice_to_end:
  assumes "partitioned P xs"
  shows "slice_range xs (partition_point P xs) (length xs) = Some (filter (\<lambda>x. \<not> P x) xs)"
proof -
  have "length (takeWhile (\<lambda>_. True) ys) = length ys" for ys :: "'a list" by (induction ys) simp_all
  note [simp] = this
  show ?thesis
    using slice_between [of P xs "\<lambda>_. True"] assms
    unfolding partitioned_def partition_point_def by auto
qed

lemma sorted_partitioned:
  assumes "sorted (map f xs)" and "\<And>a b. a \<le> b \<Longrightarrow> P b \<Longrightarrow> P a"
  shows "partitioned (\<lambda>x. P (f x)) xs"
  using assms(1) unfolding partitioned_def sorted_wrt_map
  by (rule sorted_wrt_mono_rel [rotated]) (use assms(2) in blast)

lemma axis_kind_mono: "a \<le> b \<Longrightarrow> ak_axis a \<le> ak_axis b" for a b :: axis_key
  by (auto simp: axis_key_order)

lemma kind_slice_filter:
  assumes "sorted (map tp_axis_key ps)"
  shows "kind_slice ps kind = Some (filter (\<lambda>p. ak_axis (tp_axis_key p) = kind) ps)"
proof -
  have "partitioned (\<lambda>p. ak_axis (tp_axis_key p) < kind) ps"
    "partitioned (\<lambda>p. ak_axis (tp_axis_key p) \<le> kind) ps"
    by (rule sorted_partitioned [OF assms]; use axis_kind_mono in fastforce)+
  from slice_between [OF this] show ?thesis
    by (auto simp: kind_slice_def not_less intro: filter_cong)
qed

text \<open>The bounds of a request's interval do not cross on the key axis.\<close>

definition interval_keys_ordered :: "traversal_request \<Rightarrow> bool" where
  "interval_keys_ordered r \<longleftrightarrow> (case tr_interval r of None \<Rightarrow> True | Some i \<Rightarrow>
     (case (ti_start i, ti_end i) of (Some s, Some e) \<Rightarrow> time_key s \<le> time_key e | _ \<Rightarrow> True))"

lemma interval_slice_filter:
  assumes s: "sorted (map tp_axis_key ps)" and ord: "interval_keys_ordered r"
  shows "\<exists>qs. interval_slice ps r = Some qs \<and> filter (position_in_request r) qs = filter (position_in_request r) ps"
proof (cases "tr_interval r = None \<or> tr_axis r = AxisValidity")
  case True
  then show ?thesis by (cases "tr_interval r") (auto simp: interval_slice_def)
next
  case False
  then obtain i where i: "tr_interval r = Some i" and axis: "tr_axis r \<noteq> AxisValidity" by auto
  have part: "partitioned (\<lambda>p. tp_axis_key p < k) ps" for k
    by (rule sorted_partitioned [OF s]) (rule le_less_trans)
  have mono: "tp_axis_key p < b" if "tp_axis_key p < a" "a \<le> b" for p a b
    using that by (rule less_le_trans)
  have keep: "filter (position_in_request r) (filter Q ps) = filter (position_in_request r) ps"
    if "\<And>p. in_interval (tp_axis_key p) i \<Longrightarrow> Q p" for Q
    using that axis i by (auto simp: filter_filter position_in_request_def is_none_or_def intro!: filter_cong)
  show ?thesis
  proof (cases "ti_start i")
    case None
    then show ?thesis
    proof (cases "ti_end i")
      case None
      with \<open>ti_start i = None\<close> show ?thesis using i axis by (simp add: interval_slice_def slice_range_def)
    next
      case (Some e)
      then have "interval_slice ps r = Some (filter (\<lambda>p. tp_axis_key p < time_key e) ps)"
        using i axis None slice_from_start [OF part] by (simp add: interval_slice_def)
      then show ?thesis using keep [of "\<lambda>p. tp_axis_key p < time_key e"] Some
        by (auto simp: in_interval_def is_none_or_def)
    qed
  next
    case (Some b)
    show ?thesis
    proof (cases "ti_end i")
      case None
      then have "interval_slice ps r = Some (filter (\<lambda>p. \<not> tp_axis_key p < time_key b) ps)"
        using i axis Some slice_to_end [OF part] by (simp add: interval_slice_def)
      then show ?thesis using keep [of "\<lambda>p. \<not> tp_axis_key p < time_key b"] Some
        by (auto simp: in_interval_def is_none_or_def not_less)
    next
      case (Some e)
      then have "time_key b \<le> time_key e" using ord i \<open>ti_start i = Some b\<close>
        by (simp add: interval_keys_ordered_def)
      then have "interval_slice ps r = Some (filter (\<lambda>p. \<not> tp_axis_key p < time_key b \<and> tp_axis_key p < time_key e) ps)"
        using i axis Some \<open>ti_start i = Some b\<close> mono slice_between [OF part part, of "time_key b" "time_key e"]
        by (simp add: interval_slice_def)
      then show ?thesis
        using keep [of "\<lambda>p. \<not> tp_axis_key p < time_key b \<and> tp_axis_key p < time_key e"] Some \<open>ti_start i = Some b\<close>
        by (auto simp: in_interval_def is_none_or_def not_less)
    qed
  qed
qed

text \<open>What the indexed search computes: the positions of the cursor's kind inside the interval.\<close>

definition comparable_positions :: "temporal_position list \<Rightarrow> temporal_key_kind \<Rightarrow> traversal_request \<Rightarrow> temporal_position list" where
  "comparable_positions ps kind r =
     filter (\<lambda>p. ak_axis (tp_axis_key p) = kind \<and> position_in_request r p) ps"

definition cursor_kind :: "axis_key option \<Rightarrow> temporal_key_kind" where
  "cursor_kind key = (case key of None \<Rightarrow> KindTime | Some k \<Rightarrow> ak_axis k)"

lemma select_positions_filter:
  assumes "sorted (map tp_axis_key ps)" and "interval_keys_ordered r"
  shows "select_positions ps cursor r =
    (if (case cursor of None \<Rightarrow> False | Some c \<Rightarrow> rc_axis_key c = None)
     then Some \<lparr>ps_positions = [], ps_total_unique_refs = 0, ps_next_cursor = None\<rparr>
     else
       (let key = Option.bind cursor rc_axis_key;
            comparable = comparable_positions ps (cursor_kind key) r
        in Some (case key of
             None \<Rightarrow> select_limited (retain_selected r (labels_for_positions comparable) comparable)
                (limit_or r 5) (if tr_direction r = Rewind then Before else After)
           | Some k \<Rightarrow> select_at_cursor comparable k (Option.bind cursor rc_ref_id) r)))"
proof -
  have "\<exists>qs. interval_slice (filter (\<lambda>p. ak_axis (tp_axis_key p) = kind) ps) r = Some qs
      \<and> filter (position_in_request r) qs = comparable_positions ps kind r" for kind
  proof -
    have "sorted (map tp_axis_key (filter (\<lambda>p. ak_axis (tp_axis_key p) = kind) ps))"
      using assms(1) by (rule sorted_filter)
    from interval_slice_filter [OF this assms(2)] show ?thesis
      by (auto simp: comparable_positions_def filter_filter conj_commute intro: filter_cong)
  qed
  then obtain qs where
    "interval_slice (filter (\<lambda>p. ak_axis (tp_axis_key p) = cursor_kind (Option.bind cursor rc_axis_key)) ps) r = Some qs"
    "filter (position_in_request r) qs = comparable_positions ps (cursor_kind (Option.bind cursor rc_axis_key)) r"
    by blast
  then show ?thesis
    unfolding select_positions_def cursor_kind_def [symmetric] Let_def kind_slice_filter [OF assms(1)]
    by (simp cong: option.case_cong)
qed

end
