(* ===== verification/TemporalPages.thy ===== *)
theory TemporalPages
  imports TemporalSelect
begin

text \<open>
  Facts about pages of positions: the references of a page in order, its bound, when there is a
  next cursor, and how a page continues from the reference it ended on. They are about the
  definitions of the selection and carry the properties of the traversal.
\<close>

subsection \<open>References in order\<close>

abbreviation refs_of :: "temporal_position list \<Rightarrow> string set" where
  "refs_of ps \<equiv> tp_ref_id ` set ps"

lemma unique_refs_snoc:
  "unique_refs_in_order (ps @ [p]) =
     (if tp_ref_id p \<in> refs_of ps then unique_refs_in_order ps else unique_refs_in_order ps @ [tp_ref_id p])"
  and set_unique_refs [simp]: "set (unique_refs_in_order ps) = refs_of ps"
proof -
  show set: "set (unique_refs_in_order ps) = refs_of ps" for ps
    by (induction ps rule: rev_induct) (auto simp: unique_refs_in_order_def)
  show "unique_refs_in_order (ps @ [p]) =
     (if tp_ref_id p \<in> refs_of ps then unique_refs_in_order ps else unique_refs_in_order ps @ [tp_ref_id p])"
    using set [of ps] by (simp add: unique_refs_in_order_def)
qed

lemma unique_refs_Nil [simp]: "unique_refs_in_order [] = []"
  by (simp add: unique_refs_in_order_def)

lemma distinct_unique_refs [simp]: "distinct (unique_refs_in_order ps)"
  by (induction ps rule: rev_induct) (simp_all add: unique_refs_snoc)

lemma unique_refs_filter:
  "unique_refs_in_order (filter (\<lambda>p. P (tp_ref_id p)) ps) = filter P (unique_refs_in_order ps)"
  by (induction ps rule: rev_induct) (auto simp: unique_refs_snoc)

lemma unique_refs_map: "unique_refs_in_order ps = rev (remdups (rev (map tp_ref_id ps)))"
  by (induction ps rule: rev_induct) (auto simp: unique_refs_snoc)

lemma unique_ref_count_card: "unique_ref_count ps = card (refs_of ps)"
  by (simp add: unique_ref_count_def length_bset)

lemma unique_ref_count_length: "unique_ref_count ps = length (unique_refs_in_order ps)"
  using distinct_card [OF distinct_unique_refs [of ps]] by (simp add: unique_ref_count_card)

lemma filter_in_parts:
  "distinct (xs @ ys) \<Longrightarrow> filter (\<lambda>x. x \<in> set xs) (xs @ ys) = xs \<and> filter (\<lambda>x. x \<in> set ys) (xs @ ys) = ys"
  by (auto simp: filter_id_conv filter_empty_conv)

lemma filter_in_take: "distinct xs \<Longrightarrow> filter (\<lambda>x. x \<in> set (take n xs)) xs = take n xs"
  using filter_in_parts [of "take n xs" "drop n xs", unfolded append_take_drop_id] by blast

lemma filter_in_drop: "distinct xs \<Longrightarrow> filter (\<lambda>x. x \<in> set (drop n xs)) xs = drop n xs"
  using filter_in_parts [of "take n xs" "drop n xs", unfolded append_take_drop_id] by blast

subsection \<open>One page\<close>

definition page_refs :: "temporal_position list \<Rightarrow> nat \<Rightarrow> page_side \<Rightarrow> string list" where
  "page_refs ps n side = (case side of
     Before \<Rightarrow> drop (length (unique_refs_in_order ps) - n) (unique_refs_in_order ps)
   | After \<Rightarrow> take n (unique_refs_in_order ps))"

lemma take_ref_page_eq:
  "take_ref_page ps n side = (filter (\<lambda>p. tp_ref_id p \<in> set (page_refs ps n side)) ps, page_refs ps n side)"
  by (simp add: take_ref_page_def page_refs_def Let_def split: page_side.split)

lemma length_page_refs: "length (page_refs ps n side) = min n (unique_ref_count ps)"
  by (auto simp: page_refs_def unique_ref_count_length split: page_side.split)

lemma unique_refs_page:
  "unique_refs_in_order (filter (\<lambda>p. tp_ref_id p \<in> set (page_refs ps n side)) ps) = page_refs ps n side"
  unfolding unique_refs_filter [of "\<lambda>x. x \<in> set (page_refs ps n side)"]
  by (cases side) (simp_all only: page_refs_def page_side.case filter_in_take filter_in_drop distinct_unique_refs)

lemma select_limited_eq:
  "select_limited ps n side =
     \<lparr>ps_positions = filter (\<lambda>p. tp_ref_id p \<in> set (page_refs ps n side)) ps,
      ps_total_unique_refs = unique_ref_count ps,
      ps_next_cursor = (if length (page_refs ps n side) < unique_ref_count ps
        then (case side of Before \<Rightarrow> first_of (page_refs ps n side) | After \<Rightarrow> last_of (page_refs ps n side))
        else None)\<rparr>"
  by (simp add: select_limited_def take_ref_page_eq Let_def)

lemma select_limited_positions: "set (ps_positions (select_limited ps n side)) \<subseteq> set ps"
  by (auto simp: select_limited_eq)

lemma select_limited_count:
  "unique_ref_count (ps_positions (select_limited ps n side)) = min n (ps_total_unique_refs (select_limited ps n side))"
  unfolding unique_ref_count_length [of "ps_positions _"]
  by (simp add: select_limited_eq unique_refs_page length_page_refs)

lemma first_of_None [simp]: "first_of xs = None \<longleftrightarrow> xs = []"
  by (cases xs) (simp_all add: first_of_def)

lemma last_of_None [simp]: "last_of xs = None \<longleftrightarrow> xs = []"
  by (simp add: last_of_def)

lemma last_of_snoc [simp]: "last_of (xs @ [x]) = Some x"
  by (simp add: last_of_def first_of_def)

lemma last_of_last: "xs \<noteq> [] \<Longrightarrow> last_of xs = Some (last xs)"
  by (cases xs rule: rev_cases) simp_all

lemma select_limited_complete:
  assumes "0 < n"
  shows "ps_next_cursor (select_limited ps n side) = None \<longleftrightarrow>
    unique_ref_count (ps_positions (select_limited ps n side)) = ps_total_unique_refs (select_limited ps n side)"
proof -
  have "page_refs ps n side = [] \<longleftrightarrow> unique_ref_count ps = 0"
    using length_page_refs [of ps n side] assms by auto
  then show ?thesis
    unfolding select_limited_count
    using length_page_refs [of ps n side] by (cases side) (auto simp: select_limited_eq)
qed

subsection \<open>Which positions a selection returns\<close>

lemma retain_selected_subset: "set (retain_selected r labels ps) \<subseteq> set ps"
  by (auto simp: retain_selected_def)

lemma retain_selected_lane: "p \<in> set (retain_selected r labels ps) \<Longrightarrow>
    position_in_lane (tr_dimensions r) p \<and> is_none_or (tr_entry_selection r) (\<lambda>s. tp_ref_id p \<in> set s)"
  by (auto simp: retain_selected_def entry_selected_def)

lemma partition_subset:
  "set (pt_before (partition_positions ps k c r)) \<subseteq> set ps"
  "set (pt_exact (partition_positions ps k c r)) \<subseteq> set ps"
  "set (pt_after (partition_positions ps k c r)) \<subseteq> set ps"
  by (auto simp: partition_positions_def positions_for_refs_def Let_def split: option.splits)

lemma select_near_positions:
  "set (ps_positions (select_near parts r)) \<subseteq> set (pt_before parts) \<union> set (pt_exact parts) \<union> set (pt_after parts)"
  by (auto simp: select_near_def Let_def take_ref_page_eq)

definition passes :: "traversal_request \<Rightarrow> temporal_position \<Rightarrow> bool" where
  "passes r p \<longleftrightarrow> position_in_lane (tr_dimensions r) p \<and> is_none_or (tr_entry_selection r) (\<lambda>s. tp_ref_id p \<in> set s)"

lemma select_retained:
  assumes "p \<in> set (ps_positions (select_limited ps n side))" and "set ps \<subseteq> set (retain_selected r labels qs)"
  shows "p \<in> set qs \<and> passes r p"
  using assms select_limited_positions [of ps n side] retain_selected_subset [of r labels qs]
    retain_selected_lane [of p r labels qs] unfolding passes_def by blast

lemma retain_selected_append:
  "retain_selected r labels qs @ retain_selected r labels us = retain_selected r labels (qs @ us)"
  by (simp add: retain_selected_def)

text \<open>The sides of the cursor that each direction may return.\<close>

lemma select_sides_from:
  assumes "p \<in> set (ps_positions (select_sides comparable key cref r))"
  defines "visible \<equiv> if tr_direction r = Goto then filter (\<lambda>p. tp_axis_key p \<le> key) comparable else comparable"
  defines "parts \<equiv> partition_positions visible key cref r"
  shows "(tr_direction r = Goto \<and> (p \<in> set (pt_before parts) \<or> p \<in> set (pt_exact parts))
      \<or> tr_direction r = Rewind \<and> p \<in> set (pt_before parts)
      \<or> tr_direction r = Forward \<and> p \<in> set (pt_after parts)
      \<or> tr_direction r = Near \<and> (p \<in> set (pt_before parts) \<or> p \<in> set (pt_exact parts) \<or> p \<in> set (pt_after parts)))
    \<and> passes r p"
proof (cases "tr_direction r")
  case Goto
  then have "p \<in> set (ps_positions (select_limited (retain_selected r (partition_labels parts Goto) (pt_before parts)
      @ retain_selected r (partition_labels parts Goto) (pt_exact parts)) (limit_or r DEFAULT_GOTO_ENTRIES) Before))"
    using assms(1) by (simp add: select_sides_def Let_def parts_def visible_def)
  with Goto show ?thesis
    unfolding retain_selected_append by (auto dest!: select_retained [OF _ order_refl])
next
  case Rewind
  then show ?thesis
    using assms(1) by (auto simp: select_sides_def Let_def parts_def visible_def dest!: select_retained [OF _ order_refl])
next
  case Forward
  then show ?thesis
    using assms(1) by (auto simp: select_sides_def Let_def parts_def visible_def dest!: select_retained [OF _ order_refl])
next
  case Near
  then have "p \<in> set (ps_positions (select_near
      \<lparr>pt_before = retain_selected r (partition_labels parts Near) (pt_before parts),
       pt_exact = retain_selected r (partition_labels parts Near) (pt_exact parts),
       pt_after = retain_selected r (partition_labels parts Near) (pt_after parts)\<rparr> r))"
    using assms(1) by (simp add: select_sides_def Let_def parts_def visible_def)
  then have "p \<in> set (retain_selected r (partition_labels parts Near) (pt_before parts @ pt_exact parts @ pt_after parts))"
    using select_near_positions by (fastforce simp: retain_selected_def)
  with Near show ?thesis
    using retain_selected_lane retain_selected_subset unfolding passes_def by fastforce
qed

lemma select_sides_subset: "set (ps_positions (select_sides comparable key cref r)) \<subseteq> set comparable"
proof
  fix p assume "p \<in> set (ps_positions (select_sides comparable key cref r))"
  from select_sides_from [OF this] show "p \<in> set comparable"
    using partition_subset by (fastforce split: if_splits)
qed

subsection \<open>Continuing a page\<close>

definition position_labels :: "temporal_position list \<Rightarrow> string \<Rightarrow> entry_labels" where
  "position_labels ps i = labels_from_coordinates
     (map (\<lambda>p. (tc_dimension (tp_coordinate p), tc_scope_id (tp_coordinate p))) (filter (\<lambda>p. tp_ref_id p = i) ps))"

lemma labels_for_positions_get:
  "bmap_get (labels_for_positions ps) i =
     (if i \<in> refs_of ps then Some (position_labels ps i) else None)"
proof -
  let ?c = "\<lambda>p. (tc_dimension (tp_coordinate p), tc_scope_id (tp_coordinate p))"
  let ?m = "foldl (\<lambda>m p. bmap_update (tp_ref_id p) (push_value (?c p)) m) [] ps"
  have "bmap_get (labels_for_positions ps) i = map_option labels_from_coordinates (bmap_get ?m i)"
    unfolding labels_for_positions_def bmap_get_def by (simp add: map_of_map)
  moreover have "bmap_get ?m i = foldl (\<lambda>v p. if tp_ref_id p = i then Some (push_value (?c p) v) else v) None ps"
    using bmap.group_get [OF bmap_ok_Nil, of tp_ref_id "\<lambda>p. push_value (?c p)" ps i] by simp
  moreover have "foldl (\<lambda>v p. if tp_ref_id p = i then Some (push_value (?c p) v) else v) None ps
      = (if i \<in> refs_of ps then Some (map ?c (filter (\<lambda>p. tp_ref_id p = i) ps)) else None)"
  proof (induction ps rule: rev_induct)
    case (snoc p ps)
    have "filter (\<lambda>p. tp_ref_id p = i) ps = []" if "i \<notin> refs_of ps"
      using that by (auto simp: filter_empty_conv)
    with snoc show ?case by (auto simp: push_value_def)
  qed simp
  ultimately show ?thesis by (simp add: position_labels_def)
qed

text \<open>What the whole-entry filters say of an entry, over all its comparable positions.\<close>

definition entry_admitted :: "temporal_position list \<Rightarrow> traversal_request \<Rightarrow> string \<Rightarrow> bool" where
  "entry_admitted ps r i \<longleftrightarrow> ds_admits (tr_dimensions r) (position_labels ps i)
     \<and> is_none_or (tr_entry_selection r) (\<lambda>s. i \<in> set s)"

definition lane_refs :: "temporal_position list \<Rightarrow> traversal_request \<Rightarrow> string list" where
  "lane_refs ps r = ordered_unique_ref_ids (filter (position_in_lane (tr_dimensions r)) ps)"

lemma find_index_split:
  "c \<notin> set xs \<Longrightarrow> find_index (\<lambda>x. x = c) (xs @ c # ys) = Some (length xs)"
  by (induction xs) auto

lemma sort_positions_id: "sorted_positions ps \<Longrightarrow> sort_positions ps = ps"
  unfolding sort_positions_def by (rule sort_key_id_if_sorted)

lemma sorted_positions_filter: "sorted_positions ps \<Longrightarrow> sorted_positions (filter P ps)"
  by (rule sorted_filter)

lemma forward_page_refs:
  assumes sorted: "sorted_positions ps" and dir: "tr_direction r = Forward"
    and refs: "lane_refs ps r = xs @ c # ys"
  shows "unique_refs_in_order (ps_positions (select_sides ps k (Some c) r))
      = take (limit_or r 5) (filter (entry_admitted ps r) ys)"
    and "ps_next_cursor (select_sides ps k (Some c) r) =
      (if limit_or r 5 < length (filter (entry_admitted ps r) ys)
       then last_of (take (limit_or r 5) (filter (entry_admitted ps r) ys)) else None)"
proof -
  let ?lane = "filter (position_in_lane (tr_dimensions r)) ps"
  let ?n = "limit_or r 5" and ?ok = "entry_admitted ps r"
  have uniq: "unique_refs_in_order ?lane = xs @ c # ys"
    using refs sort_positions_id [OF sorted_positions_filter [OF sorted]]
    by (simp add: lane_refs_def ordered_unique_ref_ids_def)
  then have dist: "distinct (xs @ c # ys)" using distinct_unique_refs [of ?lane] by simp
  define after where "after = filter (\<lambda>p. tp_ref_id p \<in> set ys) ps"
  have "find_index (\<lambda>x. x = c) (lane_refs ps r) = Some (length xs)"
    using dist refs by (simp add: find_index_split)
  then have parts: "pt_after (partition_positions ps k (Some c) r) = after"
    using refs by (simp add: partition_positions_def lane_refs_def [symmetric] positions_for_refs_def after_def)
  define labels where "labels = labels_for_positions after"
  have lab: "(case bmap_get labels i of None \<Rightarrow> [] | Some l \<Rightarrow> l) = position_labels ps i"
    if "i \<in> set ys" for i
  proof -
    have own: "filter (\<lambda>p. tp_ref_id p = i) after = filter (\<lambda>p. tp_ref_id p = i) ps"
      using that by (auto simp: after_def filter_filter intro: filter_cong)
    have "i \<in> refs_of ?lane" using that uniq set_unique_refs [of ?lane] by auto
    then have "i \<in> refs_of after" using that by (auto simp: after_def)
    with own show ?thesis by (simp add: labels_def labels_for_positions_get position_labels_def)
  qed
  have kept: "retain_selected r labels after = filter (\<lambda>p. tp_ref_id p \<in> set ys \<and> ?ok (tp_ref_id p)) ?lane"
    unfolding retain_selected_def after_def filter_filter
    by (rule filter_cong) (auto simp: entry_selected_def entry_admitted_def lab)
  have "filter (\<lambda>i. i \<in> set ys \<and> ?ok i) (xs @ c # ys) = filter ?ok ys"
  proof -
    have "filter (\<lambda>i. i \<in> set ys \<and> ?ok i) xs = []" using dist by (auto simp: filter_empty_conv)
    moreover have "filter (\<lambda>i. i \<in> set ys \<and> ?ok i) ys = filter ?ok ys" by (rule filter_cong) auto
    ultimately show ?thesis using dist by simp
  qed
  then have refs_kept: "unique_refs_in_order (retain_selected r labels after) = filter ?ok ys"
    unfolding kept using unique_refs_filter [of "\<lambda>i. i \<in> set ys \<and> ?ok i" ?lane] uniq by simp
  have sel: "select_sides ps k (Some c) r = select_limited (retain_selected r labels after) ?n After"
    using dir parts by (simp add: select_sides_def Let_def labels_def partition_labels_def)
  have page: "page_refs (retain_selected r labels after) ?n After = take ?n (filter ?ok ys)"
    by (simp add: page_refs_def refs_kept)
  show "unique_refs_in_order (ps_positions (select_sides ps k (Some c) r)) = take ?n (filter ?ok ys)"
    unfolding sel select_limited_eq using unique_refs_page [of "retain_selected r labels after" ?n After] page by simp
  show "ps_next_cursor (select_sides ps k (Some c) r) =
      (if ?n < length (filter ?ok ys) then last_of (take ?n (filter ?ok ys)) else None)"
    unfolding sel select_limited_eq by (simp add: page unique_ref_count_length refs_kept)
qed

text \<open>The reference a page ends on is where the next page starts.\<close>

lemma filter_split_last:
  assumes "n < length (filter P ys)" and "0 < n" and "last (take n (filter P ys)) = d" and "distinct ys"
  shows "\<exists>us vs. ys = us @ d # vs \<and> filter P vs = drop n (filter P ys)"
proof -
  have "take n (filter P ys) \<noteq> []" using assms by (cases ys) auto
  then have split: "filter P ys = butlast (take n (filter P ys)) @ d # drop n (filter P ys)"
    using assms(3) append_butlast_last_id [of "take n (filter P ys)"] append_take_drop_id [of n "filter P ys"]
    by (metis append.assoc append_Cons append_Nil)
  from filter_eq_ConsD [of P] split have "\<exists>us vs. ys = us @ d # vs \<and> filter P us = butlast (take n (filter P ys)) \<and> filter P vs = drop n (filter P ys)"
  proof -
    have gen: "filter P ys = as @ d # bs \<Longrightarrow> \<exists>us vs. ys = us @ d # vs \<and> filter P us = as \<and> filter P vs = bs" for as bs
    proof (induction ys arbitrary: as)
      case (Cons y ys)
      show ?case
      proof (cases "P y")
        case False
        with Cons.prems have "filter P ys = as @ d # bs" by simp
        from Cons.IH [OF this] obtain us vs where "ys = us @ d # vs" "filter P us = as" "filter P vs = bs" by blast
        with False have "y # ys = (y # us) @ d # vs \<and> filter P (y # us) = as \<and> filter P vs = bs" by simp
        then show ?thesis by blast
      next
        case True
        show ?thesis
        proof (cases as)
          case Nil
          with True Cons.prems have "y # ys = [] @ d # ys \<and> filter P [] = as \<and> filter P ys = bs" by simp
          then show ?thesis by blast
        next
          case (Cons a as')
          with True Cons.prems have "filter P ys = as' @ d # bs" "a = y" by simp_all
          from Cons.IH [OF this(1)] obtain us vs where "ys = us @ d # vs" "filter P us = as'" "filter P vs = bs" by blast
          with True Cons \<open>a = y\<close> have "y # ys = (y # us) @ d # vs \<and> filter P (y # us) = as \<and> filter P vs = bs" by simp
          then show ?thesis by blast
        qed
      qed
    qed simp
    from gen [OF split] show ?thesis .
  qed
  then show ?thesis by blast
qed

lemma forward_continuation:
  assumes sorted: "sorted_positions ps" and dir: "tr_direction r = Forward"
    and refs: "lane_refs ps r = xs @ c # ys" and n: "0 < limit_or r 5"
    and more: "ps_next_cursor (select_sides ps k (Some c) r) = Some d"
  shows "unique_refs_in_order (ps_positions (select_sides ps k' (Some d) r))
    = take (limit_or r 5) (drop (limit_or r 5) (filter (entry_admitted ps r) ys))"
proof -
  let ?n = "limit_or r 5" and ?ys = "filter (entry_admitted ps r) ys"
  have left: "?n < length ?ys" and "last_of (take ?n ?ys) = Some d"
    using more forward_page_refs(2) [OF sorted dir refs] by (simp_all split: if_splits)
  moreover have "take ?n ?ys \<noteq> []" using left n by (cases ?ys) auto
  ultimately have d: "last (take ?n ?ys) = d" by (simp add: last_of_last)
  have "distinct (xs @ c # ys)"
    using distinct_unique_refs refs unfolding lane_refs_def ordered_unique_ref_ids_def by metis
  then have "distinct ys" by simp
  then obtain us vs where "ys = us @ d # vs" "filter (entry_admitted ps r) vs = drop ?n ?ys"
    using filter_split_last [OF left n d] by blast
  then show ?thesis
    using forward_page_refs(1) [OF sorted dir, of "xs @ c # us" d vs k'] refs by simp
qed

end
