(* ===== verification/TemporalTraverse.thy ===== *)
theory TemporalTraverse
  imports TemporalPages
begin

text \<open>
  The temporal traversal (\<open>model/temporal_memory/mod.rs\<close>, \<open>index.rs\<close>) and what of a bundle a
  proof may stand on afterwards (\<open>proof_selection.rs\<close>, \<open>proof_memberships.rs\<close>). A traversal is an
  option: \<open>None\<close> is the panic of a slice with crossed bounds.
\<close>

record temporal_entry =
  te_ref_id :: string
  te_kind :: string
  te_text :: string
  te_coordinates :: "temporal_coordinate list"

record traversal_page =
  pg_returned :: nat
  pg_total :: nat
  pg_next_cursor :: "string option"

definition has_more :: "traversal_page \<Rightarrow> bool" where
  "has_more p \<longleftrightarrow> pg_returned p < pg_total p"

record traversal_result =
  tres_direction :: temporal_direction
  tres_axis :: temporal_axis
  tres_resolved_cursor :: "temporal_coordinate option"
  tres_interval :: "temporal_interval option"
  tres_requested_dimensions :: dimension_selection
  tres_included_dimensions :: "string list"
  tres_missing_dimensions :: "string list"
  tres_entries :: "temporal_entry list"
  tres_page :: traversal_page
  tres_missing :: "string list"
  tres_warnings :: "string list"

subsection \<open>Parts of the answer\<close>

definition SEQUENCE_WARNING_NAMED_LABELS :: nat where
  "SEQUENCE_WARNING_NAMED_LABELS = 5"

definition sequence_cursor_warnings :: "temporal_cursor \<Rightarrow> temporal_position list \<Rightarrow> string list" where
  "sequence_cursor_warnings cursor ps =
     (case cursor of
        CursorSequence value \<Rightarrow>
          (let labels = bset_of (map (\<lambda>p. tc_dimension (tp_coordinate p) @ ''='' @ bare_label_value (tc_scope_id (tp_coordinate p)))
                 (filter (\<lambda>p. ak_axis (tp_axis_key p) = KindSequence) ps));
               total = length labels
           in if total \<le> 1 then []
              else let named = take SEQUENCE_WARNING_NAMED_LABELS labels
                     @ (if total > SEQUENCE_WARNING_NAMED_LABELS
                        then [''and '' @ dec (total - SEQUENCE_WARNING_NAMED_LABELS) @ '' more''] else [])
                   in [''sequence cursor '' @ show_u32 value @ '' compares counters from '' @ dec total
                       @ '' labels ('' @ join_with '', '' named
                       @ ''); a sequence is per label, so pin one with `dimensions.scope_ids` (with `mode: only` and `include` when the value serves two kinds) to get a defined order''])
      | _ \<Rightarrow> [])"

definition build_entry :: "(string, bundle_node) bmap \<Rightarrow> (string, temporal_coordinate list) bmap
    \<Rightarrow> dimension_selection \<Rightarrow> string \<Rightarrow> temporal_entry option" where
  "build_entry nodes coordinates d ref_id =
     (case bmap_get nodes ref_id of
        None \<Rightarrow> None
      | Some n \<Rightarrow> Some \<lparr>te_ref_id = ref_id, te_kind = bn_node_kind n,
          te_text = (if trim (bn_summary n) = [] then bn_title n else bn_summary n),
          te_coordinates = filter (\<lambda>c. includes_coordinate d (tc_dimension c) (tc_scope_id c))
            (case bmap_get coordinates ref_id of None \<Rightarrow> [] | Some cs \<Rightarrow> cs)\<rparr>)"

definition build_entries :: "string list \<Rightarrow> (string, bundle_node) bmap
    \<Rightarrow> (string, temporal_coordinate list) bmap \<Rightarrow> dimension_selection \<Rightarrow> temporal_entry list" where
  "build_entries ref_ids nodes coordinates d = List.map_filter (build_entry nodes coordinates d) ref_ids"

definition included_dimensions :: "temporal_entry list \<Rightarrow> string list" where
  "included_dimensions es = bset_of (map tc_dimension (concat (map te_coordinates es)))"

definition dimensions_from_positions :: "temporal_position list \<Rightarrow> string list" where
  "dimensions_from_positions ps = bset_of (map (\<lambda>p. tc_dimension (tp_coordinate p)) ps)"

definition missing_dimensions :: "dimension_selection \<Rightarrow> string list \<Rightarrow> string list" where
  "missing_dimensions requested included =
     (if ds_mode requested \<noteq> ModeOnly then []
      else filter (\<lambda>d. d \<notin> set (bset_of included)) (ds_dimensions requested))"

definition has_comparable_positions :: "resolved_cursor option \<Rightarrow> temporal_position list \<Rightarrow> bool" where
  "has_comparable_positions cursor ps =
     (case cursor of
        None \<Rightarrow> list_ex (\<lambda>p. ak_axis (tp_axis_key p) = KindTime) ps
      | Some c \<Rightarrow> is_some_and (rc_axis_key c) (\<lambda>k. list_ex (\<lambda>p. ak_axis (tp_axis_key p) = ak_axis k) ps))"

definition requested_dimensions :: "traversal_request \<Rightarrow> dimension_selection" where
  "requested_dimensions r = (case tr_requested_dimensions r of None \<Rightarrow> tr_dimensions r | Some d \<Rightarrow> d)"

subsection \<open>The traversal\<close>

definition traverse_answer :: "kmp_bundle \<Rightarrow> traversal_request \<Rightarrow> temporal_position list
    \<Rightarrow> resolved_cursor option \<Rightarrow> position_selection \<Rightarrow> traversal_result" where
  "traverse_answer b r positions cursor sel =
     (let coordinates = coordinates_by_ref (ps_positions sel);
          refs = ordered_unique_ref_ids (ps_positions sel);
          refs = (if tr_direction r = Rewind then rev refs else refs);
          comparable = has_comparable_positions cursor positions;
          entries = build_entries refs (bundle_nodes_by_id b) coordinates (tr_dimensions r);
          included = included_dimensions entries;
          coverage = (if entries = [] \<and> comparable then dimensions_from_positions positions else included)
      in \<lparr>tres_direction = tr_direction r, tres_axis = tr_axis r,
          tres_resolved_cursor = map_option rc_coordinate cursor,
          tres_interval = tr_interval r,
          tres_requested_dimensions = requested_dimensions r,
          tres_included_dimensions = included,
          tres_missing_dimensions = missing_dimensions (tr_dimensions r) coverage,
          tres_entries = entries,
          tres_page = \<lparr>pg_returned = length refs, pg_total = ps_total_unique_refs sel,
                       pg_next_cursor = ps_next_cursor sel\<rparr>,
          tres_missing = (if positions = [] \<or> \<not> comparable then [''temporal_positions''] else []),
          tres_warnings = (case tr_cursor r of None \<Rightarrow> [] | Some c \<Rightarrow> sequence_cursor_warnings c positions)\<rparr>)"

definition resolve_request_cursor ::
  "traversal_request \<Rightarrow> temporal_position list \<Rightarrow> resolved_cursor option domain_result" where
  "resolve_request_cursor r positions =
     (case tr_cursor r of None \<Rightarrow> Inr None
      | Some c \<Rightarrow> try_bind (resolve_cursor positions c (tr_axis r)) (\<lambda>rc. Inr (Some rc)))"

definition traverse_index ::
  "kmp_bundle \<Rightarrow> traversal_request \<Rightarrow> temporal_position list \<Rightarrow> traversal_result domain_result option" where
  "traverse_index b r all_positions =
     (case request_validate r of
        Inl e \<Rightarrow> Some (Inl e)
      | Inr _ \<Rightarrow>
          (let positions = filter (position_in_lane (tr_dimensions r)) all_positions
           in case resolve_request_cursor r positions of
                Inl e \<Rightarrow> Some (Inl e)
              | Inr cursor \<Rightarrow>
                  map_option (\<lambda>sel. Inr (traverse_answer b r positions cursor sel))
                    (select_positions all_positions cursor r)))"

definition traverse :: "kmp_bundle \<Rightarrow> traversal_request \<Rightarrow> traversal_result domain_result option" where
  "traverse b r =
     (case temporal_positions b (tr_axis r) of
        Inl e \<Rightarrow> Some (Inl e)
      | Inr ps \<Rightarrow> traverse_index b r (sort_positions ps))"

text \<open>The prepared index, one clock per index.\<close>

record memory_index =
  mi_bundle :: kmp_bundle
  mi_axis :: temporal_axis
  mi_positions :: "temporal_position list"

definition index_new :: "kmp_bundle \<Rightarrow> temporal_axis \<Rightarrow> memory_index domain_result" where
  "index_new b axis =
     try_bind (temporal_positions b axis) (\<lambda>ps.
       Inr \<lparr>mi_bundle = b, mi_axis = axis, mi_positions = sort_positions ps\<rparr>)"

definition index_traverse :: "memory_index \<Rightarrow> traversal_request \<Rightarrow> traversal_result domain_result option" where
  "index_traverse ix r =
     (if tr_axis r \<noteq> mi_axis ix
      then Some (Inl (InvalidState ''temporal index clock does not match request''))
      else traverse_index (mi_bundle ix) r (mi_positions ix))"

subsection \<open>What a proof may stand on\<close>

definition proof_cursor_instant :: "temporal_coordinate \<Rightarrow> temporal_axis \<Rightarrow> string option" where
  "proof_cursor_instant c axis =
     (case axis of
        AxisValidity \<Rightarrow> or_else (tc_valid_from c) (tc_valid_until c)
      | AxisOccurred \<Rightarrow> tc_occurred_at c
      | AxisObserved \<Rightarrow> tc_observed_at c
      | AxisIngested \<Rightarrow> tc_ingested_at c
      | AxisDefault \<Rightarrow> or_else (or_else (or_else (tc_occurred_at c) (tc_observed_at c)) (tc_ingested_at c)) (tc_valid_from c))"

text \<open>The \<open>expect\<close> on the interval's end: \<open>None\<close> is its panic.\<close>

definition proof_selection :: "traversal_result \<Rightarrow> temporal_selection option" where
  "proof_selection t =
     (let end' = Option.bind (tres_interval t) ti_end in
      case (case end' of None \<Rightarrow> Some Frontier
            | Some e \<Rightarrow> (case interval_new None (Some e) of Inl _ \<Rightarrow> None | Inr i \<Rightarrow> Some (Within i (tres_axis t)))) of
        None \<Rightarrow> None
      | Some selection \<Rightarrow>
          Some (case (if tres_direction t = Goto
                      then Option.bind (tres_resolved_cursor t) (\<lambda>c. proof_cursor_instant c (tres_axis t)) else None) of
              Some instant \<Rightarrow>
                if is_none_or end' (\<lambda>e. compare_temporal_instants e instant = Some Greater)
                then AsOf (CursorTime instant) (tres_axis t) else selection
            | None \<Rightarrow> selection))"

definition membership_admits :: "temporal_coordinate \<Rightarrow> temporal_axis \<Rightarrow> axis_key \<Rightarrow> bool \<Rightarrow> bool" where
  "membership_admits c axis end' inclusive =
     (if axis = AxisValidity then
        (if tc_valid_from c = None \<and> tc_valid_until c = None then False
         else is_none_or (tc_valid_from c) (\<lambda>s. time_key s < end' \<or> (inclusive \<and> time_key s = end'))
           \<and> (\<not> inclusive \<or> is_none_or (tc_valid_until c) (\<lambda>u. time_key u > end')))
      else list_ex (\<lambda>k. k < end' \<or> (inclusive \<and> k = end'))
             (filter (\<lambda>k. ak_axis k = KindTime) (keys_from_coordinate [] c axis)))"

definition proof_boundary :: "traversal_result \<Rightarrow> (axis_key \<times> bool) option" where
  "proof_boundary t =
     (let boundary = map_option (\<lambda>e. (time_key e, False)) (Option.bind (tres_interval t) ti_end);
          at = (if tres_direction t = Goto then Option.bind (tres_resolved_cursor t) (\<lambda>c.
                  List.find (\<lambda>k. ak_axis k = KindTime) (keys_from_coordinate [] c (tres_axis t))) else None)
      in case at of
           Some at \<Rightarrow> if is_none_or boundary (\<lambda>(e, _). at < e) then Some (at, True) else boundary
         | None \<Rightarrow> boundary)"

fun admitted_memberships :: "bundle_relationship list \<Rightarrow> temporal_axis \<Rightarrow> axis_key \<Rightarrow> bool
    \<Rightarrow> (string \<times> string \<times> string) list domain_result" where
  "admitted_memberships [] axis end' inclusive = Inr []"
| "admitted_memberships (e # es) axis end' inclusive =
     (if br_relationship_type e \<noteq> ''contains_entry'' then admitted_memberships es axis end' inclusive
      else try_bind (tc_from_explanation (br_explanation e)) (\<lambda>c. case c of
          None \<Rightarrow> admitted_memberships es axis end' inclusive
        | Some c \<Rightarrow> try_bind (admitted_memberships es axis end' inclusive) (\<lambda>ms.
            Inr (if membership_admits c axis end' inclusive
                 then (br_target_node_id e, tc_dimension c, tc_scope_id c) # ms else ms))))"

definition proof_labels :: "traversal_result \<Rightarrow> kmp_bundle \<Rightarrow> (string, entry_labels) bmap domain_result" where
  "proof_labels t b =
     (case proof_boundary t of
        None \<Rightarrow> Inr (labels_by_entry b)
      | Some (end', inclusive) \<Rightarrow>
          try_bind (admitted_memberships (kb_relationships b) (tres_axis t) end' inclusive) (\<lambda>ms.
            Inr (map (\<lambda>(i, cs). (i, labels_from_coordinates cs))
              (foldl (\<lambda>m (i, c). bmap_update i (push_value c) m) [] ms))))"

subsection \<open>Where the answer's coordinates come from\<close>

lemma coordinates_by_ref_get:
  "c \<in> set (case bmap_get (coordinates_by_ref ps) i of None \<Rightarrow> [] | Some cs \<Rightarrow> cs) \<longleftrightarrow>
     (\<exists>p \<in> set ps. tp_ref_id p = i \<and> tp_coordinate p = c)"
proof -
  let ?f = "\<lambda>p v. case v of None \<Rightarrow> [tp_coordinate p]
      | Some cs \<Rightarrow> if tp_coordinate p \<in> set cs then cs else cs @ [tp_coordinate p]"
  let ?m = "foldl (\<lambda>m p. bmap_update (tp_ref_id p) (?f p) m) [] ps"
  have "bmap_get (coordinates_by_ref ps) i = map_option (sort_key compare_temporal_coordinates_key) (bmap_get ?m i)"
    unfolding coordinates_by_ref_def bmap_get_def by (simp add: map_of_map)
  moreover have "bmap_get ?m i = foldl (\<lambda>v p. if tp_ref_id p = i then Some (?f p v) else v) None ps"
    using bmap.group_get [OF bmap_ok_Nil, of tp_ref_id ?f ps i] by simp
  moreover have "c \<in> set (case foldl (\<lambda>v p. if tp_ref_id p = i then Some (?f p v) else v) None ps of None \<Rightarrow> [] | Some cs \<Rightarrow> cs)
      \<longleftrightarrow> (\<exists>p \<in> set ps. tp_ref_id p = i \<and> tp_coordinate p = c)"
    by (induction ps rule: rev_induct) (auto split: option.splits)
  ultimately show ?thesis by (simp split: option.splits)
qed

lemma answer_entry:
  assumes "e \<in> set (tres_entries (traverse_answer b r ps cursor sel))"
  shows "te_ref_id e \<in> refs_of (ps_positions sel)
    \<and> (\<forall>c \<in> set (te_coordinates e). (\<exists>p \<in> set (ps_positions sel). tp_ref_id p = te_ref_id e \<and> tp_coordinate p = c)
         \<and> includes_coordinate (tr_dimensions r) (tc_dimension c) (tc_scope_id c))"
proof -
  let ?refs = "ordered_unique_ref_ids (ps_positions sel)"
  obtain i where i: "i \<in> set ?refs" and e: "build_entry (bundle_nodes_by_id b) (coordinates_by_ref (ps_positions sel)) (tr_dimensions r) i = Some e"
    using assms
    by (auto simp: traverse_answer_def Let_def build_entries_def List.map_filter_def split: if_splits)
  have "set ?refs = refs_of (ps_positions sel)" by (simp add: ordered_unique_ref_ids_def)
  with i e show ?thesis
    using coordinates_by_ref_get [of _ "ps_positions sel" i]
    by (auto simp: build_entry_def split: option.splits)
qed

lemma answer_page:
  "pg_returned (tres_page (traverse_answer b r ps cursor sel)) = unique_ref_count (ps_positions sel)"
  "pg_total (tres_page (traverse_answer b r ps cursor sel)) = ps_total_unique_refs sel"
  "pg_next_cursor (tres_page (traverse_answer b r ps cursor sel)) = ps_next_cursor sel"
proof -
  have "length (ordered_unique_ref_ids xs) = unique_ref_count xs" for xs
    unfolding ordered_unique_ref_ids_def unique_ref_count_length [symmetric] by (simp add: unique_ref_count_card)
  then show "pg_returned (tres_page (traverse_answer b r ps cursor sel)) = unique_ref_count (ps_positions sel)"
    by (simp add: traverse_answer_def Let_def)
qed (simp_all add: traverse_answer_def Let_def)

text \<open>A successful traversal, taken apart.\<close>

lemma traverse_Inr:
  assumes "traverse b r = Some (Inr t)"
  obtains ps cursor sel where
    "temporal_positions b (tr_axis r) = Inr ps"
    "request_validate r = Inr ()"
    "resolve_request_cursor r (filter (position_in_lane (tr_dimensions r)) (sort_positions ps)) = Inr cursor"
    "select_positions (sort_positions ps) cursor r = Some sel"
    "t = traverse_answer b r (filter (position_in_lane (tr_dimensions r)) (sort_positions ps)) cursor sel"
  using assms by (auto simp: traverse_def traverse_index_def Let_def split: sum.splits)

text \<open>The selection, position by position, when the slices cannot cross.\<close>

definition select_by_filter :: "temporal_position list \<Rightarrow> resolved_cursor option \<Rightarrow> traversal_request \<Rightarrow> position_selection" where
  "select_by_filter ps cursor r =
     (case cursor of
        Some c \<Rightarrow>
          (case rc_axis_key c of
             None \<Rightarrow> \<lparr>ps_positions = [], ps_total_unique_refs = 0, ps_next_cursor = None\<rparr>
           | Some k \<Rightarrow> select_at_cursor (comparable_positions ps (ak_axis k) r) k (rc_ref_id c) r)
      | None \<Rightarrow>
          (let ps = comparable_positions ps KindTime r
           in select_limited (retain_selected r (labels_for_positions ps) ps) (limit_or r 5)
                (if tr_direction r = Rewind then Before else After)))"

lemma select_positions_by_filter:
  assumes "sorted_positions ps" and "interval_keys_ordered r"
  shows "select_positions ps cursor r = Some (select_by_filter ps cursor r)"
  using select_positions_filter [OF sorted_positions_axis [OF assms(1)] assms(2)]
  by (auto simp: select_by_filter_def cursor_kind_def Let_def split: option.splits)

lemma select_at_cursor_from:
  assumes "p \<in> set (ps_positions (select_at_cursor ps k cref r))"
  shows "p \<in> set ps \<and> passes r p"
proof (cases "validity_time_cursor r \<and> tr_direction r = Goto")
  case True
  let ?active = "filter (\<lambda>p. validity_contains (tp_coordinate p) k) (filter (\<lambda>p. validity_not_ended (tp_coordinate p) k) ps)"
  have "p \<in> set (ps_positions (select_limited (retain_selected r (labels_for_positions ?active) ?active)
      (limit_or r DEFAULT_GOTO_ENTRIES) Before))"
    using True assms unfolding select_at_cursor_def Let_def by simp
  from select_retained [OF this order_refl] show ?thesis by simp
next
  case False
  define qs where "qs = (if validity_time_cursor r then filter (\<lambda>p. validity_not_ended (tp_coordinate p) k) ps else ps)"
  have "p \<in> set (ps_positions (select_sides qs k cref r))"
    using assms False unfolding select_at_cursor_def Let_def qs_def if_not_P [OF False] by simp
  then show ?thesis
    using select_sides_from [of p qs k cref r] select_sides_subset [of qs k cref r]
    by (auto simp: qs_def split: if_splits)
qed

lemma select_by_filter_from:
  assumes "p \<in> set (ps_positions (select_by_filter ps cursor r))"
  shows "p \<in> set ps \<and> passes r p \<and> position_in_request r p"
proof (cases cursor)
  case None
  then have "p \<in> set (comparable_positions ps KindTime r) \<and> passes r p"
    using assms select_retained [OF _ order_refl] by (auto simp: select_by_filter_def Let_def)
  then show ?thesis by (auto simp: comparable_positions_def)
next
  case (Some c)
  obtain k where "rc_axis_key c = Some k"
    using assms Some by (cases "rc_axis_key c") (simp_all add: select_by_filter_def)
  then have "p \<in> set (comparable_positions ps (ak_axis k) r) \<and> passes r p"
    using assms Some select_at_cursor_from by (simp add: select_by_filter_def)
  then show ?thesis by (auto simp: comparable_positions_def)
qed

text \<open>Intervals whose bounds have keys of twelve digits do not cross.\<close>

lemma interval_keys_ordered_instants:
  assumes "interval_ok i" and "tr_interval r = Some i"
    and "\<forall>a. nanos_of (ti_start i) = Some a \<longrightarrow> key_instant a"
    and "\<forall>b. nanos_of (ti_end i) = Some b \<longrightarrow> key_instant b"
  shows "interval_keys_ordered r"
proof (cases "ti_start i = None \<or> ti_end i = None")
  case True
  then show ?thesis using assms(2) by (auto simp: interval_keys_ordered_def split: option.splits)
next
  case False
  then obtain s e where se: "ti_start i = Some s" "ti_end i = Some e" by auto
  then obtain m n where mn: "timestamp_nanos s = Some m" "timestamp_nanos e = Some n" and "m < n"
    using assms(1) by (auto simp: interval_ok_def nanos_of_def in_span_nonempty)
  then have "key_instant m" "key_instant n" using assms(3,4) se by (simp_all add: nanos_of_def)
  then have "time_key s < time_key e"
    using mn \<open>m < n\<close> nanos_timestamp_less by (simp add: time_key_def axis_key_order canonical_time_key_def)
  then show ?thesis using assms(2) se by (simp add: interval_keys_ordered_def)
qed

end
