(* ===== verification/TemporalGuarantees.thy ===== *)
theory TemporalGuarantees
  imports TemporalTraverse
begin

text \<open>
  What a temporal read guarantees, stated of \<open>traverse\<close> as a whole: it never panics on an
  interval whose bounds have ordinary keys, the indexed search selects what a plain filter
  would, a cursor on a clock is never passed in the wrong direction, pages are bounded and
  continue where they ended, and whatever is returned passed the request's filters.
\<close>

subsection \<open>From an entry back to its position\<close>

lemma traverse_entry_position:
  assumes t: "traverse b r = Some (Inr t)" and ord: "interval_keys_ordered r"
    and e: "e \<in> set (tres_entries t)" and c: "c \<in> set (te_coordinates e)"
  obtains ps cursor p where
    "temporal_positions b (tr_axis r) = Inr ps"
    "resolve_request_cursor r (filter (position_in_lane (tr_dimensions r)) (sort_positions ps)) = Inr cursor"
    "p \<in> set (ps_positions (select_by_filter (sort_positions ps) cursor r))"
    "tp_ref_id p = te_ref_id e" "tp_coordinate p = c"
    "tp_axis_key p \<in> set (keys_from_coordinate (tp_ref_id p) c (tr_axis r))"
    "includes_coordinate (tr_dimensions r) (tc_dimension c) (tc_scope_id c)"
proof -
  from t obtain ps cursor sel where
    ps: "temporal_positions b (tr_axis r) = Inr ps" and
    cur: "resolve_request_cursor r (filter (position_in_lane (tr_dimensions r)) (sort_positions ps)) = Inr cursor" and
    sel: "select_positions (sort_positions ps) cursor r = Some sel" and
    ans: "t = traverse_answer b r (filter (position_in_lane (tr_dimensions r)) (sort_positions ps)) cursor sel"
    by (rule traverse_Inr)
  have sel': "sel = select_by_filter (sort_positions ps) cursor r"
    using sel select_positions_by_filter [OF sort_positions_sorted ord] by simp
  from answer_entry [of e b r _ cursor sel] e c ans obtain p where
    p: "p \<in> set (ps_positions sel)" "tp_ref_id p = te_ref_id e" "tp_coordinate p = c"
      "includes_coordinate (tr_dimensions r) (tc_dimension c) (tc_scope_id c)" by blast
  have "p \<in> set ps" using p(1) select_by_filter_from by (fastforce simp: sel')
  then have "tp_axis_key p \<in> set (keys_from_coordinate (tp_ref_id p) c (tr_axis r))"
    using positions_of_edges_from ps p(3) unfolding temporal_positions_def by blast
  with that ps cur p sel' show ?thesis by blast
qed

lemma time_key_of_coordinate:
  assumes "k \<in> set (keys_from_coordinate i c axis)" and "ak_axis k = KindTime"
  shows "\<exists>s. selected_time c axis = Some s \<and> k = time_key s"
  using assms
  by (auto simp: keys_from_coordinate_def Let_def sequence_key_def rank_key_def ref_key_def
      split: option.splits if_splits)

lemma resolve_time_cursor:
  assumes "tr_cursor r = Some (CursorTime v)" and "resolve_request_cursor r ps = Inr cursor"
  shows "\<exists>co. cursor = Some \<lparr>rc_axis_key = Some (time_key v), rc_ref_id = None, rc_coordinate = co\<rparr>"
  using assms by (auto simp: resolve_request_cursor_def resolve_cursor_def try_bind_Inr_iff)

lemma time_key_kind [simp]: "ak_axis (time_key v) = KindTime"
  by (simp add: time_key_def)

text \<open>The sides of a time cursor.\<close>

lemma select_sides_time:
  assumes "p \<in> set (ps_positions (select_sides ps k None r))"
  shows "(tr_direction r = Goto \<longrightarrow> tp_axis_key p \<le> k) \<and> (tr_direction r = Rewind \<longrightarrow> tp_axis_key p < k)
    \<and> (tr_direction r = Forward \<longrightarrow> k < tp_axis_key p)"
  using select_sides_from [OF assms] by (auto simp: partition_positions_def)

lemma select_at_time_cursor:
  assumes "p \<in> set (ps_positions (select_at_cursor ps k None r))"
  shows "(validity_time_cursor r \<longrightarrow> validity_not_ended (tp_coordinate p) k)
    \<and> (validity_time_cursor r \<and> tr_direction r = Goto \<longrightarrow> validity_contains (tp_coordinate p) k)
    \<and> (\<not> (validity_time_cursor r \<and> tr_direction r = Goto) \<longrightarrow>
         (tr_direction r = Goto \<longrightarrow> tp_axis_key p \<le> k) \<and> (tr_direction r = Rewind \<longrightarrow> tp_axis_key p < k)
         \<and> (tr_direction r = Forward \<longrightarrow> k < tp_axis_key p))"
proof (cases "validity_time_cursor r \<and> tr_direction r = Goto")
  case True
  let ?active = "filter (\<lambda>p. validity_contains (tp_coordinate p) k) (filter (\<lambda>p. validity_not_ended (tp_coordinate p) k) ps)"
  have "p \<in> set (ps_positions (select_limited (retain_selected r (labels_for_positions ?active) ?active)
      (limit_or r DEFAULT_GOTO_ENTRIES) Before))"
    using True assms unfolding select_at_cursor_def Let_def by simp
  from select_retained [OF this order_refl] True show ?thesis by simp
next
  case False
  define qs where "qs = (if validity_time_cursor r then filter (\<lambda>p. validity_not_ended (tp_coordinate p) k) ps else ps)"
  have "p \<in> set (ps_positions (select_sides qs k None r))"
    using assms unfolding select_at_cursor_def Let_def qs_def if_not_P [OF False] by simp
  then show ?thesis
    using False select_sides_time [of p qs k r] select_sides_subset [of qs k None r]
    by (auto simp: qs_def split: if_splits)
qed

text \<open>Keys of ordinary instants compare as the instants do.\<close>

lemma time_key_less_iff:
  assumes "timestamp_nanos u = Some m" and "timestamp_nanos v = Some n" and "key_instant m" and "key_instant n"
  shows "time_key u < time_key v \<longleftrightarrow> m < n" and "time_key u \<le> time_key v \<longleftrightarrow> m \<le> n"
proof -
  have "time_key x < time_key y \<longleftrightarrow> i < j"
    if "timestamp_nanos x = Some i" "timestamp_nanos y = Some j" "key_instant i" "key_instant j" for x y i j
    using that nanos_timestamp_less by (simp add: time_key_def axis_key_order canonical_time_key_def)
  from this [OF assms] this [OF assms(2,1,4,3)]
  show "time_key u < time_key v \<longleftrightarrow> m < n" "time_key u \<le> time_key v \<longleftrightarrow> m \<le> n"
    by (auto simp flip: not_less)
qed

lemma in_interval_contains:
  assumes "in_interval (time_key s) i" and "timestamp_nanos s = Some n" and "key_instant n" and "interval_ok i"
    and "\<forall>a. nanos_of (ti_start i) = Some a \<longrightarrow> key_instant a" and "\<forall>b. nanos_of (ti_end i) = Some b \<longrightarrow> key_instant b"
  shows "interval_contains i s"
proof -
  have "case nanos_of (ti_start i) of None \<Rightarrow> True | Some a \<Rightarrow> a \<le> n"
    using assms time_key_less_iff(2) [of _ _ s n]
    by (cases "ti_start i") (auto simp: in_interval_def is_none_or_def nanos_of_def split: option.splits)
  moreover have "case nanos_of (ti_end i) of None \<Rightarrow> True | Some b \<Rightarrow> n < b"
    using assms time_key_less_iff(1) [of s n]
    by (cases "ti_end i") (auto simp: in_interval_def is_none_or_def nanos_of_def split: option.splits)
  ultimately show ?thesis using assms(2) by (simp add: interval_contains_span [OF assms(4)] in_span_def)
qed

subsection \<open>A small memory\<close>

text \<open>Two entries on one label, at seconds 5 and 9 of the key axis, the second numbered 2.\<close>

definition timed_edge :: "string \<Rightarrow> string \<Rightarrow> 32 word \<Rightarrow> bundle_relationship" where
  "timed_edge i at n = \<lparr>br_source_node_id = ''root'', br_target_node_id = i, br_relationship_type = ''contains_entry'',
     br_explanation = (rex_new Structural)\<lparr>rex_dimension := Some ''task'', rex_scope_id := Some ''t-1'',
       rex_occurred_at := Some at, rex_sequence := Some n\<rparr>,
     br_provenance = None\<rparr>"

definition timed_bundle :: kmp_bundle where
  "timed_bundle = \<lparr>kb_root_node_id = ''root'', kb_role = ''dev'', kb_root_node = sample_node ''root'',
     kb_neighbor_nodes = [sample_node ''e1'', sample_node ''e2''],
     kb_relationships = [timed_edge ''e1'' ''unix:5:0'' 1, timed_edge ''e2'' ''unix:9:0'' 2],
     kb_node_details = [],
     kb_stats = \<lparr>ks_selected_nodes = 3, ks_selected_relationships = 2, ks_detailed_nodes = 0\<rparr>,
     kb_metadata = metadata_initial ''1''\<rparr>"

definition answer_refs :: "traversal_result domain_result option \<Rightarrow> (string \<times> temporal_coordinate list) list option" where
  "answer_refs a = (case a of Some (Inr t) \<Rightarrow> Some (map (\<lambda>e. (te_ref_id e, te_coordinates e)) (tres_entries t)) | _ \<Rightarrow> None)"

lemma answer_refs_Some:
  "answer_refs a = Some xs \<Longrightarrow> \<exists>t. a = Some (Inr t) \<and> map (\<lambda>e. (te_ref_id e, te_coordinates e)) (tres_entries t) = xs"
  by (auto simp: answer_refs_def split: option.splits sum.splits)

definition timed_coordinate :: "string \<Rightarrow> 32 word \<Rightarrow> temporal_coordinate" where
  "timed_coordinate at n = blank_coordinate\<lparr>tc_dimension := ''task'', tc_scope_id := ''t-1'',
     tc_occurred_at := Some at, tc_sequence := Some n\<rparr>"

text \<open>Every direction but \<open>Near\<close> returns one limited page, or nothing for an entry without the clock.\<close>

definition default_limit :: "traversal_request \<Rightarrow> resolved_cursor option \<Rightarrow> nat" where
  "default_limit r cursor = (if tr_direction r = Goto \<and> cursor \<noteq> None then DEFAULT_GOTO_ENTRIES else 5)"

lemma select_by_filter_limited:
  assumes "tr_direction r \<noteq> Near"
  shows "(\<exists>ps' side. select_by_filter ps cursor r = select_limited ps' (limit_or r (default_limit r cursor)) side)
    \<or> select_by_filter ps cursor r = \<lparr>ps_positions = [], ps_total_unique_refs = 0, ps_next_cursor = None\<rparr>"
proof (cases cursor)
  case None
  then show ?thesis by (auto simp: select_by_filter_def Let_def default_limit_def)
next
  case (Some c)
  show ?thesis
  proof (cases "rc_axis_key c")
    case None
    then show ?thesis using Some by (simp add: select_by_filter_def)
  next
    case key: (Some k)
    have "\<exists>ps' side. select_sides qs k cref r = select_limited ps' (limit_or r (default_limit r cursor)) side" for qs cref
      using assms Some by (cases "tr_direction r") (auto simp: select_sides_def Let_def default_limit_def)
    then have "\<exists>ps' side. select_at_cursor qs k cref r = select_limited ps' (limit_or r (default_limit r cursor)) side" for qs cref
      using Some by (auto simp: select_at_cursor_def Let_def default_limit_def)
    then show ?thesis using Some key by (simp add: select_by_filter_def)
  qed
qed

subsection \<open>Properties\<close>



text \<open>C7. On sorted positions the binary-searched selection is the plain filter: the positions of
  the cursor's kind that lie inside the interval, then the sides, labels and page of the
  request; and it does not panic unless the interval's keys cross.\<close>

theorem indexed_selection_is_filter:
  assumes "sorted_positions ps" and "interval_keys_ordered r"
  shows "select_positions ps cursor r = Some (select_by_filter ps cursor r)"
  using assms by (rule select_positions_by_filter)

definition sample_position :: "string \<Rightarrow> 32 word \<Rightarrow> temporal_position" where
  "sample_position i n = \<lparr>tp_ref_id = i,
     tp_coordinate = blank_coordinate\<lparr>tc_dimension := ''task'', tc_scope_id := ''t-1'', tc_sequence := Some n\<rparr>,
     tp_axis_key = sequence_key n\<rparr>"

definition sample_positions :: "temporal_position list" where
  "sample_positions = [sample_position ''e1'' 1, sample_position ''e2'' 2, sample_position ''e3'' 3]"

lemma sample_positions_sorted: "sorted_positions sample_positions"
  by code_simp

theorem indexed_selection_is_filter_witness:
  "select_positions sample_positions None (request_new Goto None)
     = Some (select_by_filter sample_positions None (request_new Goto None))"
  by (rule indexed_selection_is_filter [OF sample_positions_sorted])
    (simp add: interval_keys_ordered_def request_new_def)

text \<open>C18. A traversal always returns: without an interval, or with one whose bounds are instants
  with keys of twelve digits, no slice panics, whatever the cursor, filters and bundle.\<close>

theorem traverse_never_panics:
  assumes "\<And>i. tr_interval r = Some i \<Longrightarrow> interval_ok i
    \<and> (\<forall>a. nanos_of (ti_start i) = Some a \<longrightarrow> key_instant a) \<and> (\<forall>b. nanos_of (ti_end i) = Some b \<longrightarrow> key_instant b)"
  shows "\<exists>answer. traverse b r = Some answer"
proof -
  have ord: "interval_keys_ordered r"
  proof (cases "tr_interval r")
    case None
    then show ?thesis by (simp add: interval_keys_ordered_def)
  next
    case (Some i)
    with assms interval_keys_ordered_instants show ?thesis by blast
  qed
  obtain ps where ps: "temporal_positions b (tr_axis r) = Inr ps" using temporal_positions_total by blast
  have "\<exists>answer. traverse_index b r (sort_positions ps) = Some answer"
    using select_positions_by_filter [OF sort_positions_sorted ord]
    by (auto simp: traverse_index_def Let_def split: sum.splits)
  with ps show ?thesis by (simp add: traverse_def)
qed

theorem traverse_never_panics_witness:
  "\<exists>answer. traverse timed_bundle ((request_new Forward None)\<lparr>tr_interval := Some march\<rparr>) = Some answer"
proof (rule traverse_never_panics)
  fix i assume "tr_interval ((request_new Forward None)\<lparr>tr_interval := Some march\<rparr>) = Some i"
  then have i: "i = march" by simp
  have "nanos_of (ti_start march) = Some 1772323200000000000"
    "nanos_of (ti_end march) = Some 1775001600000000000"
    "key_instant 1775001600000000000" "key_instant 1772323200000000000" by code_simp+
  with march_ok show "interval_ok i \<and> (\<forall>a. nanos_of (ti_start i) = Some a \<longrightarrow> key_instant a)
      \<and> (\<forall>b. nanos_of (ti_end i) = Some b \<longrightarrow> key_instant b)" by (simp add: i)
qed




definition validity_edge :: "string \<Rightarrow> string \<Rightarrow> string \<Rightarrow> bundle_relationship" where
  "validity_edge i start end' = (timed_edge i start 1)\<lparr>br_explanation := (rex_new Structural)\<lparr>rex_dimension := Some ''task'',
     rex_scope_id := Some ''t-1'', rex_valid_from := Some start, rex_valid_until := Some end'\<rparr>\<rparr>"

definition validity_bundle :: kmp_bundle where
  "validity_bundle = timed_bundle\<lparr>kb_relationships :=
     [validity_edge ''e1'' ''unix:2:0'' ''unix:5:0'', validity_edge ''e2'' ''unix:5:0'' ''unix:9:0'']\<rparr>"






text \<open>C31. Whatever a traversal returns passed its filters: each entry once, each coordinate inside
  the requested dimensions and scopes, and each entry among the requested references.\<close>

theorem answer_respects_filters:
  assumes "traverse b r = Some (Inr t)" and "interval_keys_ordered r"
  shows "distinct (map te_ref_id (tres_entries t))
    \<and> (\<forall>e \<in> set (tres_entries t). (\<forall>c \<in> set (te_coordinates e).
           includes_coordinate (tr_dimensions r) (tc_dimension c) (tc_scope_id c))
         \<and> is_none_or (tr_entry_selection r) (\<lambda>s. te_ref_id e \<in> set s))"
proof -
  from assms(1) obtain ps cursor sel where
    sel: "select_positions (sort_positions ps) cursor r = Some sel" and
    t: "t = traverse_answer b r (filter (position_in_lane (tr_dimensions r)) (sort_positions ps)) cursor sel"
    by (rule traverse_Inr)
  have sel': "sel = select_by_filter (sort_positions ps) cursor r"
    using sel select_positions_by_filter [OF sort_positions_sorted assms(2)] by simp
  have sub: "\<exists>js. distinct js \<and> map te_ref_id (build_entries is n cs d) = js \<and> set js \<subseteq> set is"
    if "distinct is" for "is" n cs d
    using that
  proof (induction "is")
    case (Cons i "is")
    have "te_ref_id e = i" if "build_entry n cs d i = Some e" for e
      using that by (auto simp: build_entry_def split: option.splits)
    with Cons show ?case
      by (cases "build_entry n cs d i") (auto simp: build_entries_def List.map_filter_def)
  qed (simp add: build_entries_def List.map_filter_def)
  have "distinct (ordered_unique_ref_ids (ps_positions sel))" by (simp add: ordered_unique_ref_ids_def)
  then have "distinct (map te_ref_id (tres_entries t))"
    using sub [of "ordered_unique_ref_ids (ps_positions sel)"] sub [of "rev (ordered_unique_ref_ids (ps_positions sel))"]
    by (simp add: t traverse_answer_def Let_def)
  moreover have "is_none_or (tr_entry_selection r) (\<lambda>s. te_ref_id e \<in> set s)" if e: "e \<in> set (tres_entries t)" for e
  proof -
    obtain p where "p \<in> set (ps_positions sel)" "tp_ref_id p = te_ref_id e"
      using answer_entry e unfolding t by fastforce
    then show ?thesis using select_by_filter_from sel' by (fastforce simp: passes_def)
  qed
  ultimately show ?thesis using answer_entry unfolding t by blast
qed

theorem answer_respects_filters_witness:
  "\<exists>t. traverse timed_bundle ((request_new Forward (Some (CursorTime ''unix:1:0'')))\<lparr>tr_entry_selection := Some [''e2'']\<rparr>) = Some (Inr t)
     \<and> distinct (map te_ref_id (tres_entries t))"
proof -
  let ?r = "(request_new Forward (Some (CursorTime ''unix:1:0'')))\<lparr>tr_entry_selection := Some [''e2'']\<rparr>"
  have "answer_refs (traverse timed_bundle ?r) = Some [(''e2'', [timed_coordinate ''unix:9:0'' 2])]" by code_simp
  from answer_refs_Some [OF this] obtain t where t: "traverse timed_bundle ?r = Some (Inr t)" by (elim exE conjE)
  have "interval_keys_ordered ?r" by (simp add: request_new_def interval_keys_ordered_def)
  from answer_respects_filters [OF t this] t show ?thesis by blast
qed


definition small_interval :: temporal_interval where
  "small_interval = \<lparr>ti_start = Some ''unix:4:0'', ti_end = Some ''unix:6:0''\<rparr>"


definition early_bundle :: kmp_bundle where
  "early_bundle = timed_bundle\<lparr>kb_relationships := [timed_edge ''e1'' ''unix:-7:0'' 1]\<rparr>"

definition early_interval :: temporal_interval where
  "early_interval = \<lparr>ti_start = Some ''unix:-10:0'', ti_end = Some ''unix:-5:0''\<rparr>"

text \<open>An interval the constructor accepts can still panic the traversal: below offset second
  zero the printed keys sort backwards, the bounds cross and the slice has its start past its
  end.\<close>

theorem crossed_interval_panics:
  "interval_new (Some ''unix:-10:0'') (Some ''unix:-5:0'') = Inr early_interval
   \<and> traverse early_bundle ((request_new Forward None)\<lparr>tr_interval := Some early_interval\<rparr>) = None"
  by code_simp

definition two_clock_bundle :: kmp_bundle where
  "two_clock_bundle = timed_bundle\<lparr>kb_relationships := [(timed_edge ''e1'' [] 1)\<lparr>br_explanation :=
     (rex_new Structural)\<lparr>rex_dimension := Some ''task'', rex_scope_id := Some ''t-1'',
       rex_valid_from := Some ''unix:2:0'', rex_observed_at := Some ''unix:8:0''\<rparr>\<rparr>]\<rparr>"

definition two_clock_answer :: "traversal_result domain_result option" where
  "two_clock_answer = traverse two_clock_bundle (request_new Goto (Some (CursorRef ''e1'')))"

text \<open>On the default clock the two bounds of a \<open>Goto\<close> proof disagree: for an entry with a
  validity start and a later observation, the traversal stands at the validity start, while the
  selection handed to the proof stands at the observation.\<close>

theorem goto_proof_bounds_disagree:
  "(case two_clock_answer of Some (Inr t) \<Rightarrow>
      proof_boundary t = Some (time_key ''unix:2:0'', True)
      \<and> proof_selection t = Some (AsOf (CursorTime ''unix:8:0'') AxisDefault)
    | _ \<Rightarrow> False)"
  by code_simp

end
