(* ===== verification/Ports.thy ===== *)
theory Ports
  imports Bundle
begin

text \<open>
  What the domain asks of a store (\<open>repositories/port_error.rs\<close>, \<open>adjacency_request.rs\<close>,
  \<open>adjacency_page.rs\<close>, the projections): the request for one bounded range of an adjacency
  index, its answer, and the errors. The store itself is a parameter of the operations that
  read it, a function from requests to answers.
\<close>

subsection \<open>Errors\<close>

datatype port_error = PortInvalidState string | PortUnavailable string | PortConflict string

type_synonym 'a port_result = "port_error + 'a"

text \<open>\<open>DomainError\<close>'s \<open>Display\<close>.\<close>

fun domain_error_text :: "domain_error \<Rightarrow> string" where
  "domain_error_text (EmptyValue field) = field @ '' cannot be empty''"
| "domain_error_text (InvalidState message) = message"

text \<open>\<open>map_err(|error| PortError::InvalidState(error.to_string()))\<close>.\<close>

definition port_result :: "'a domain_result \<Rightarrow> 'a port_result" where
  "port_result r = (case r of Inl e \<Rightarrow> Inl (PortInvalidState (domain_error_text e)) | Inr x \<Rightarrow> Inr x)"

lemma port_result_simps [simp]:
  "port_result (Inr x) = Inr x" "port_result (Inl e) = Inl (PortInvalidState (domain_error_text e))"
  by (simp_all add: port_result_def)

subsection \<open>Adjacency\<close>

datatype relation_direction = Outgoing | Incoming

record relation_position =
  rp_neighbor :: string
  rp_relation :: string

record node_relation_projection =
  nr_source_node_id :: string
  nr_target_node_id :: string
  nr_relation_type :: string
  nr_explanation :: relation_explanation

record adjacency_request =
  ar_node_id :: string
  ar_direction :: relation_direction
  ar_limit :: "32 word"
  ar_after :: "relation_position option"
  ar_relation_type :: "string option"

definition adjacency_request_new ::
  "string \<Rightarrow> relation_direction \<Rightarrow> 32 word \<Rightarrow> adjacency_request domain_result" where
  "adjacency_request_new node direction limit =
     (if trim node = [] then Inl (EmptyValue ''node_id'')
      else if limit = 0 then Inl (InvalidState ''adjacency row limit must be positive'')
      else Inr \<lparr>ar_node_id = node, ar_direction = direction, ar_limit = limit,
                ar_after = None, ar_relation_type = None\<rparr>)"

definition with_after :: "adjacency_request \<Rightarrow> relation_position \<Rightarrow> adjacency_request" where
  "with_after request position = request\<lparr>ar_after := Some position\<rparr>"

definition with_relation_type :: "adjacency_request \<Rightarrow> string \<Rightarrow> adjacency_request domain_result" where
  "with_relation_type request relation =
     try_bind (relation_type_new relation)
       (\<lambda>relation. Inr (request\<lparr>ar_relation_type := Some (rt_canonical relation)\<rparr>))"

record adjacency_page =
  ap_edges :: "node_relation_projection list"
  ap_next :: "relation_position option"
  ap_exhausted :: bool

end
