(* ===== verification/Lifecycle.thy ===== *)
theory Lifecycle
  imports Ports InstantText "HOL-Library.Product_Lexorder" "HOL-Library.Option_ord"
begin

text \<open>
  The declared lifecycle of a memory (\<open>model/lifecycle/\<close>): the three relations by which one
  memory takes over from another, the two sources a walk reads them from (a store's typed
  adjacency and a bundle in memory), and the bounded breadth-first walk itself with its
  cycle test, forks and heads. The loop that climbs the parents of a memory has no bound of
  its own in the code, so it is a partial function and the walk returns an option; that it
  always returns is proved in \<open>LifecycleGuarantees\<close>.
\<close>

subsection \<open>Relations and links\<close>

datatype lifecycle_relation = LcSupersedes | LcCorrects | LcUpdatesState

datatype lifecycle_side = Newer | Older

fun lifecycle_relation_index :: "lifecycle_relation \<Rightarrow> nat" where
  "lifecycle_relation_index LcSupersedes = 0"
| "lifecycle_relation_index LcCorrects = 1"
| "lifecycle_relation_index LcUpdatesState = 2"

lemma lifecycle_relation_index_inject [simp]:
  "lifecycle_relation_index a = lifecycle_relation_index b \<longleftrightarrow> a = b"
  by (cases a; cases b) simp_all

instantiation lifecycle_relation :: linorder
begin

definition less_eq_lifecycle_relation :: "lifecycle_relation \<Rightarrow> lifecycle_relation \<Rightarrow> bool" where
  "a \<le> b \<longleftrightarrow> lifecycle_relation_index a \<le> lifecycle_relation_index b"

definition less_lifecycle_relation :: "lifecycle_relation \<Rightarrow> lifecycle_relation \<Rightarrow> bool" where
  "a < b \<longleftrightarrow> lifecycle_relation_index a < lifecycle_relation_index b"

instance
  by standard (auto simp: less_eq_lifecycle_relation_def less_lifecycle_relation_def dest: order_antisym)

end

definition lifecycle_all :: "lifecycle_relation list" where
  "lifecycle_all = [LcSupersedes, LcCorrects, LcUpdatesState]"

fun lifecycle_as_str :: "lifecycle_relation \<Rightarrow> string" where
  "lifecycle_as_str LcSupersedes = ''supersedes''"
| "lifecycle_as_str LcCorrects = ''corrects''"
| "lifecycle_as_str LcUpdatesState = ''updates_state''"

definition lifecycle_parse :: "string \<Rightarrow> lifecycle_relation option" where
  "lifecycle_parse relation_type = find (\<lambda>r. lifecycle_as_str r = relation_type) lifecycle_all"

record lifecycle_link =
  ll_newer :: string
  ll_older :: string
  ll_relation :: lifecycle_relation
  ll_occurred_at :: "string option"

record lifecycle_neighbours =
  ln_links :: "lifecycle_link list"
  ln_complete :: bool

definition neighbours_complete :: "lifecycle_link list \<Rightarrow> lifecycle_neighbours" where
  "neighbours_complete links = \<lparr>ln_links = links, ln_complete = True\<rparr>"

text \<open>The trait \<open>LifecycleLinkSource\<close>: two reads of one node.\<close>

record link_source =
  newer_than :: "string \<Rightarrow> lifecycle_neighbours port_result"
  older_than :: "string \<Rightarrow> lifecycle_neighbours port_result"

definition read_links :: "link_source \<Rightarrow> string \<Rightarrow> lifecycle_side \<Rightarrow> lifecycle_neighbours port_result" where
  "read_links source node side = (case side of Newer \<Rightarrow> newer_than source node | Older \<Rightarrow> older_than source node)"

definition other :: "lifecycle_link \<Rightarrow> lifecycle_side \<Rightarrow> string" where
  "other link side = (case side of Newer \<Rightarrow> ll_newer link | Older \<Rightarrow> ll_older link)"

subsection \<open>The links of a bundle\<close>

record bundle_links =
  bl_newer_than :: "(string, lifecycle_link list) bmap"
  bl_older_than :: "(string, lifecycle_link list) bmap"

definition push_link :: "string \<Rightarrow> lifecycle_link \<Rightarrow> (string, lifecycle_link list) bmap
    \<Rightarrow> (string, lifecycle_link list) bmap" where
  "push_link node link m = bmap_update node (push_value link) m"

definition add_bundle_link :: "bundle_links \<Rightarrow> bundle_relationship \<Rightarrow> bundle_links" where
  "add_bundle_link links r =
     (case lifecycle_parse (br_relationship_type r) of
        None \<Rightarrow> links
      | Some relation \<Rightarrow>
          if br_source_node_id r = br_target_node_id r then links
          else
            let link = \<lparr>ll_newer = br_source_node_id r, ll_older = br_target_node_id r, ll_relation = relation,
                        ll_occurred_at = rex_occurred_at (br_explanation r)\<rparr>
            in \<lparr>bl_newer_than = push_link (ll_older link) link (bl_newer_than links),
                bl_older_than = push_link (ll_newer link) link (bl_older_than links)\<rparr>)"

definition bundle_links_from :: "kmp_bundle \<Rightarrow> bundle_links" where
  "bundle_links_from bundle =
     foldl add_bundle_link \<lparr>bl_newer_than = [], bl_older_than = []\<rparr> (kb_relationships bundle)"

definition links_is_empty :: "bundle_links \<Rightarrow> bool" where
  "links_is_empty links \<longleftrightarrow> bl_newer_than links = []"

definition has_newer :: "bundle_links \<Rightarrow> string \<Rightarrow> bool" where
  "has_newer links node \<longleftrightarrow> bmap_get (bl_newer_than links) node \<noteq> None"

definition touches :: "bundle_links \<Rightarrow> string \<Rightarrow> bool" where
  "touches links node \<longleftrightarrow> bmap_get (bl_newer_than links) node \<noteq> None \<or> bmap_get (bl_older_than links) node \<noteq> None"

definition bundle_link_source :: "bundle_links \<Rightarrow> link_source" where
  "bundle_link_source links =
     \<lparr>newer_than = \<lambda>node. Inr (neighbours_complete (case bmap_get (bl_newer_than links) node of None \<Rightarrow> [] | Some ls \<Rightarrow> ls)),
      older_than = \<lambda>node. Inr (neighbours_complete (case bmap_get (bl_older_than links) node of None \<Rightarrow> [] | Some ls \<Rightarrow> ls))\<rparr>"

subsection \<open>The links of a store\<close>

definition MAX_LIFECYCLE_LINKS_PER_NODE :: "32 word" where "MAX_LIFECYCLE_LINKS_PER_NODE = 16"

definition link_of_edge :: "lifecycle_relation \<Rightarrow> node_relation_projection \<Rightarrow> lifecycle_link" where
  "link_of_edge relation edge =
     \<lparr>ll_newer = nr_source_node_id edge, ll_older = nr_target_node_id edge, ll_relation = relation,
      ll_occurred_at = rex_occurred_at (nr_explanation edge)\<rparr>"

definition lifecycle_request :: "string \<Rightarrow> relation_direction \<Rightarrow> lifecycle_relation \<Rightarrow> adjacency_request port_result" where
  "lifecycle_request node direction relation =
     port_result (try_bind (adjacency_request_new node direction MAX_LIFECYCLE_LINKS_PER_NODE)
       (\<lambda>request. with_relation_type request (lifecycle_as_str relation)))"

fun adjacency_read_loop :: "(adjacency_request \<Rightarrow> adjacency_page port_result) \<Rightarrow> string \<Rightarrow> relation_direction
    \<Rightarrow> lifecycle_relation list \<Rightarrow> lifecycle_neighbours \<Rightarrow> lifecycle_neighbours port_result" where
  "adjacency_read_loop read_page node direction [] neighbours = Inr neighbours"
| "adjacency_read_loop read_page node direction (relation # rs) neighbours =
     try_bind (lifecycle_request node direction relation) (\<lambda>request.
     try_bind (read_page request) (\<lambda>page.
       adjacency_read_loop read_page node direction rs
         \<lparr>ln_links = ln_links neighbours @ map (link_of_edge relation) (ap_edges page),
          ln_complete = (ln_complete neighbours \<and> ap_exhausted page)\<rparr>))"

definition adjacency_read :: "(adjacency_request \<Rightarrow> adjacency_page port_result) \<Rightarrow> string \<Rightarrow> relation_direction
    \<Rightarrow> lifecycle_neighbours port_result" where
  "adjacency_read read_page node direction =
     adjacency_read_loop read_page node direction lifecycle_all (neighbours_complete [])"

definition adjacency_link_source :: "(adjacency_request \<Rightarrow> adjacency_page port_result) \<Rightarrow> link_source" where
  "adjacency_link_source read_page =
     \<lparr>newer_than = \<lambda>node. adjacency_read read_page node Incoming,
      older_than = \<lambda>node. adjacency_read read_page node Outgoing\<rparr>"

subsection \<open>One side of a walk\<close>

definition MAX_LIFECYCLE_DEPTH :: nat where "MAX_LIFECYCLE_DEPTH = 32"

definition MAX_LIFECYCLE_MEMBERS :: nat where "MAX_LIFECYCLE_MEMBERS = 256"

record lifecycle_step =
  ls_node :: string
  ls_depth :: nat
  ls_from :: string
  ls_via :: lifecycle_relation
  ls_occurred_at :: "string option"

record lifecycle_fork =
  lf_at :: string
  lf_side :: lifecycle_side
  lf_members :: "string list"

record side_walk =
  sw_steps :: "lifecycle_step list"
  sw_terminal :: "string list"
  sw_forks :: "lifecycle_fork list"
  sw_cycle_cut :: bool
  sw_truncated :: bool

text \<open>The walk with the loop's own variables: what was visited, who reached whom, and the next
  frontier.\<close>

record walk_state = side_walk +
  ws_visited :: "string bset"
  ws_parent :: "(string, string) bmap"
  ws_next :: "string list"

definition order_key :: "lifecycle_side \<Rightarrow> lifecycle_link \<Rightarrow> int option \<times> string \<times> string" where
  "order_key side link =
     (Option.bind (ll_occurred_at link) temporal_instant_nanos,
      case ll_occurred_at link of None \<Rightarrow> [] | Some at \<Rightarrow> at, other link side)"

text \<open>\<open>links.retain(|link| seen.insert(other(link, side)))\<close>: the first link of each neighbour.\<close>

fun retain_first :: "lifecycle_side \<Rightarrow> string bset \<Rightarrow> lifecycle_link list \<Rightarrow> lifecycle_link list" where
  "retain_first side seen [] = []"
| "retain_first side seen (link # links) =
     (if other link side \<in> set seen then retain_first side seen links
      else link # retain_first side (bset_insert (other link side) seen) links)"

definition ordered :: "lifecycle_side \<Rightarrow> lifecycle_neighbours \<Rightarrow> lifecycle_link list" where
  "ordered side neighbours =
     retain_first side [] (sort_key (\<lambda>link. (order_key side link, ll_relation link)) (ln_links neighbours))"

partial_function (option) lies_on_path :: "string \<Rightarrow> string \<Rightarrow> (string, string) bmap \<Rightarrow> bool option" where
  "lies_on_path candidate current parent =
     (if current = candidate then Some True
      else case bmap_get parent current of Some up \<Rightarrow> lies_on_path candidate up parent | None \<Rightarrow> Some False)"

declare lies_on_path.simps [code]

type_synonym 'a run = "'a port_result option"

definition walk_link :: "lifecycle_side \<Rightarrow> string \<Rightarrow> nat \<Rightarrow> string \<Rightarrow> lifecycle_link \<Rightarrow> walk_state \<Rightarrow> walk_state option" where
  "walk_link side from depth node link st =
     (let reached = other link side in
      if reached \<in> set (ws_visited st) then
        if reached = from then Some (st\<lparr>sw_cycle_cut := True\<rparr>)
        else (case lies_on_path reached node (ws_parent st) of
                None \<Rightarrow> None
              | Some on_path \<Rightarrow> Some (if on_path then st\<lparr>sw_cycle_cut := True\<rparr> else st))
      else if length (sw_steps st) = MAX_LIFECYCLE_MEMBERS then Some (st\<lparr>sw_truncated := True\<rparr>)
      else Some (st\<lparr>ws_visited := bset_insert reached (ws_visited st),
                    ws_parent := bmap_insert reached node (ws_parent st),
                    sw_steps := sw_steps st @ [\<lparr>ls_node = reached, ls_depth = depth, ls_from = node,
                                  ls_via = ll_relation link, ls_occurred_at = ll_occurred_at link\<rparr>],
                    ws_next := ws_next st @ [reached]\<rparr>))"

fun walk_links :: "lifecycle_side \<Rightarrow> string \<Rightarrow> nat \<Rightarrow> string \<Rightarrow> lifecycle_link list \<Rightarrow> walk_state \<Rightarrow> walk_state option" where
  "walk_links side from depth node [] st = Some st"
| "walk_links side from depth node (link # links) st =
     Option.bind (walk_link side from depth node link st) (walk_links side from depth node links)"

definition walk_node :: "link_source \<Rightarrow> lifecycle_side \<Rightarrow> string \<Rightarrow> nat \<Rightarrow> string \<Rightarrow> walk_state \<Rightarrow> walk_state run" where
  "walk_node source side from depth node st =
     (case read_links source node side of
        Inl e \<Rightarrow> Some (Inl e)
      | Inr neighbours \<Rightarrow>
          let links = ordered side neighbours;
              st = (if ln_complete neighbours then st else st\<lparr>sw_truncated := True\<rparr>)
          in if links = [] then Some (Inr (st\<lparr>sw_terminal := sw_terminal st @ [node]\<rparr>))
             else let st = (if 1 < length links
                            then st\<lparr>sw_forks := sw_forks st @ [\<lparr>lf_at = node, lf_side = side,
                                       lf_members = map (\<lambda>link. other link side) links\<rparr>]\<rparr>
                            else st)
                  in map_option Inr (walk_links side from depth node links st))"

fun walk_level :: "link_source \<Rightarrow> lifecycle_side \<Rightarrow> string \<Rightarrow> nat \<Rightarrow> string list \<Rightarrow> walk_state \<Rightarrow> walk_state run" where
  "walk_level source side from depth [] st = Some (Inr st)"
| "walk_level source side from depth (node # frontier) st =
     (case walk_node source side from depth node st of
        None \<Rightarrow> None
      | Some (Inl e) \<Rightarrow> Some (Inl e)
      | Some (Inr st) \<Rightarrow> walk_level source side from depth frontier st)"

text \<open>The frontier the depth bound left unread.\<close>

fun walk_edge :: "link_source \<Rightarrow> lifecycle_side \<Rightarrow> string list \<Rightarrow> walk_state \<Rightarrow> walk_state port_result" where
  "walk_edge source side [] st = Inr st"
| "walk_edge source side (node # frontier) st =
     try_bind (read_links source node side) (\<lambda>links.
       walk_edge source side frontier
         (if ln_links links = [] \<and> ln_complete links then st\<lparr>sw_terminal := sw_terminal st @ [node]\<rparr>
          else st\<lparr>sw_truncated := True\<rparr>))"

definition reached_at :: "lifecycle_step list \<Rightarrow> (string, string option) bmap" where
  "reached_at steps = foldl (\<lambda>m step. bmap_insert (ls_node step) (ls_occurred_at step) m) [] steps"

definition terminal_key :: "lifecycle_step list \<Rightarrow> string \<Rightarrow> bool \<times> int option \<times> string \<times> string" where
  "terminal_key steps node =
     (let found = bmap_get (reached_at steps) node;
          occurred = Option.bind found (\<lambda>o'. o')
      in (found \<noteq> None, Option.bind occurred temporal_instant_nanos,
          case occurred of None \<Rightarrow> [] | Some at \<Rightarrow> at, node))"

definition with_ordered_terminal :: "walk_state \<Rightarrow> side_walk" where
  "with_ordered_terminal st =
     side_walk.truncate (st\<lparr>sw_terminal := sort_key (terminal_key (sw_steps st)) (sw_terminal st)\<rparr>)"

fun walk_depths :: "link_source \<Rightarrow> lifecycle_side \<Rightarrow> string \<Rightarrow> nat list \<Rightarrow> string list \<Rightarrow> walk_state \<Rightarrow> side_walk run" where
  "walk_depths source side from [] frontier st =
     Some (try_bind (walk_edge source side frontier st) (\<lambda>st. Inr (with_ordered_terminal st)))"
| "walk_depths source side from (depth # depths) frontier st =
     (case walk_level source side from depth frontier (st\<lparr>ws_next := []\<rparr>) of
        None \<Rightarrow> None
      | Some (Inl e) \<Rightarrow> Some (Inl e)
      | Some (Inr st) \<Rightarrow>
          if ws_next st = [] then Some (Inr (with_ordered_terminal st))
          else walk_depths source side from depths (ws_next st) st)"

definition walk_start :: "string \<Rightarrow> walk_state" where
  "walk_start from =
     \<lparr>sw_steps = [], sw_terminal = [], sw_forks = [], sw_cycle_cut = False, sw_truncated = False,
      ws_visited = [from], ws_parent = [], ws_next = []\<rparr>"

definition side_walk_run :: "string \<Rightarrow> link_source \<Rightarrow> lifecycle_side \<Rightarrow> side_walk run" where
  "side_walk_run from source side =
     walk_depths source side from [1..<Suc MAX_LIFECYCLE_DEPTH] [from] (walk_start from)"

subsection \<open>The chain\<close>

record lifecycle_chain =
  lc_from :: string
  lc_newer :: "lifecycle_step list"
  lc_older :: "lifecycle_step list"
  lc_heads :: "string list"
  lc_forks :: "lifecycle_fork list"
  lc_cycle_cut :: bool
  lc_truncated :: bool

definition chain_walk :: "string \<Rightarrow> link_source \<Rightarrow> lifecycle_chain run" where
  "chain_walk from source =
     (case side_walk_run from source Newer of
        None \<Rightarrow> None
      | Some (Inl e) \<Rightarrow> Some (Inl e)
      | Some (Inr newer) \<Rightarrow>
          (case side_walk_run from source Older of
             None \<Rightarrow> None
           | Some (Inl e) \<Rightarrow> Some (Inl e)
           | Some (Inr older) \<Rightarrow>
               Some (Inr \<lparr>lc_from = from, lc_newer = sw_steps newer, lc_older = sw_steps older,
                          lc_heads = sw_terminal newer, lc_forks = sw_forks newer @ sw_forks older,
                          lc_cycle_cut = (sw_cycle_cut newer \<or> sw_cycle_cut older),
                          lc_truncated = (sw_truncated newer \<or> sw_truncated older)\<rparr>)))"

definition chain_successors :: "string \<Rightarrow> link_source \<Rightarrow> lifecycle_chain run" where
  "chain_successors from source =
     (case side_walk_run from source Newer of
        None \<Rightarrow> None
      | Some (Inl e) \<Rightarrow> Some (Inl e)
      | Some (Inr newer) \<Rightarrow>
          Some (Inr \<lparr>lc_from = from, lc_newer = sw_steps newer, lc_older = [],
                     lc_heads = sw_terminal newer, lc_forks = sw_forks newer,
                     lc_cycle_cut = sw_cycle_cut newer, lc_truncated = sw_truncated newer\<rparr>))"

definition chain_is_empty :: "lifecycle_chain \<Rightarrow> bool" where
  "chain_is_empty chain \<longleftrightarrow> lc_newer chain = [] \<and> lc_older chain = []"

definition chain_members :: "lifecycle_chain \<Rightarrow> string list" where
  "chain_members chain = map ls_node (rev (lc_older chain)) @ [lc_from chain] @ map ls_node (lc_newer chain)"

end
