(* ===== verification/LifecycleGuarantees.thy ===== *)
theory LifecycleGuarantees
  imports Lifecycle
begin

text \<open>
  What a lifecycle walk promises. The links a source declares form a graph, \<open>links_rel\<close>; the
  invariant of the walk says that its steps are paths of that graph, one memory once, and
  that every memory read so far has its links among the steps unless the walk says it was
  truncated. From it: the walk always returns, inside its bounds; its steps are shortest
  paths and, when it is not truncated, all the memories there are to reach, with the unlinked
  ones as terminals; the cycles it reports are cycles. The contract \<open>link_contract\<close> says both
  reads of a source tell of the same links, and gives the symmetry of succession.
\<close>

subsection \<open>The graph of a source\<close>

definition links_rel :: "link_source \<Rightarrow> lifecycle_side \<Rightarrow> (string \<times> string) set" where
  "links_rel source side =
     {(a, b). \<exists>nb. read_links source a side = Inr nb \<and> b \<in> (\<lambda>l. other l side) ` set (ln_links nb)}"

lemma retain_first_subset: "set (retain_first side seen links) \<subseteq> set links"
  by (induction side seen links rule: retain_first.induct) auto

lemma retain_first_others:
  "(\<lambda>l. other l side) ` set (retain_first side seen links) = (\<lambda>l. other l side) ` set links - set seen"
  by (induction side seen links rule: retain_first.induct) auto

lemma set_ordered: "set (ordered side nb) \<subseteq> set (ln_links nb)"
  using retain_first_subset unfolding ordered_def by fastforce

lemma ordered_others: "(\<lambda>l. other l side) ` set (ordered side nb) = (\<lambda>l. other l side) ` set (ln_links nb)"
  by (simp add: ordered_def retain_first_others)

lemma ordered_Nil [simp]: "ordered side nb = [] \<longleftrightarrow> ln_links nb = []"
  using ordered_others [of side nb] by auto

subsection \<open>Steps as paths\<close>

definition members :: "string \<Rightarrow> lifecycle_step list \<Rightarrow> string set" where
  "members from steps = insert from (ls_node ` set steps)"

definition depth_in :: "lifecycle_step list \<Rightarrow> string \<Rightarrow> nat" where
  "depth_in steps n = (case map_of (map (\<lambda>s. (ls_node s, ls_depth s)) steps) n of None \<Rightarrow> 0 | Some d \<Rightarrow> d)"

definition parent_in :: "lifecycle_step list \<Rightarrow> string \<Rightarrow> string option" where
  "parent_in steps n = map_of (map (\<lambda>s. (ls_node s, ls_from s)) steps) n"

definition justified :: "link_source \<Rightarrow> lifecycle_side \<Rightarrow> string \<Rightarrow> lifecycle_step list \<Rightarrow> lifecycle_step \<Rightarrow> bool" where
  "justified source side from steps s \<longleftrightarrow>
     ls_node s \<notin> members from steps \<and> ls_from s \<in> members from steps
     \<and> ls_depth s = Suc (depth_in steps (ls_from s))
     \<and> (\<exists>nb l. read_links source (ls_from s) side = Inr nb \<and> l \<in> set (ln_links nb)
           \<and> other l side = ls_node s \<and> ll_relation l = ls_via s \<and> ll_occurred_at l = ls_occurred_at s)"

inductive walked :: "link_source \<Rightarrow> lifecycle_side \<Rightarrow> string \<Rightarrow> lifecycle_step list \<Rightarrow> bool"
  for source side "from" where
  walked_Nil: "walked source side from []"
| walked_snoc: "walked source side from steps \<Longrightarrow> justified source side from steps s
     \<Longrightarrow> walked source side from (steps @ [s])"

lemma members_Nil [simp]: "members from [] = {from}"
  by (simp add: members_def)

lemma members_snoc [simp]: "members from (steps @ [s]) = insert (ls_node s) (members from steps)"
  by (auto simp: members_def)

lemma members_step: "s \<in> set steps \<Longrightarrow> ls_node s \<in> members from steps"
  by (simp add: members_def)

lemma depth_in_Nil [simp]: "depth_in [] n = 0"
  by (simp add: depth_in_def)

lemma not_member_map_of: "n \<notin> members from steps \<Longrightarrow> map_of (map (\<lambda>s. (ls_node s, f s)) steps) n = None"
  by (auto simp: members_def map_of_eq_None_iff)

lemma depth_in_snoc:
  "ls_node s \<notin> members from steps \<Longrightarrow>
     depth_in (steps @ [s]) n = (if n = ls_node s then ls_depth s else depth_in steps n)"
  by (auto simp: depth_in_def map_add_def not_member_map_of split: option.splits)

lemma parent_in_snoc:
  "ls_node s \<notin> members from steps \<Longrightarrow>
     parent_in (steps @ [s]) n = (if n = ls_node s then Some (ls_from s) else parent_in steps n)"
  by (auto simp: parent_in_def map_add_def not_member_map_of split: option.splits)

lemma justified_link: "justified source side from steps s \<Longrightarrow> (ls_from s, ls_node s) \<in> links_rel source side"
  by (force simp: justified_def links_rel_def)

lemma depth_in_start: "walked source side from steps \<Longrightarrow> depth_in steps from = 0"
  by (induction rule: walked.induct)
    (auto simp: justified_def depth_in_snoc members_def)

lemma walked_path:
  "walked source side from steps \<Longrightarrow> n \<in> members from steps
     \<Longrightarrow> (from, n) \<in> links_rel source side ^^ depth_in steps n"
proof (induction arbitrary: n rule: walked.induct)
  case (walked_snoc steps s)
  have j: "ls_node s \<notin> members from steps" "ls_from s \<in> members from steps"
    "ls_depth s = Suc (depth_in steps (ls_from s))"
    using walked_snoc.hyps(2) by (simp_all add: justified_def)
  show ?case
  proof (cases "n = ls_node s")
    case True
    then show ?thesis using walked_snoc.IH [OF j(2)] justified_link [OF walked_snoc.hyps(2)] j
      by (auto simp: depth_in_snoc [OF j(1)])
  next
    case False
    then show ?thesis using walked_snoc.IH walked_snoc.prems by (simp add: depth_in_snoc [OF j(1)])
  qed
qed simp

lemma walked_parent:
  "walked source side from steps \<Longrightarrow> parent_in steps n = Some u \<Longrightarrow>
     depth_in steps n = Suc (depth_in steps u) \<and> u \<in> members from steps \<and> (u, n) \<in> links_rel source side"
proof (induction arbitrary: n u rule: walked.induct)
  case (walked_snoc steps s)
  have j: "ls_node s \<notin> members from steps" "ls_from s \<in> members from steps"
    "ls_depth s = Suc (depth_in steps (ls_from s))"
    using walked_snoc.hyps(2) by (simp_all add: justified_def)
  show ?case
  proof (cases "n = ls_node s")
    case True
    then show ?thesis using walked_snoc.prems j justified_link [OF walked_snoc.hyps(2)]
      by (auto simp: depth_in_snoc [OF j(1)] parent_in_snoc [OF j(1)])
  next
    case False
    then have "parent_in steps n = Some u"
      using walked_snoc.prems by (simp add: parent_in_snoc [OF j(1)])
    then show ?thesis using walked_snoc.IH False j(1) by (auto simp: depth_in_snoc [OF j(1)])
  qed
qed (simp add: parent_in_def)

subsection \<open>The cycle test\<close>

lemma lies_on_path_returns:
  assumes "\<And>n u. bmap_get parent n = Some u \<Longrightarrow> rank u < (rank n :: nat)"
  shows "\<exists>b. lies_on_path c n parent = Some b
     \<and> (b \<longleftrightarrow> (n, c) \<in> {(x, y). bmap_get parent x = Some y}\<^sup>*)"
proof (induction n rule: measure_induct_rule [of rank])
  case (less n)
  show ?case
  proof (cases "n = c")
    case True
    then show ?thesis by (subst lies_on_path.simps) auto
  next
    case ne: False
    show ?thesis
    proof (cases "bmap_get parent n")
      case None
      then have "(n, c) \<notin> {(x, y). bmap_get parent x = Some y}\<^sup>*"
        using ne by (auto elim: converse_rtranclE)
      then show ?thesis using ne None by (subst lies_on_path.simps) auto
    next
      case (Some u)
      then have "(n, c) \<in> {(x, y). bmap_get parent x = Some y}\<^sup>* \<longleftrightarrow> (u, c) \<in> {(x, y). bmap_get parent x = Some y}\<^sup>*"
        using ne by (auto elim: converse_rtranclE intro: converse_rtrancl_into_rtrancl)
      then show ?thesis using less.IH [OF assms [OF Some]] ne Some by (subst lies_on_path.simps) simp
    qed
  qed
qed

subsection \<open>The invariant\<close>

definition walk_inv :: "link_source \<Rightarrow> lifecycle_side \<Rightarrow> string \<Rightarrow> walk_state \<Rightarrow> bool" where
  "walk_inv source side from st \<longleftrightarrow>
     walked source side from (sw_steps st)
     \<and> length (sw_steps st) \<le> MAX_LIFECYCLE_MEMBERS
     \<and> set (ws_visited st) = members from (sw_steps st)
     \<and> bmap_ok (ws_parent st) \<and> (\<forall>n. bmap_get (ws_parent st) n = parent_in (sw_steps st) n)
     \<and> (sw_cycle_cut st \<longrightarrow> (\<exists>n \<in> members from (sw_steps st). (n, n) \<in> (links_rel source side)\<^sup>+))"

text \<open>How a state of one level follows another.\<close>

definition extends :: "nat \<Rightarrow> walk_state \<Rightarrow> walk_state \<Rightarrow> bool" where
  "extends d st st' \<longleftrightarrow>
     (\<exists>ss. sw_steps st' = sw_steps st @ ss \<and> (\<forall>s \<in> set ss. ls_depth s = d)
        \<and> ws_next st' = ws_next st @ map ls_node ss)
     \<and> sw_terminal st' = sw_terminal st \<and> (sw_truncated st \<longrightarrow> sw_truncated st')"

lemma extends_refl [simp]: "extends d st st"
  by (simp add: extends_def)

lemma extends_trans: "extends d st st' \<Longrightarrow> extends d st' st'' \<Longrightarrow> extends d st st''"
  unfolding extends_def by auto

lemma extends_members: "extends d st st' \<Longrightarrow> members from (sw_steps st) \<subseteq> members from (sw_steps st')"
  by (auto simp: extends_def members_def)

inductive_cases walked_snocE: "walked source side from (steps @ [s])"

lemma walked_snocD:
  "walked source side from (steps @ [s]) \<Longrightarrow> walked source side from steps \<and> justified source side from steps s"
  by (erule walked_snocE) auto

lemma depth_in_append:
  "walked source side from (a @ b) \<Longrightarrow> n \<in> members from a \<Longrightarrow> depth_in (a @ b) n = depth_in a n"
proof (induction b rule: rev_induct)
  case (snoc s b)
  have w: "walked source side from (a @ b)" and j: "ls_node s \<notin> members from (a @ b)"
    using walked_snocD [of source side "from" "a @ b" s] snoc.prems(1) by (simp_all add: justified_def)
  have "n \<noteq> ls_node s" using j snoc.prems(2) by (auto simp: members_def)
  then show ?case using snoc.IH [OF w snoc.prems(2)] depth_in_snoc [OF j, of n] by simp
qed simp

lemma extends_depth:
  "extends d st st' \<Longrightarrow> n \<in> members from (sw_steps st) \<Longrightarrow> walked source side from (sw_steps st')
     \<Longrightarrow> depth_in (sw_steps st') n = depth_in (sw_steps st) n"
  unfolding extends_def using depth_in_append by fastforce

lemma walk_inv_returns:
  assumes "walk_inv source side from st" and "node \<in> members from (sw_steps st)"
  shows "\<exists>b. lies_on_path c node (ws_parent st) = Some b
    \<and> (b \<longrightarrow> (c, node) \<in> (links_rel source side)\<^sup>* \<and> c \<in> members from (sw_steps st))"
proof -
  have w: "walked source side from (sw_steps st)" and p: "bmap_get (ws_parent st) n = parent_in (sw_steps st) n" for n
    using assms by (simp_all add: walk_inv_def)
  have "depth_in (sw_steps st) u < depth_in (sw_steps st) n" if "bmap_get (ws_parent st) n = Some u" for n u
    using walked_parent [OF w] that by (simp add: p)
  from lies_on_path_returns [of "ws_parent st" "depth_in (sw_steps st)", OF this]
  obtain b where b: "lies_on_path c node (ws_parent st) = Some b"
    "b \<longleftrightarrow> (node, c) \<in> {(x, y). bmap_get (ws_parent st) x = Some y}\<^sup>*" by blast
  have "(c', n') \<in> (links_rel source side)\<^sup>* \<and> c' \<in> members from (sw_steps st)"
    if "(n', c') \<in> {(x, y). bmap_get (ws_parent st) x = Some y}\<^sup>*" "n' \<in> members from (sw_steps st)" for n' c'
    using that
  proof (induction rule: rtrancl_induct)
    case (step y z)
    then show ?case using walked_parent [OF w, of y z] by (auto simp: p intro: converse_rtrancl_into_rtrancl)
  qed simp
  then show ?thesis using b assms(2) by blast
qed

lemma walk_link_inv:
  assumes inv: "walk_inv source side from st" and node: "node \<in> members from (sw_steps st)"
    and d: "d = Suc (depth_in (sw_steps st) node)"
    and link: "read_links source node side = Inr nb" "link \<in> set (ln_links nb)"
  shows "\<exists>st'. walk_link side from d node link st = Some st' \<and> walk_inv source side from st' \<and> extends d st st'
    \<and> (sw_truncated st' \<or> other link side \<in> members from (sw_steps st'))"
proof -
  let ?r = "other link side"
  have rel: "(node, ?r) \<in> links_rel source side" using link by (auto simp: links_rel_def)
  have vis: "set (ws_visited st) = members from (sw_steps st)" using inv by (simp add: walk_inv_def)
  have w: "walked source side from (sw_steps st)" using inv by (simp add: walk_inv_def)
  show ?thesis
  proof (cases "?r \<in> members from (sw_steps st)")
    case seen: True
    have cut: "walk_inv source side from (st\<lparr>sw_cycle_cut := True\<rparr>)"
      if "(?r, node) \<in> (links_rel source side)\<^sup>*"
    proof -
      have "(?r, ?r) \<in> (links_rel source side)\<^sup>+" using that rel by (rule rtrancl_into_trancl1)
      then show ?thesis using inv seen by (auto simp: walk_inv_def)
    qed
    have ext: "extends d st (st\<lparr>sw_cycle_cut := True\<rparr>)" by (simp add: extends_def)
    show ?thesis
    proof (cases "?r = from")
      case True
      have "(from, node) \<in> (links_rel source side)\<^sup>*"
        using walked_path [OF w node] by (rule relpow_imp_rtrancl)
      then show ?thesis using True seen cut ext by (simp add: walk_link_def vis)
    next
      case False
      obtain b where "lies_on_path ?r node (ws_parent st) = Some b" "b \<longrightarrow> (?r, node) \<in> (links_rel source side)\<^sup>*"
        using walk_inv_returns [OF inv node] by blast
      then show ?thesis using False seen cut ext inv by (cases b) (simp_all add: walk_link_def vis)
    qed
  next
    case new: False
    show ?thesis
    proof (cases "length (sw_steps st) = MAX_LIFECYCLE_MEMBERS")
      case True
      then show ?thesis using new inv by (simp add: walk_link_def vis extends_def walk_inv_def)
    next
      case False
      let ?s = "\<lparr>ls_node = ?r, ls_depth = d, ls_from = node, ls_via = ll_relation link, ls_occurred_at = ll_occurred_at link\<rparr>"
      have j: "justified source side from (sw_steps st) ?s"
        using new node d link by (auto simp: justified_def)
      have "walked source side from (sw_steps st @ [?s])" using w j by (rule walked_snoc)
      then show ?thesis using new False inv
        by (auto simp: walk_link_def vis Let_def extends_def walk_inv_def bmap_get_insert parent_in_snoc)
    qed
  qed
qed

lemma walk_links_inv:
  assumes "walk_inv source side from st" and "node \<in> members from (sw_steps st)"
    and "d = Suc (depth_in (sw_steps st) node)"
    and "read_links source node side = Inr nb" and "set links \<subseteq> set (ln_links nb)"
  shows "\<exists>st'. walk_links side from d node links st = Some st' \<and> walk_inv source side from st' \<and> extends d st st'
    \<and> (sw_truncated st' \<or> (\<lambda>l. other l side) ` set links \<subseteq> members from (sw_steps st'))"
  using assms
proof (induction links arbitrary: st)
  case (Cons link links)
  obtain st1 where s1: "walk_link side from d node link st = Some st1" "walk_inv source side from st1" "extends d st st1"
    "sw_truncated st1 \<or> other link side \<in> members from (sw_steps st1)"
    using walk_link_inv [OF Cons.prems(1-4), of link] Cons.prems(5) by auto
  have n1: "node \<in> members from (sw_steps st1)" using extends_members [OF s1(3)] Cons.prems(2) by blast
  have w1: "walked source side from (sw_steps st1)" using s1(2) by (simp add: walk_inv_def)
  have d1: "d = Suc (depth_in (sw_steps st1) node)"
    using extends_depth [OF s1(3) Cons.prems(2) w1] Cons.prems(3) by simp
  obtain st2 where s2: "walk_links side from d node links st1 = Some st2" "walk_inv source side from st2" "extends d st1 st2"
    "sw_truncated st2 \<or> (\<lambda>l. other l side) ` set links \<subseteq> members from (sw_steps st2)"
    using Cons.IH [OF s1(2) n1 d1 Cons.prems(4)] Cons.prems(5) by auto
  have "sw_truncated st1 \<longrightarrow> sw_truncated st2" using s2(3) by (simp add: extends_def)
  then have "sw_truncated st2 \<or> other link side \<in> members from (sw_steps st2)"
    using s1(4) extends_members [OF s2(3), of "from"] by blast
  then show ?case using s1(1) s2 extends_trans [OF s1(3) s2(3)] by auto
qed simp

subsection \<open>Levels\<close>

text \<open>A memory whose links the walk has read: they are members, no further than one hop on.\<close>

definition covered :: "link_source \<Rightarrow> lifecycle_side \<Rightarrow> string \<Rightarrow> lifecycle_step list \<Rightarrow> string \<Rightarrow> bool" where
  "covered source side from steps n \<longleftrightarrow>
     (\<exists>nb. read_links source n side = Inr nb \<and> ln_complete nb)
     \<and> (\<forall>m. (n, m) \<in> links_rel source side \<longrightarrow>
          m \<in> members from steps \<and> depth_in steps m \<le> Suc (depth_in steps n))"

definition unlinked :: "link_source \<Rightarrow> lifecycle_side \<Rightarrow> string \<Rightarrow> bool" where
  "unlinked source side n \<longleftrightarrow> (\<exists>nb. read_links source n side = Inr nb \<and> ln_links nb = [])"

definition level_inv :: "link_source \<Rightarrow> lifecycle_side \<Rightarrow> string \<Rightarrow> nat \<Rightarrow> string set \<Rightarrow> walk_state \<Rightarrow> bool" where
  "level_inv source side from d read st \<longleftrightarrow>
     walk_inv source side from st
     \<and> (\<forall>s \<in> set (sw_steps st). ls_depth s \<le> d)
     \<and> ws_next st = map ls_node (filter (\<lambda>s. ls_depth s = d) (sw_steps st))
     \<and> read \<subseteq> members from (sw_steps st) \<and> (\<forall>n \<in> read. depth_in (sw_steps st) n < d)
     \<and> set (sw_terminal st) = {n \<in> read. unlinked source side n} \<and> distinct (sw_terminal st)
     \<and> (\<not> sw_truncated st \<longrightarrow> (\<forall>n \<in> read. covered source side from (sw_steps st) n))"

lemma walked_append: "walked source side from (a @ b) \<Longrightarrow> walked source side from a"
proof (induction b rule: rev_induct)
  case (snoc s b)
  then show ?case using walked_snocD [of source side "from" "a @ b" s] by simp
qed simp

lemma depth_in_step: "walked source side from steps \<Longrightarrow> s \<in> set steps \<Longrightarrow> depth_in steps (ls_node s) = ls_depth s"
proof (induction rule: walked.induct)
  case (walked_snoc steps t)
  have j: "ls_node t \<notin> members from steps" using walked_snoc.hyps by (simp add: justified_def)
  have "ls_node s \<noteq> ls_node t" if "s \<in> set steps" using members_step [OF that, of "from"] j by metis
  then show ?case using walked_snoc by (auto simp: depth_in_snoc [OF j])
qed simp

lemma extends_new:
  assumes "extends d st st'" and "walked source side from (sw_steps st')"
  shows "\<forall>n \<in> members from (sw_steps st'). n \<in> members from (sw_steps st) \<or> depth_in (sw_steps st') n = d"
proof -
  obtain ss where ss: "sw_steps st' = sw_steps st @ ss" "\<forall>s \<in> set ss. ls_depth s = d"
    using assms(1) by (auto simp: extends_def)
  have "depth_in (sw_steps st') (ls_node s) = d" if "s \<in> set ss" for s
    using depth_in_step [OF assms(2), of s] ss that by simp
  then show ?thesis using ss(1) by (auto simp: members_def)
qed

definition grows :: "string \<Rightarrow> nat \<Rightarrow> lifecycle_step list \<Rightarrow> lifecycle_step list \<Rightarrow> bool" where
  "grows from d steps steps' \<longleftrightarrow> members from steps \<subseteq> members from steps'
     \<and> (\<forall>n \<in> members from steps. depth_in steps' n = depth_in steps n)
     \<and> (\<forall>n \<in> members from steps'. n \<in> members from steps \<or> depth_in steps' n = d)"

lemma grows_refl [simp]: "grows from d steps steps"
  by (simp add: grows_def)

lemma grows_trans: "grows from d a b \<Longrightarrow> grows from d b c \<Longrightarrow> grows from d a c"
  unfolding grows_def by (metis subset_iff)

lemma extends_grows:
  "extends d st st' \<Longrightarrow> walked source side from (sw_steps st') \<Longrightarrow> grows from d (sw_steps st) (sw_steps st')"
  using extends_new extends_members extends_depth unfolding grows_def by metis

lemma depth_in_bound:
  "walked source side from steps \<Longrightarrow> \<forall>s \<in> set steps. ls_depth s \<le> d \<Longrightarrow> n \<in> members from steps \<Longrightarrow> depth_in steps n \<le> d"
  using depth_in_step depth_in_start unfolding members_def by fastforce

lemma covered_extends:
  assumes "covered source side from steps n" and "n \<in> members from steps" and "walked source side from (steps @ ss)"
  shows "covered source side from (steps @ ss) n"
  using assms depth_in_append [OF assms(3)] unfolding covered_def by (auto simp: members_def)

lemma level_inv_extends:
  assumes inv: "level_inv source side from d read st" and "extends d st st'" and w: "walk_inv source side from st'"
  shows "level_inv source side from d read st'"
proof -
  obtain ss where ss: "sw_steps st' = sw_steps st @ ss" "\<forall>s \<in> set ss. ls_depth s = d"
    "ws_next st' = ws_next st @ map ls_node ss" "sw_terminal st' = sw_terminal st"
    "sw_truncated st \<longrightarrow> sw_truncated st'"
    using assms(2) by (auto simp: extends_def)
  have w': "walked source side from (sw_steps st @ ss)" using w ss(1) by (simp add: walk_inv_def)
  have "\<forall>n \<in> read. depth_in (sw_steps st @ ss) n < d"
    using inv depth_in_append [OF w'] unfolding level_inv_def by auto
  moreover have "\<forall>n \<in> read. covered source side from (sw_steps st @ ss) n" if "\<not> sw_truncated st'"
    using inv ss(5) that covered_extends [OF _ _ w'] unfolding level_inv_def by blast
  moreover have "filter (\<lambda>s. ls_depth s = d) ss = ss" using ss(2) by (simp add: filter_id_conv)
  ultimately show ?thesis using inv ss w unfolding level_inv_def by (auto simp: members_def)
qed

text \<open>Reading one memory of the frontier.\<close>

lemma walk_node_inv:
  assumes inv: "level_inv source side from (Suc d) read st"
    and node: "node \<in> members from (sw_steps st)" "depth_in (sw_steps st) node = d" "node \<notin> read"
  shows "case walk_node source side from (Suc d) node st of
      None \<Rightarrow> False
    | Some (Inl e) \<Rightarrow> read_links source node side = Inl e
    | Some (Inr st') \<Rightarrow> level_inv source side from (Suc d) (insert node read) st' \<and> grows from (Suc d) (sw_steps st) (sw_steps st')"
proof (cases "read_links source node side")
  case (Inl e)
  then show ?thesis by (simp add: walk_node_def)
next
  case nb: (Inr nb)
  let ?st = "if ln_complete nb then st else st\<lparr>sw_truncated := True\<rparr>"
  have inv1: "level_inv source side from (Suc d) read ?st"
    using inv by (auto simp: level_inv_def walk_inv_def)
  show ?thesis
  proof (cases "ln_links nb = []")
    case True
    have u: "unlinked source side node" using nb True by (simp add: unlinked_def)
    have c: "ln_complete nb \<Longrightarrow> covered source side from (sw_steps st) node"
      using nb True by (auto simp: covered_def links_rel_def)
    have "level_inv source side from (Suc d) (insert node read) (?st\<lparr>sw_terminal := sw_terminal ?st @ [node]\<rparr>)"
      using inv1 u c node by (auto simp: level_inv_def walk_inv_def)
    then show ?thesis using nb True by (auto simp: walk_node_def Let_def)
  next
    case False
    let ?f = "\<lparr>lf_at = node, lf_side = side, lf_members = map (\<lambda>link. other link side) (ordered side nb)\<rparr>"
    define st2 where "st2 = (if 1 < length (ordered side nb) then ?st\<lparr>sw_forks := sw_forks ?st @ [?f]\<rparr> else ?st)"
    have inv2: "level_inv source side from (Suc d) read st2"
      using inv1 by (auto simp: st2_def level_inv_def walk_inv_def)
    have same: "sw_steps st2 = sw_steps st" by (simp add: st2_def)
    have tr: "\<not> ln_complete nb \<Longrightarrow> sw_truncated st2" by (simp add: st2_def)
    have w2: "walk_inv source side from st2" using inv2 by (simp add: level_inv_def)
    obtain st' where s': "walk_links side from (Suc d) node (ordered side nb) st2 = Some st'"
      "walk_inv source side from st'" "extends (Suc d) st2 st'"
      "sw_truncated st' \<or> (\<lambda>l. other l side) ` set (ordered side nb) \<subseteq> members from (sw_steps st')"
      using walk_links_inv [OF w2 _ _ nb set_ordered [of side nb], of "Suc d"] node same by auto
    have inv3: "level_inv source side from (Suc d) read st'"
      using level_inv_extends [OF inv2 s'(3,2)] .
    have w3: "walked source side from (sw_steps st')" using s'(2) by (simp add: walk_inv_def)
    have grow: "grows from (Suc d) (sw_steps st) (sw_steps st')"
      using extends_grows [OF s'(3) w3] same by simp
    have "\<not> unlinked source side node" using nb False by (simp add: unlinked_def)
    moreover have "covered source side from (sw_steps st') node" if nt: "\<not> sw_truncated st'"
    proof -
      have "ln_complete nb" using nt s'(3) tr by (auto simp: extends_def)
      moreover have "m \<in> members from (sw_steps st')" if "(node, m) \<in> links_rel source side" for m
        using s'(4) nt that nb ordered_others [of side nb] by (auto simp: links_rel_def)
      moreover have "depth_in (sw_steps st') m \<le> Suc d" if "m \<in> members from (sw_steps st')" for m
        using depth_in_bound [OF w3 _ that] inv3 by (simp add: level_inv_def)
      ultimately show ?thesis using nb grow node by (auto simp: covered_def grows_def)
    qed
    moreover have "node \<in> members from (sw_steps st')" "depth_in (sw_steps st') node < Suc d"
      using grow node by (auto simp: grows_def)
    ultimately have "level_inv source side from (Suc d) (insert node read) st'"
      using inv3 unfolding level_inv_def by auto
    then show ?thesis using nb False s'(1) grow by (simp add: walk_node_def st2_def Let_def)
  qed
qed

lemma level_error:
  "walk_level source side from d frontier st = Some (Inl e) \<Longrightarrow> \<exists>n \<in> set frontier. read_links source n side = Inl e"
  by (induction source side "from" d frontier st rule: walk_level.induct)
    (auto simp: walk_node_def Let_def split: option.splits sum.splits if_splits)

lemma walk_level_inv:
  assumes "level_inv source side from (Suc d) read st" and "distinct frontier"
    and "\<forall>n \<in> set frontier. n \<in> members from (sw_steps st) \<and> depth_in (sw_steps st) n = d \<and> n \<notin> read"
  shows "(\<exists>e. walk_level source side from (Suc d) frontier st = Some (Inl e))
    \<or> (\<exists>st'. walk_level source side from (Suc d) frontier st = Some (Inr st')
         \<and> level_inv source side from (Suc d) (read \<union> set frontier) st'
         \<and> grows from (Suc d) (sw_steps st) (sw_steps st'))"
  using assms
proof (induction frontier arbitrary: st read)
  case (Cons node frontier)
  have node: "(\<exists>e. walk_node source side from (Suc d) node st = Some (Inl e))
    \<or> (\<exists>st'. walk_node source side from (Suc d) node st = Some (Inr st')
         \<and> level_inv source side from (Suc d) (insert node read) st'
         \<and> grows from (Suc d) (sw_steps st) (sw_steps st'))"
    using walk_node_inv [OF Cons.prems(1), of node] Cons.prems(3) by (auto split: option.splits sum.splits)
  then show ?case
  proof (elim disjE exE conjE)
    fix st1
    assume s1: "walk_node source side from (Suc d) node st = Some (Inr st1)"
      "level_inv source side from (Suc d) (insert node read) st1" "grows from (Suc d) (sw_steps st) (sw_steps st1)"
    have f1: "\<forall>n \<in> set frontier. n \<in> members from (sw_steps st1) \<and> depth_in (sw_steps st1) n = d \<and> n \<notin> insert node read"
      using Cons.prems s1(3) by (auto simp: grows_def)
    have "insert node read \<union> set frontier = read \<union> set (node # frontier)" by auto
    then show ?thesis
      using Cons.IH [OF s1(2) _ f1] Cons.prems(2) s1(1) grows_trans [OF s1(3)] by auto
  qed simp
qed simp

subsection \<open>The result of a walk\<close>

definition walk_complete :: "link_source \<Rightarrow> lifecycle_side \<Rightarrow> string \<Rightarrow> lifecycle_step list \<Rightarrow> string list \<Rightarrow> bool" where
  "walk_complete source side from steps terminal \<longleftrightarrow>
     (\<forall>n \<in> members from steps. covered source side from steps n)
     \<and> set terminal = {n \<in> members from steps. unlinked source side n}"

definition walk_result :: "link_source \<Rightarrow> lifecycle_side \<Rightarrow> string \<Rightarrow> side_walk \<Rightarrow> bool" where
  "walk_result source side from w \<longleftrightarrow>
     walked source side from (sw_steps w)
     \<and> length (sw_steps w) \<le> MAX_LIFECYCLE_MEMBERS
     \<and> (\<forall>s \<in> set (sw_steps w). ls_depth s \<le> MAX_LIFECYCLE_DEPTH)
     \<and> set (sw_terminal w) \<subseteq> {n \<in> members from (sw_steps w). unlinked source side n} \<and> distinct (sw_terminal w)
     \<and> (sw_cycle_cut w \<longrightarrow> (\<exists>n \<in> members from (sw_steps w). (n, n) \<in> (links_rel source side)\<^sup>+))
     \<and> (\<not> sw_truncated w \<longrightarrow> walk_complete source side from (sw_steps w) (sw_terminal w))"

definition ready :: "link_source \<Rightarrow> lifecycle_side \<Rightarrow> string \<Rightarrow> nat \<Rightarrow> string list \<Rightarrow> walk_state \<Rightarrow> bool" where
  "ready source side from d frontier st \<longleftrightarrow>
     level_inv source side from (Suc d) {n \<in> members from (sw_steps st). depth_in (sw_steps st) n < d} (st\<lparr>ws_next := []\<rparr>)
     \<and> (\<forall>s \<in> set (sw_steps st). ls_depth s \<le> d)
     \<and> set frontier = {n \<in> members from (sw_steps st). depth_in (sw_steps st) n = d} \<and> distinct frontier"

lemma walked_distinct: "walked source side from steps \<Longrightarrow> distinct (map ls_node steps)"
  by (induction rule: walked.induct) (auto simp: justified_def members_def)

lemma walked_not_start: "walked source side from steps \<Longrightarrow> s \<in> set steps \<Longrightarrow> ls_node s \<noteq> from"
  by (induction rule: walked.induct) (auto simp: justified_def members_def)

lemma walked_positive: "walked source side from steps \<Longrightarrow> s \<in> set steps \<Longrightarrow> 0 < ls_depth s"
  by (induction rule: walked.induct) (auto simp: justified_def)

lemma ready_start: "ready source side from 0 [from] (walk_start from)"
  by (auto simp: ready_def walk_start_def level_inv_def walk_inv_def walked_Nil parent_in_def bmap_get_def)

lemma ready_level:
  assumes r: "ready source side from d frontier st"
    and l: "level_inv source side from (Suc d) ({n \<in> members from (sw_steps st). depth_in (sw_steps st) n < d} \<union> set frontier) st'"
    and g: "grows from (Suc d) (sw_steps st) (sw_steps st')"
  shows "level_inv source side from (Suc d) {n \<in> members from (sw_steps st'). depth_in (sw_steps st') n < Suc d} st'"
    and "ready source side from (Suc d) (ws_next st') st'"
proof -
  have w: "walked source side from (sw_steps st')" and le: "\<forall>s \<in> set (sw_steps st'). ls_depth s \<le> Suc d"
    and next_eq: "ws_next st' = map ls_node (filter (\<lambda>s. ls_depth s = Suc d) (sw_steps st'))"
    using l by (simp_all add: level_inv_def walk_inv_def)
  have w0: "walked source side from (sw_steps st)" and le0: "\<forall>s \<in> set (sw_steps st). ls_depth s \<le> d"
    using r by (simp_all add: ready_def level_inv_def walk_inv_def)
  have "{n \<in> members from (sw_steps st). depth_in (sw_steps st) n < d} \<union> set frontier = members from (sw_steps st)"
    using r depth_in_bound [OF w0 le0] unfolding ready_def by (auto simp: order_le_less)
  also have "\<dots> = {n \<in> members from (sw_steps st'). depth_in (sw_steps st') n < Suc d}"
    using g depth_in_bound [OF w0 le0] unfolding grows_def by (auto simp: less_Suc_eq_le)
  finally show lv: "level_inv source side from (Suc d) {n \<in> members from (sw_steps st'). depth_in (sw_steps st') n < Suc d} st'"
    using l by simp
  have "n \<in> set (ws_next st') \<longleftrightarrow> n \<in> members from (sw_steps st') \<and> depth_in (sw_steps st') n = Suc d" for n
    using depth_in_step [OF w] depth_in_start [OF w] unfolding next_eq members_def by auto
  moreover have "distinct (ws_next st')"
    unfolding next_eq using walked_distinct [OF w] by (simp add: distinct_map_filter)
  moreover have "filter (\<lambda>s. ls_depth s = Suc (Suc d)) (sw_steps st') = []"
    using le by (auto simp: filter_empty_conv)
  ultimately show "ready source side from (Suc d) (ws_next st') st'"
    using lv le unfolding ready_def level_inv_def by (auto simp: walk_inv_def)
qed

definition finished :: "link_source \<Rightarrow> lifecycle_side \<Rightarrow> string \<Rightarrow> bool" where
  "finished source side n \<longleftrightarrow> (\<exists>nb. read_links source n side = Inr nb \<and> ln_links nb = [] \<and> ln_complete nb)"

lemma walk_edge_Inr:
  "walk_edge source side frontier st = Inr st' \<Longrightarrow>
     st' = st\<lparr>sw_terminal := sw_terminal st @ filter (finished source side) frontier,
             sw_truncated := (sw_truncated st \<or> (\<exists>n \<in> set frontier. \<not> finished source side n))\<rparr>"
proof (induction source side frontier st rule: walk_edge.induct)
  case (2 source side node frontier st)
  then obtain nb where nb: "read_links source node side = Inr nb"
    by (cases "read_links source node side") auto
  have f: "finished source side node \<longleftrightarrow> ln_links nb = [] \<and> ln_complete nb"
    using nb by (simp add: finished_def)
  show ?case
    using "2.IH" [of nb] "2.prems" nb by (cases "finished source side node") (auto simp: f)
qed simp

lemma walk_edge_Inl:
  "walk_edge source side frontier st = Inl e \<Longrightarrow> \<exists>n \<in> set frontier. read_links source n side = Inl e"
  by (induction source side frontier st rule: walk_edge.induct) (auto simp: try_bind_def split: sum.splits)

lemma finished_covered: "finished source side n \<Longrightarrow> unlinked source side n \<and> covered source side from steps n"
  by (auto simp: finished_def unlinked_def covered_def links_rel_def)

lemma with_ordered_terminal_sel [simp]:
  "sw_steps (with_ordered_terminal st) = sw_steps st"
  "set (sw_terminal (with_ordered_terminal st)) = set (sw_terminal st)"
  "distinct (sw_terminal (with_ordered_terminal st)) = distinct (sw_terminal st)"
  "sw_forks (with_ordered_terminal st) = sw_forks st"
  "sw_cycle_cut (with_ordered_terminal st) = sw_cycle_cut st"
  "sw_truncated (with_ordered_terminal st) = sw_truncated st"
  by (simp_all add: with_ordered_terminal_def side_walk.truncate_def)

lemma level_inv_result:
  assumes l: "level_inv source side from (Suc d) (members from (sw_steps st)) st"
    and d: "\<forall>s \<in> set (sw_steps st). ls_depth s \<le> MAX_LIFECYCLE_DEPTH"
  shows "walk_result source side from (with_ordered_terminal st)"
  using assms by (auto simp: walk_result_def walk_complete_def level_inv_def walk_inv_def)

lemma walk_edge_result:
  assumes r: "ready source side from d frontier st" and d: "d \<le> MAX_LIFECYCLE_DEPTH"
    and e: "walk_edge source side frontier st = Inr st'"
  shows "walk_result source side from (with_ordered_terminal st')"
proof -
  have w: "walked source side from (sw_steps st)" and le: "\<forall>s \<in> set (sw_steps st). ls_depth s \<le> d"
    using r by (simp_all add: ready_def level_inv_def walk_inv_def)
  let ?read = "{n \<in> members from (sw_steps st). depth_in (sw_steps st) n < d}"
  have all: "members from (sw_steps st) = ?read \<union> set frontier" and apart: "?read \<inter> set frontier = {}"
    and df: "distinct frontier"
    using r depth_in_bound [OF w le] unfolding ready_def by (auto simp: order_le_less)
  have i: "walk_inv source side from st" and t: "set (sw_terminal st) = {n \<in> ?read. unlinked source side n}"
    and dt: "distinct (sw_terminal st)"
    and c: "\<not> sw_truncated st \<longrightarrow> (\<forall>n \<in> ?read. covered source side from (sw_steps st) n)"
    using r by (simp_all add: ready_def level_inv_def walk_inv_def)
  note st' = walk_edge_Inr [OF e]
  have u: "unlinked source side n" if "finished source side n" for n
    using finished_covered [OF that] by simp
  have terminal: "set (sw_terminal st') \<subseteq> {n \<in> members from (sw_steps st). unlinked source side n}"
    unfolding st' using t all u by auto
  have "set (sw_terminal st) \<inter> set frontier = {}" using t apart by blast
  then have dist: "distinct (sw_terminal st')" unfolding st' using dt df by auto
  have complete: "walk_complete source side from (sw_steps st) (sw_terminal st')" if "\<not> sw_truncated st'"
  proof -
    have fin: "\<forall>n \<in> set frontier. finished source side n" and nt: "\<not> sw_truncated st"
      using that unfolding st' by auto
    have "\<forall>n \<in> set frontier. covered source side from (sw_steps st) n"
      using fin finished_covered by blast
    then have "\<forall>n \<in> members from (sw_steps st). covered source side from (sw_steps st) n"
      using c nt all by blast
    moreover have "{n \<in> members from (sw_steps st). unlinked source side n} = {n \<in> ?read. unlinked source side n} \<union> set frontier"
      using fin u by (subst all) blast
    then have "set (sw_terminal st') = {n \<in> members from (sw_steps st). unlinked source side n}"
      unfolding st' using t fin by auto
    ultimately show ?thesis by (simp add: walk_complete_def)
  qed
  have same: "sw_steps st' = sw_steps st" "sw_cycle_cut st' = sw_cycle_cut st"
    by (simp_all add: st')
  have "\<forall>s \<in> set (sw_steps st). ls_depth s \<le> MAX_LIFECYCLE_DEPTH" using le d by auto
  then show ?thesis
    using i terminal dist complete by (simp add: walk_result_def walk_complete_def same walk_inv_def)
qed

lemma walk_depths_result:
  assumes "ready source side from d frontier st" and "d + length depths = MAX_LIFECYCLE_DEPTH"
    and "depths = [Suc d..<Suc MAX_LIFECYCLE_DEPTH]"
  shows "(\<exists>e n. walk_depths source side from depths frontier st = Some (Inl e) \<and> read_links source n side = Inl e)
    \<or> (\<exists>w. walk_depths source side from depths frontier st = Some (Inr w) \<and> walk_result source side from w)"
  using assms
proof (induction depths arbitrary: d frontier st)
  case Nil
  then show ?case using walk_edge_result [OF Nil(1)]
    by (cases "walk_edge source side frontier st") (auto dest: walk_edge_Inl)
next
  case (Cons x depths)
  have x: "x = Suc d" "depths = [Suc (Suc d)..<Suc MAX_LIFECYCLE_DEPTH]" "d < MAX_LIFECYCLE_DEPTH"
    using Cons.prems(3) upt_eq_Cons_conv [of "Suc d" "Suc MAX_LIFECYCLE_DEPTH" x depths]
    by (auto simp del: upt_Suc)
  let ?read = "{n \<in> members from (sw_steps st). depth_in (sw_steps st) n < d}"
  have "level_inv source side from (Suc d) ?read (st\<lparr>ws_next := []\<rparr>)" "distinct frontier"
    using Cons.prems(1) by (simp_all add: ready_def)
  moreover have "\<forall>n \<in> set frontier. n \<in> members from (sw_steps (st\<lparr>ws_next := []\<rparr>))
      \<and> depth_in (sw_steps (st\<lparr>ws_next := []\<rparr>)) n = d \<and> n \<notin> ?read"
    using Cons.prems(1) by (simp add: ready_def)
  ultimately consider
      (err) e where "walk_level source side from (Suc d) frontier (st\<lparr>ws_next := []\<rparr>) = Some (Inl e)"
    | (ok) st' where "walk_level source side from (Suc d) frontier (st\<lparr>ws_next := []\<rparr>) = Some (Inr st')"
        "level_inv source side from (Suc d) (?read \<union> set frontier) st'"
        "grows from (Suc d) (sw_steps st) (sw_steps st')"
    using walk_level_inv [of source side "from" d ?read "st\<lparr>ws_next := []\<rparr>" frontier] by auto
  then show ?case
  proof cases
    case err
    then show ?thesis using level_error [OF err] x by auto
  next
    case ok
    note lv = ready_level [OF Cons.prems(1) ok(2,3)]
    show ?thesis
    proof (cases "ws_next st' = []")
      case True
      have "{n \<in> members from (sw_steps st'). depth_in (sw_steps st') n < Suc d} = members from (sw_steps st')"
        using lv(2) True depth_in_bound [of source side "from" "sw_steps st'" "Suc d"]
        by (fastforce simp: ready_def level_inv_def walk_inv_def)
      then have "walk_result source side from (with_ordered_terminal st')"
        using level_inv_result [of source side "from" d st'] lv x(3)
        by (fastforce simp: ready_def)
      then show ?thesis using ok(1) True x by simp
    next
      case False
      then show ?thesis using Cons.IH [OF lv(2)] Cons.prems(2) x ok(1) by auto
    qed
  qed
qed

lemma side_walk_result:
  "(\<exists>e n. side_walk_run from source side = Some (Inl e) \<and> read_links source n side = Inl e)
   \<or> (\<exists>w. side_walk_run from source side = Some (Inr w) \<and> walk_result source side from w)"
  unfolding side_walk_run_def
  by (rule walk_depths_result [OF ready_start]) simp_all

lemma complete_reaches:
  assumes w: "walked source side from steps" and c: "\<forall>n \<in> members from steps. covered source side from steps n"
  shows "(from, n) \<in> links_rel source side ^^ k \<Longrightarrow> n \<in> members from steps \<and> depth_in steps n \<le> k"
proof (induction k arbitrary: n)
  case 0
  then show ?case using depth_in_start [OF w] by (simp add: members_def)
next
  case (Suc k)
  then obtain m where m: "(from, m) \<in> links_rel source side ^^ k" "(m, n) \<in> links_rel source side" by auto
  then show ?case using Suc.IH [OF m(1)] c unfolding covered_def by (meson Suc_le_mono le_trans)
qed

lemma walked_step:
  assumes "walked source side from steps" and "s \<in> set steps"
  shows "(\<exists>nb l. read_links source (ls_from s) side = Inr nb \<and> l \<in> set (ln_links nb)
            \<and> other l side = ls_node s \<and> ll_relation l = ls_via s \<and> ll_occurred_at l = ls_occurred_at s)
    \<and> (ls_from s = from \<and> ls_depth s = 1
        \<or> (\<exists>t \<in> set steps. ls_node t = ls_from s \<and> ls_depth s = Suc (ls_depth t)))"
  using assms
proof (induction rule: walked.induct)
  case (walked_snoc steps t)
  show ?case
  proof (cases "s \<in> set steps")
    case True
    then show ?thesis using walked_snoc.IH by auto
  next
    case False
    then have "justified source side from steps s" using walked_snoc by auto
    then show ?thesis using depth_in_start [OF walked_snoc.hyps(1)] depth_in_step [OF walked_snoc.hyps(1)]
      by (fastforce simp: justified_def members_def)
  qed
qed simp

lemma chain_walk_cases:
  "(\<exists>e n side. chain_walk from source = Some (Inl e) \<and> read_links source n side = Inl e)
   \<or> (\<exists>newer older c. chain_walk from source = Some (Inr c)
        \<and> walk_result source Newer from newer \<and> walk_result source Older from older
        \<and> c = \<lparr>lc_from = from, lc_newer = sw_steps newer, lc_older = sw_steps older,
              lc_heads = sw_terminal newer, lc_forks = sw_forks newer @ sw_forks older,
              lc_cycle_cut = (sw_cycle_cut newer \<or> sw_cycle_cut older),
              lc_truncated = (sw_truncated newer \<or> sw_truncated older)\<rparr>)"
  using side_walk_result [of "from" source Newer] side_walk_result [of "from" source Older]
  by (elim disjE exE conjE) (auto simp: chain_walk_def)

lemma chain_walk_Inr:
  assumes "chain_walk from source = Some (Inr c)"
  obtains newer older where "walk_result source Newer from newer" "walk_result source Older from older"
    "lc_from c = from" "lc_newer c = sw_steps newer" "lc_older c = sw_steps older" "lc_heads c = sw_terminal newer"
    "lc_cycle_cut c \<longleftrightarrow> sw_cycle_cut newer \<or> sw_cycle_cut older"
    "lc_truncated c \<longleftrightarrow> sw_truncated newer \<or> sw_truncated older"
  using chain_walk_cases [of "from" source] assms by auto

definition chain_steps :: "lifecycle_side \<Rightarrow> lifecycle_chain \<Rightarrow> lifecycle_step list" where
  "chain_steps side c = (case side of Newer \<Rightarrow> lc_newer c | Older \<Rightarrow> lc_older c)"

lemma chain_side:
  assumes "chain_walk from source = Some (Inr c)"
  obtains w where "walk_result source side from w" "chain_steps side c = sw_steps w"
    "side = Newer \<Longrightarrow> lc_heads c = sw_terminal w" "sw_truncated w \<Longrightarrow> lc_truncated c"
  by (rule chain_walk_Inr [OF assms]) (cases side; auto simp: chain_steps_def)

lemma complete_members:
  assumes "walk_result source side from w" and "\<not> sw_truncated w"
  shows "(from, n) \<in> (links_rel source side)\<^sup>* \<longleftrightarrow> n \<in> members from (sw_steps w)"
proof -
  have w: "walked source side from (sw_steps w)"
    and c: "\<forall>n \<in> members from (sw_steps w). covered source side from (sw_steps w) n"
    using assms by (simp_all add: walk_result_def walk_complete_def)
  show ?thesis
    using complete_reaches [OF w c] walked_path [OF w] by (auto simp: rtrancl_is_UN_relpow)
qed

subsection \<open>One set of links, read both ways\<close>

locale link_contract =
  fixes source :: link_source
    and declared :: "lifecycle_link set"
  assumes newer: "\<exists>nb. newer_than source n = Inr nb \<and> ln_complete nb \<and> set (ln_links nb) = {l \<in> declared. ll_older l = n}"
    and older: "\<exists>nb. older_than source n = Inr nb \<and> ln_complete nb \<and> set (ln_links nb) = {l \<in> declared. ll_newer l = n}"
begin

lemma reads: "\<exists>nb. read_links source n side = Inr nb"
  using newer [of n] older [of n] by (cases side) (auto simp: read_links_def)

lemma walk_answers: "\<exists>c. chain_walk from source = Some (Inr c)"
  using chain_walk_cases [of "from" source] reads by (metis Inl_Inr_False)

lemma rel_Newer: "links_rel source Newer = (\<lambda>l. (ll_older l, ll_newer l)) ` declared"
proof -
  have "(a, b) \<in> links_rel source Newer \<longleftrightarrow> (\<exists>l \<in> declared. a = ll_older l \<and> b = ll_newer l)" for a b
    using newer [of a] by (auto simp: links_rel_def read_links_def other_def)
  then show ?thesis by (auto simp: image_iff)
qed

lemma rel_Older: "links_rel source Older = (\<lambda>l. (ll_newer l, ll_older l)) ` declared"
proof -
  have "(a, b) \<in> links_rel source Older \<longleftrightarrow> (\<exists>l \<in> declared. a = ll_newer l \<and> b = ll_older l)" for a b
    using older [of a] by (auto simp: links_rel_def read_links_def other_def)
  then show ?thesis by (auto simp: image_iff)
qed

lemma rel_converse: "links_rel source Older = (links_rel source Newer)\<inverse>"
  unfolding rel_Newer rel_Older by (auto simp: image_iff)

lemma succession_symmetric:
  assumes "chain_walk a source = Some (Inr ca)" and "\<not> lc_truncated ca"
    and "chain_walk b source = Some (Inr cb)" and "\<not> lc_truncated cb" and "a \<noteq> b"
  shows "b \<in> ls_node ` set (lc_newer ca) \<longleftrightarrow> a \<in> ls_node ` set (lc_older cb)"
proof -
  obtain na where a: "walk_result source Newer a na" "chain_steps Newer ca = sw_steps na"
    "sw_truncated na \<Longrightarrow> lc_truncated ca"
    using chain_side [OF assms(1), of Newer] by metis
  obtain ob where b: "walk_result source Older b ob" "chain_steps Older cb = sw_steps ob"
    "sw_truncated ob \<Longrightarrow> lc_truncated cb"
    using chain_side [OF assms(3), of Older] by metis
  have na: "\<not> sw_truncated na" and ob: "\<not> sw_truncated ob" using a b assms by auto
  have "b \<in> ls_node ` set (lc_newer ca) \<longleftrightarrow> (a, b) \<in> (links_rel source Newer)\<^sup>*"
    using complete_members [OF a(1) na, of b] a(2) assms(5) by (simp add: members_def chain_steps_def)
  also have "\<dots> \<longleftrightarrow> (b, a) \<in> (links_rel source Older)\<^sup>*"
    by (simp add: rel_converse rtrancl_converse)
  also have "\<dots> \<longleftrightarrow> a \<in> ls_node ` set (lc_older cb)"
    using complete_members [OF b(1) ob, of a] b(2) assms(5) by (simp add: members_def chain_steps_def)
  finally show ?thesis .
qed

end

subsection \<open>The bundle as a source\<close>

definition link_of_relationship :: "bundle_relationship \<Rightarrow> lifecycle_link option" where
  "link_of_relationship r =
     (if br_source_node_id r = br_target_node_id r then None
      else map_option (\<lambda>relation. \<lparr>ll_newer = br_source_node_id r, ll_older = br_target_node_id r,
             ll_relation = relation, ll_occurred_at = rex_occurred_at (br_explanation r)\<rparr>)
           (lifecycle_parse (br_relationship_type r)))"

definition declared_links :: "kmp_bundle \<Rightarrow> lifecycle_link set" where
  "declared_links b = {l. \<exists>r \<in> set (kb_relationships b). link_of_relationship r = Some l}"

definition links_at :: "(string, lifecycle_link list) bmap \<Rightarrow> string \<Rightarrow> lifecycle_link list" where
  "links_at m n = (case bmap_get m n of None \<Rightarrow> [] | Some ls \<Rightarrow> ls)"

lemma links_at_push: "bmap_ok m \<Longrightarrow> links_at (push_link k l m) n = links_at m n @ (if n = k then [l] else [])"
  by (auto simp: links_at_def push_link_def bmap_get_update push_value_def split: option.splits)

lemma bmap_ok_push [simp]: "bmap_ok m \<Longrightarrow> bmap_ok (push_link k l m)"
  by (simp add: push_link_def)

lemma add_bundle_link_eq:
  "add_bundle_link links r =
     (case link_of_relationship r of None \<Rightarrow> links
      | Some l \<Rightarrow> \<lparr>bl_newer_than = push_link (ll_older l) l (bl_newer_than links),
                  bl_older_than = push_link (ll_newer l) l (bl_older_than links)\<rparr>)"
  by (auto simp: add_bundle_link_def link_of_relationship_def Let_def split: option.splits)

lemma bundle_links_fold:
  assumes "bmap_ok (bl_newer_than links)" and "bmap_ok (bl_older_than links)"
  shows "let m = foldl add_bundle_link links rs; ls = List.map_filter link_of_relationship rs
    in links_at (bl_newer_than m) n = links_at (bl_newer_than links) n @ filter (\<lambda>l. ll_older l = n) ls
     \<and> links_at (bl_older_than m) n = links_at (bl_older_than links) n @ filter (\<lambda>l. ll_newer l = n) ls"
  using assms
proof (induction rs arbitrary: links)
  case (Cons r rs)
  show ?case
    using Cons.IH [of "add_bundle_link links r"] Cons.prems
    by (cases "link_of_relationship r")
      (auto simp: add_bundle_link_eq links_at_push List.map_filter_simps Let_def)
qed (simp add: List.map_filter_simps)

lemma bundle_links_at:
  "links_at (bl_newer_than (bundle_links_from b)) n
     = filter (\<lambda>l. ll_older l = n) (List.map_filter link_of_relationship (kb_relationships b))"
  "links_at (bl_older_than (bundle_links_from b)) n
     = filter (\<lambda>l. ll_newer l = n) (List.map_filter link_of_relationship (kb_relationships b))"
  using bundle_links_fold [of "\<lparr>bl_newer_than = [], bl_older_than = []\<rparr>" "kb_relationships b" n]
  by (simp_all add: bundle_links_from_def Let_def links_at_def bmap_get_def)

lemma set_map_filter_links: "set (List.map_filter link_of_relationship rs) = {l. \<exists>r \<in> set rs. link_of_relationship r = Some l}"
  by (induction rs) (auto simp: List.map_filter_simps split: option.splits)

interpretation bundle_source: link_contract "bundle_link_source (bundle_links_from b)" "declared_links b" for b
proof unfold_locales
  show "\<exists>nb. newer_than (bundle_link_source (bundle_links_from b)) n = Inr nb \<and> ln_complete nb
      \<and> set (ln_links nb) = {l \<in> declared_links b. ll_older l = n}" for n
    using bundle_links_at(1) [of b n] unfolding declared_links_def set_map_filter_links [symmetric]
    by (auto simp: bundle_link_source_def neighbours_complete_def links_at_def)
  show "\<exists>nb. older_than (bundle_link_source (bundle_links_from b)) n = Inr nb \<and> ln_complete nb
      \<and> set (ln_links nb) = {l \<in> declared_links b. ll_newer l = n}" for n
    using bundle_links_at(2) [of b n] unfolding declared_links_def set_map_filter_links [symmetric]
    by (auto simp: bundle_link_source_def neighbours_complete_def links_at_def)
qed

subsection \<open>Properties\<close>

text \<open>C34. A lifecycle walk always returns. An error is one a read of its source gave. An answer keeps
  the bounds on each side: at most 256 memories, none further than 32 hops, each listed once
  and never the start itself.\<close>

theorem lifecycle_walk_bounded:
  "(\<exists>e. chain_walk from source = Some (Inl e) \<and> (\<exists>n side. read_links source n side = Inl e))
   \<or> (\<exists>c. chain_walk from source = Some (Inr c) \<and>
        (\<forall>side. length (chain_steps side c) \<le> 256
           \<and> (\<forall>s \<in> set (chain_steps side c). 1 \<le> ls_depth s \<and> ls_depth s \<le> 32)
           \<and> distinct (from # map ls_node (chain_steps side c))))"
proof (cases "\<exists>c. chain_walk from source = Some (Inr c)")
  case True
  then obtain c where c: "chain_walk from source = Some (Inr c)" by blast
  have "length (chain_steps side c) \<le> 256
     \<and> (\<forall>s \<in> set (chain_steps side c). 1 \<le> ls_depth s \<and> ls_depth s \<le> 32)
     \<and> distinct (from # map ls_node (chain_steps side c))" for side
  proof -
    obtain w where w: "walk_result source side from w" "chain_steps side c = sw_steps w"
      using chain_side [OF c, of side] by metis
    then have "walked source side from (sw_steps w)" by (simp add: walk_result_def)
    then show ?thesis using w walked_distinct walked_positive walked_not_start
      by (fastforce simp: walk_result_def MAX_LIFECYCLE_DEPTH_def MAX_LIFECYCLE_MEMBERS_def Suc_le_eq)
  qed
  then show ?thesis using c by blast
next
  case False
  then show ?thesis using chain_walk_cases [of "from" source] by blast
qed

definition life_edge :: "string \<Rightarrow> string \<Rightarrow> string \<Rightarrow> bundle_relationship" where
  "life_edge a b t = \<lparr>br_source_node_id = a, br_target_node_id = b, br_relationship_type = t,
     br_explanation = rex_new Constraint, br_provenance = None\<rparr>"

definition life_bundle :: "bundle_relationship list \<Rightarrow> kmp_bundle" where
  "life_bundle rs = \<lparr>kb_root_node_id = ''a'', kb_role = ''r'', kb_root_node = sample_node ''a'',
     kb_neighbor_nodes = map sample_node [''b'', ''c''], kb_relationships = rs, kb_node_details = [],
     kb_stats = \<lparr>ks_selected_nodes = 3, ks_selected_relationships = of_nat (length rs), ks_detailed_nodes = 0\<rparr>,
     kb_metadata = metadata_initial ''v''\<rparr>"

definition life_sample :: kmp_bundle where
  "life_sample = life_bundle [life_edge ''b'' ''a'' ''supersedes'', life_edge ''c'' ''b'' ''corrects'']"

definition life_source :: link_source where
  "life_source = bundle_link_source (bundle_links_from life_sample)"

definition answers :: "(lifecycle_chain \<Rightarrow> bool) \<Rightarrow> lifecycle_chain run \<Rightarrow> bool" where
  "answers P r = (case r of Some (Inr c) \<Rightarrow> P c | _ \<Rightarrow> False)"

lemma answersE: "answers P r \<Longrightarrow> \<exists>c. r = Some (Inr c) \<and> P c"
  by (auto simp: answers_def split: option.splits sum.splits)

theorem lifecycle_walk_bounded_witness:
  "\<exists>c. chain_walk ''a'' life_source = Some (Inr c) \<and> length (lc_newer c) \<le> 256
     \<and> distinct (''a'' # map ls_node (lc_newer c))"
proof -
  have "answers (\<lambda>_. True) (chain_walk ''a'' life_source)" by code_simp
  then obtain c where c: "chain_walk ''a'' life_source = Some (Inr c)" using answersE by blast
  with lifecycle_walk_bounded [of "''a''" life_source]
  have "length (chain_steps Newer c) \<le> 256 \<and> distinct (''a'' # map ls_node (chain_steps Newer c))" by auto
  then show ?thesis using c by (simp add: chain_steps_def)
qed

text \<open>C30. Every step of a walk is a link its source declares: read at the memory the step names as
  its origin, with that relation and time, and the origin is the start or a step one hop
  nearer.\<close>

theorem lifecycle_steps_declared:
  assumes "chain_walk from source = Some (Inr c)" and "s \<in> set (chain_steps side c)"
  shows "(\<exists>nb l. read_links source (ls_from s) side = Inr nb \<and> l \<in> set (ln_links nb)
            \<and> other l side = ls_node s \<and> ll_relation l = ls_via s \<and> ll_occurred_at l = ls_occurred_at s)
    \<and> (ls_from s = from \<and> ls_depth s = 1
        \<or> (\<exists>t \<in> set (chain_steps side c). ls_node t = ls_from s \<and> ls_depth s = Suc (ls_depth t)))"
proof -
  obtain w where w: "walk_result source side from w" "chain_steps side c = sw_steps w"
    using chain_side [OF assms(1), of side] by metis
  then have "walked source side from (sw_steps w)" by (simp add: walk_result_def)
  from walked_step [OF this] show ?thesis using assms(2) w(2) by simp
qed

theorem lifecycle_steps_declared_witness:
  "\<exists>c s nb. chain_walk ''a'' life_source = Some (Inr c) \<and> lc_newer c \<noteq> [] \<and> s = last (lc_newer c)
     \<and> read_links life_source (ls_from s) Newer = Inr nb \<and> ls_node s \<in> (\<lambda>l. other l Newer) ` set (ln_links nb)"
proof -
  have "answers (\<lambda>c. lc_newer c \<noteq> []) (chain_walk ''a'' life_source)" by code_simp
  then obtain c where c: "chain_walk ''a'' life_source = Some (Inr c)" "lc_newer c \<noteq> []"
    using answersE by blast
  then have "last (lc_newer c) \<in> set (chain_steps Newer c)" by (simp add: chain_steps_def)
  from lifecycle_steps_declared [OF c(1) this] obtain nb l where
    "read_links life_source (ls_from (last (lc_newer c))) Newer = Inr nb" "l \<in> set (ln_links nb)"
    "other l Newer = ls_node (last (lc_newer c))" by blast
  then show ?thesis using c by (metis image_eqI)
qed

text \<open>C6. A walk that does not say it was truncated missed nothing: a memory is on a side exactly
  when declared links lead to it, its depth is the least number of links that do, and the
  heads are the memories of the newer side, the start included, that nothing took over.\<close>

theorem lifecycle_walk_complete:
  assumes "chain_walk from source = Some (Inr c)" and "\<not> lc_truncated c"
  shows "(\<forall>side n. n \<noteq> from \<longrightarrow> (n \<in> ls_node ` set (chain_steps side c) \<longleftrightarrow> (from, n) \<in> (links_rel source side)\<^sup>*))
    \<and> (\<forall>side. \<forall>s \<in> set (chain_steps side c).
          (from, ls_node s) \<in> links_rel source side ^^ ls_depth s
          \<and> (\<forall>k. (from, ls_node s) \<in> links_rel source side ^^ k \<longrightarrow> ls_depth s \<le> k))
    \<and> set (lc_heads c) = {n. (from, n) \<in> (links_rel source Newer)\<^sup>* \<and> unlinked source Newer n}"
proof (intro conjI)
  have side: "\<exists>w. walk_result source side from w \<and> chain_steps side c = sw_steps w \<and> \<not> sw_truncated w
      \<and> (side = Newer \<longrightarrow> lc_heads c = sw_terminal w)" for side
    using chain_side [OF assms(1), of side] assms(2) by metis
  show "\<forall>side n. n \<noteq> from \<longrightarrow> (n \<in> ls_node ` set (chain_steps side c) \<longleftrightarrow> (from, n) \<in> (links_rel source side)\<^sup>*)"
    using side complete_members unfolding members_def by (metis insert_iff)
  show "\<forall>side. \<forall>s \<in> set (chain_steps side c).
          (from, ls_node s) \<in> links_rel source side ^^ ls_depth s
          \<and> (\<forall>k. (from, ls_node s) \<in> links_rel source side ^^ k \<longrightarrow> ls_depth s \<le> k)"
  proof (intro allI ballI)
    fix side s assume s: "s \<in> set (chain_steps side c)"
    obtain w where w: "walk_result source side from w" "chain_steps side c = sw_steps w" "\<not> sw_truncated w"
      using side [of side] by blast
    then have wk: "walked source side from (sw_steps w)"
      and cov: "\<forall>n \<in> members from (sw_steps w). covered source side from (sw_steps w) n"
      by (simp_all add: walk_result_def walk_complete_def)
    have d: "depth_in (sw_steps w) (ls_node s) = ls_depth s" using depth_in_step [OF wk] s w(2) by simp
    show "(from, ls_node s) \<in> links_rel source side ^^ ls_depth s
        \<and> (\<forall>k. (from, ls_node s) \<in> links_rel source side ^^ k \<longrightarrow> ls_depth s \<le> k)"
      using walked_path [OF wk members_step [of s]] complete_reaches [OF wk cov, of "ls_node s"] s
      by (simp add: w(2) d)
  qed
  show "set (lc_heads c) = {n. (from, n) \<in> (links_rel source Newer)\<^sup>* \<and> unlinked source Newer n}"
  proof -
    obtain w where w: "walk_result source Newer from w" "lc_heads c = sw_terminal w" "\<not> sw_truncated w"
      using side [of Newer] by blast
    then show ?thesis
      using complete_members [OF w(1,3)] by (simp add: walk_result_def walk_complete_def)
  qed
qed

theorem lifecycle_walk_complete_witness:
  "\<exists>c. chain_walk ''a'' life_source = Some (Inr c) \<and>
     set (lc_heads c) = {n. (''a'', n) \<in> (links_rel life_source Newer)\<^sup>* \<and> unlinked life_source Newer n}"
proof -
  have "answers (\<lambda>c. \<not> lc_truncated c) (chain_walk ''a'' life_source)" by code_simp
  then obtain c where c: "chain_walk ''a'' life_source = Some (Inr c)" "\<not> lc_truncated c"
    using answersE by blast
  from lifecycle_walk_complete [OF this] c show ?thesis by blast
qed

text \<open>When a walk says it cut a cycle, the links of its source do form one through a memory it
  reached. The converse is not promised: two memories that replace each other and are both
  reached from the start leave no head and no mark, because neither lies on the path that
  reached the other.\<close>

theorem lifecycle_cycles_real:
  "(chain_walk from source = Some (Inr c) \<and> lc_cycle_cut c \<longrightarrow>
      (\<exists>side n. (from, n) \<in> (links_rel source side)\<^sup>* \<and> (n, n) \<in> (links_rel source side)\<^sup>+))
   \<and> answers (\<lambda>c. \<not> lc_cycle_cut c \<and> \<not> lc_truncated c \<and> lc_heads c = [])
       (chain_walk ''a'' (bundle_link_source (bundle_links_from (life_bundle
          [life_edge ''b'' ''a'' ''supersedes'', life_edge ''c'' ''a'' ''corrects'',
           life_edge ''c'' ''b'' ''supersedes'', life_edge ''b'' ''c'' ''supersedes'']))))"
proof (intro conjI impI; (elim conjE)?)
  assume c: "chain_walk from source = Some (Inr c)" "lc_cycle_cut c"
  obtain newer older where w: "walk_result source Newer from newer" "walk_result source Older from older"
    "sw_cycle_cut newer \<or> sw_cycle_cut older"
    using chain_walk_Inr [OF c(1)] c(2) by metis
  have "\<exists>n. (from, n) \<in> (links_rel source side)\<^sup>* \<and> (n, n) \<in> (links_rel source side)\<^sup>+"
    if "walk_result source side from v" "sw_cycle_cut v" for side v
    using that walked_path relpow_imp_rtrancl unfolding walk_result_def by metis
  then show "\<exists>side n. (from, n) \<in> (links_rel source side)\<^sup>* \<and> (n, n) \<in> (links_rel source side)\<^sup>+"
    using w by blast
qed code_simp

theorem lifecycle_cycles_real_witness:
  "\<exists>side n. (''a'', n) \<in> (links_rel (bundle_link_source (bundle_links_from (life_bundle
        [life_edge ''b'' ''a'' ''supersedes'', life_edge ''a'' ''b'' ''supersedes'']))) side)\<^sup>*
     \<and> (n, n) \<in> (links_rel (bundle_link_source (bundle_links_from (life_bundle
        [life_edge ''b'' ''a'' ''supersedes'', life_edge ''a'' ''b'' ''supersedes'']))) side)\<^sup>+"
  (is "\<exists>side n. (_, n) \<in> (links_rel ?s side)\<^sup>* \<and> _")
proof -
  have "answers lc_cycle_cut (chain_walk ''a'' ?s)" by code_simp
  then obtain c where "chain_walk ''a'' ?s = Some (Inr c)" "lc_cycle_cut c" using answersE by blast
  with lifecycle_cycles_real [of "''a''" ?s c] show ?thesis by simp
qed

text \<open>Over a bundle the walk never fails, and succession is symmetric: of two complete walks, the
  one from \<open>a\<close> lists \<open>b\<close> among what took over exactly when the one from \<open>b\<close> lists \<open>a\<close> among
  what it took over from.\<close>

theorem bundle_succession_symmetric:
  "(\<exists>ca. chain_walk a (bundle_link_source (bundle_links_from bundle)) = Some (Inr ca))
   \<and> (chain_walk a (bundle_link_source (bundle_links_from bundle)) = Some (Inr ca) \<and> \<not> lc_truncated ca
      \<and> chain_walk b (bundle_link_source (bundle_links_from bundle)) = Some (Inr cb) \<and> \<not> lc_truncated cb
      \<and> a \<noteq> b \<longrightarrow>
        (b \<in> ls_node ` set (lc_newer ca) \<longleftrightarrow> a \<in> ls_node ` set (lc_older cb)))"
  using bundle_source.walk_answers bundle_source.succession_symmetric by blast

theorem bundle_succession_symmetric_witness:
  "\<exists>cb. chain_walk ''c'' life_source = Some (Inr cb) \<and> ''a'' \<in> ls_node ` set (lc_older cb)"
proof -
  have "answers (\<lambda>c. \<not> lc_truncated c \<and> map ls_node (lc_newer c) = [''b'', ''c'']) (chain_walk ''a'' life_source)"
    by code_simp
  from answersE [OF this] obtain ca where a: "chain_walk ''a'' life_source = Some (Inr ca)" "\<not> lc_truncated ca"
    "map ls_node (lc_newer ca) = [''b'', ''c'']" by (elim exE conjE)
  have "answers (\<lambda>c. \<not> lc_truncated c) (chain_walk ''c'' life_source)" by code_simp
  then obtain cb where b: "chain_walk ''c'' life_source = Some (Inr cb)" "\<not> lc_truncated cb"
    using answersE by blast
  have "''c'' \<in> set (map ls_node (lc_newer ca))" by (simp add: a(3))
  then have member: "''c'' \<in> ls_node ` set (lc_newer ca)" by simp
  have ne: "''a'' \<noteq> ''c''" by simp
  have "''c'' \<in> ls_node ` set (lc_newer ca) \<longleftrightarrow> ''a'' \<in> ls_node ` set (lc_older cb)"
    by (rule bundle_succession_symmetric [THEN conjunct2, THEN mp, of "''a''" life_sample ca "''c''" cb])
      (intro conjI a(1,2) [unfolded life_source_def] b [unfolded life_source_def] ne)
  then show ?thesis using member b(1) by blast
qed

definition typed_request :: "string \<Rightarrow> relation_direction \<Rightarrow> lifecycle_relation \<Rightarrow> adjacency_request" where
  "typed_request node direction relation =
     \<lparr>ar_node_id = node, ar_direction = direction, ar_limit = 16, ar_after = None,
      ar_relation_type = Some (lifecycle_as_str relation)\<rparr>"

lemma canonical_names:
  "map_sum id rt_canonical (relation_type_new ''supersedes'') = Inr ''supersedes''"
  "map_sum id rt_canonical (relation_type_new ''corrects'') = Inr ''corrects''"
  "map_sum id rt_canonical (relation_type_new ''updates_state'') = Inr ''updates_state''"
  by code_simp+

lemma lifecycle_request_eq:
  "trim node \<noteq> [] \<Longrightarrow> lifecycle_request node direction relation = Inr (typed_request node direction relation)"
proof -
  assume n: "trim node \<noteq> []"
  have "map_sum id rt_canonical (relation_type_new (lifecycle_as_str relation)) = Inr (lifecycle_as_str relation)"
    by (cases relation) (simp_all only: lifecycle_as_str.simps canonical_names)
  then obtain r where r: "relation_type_new (lifecycle_as_str relation) = Inr r" "rt_canonical r = lifecycle_as_str relation"
    by (cases "relation_type_new (lifecycle_as_str relation)") auto
  show ?thesis using n
    by (simp add: r lifecycle_request_def adjacency_request_new_def with_relation_type_def
      typed_request_def MAX_LIFECYCLE_LINKS_PER_NODE_def)
qed

lemma adjacency_read_loop_Inr:
  assumes "trim node \<noteq> []"
  shows "adjacency_read_loop read_page node direction rs nb = Inr nb' \<longleftrightarrow>
    (\<forall>r \<in> set rs. \<exists>page. read_page (typed_request node direction r) = Inr page)
    \<and> ln_links nb' = ln_links nb @ concat (map (\<lambda>r. map (link_of_edge r) (ap_edges (projr (read_page (typed_request node direction r))))) rs)
    \<and> (ln_complete nb' \<longleftrightarrow> ln_complete nb \<and> (\<forall>r \<in> set rs. ap_exhausted (projr (read_page (typed_request node direction r)))))"
proof (induction rs arbitrary: nb)
  case Nil
  show ?case by (cases nb; cases nb') auto
next
  case (Cons r rs)
  show ?case
    by (cases "read_page (typed_request node direction r)")
      (simp_all add: lifecycle_request_eq [OF assms] Cons.IH conj_ac)
qed

text \<open>The store source reads one bounded range per lifecycle relation, in the code's order: it
  answers exactly when all three reads do, with their links one after the other, and calls
  itself complete exactly when every range was exhausted. A blank node is refused.\<close>

theorem adjacency_links_read:
  "(trim node = [] \<longrightarrow> adjacency_read read_page node direction = Inl (PortInvalidState ''node_id cannot be empty''))
   \<and> (trim node \<noteq> [] \<longrightarrow>
        (adjacency_read read_page node direction = Inr nb \<longleftrightarrow>
           (\<exists>page. (\<forall>r. read_page (typed_request node direction r) = Inr (page r))
              \<and> ln_links nb = concat (map (\<lambda>r. map (link_of_edge r) (ap_edges (page r))) lifecycle_all)
              \<and> (ln_complete nb \<longleftrightarrow> (\<forall>r. ap_exhausted (page r))))))"
proof (intro conjI impI)
  assume "trim node = []"
  then show "adjacency_read read_page node direction = Inl (PortInvalidState ''node_id cannot be empty'')"
    by (simp add: adjacency_read_def lifecycle_all_def lifecycle_request_def adjacency_request_new_def)
next
  assume n: "trim node \<noteq> []"
  have all: "set lifecycle_all = UNIV"
    by (auto simp: lifecycle_all_def) (metis lifecycle_relation.exhaust)
  show "adjacency_read read_page node direction = Inr nb \<longleftrightarrow>
      (\<exists>page. (\<forall>r. read_page (typed_request node direction r) = Inr (page r))
         \<and> ln_links nb = concat (map (\<lambda>r. map (link_of_edge r) (ap_edges (page r))) lifecycle_all)
         \<and> (ln_complete nb \<longleftrightarrow> (\<forall>r. ap_exhausted (page r))))" (is "?l \<longleftrightarrow> ?r")
  proof
    assume ?l
    then show ?r
      unfolding adjacency_read_def adjacency_read_loop_Inr [OF n] all neighbours_complete_def
      by (intro exI [of _ "\<lambda>r. projr (read_page (typed_request node direction r))"])
        (metis UNIV_I append_Nil lifecycle_neighbours.select_convs(1,2) sum.sel(2))
  next
    assume ?r
    then show ?l
      unfolding adjacency_read_def adjacency_read_loop_Inr [OF n] all neighbours_complete_def by auto
  qed
qed

theorem adjacency_links_read_witness:
  "\<exists>nb. adjacency_read (\<lambda>r. Inr \<lparr>ap_edges = [], ap_next = None, ap_exhausted = True\<rparr>) ''a'' Incoming = Inr nb
     \<and> ln_links nb = [] \<and> ln_complete nb"
proof -
  have t: "trim ''a'' \<noteq> []" by code_simp
  have "adjacency_read (\<lambda>r. Inr \<lparr>ap_edges = [], ap_next = None, ap_exhausted = True\<rparr>) ''a'' Incoming
      = Inr \<lparr>ln_links = [], ln_complete = True\<rparr>"
    by (rule adjacency_links_read [THEN conjunct2, THEN mp, OF t, THEN iffD2])
      (intro exI [of _ "\<lambda>_. \<lparr>ap_edges = [], ap_next = None, ap_exhausted = True\<rparr>"], simp add: lifecycle_all_def)
  then show ?thesis by simp
qed

end
