(* ===== verification/RelationshipPath.thy ===== *)
theory RelationshipPath
  imports Bundle
begin

text \<open>
  The shortest directed path between two memories of a bundle
  (\<open>model/relationship_path.rs\<close>): a breadth-first search over the relationships in storage
  order, the parents it records, and the path read back through them. Reading back has no
  bound in the code and is a partial function; the results say that the search returns, that
  what it returns is a path, that no path is shorter, and that \<open>None\<close> means there is none.
\<close>

subsection \<open>The search\<close>

record path_search =
  ps_queue :: "string list"
  ps_seen :: "string bset"
  ps_parent :: "(string, string \<times> nat) bmap"

text \<open>\<open>while cursor != from { ... parent.get(cursor)? ... }\<close>: \<open>Some None\<close> is the early return of
  the question mark, \<open>None\<close> a loop that does not end.\<close>

partial_function (option) read_back ::
  "(string, string \<times> nat) bmap \<Rightarrow> string \<Rightarrow> string \<Rightarrow> nat list \<Rightarrow> nat list option option" where
  "read_back parent from cursor indices =
     (if cursor = from then Some (Some indices)
      else case bmap_get parent cursor of
        None \<Rightarrow> Some None
      | Some previous \<Rightarrow> read_back parent from (fst previous) (indices @ [snd previous]))"

declare read_back.simps [code]

type_synonym path_answer = "bundle_relationship list option option"

text \<open>The inner loop over the edges out of \<open>current\<close>, each with its index: either the answer, or
  the search goes on.\<close>

fun scan_edges :: "bundle_relationship list \<Rightarrow> string \<Rightarrow> string \<Rightarrow> string
    \<Rightarrow> (nat \<times> bundle_relationship) list \<Rightarrow> path_search \<Rightarrow> path_answer + path_search" where
  "scan_edges relationships from to current [] st = Inr st"
| "scan_edges relationships from to current ((index, relationship) # edges) st =
     (let next = br_target_node_id relationship in
      if next \<in> set (ps_seen st) then scan_edges relationships from to current edges st
      else
        let st = st\<lparr>ps_seen := bset_insert next (ps_seen st),
                    ps_parent := bmap_insert next (current, index) (ps_parent st)\<rparr>
        in if next = to then
             Inl (map_option (map_option (\<lambda>indices. map (\<lambda>i. relationships ! i) (rev indices)))
                    (read_back (ps_parent st) from to []))
           else scan_edges relationships from to current edges (st\<lparr>ps_queue := ps_queue st @ [next]\<rparr>))"

definition edges_from :: "bundle_relationship list \<Rightarrow> string \<Rightarrow> (nat \<times> bundle_relationship) list" where
  "edges_from relationships current =
     filter (\<lambda>(_, edge). br_source_node_id edge = current) (List.enumerate 0 relationships)"

lemma edges_from_iff:
  "(i, e) \<in> set (edges_from rs n) \<longleftrightarrow> i < length rs \<and> rs ! i = e \<and> br_source_node_id e = n"
  by (auto simp: edges_from_def in_set_enumerate_eq)

lemma scan_edges_seen:
  "scan_edges rs from to current edges st = Inr st' \<Longrightarrow>
     \<exists>new. ps_queue st' = ps_queue st @ new \<and> set (ps_seen st') = set (ps_seen st) \<union> set new
       \<and> set new \<subseteq> (br_target_node_id \<circ> snd) ` set edges - set (ps_seen st)"
proof (induction rs "from" to current edges st rule: scan_edges.induct)
  case (2 rs "from" to current index r edges st)
  show ?case
  proof (cases "br_target_node_id r \<in> set (ps_seen st)")
    case True
    then show ?thesis using 2 by (fastforce simp: Let_def)
  next
    case False
    then have "br_target_node_id r \<noteq> to" using "2.prems" by (auto simp: Let_def)
    then obtain new where "ps_queue st' = ps_queue st @ [br_target_node_id r] @ new"
      "set (ps_seen st') = insert (br_target_node_id r) (set (ps_seen st)) \<union> set new"
      "set new \<subseteq> (br_target_node_id \<circ> snd) ` set edges - insert (br_target_node_id r) (set (ps_seen st))"
      using 2 False by (fastforce simp: Let_def)
    then show ?thesis using False by (intro exI [of _ "br_target_node_id r # new"]) auto
  qed
qed simp

text \<open>Nodes not seen yet, and then the queue, get fewer.\<close>

definition unseen :: "bundle_relationship list \<Rightarrow> path_search \<Rightarrow> nat" where
  "unseen rs st = card (br_target_node_id ` set rs - set (ps_seen st))"

lemma scan_edges_progress:
  assumes "scan_edges rs from to current (edges_from rs current) st = Inr st'"
  shows "unseen rs st' < unseen rs st \<or> (unseen rs st' = unseen rs st \<and> ps_queue st' = ps_queue st)"
proof -
  obtain new where new: "ps_queue st' = ps_queue st @ new" "set (ps_seen st') = set (ps_seen st) \<union> set new"
    "set new \<subseteq> (br_target_node_id \<circ> snd) ` set (edges_from rs current) - set (ps_seen st)"
    using scan_edges_seen [OF assms] by blast
  show ?thesis
  proof (cases "new = []")
    case True
    then show ?thesis using new by (simp add: unseen_def)
  next
    case False
    then obtain n where n: "n \<in> set new" by (cases new) auto
    have "(br_target_node_id \<circ> snd) ` set (edges_from rs current) \<subseteq> br_target_node_id ` set rs"
      by (auto simp: edges_from_iff intro!: imageI)
    then have "n \<in> br_target_node_id ` set rs - set (ps_seen st)" using n new(3) by blast
    moreover have "n \<notin> br_target_node_id ` set rs - set (ps_seen st')" using n new(2) by blast
    moreover have "br_target_node_id ` set rs - set (ps_seen st') \<subseteq> br_target_node_id ` set rs - set (ps_seen st)"
      using new(2) by blast
    ultimately have "unseen rs st' < unseen rs st"
      unfolding unseen_def by (intro psubset_card_mono) auto
    then show ?thesis by simp
  qed
qed

function search_path :: "bundle_relationship list \<Rightarrow> string \<Rightarrow> string \<Rightarrow> path_search \<Rightarrow> path_answer" where
  "search_path rs from to st =
     (case ps_queue st of
        [] \<Rightarrow> Some None
      | current # rest \<Rightarrow>
          (case scan_edges rs from to current (edges_from rs current) (st\<lparr>ps_queue := rest\<rparr>) of
             Inl answer \<Rightarrow> answer
           | Inr st \<Rightarrow> search_path rs from to st))"
  by pat_completeness auto
termination
proof (relation "measures [\<lambda>(rs, _, _, st). unseen rs st, \<lambda>(_, _, _, st). length (ps_queue st)]", goal_cases)
  case (2 rs "from" to st current rest st')
  then show ?case using scan_edges_progress [of rs "from" to current "st\<lparr>ps_queue := rest\<rparr>" st']
    by (auto simp: unseen_def)
qed simp

declare search_path.simps [simp del]

definition directed_relationship_path :: "bundle_relationship list \<Rightarrow> string \<Rightarrow> string \<Rightarrow> path_answer" where
  "directed_relationship_path relationships from to =
     (if from = to then Some (Some [])
      else search_path relationships from to \<lparr>ps_queue = [from], ps_seen = [from], ps_parent = []\<rparr>)"

subsection \<open>Paths\<close>

fun is_path :: "string \<Rightarrow> bundle_relationship list \<Rightarrow> string \<Rightarrow> bool" where
  "is_path a [] b \<longleftrightarrow> a = b"
| "is_path a (e # es) b \<longleftrightarrow> br_source_node_id e = a \<and> is_path (br_target_node_id e) es b"

lemma is_path_append: "is_path a (es @ fs) b \<longleftrightarrow> (\<exists>m. is_path a es m \<and> is_path m fs b)"
  by (induction a es b rule: is_path.induct) auto

lemma is_path_snoc: "is_path a (es @ [e]) b \<longleftrightarrow> is_path a es (br_source_node_id e) \<and> br_target_node_id e = b"
  by (auto simp: is_path_append)

subsection \<open>The invariant\<close>

text \<open>\<open>d\<close> is the distance the search gave a node when it saw it. \<open>closed\<close>: all edges out of the
  node lead to seen nodes, at most one further.\<close>

definition closed :: "bundle_relationship list \<Rightarrow> (string \<Rightarrow> nat) \<Rightarrow> string set \<Rightarrow> string \<Rightarrow> bool" where
  "closed rs d seen n \<longleftrightarrow>
     (\<forall>e \<in> set rs. br_source_node_id e = n \<longrightarrow> br_target_node_id e \<in> seen \<and> d (br_target_node_id e) \<le> Suc (d n))"

definition parents_ok :: "bundle_relationship list \<Rightarrow> string \<Rightarrow> (string \<Rightarrow> nat) \<Rightarrow> path_search \<Rightarrow> bool" where
  "parents_ok rs from d st \<longleftrightarrow>
     d from = 0 \<and> from \<in> set (ps_seen st) \<and> bmap_ok (ps_parent st)
     \<and> (\<forall>n \<in> set (ps_seen st) - {from}. \<exists>p i. bmap_get (ps_parent st) n = Some (p, i) \<and> p \<in> set (ps_seen st)
          \<and> d n = Suc (d p) \<and> i < length rs \<and> br_source_node_id (rs ! i) = p \<and> br_target_node_id (rs ! i) = n)"

definition search_inv :: "bundle_relationship list \<Rightarrow> string \<Rightarrow> string \<Rightarrow> (string \<Rightarrow> nat) \<Rightarrow> nat \<Rightarrow> path_search \<Rightarrow> bool" where
  "search_inv rs from to d k st \<longleftrightarrow>
     parents_ok rs from d st \<and> to \<notin> set (ps_seen st)
     \<and> (\<forall>n \<in> set (ps_seen st). d n \<le> Suc k)
     \<and> set (ps_queue st) \<subseteq> set (ps_seen st) \<and> sorted (map d (ps_queue st))
     \<and> (\<forall>n \<in> set (ps_queue st). k \<le> d n \<and> d n \<le> Suc k)"

lemma read_back_path:
  assumes "parents_ok rs from d st"
  shows "n \<in> set (ps_seen st) \<Longrightarrow>
    \<exists>is. read_back (ps_parent st) from n acc = Some (Some (acc @ is)) \<and> length is = d n
      \<and> (\<forall>i \<in> set is. i < length rs) \<and> is_path from (map (\<lambda>i. rs ! i) (rev is)) n"
proof (induction "d n" arbitrary: n acc rule: less_induct)
  case less
  show ?case
  proof (cases "n = from")
    case True
    then show ?thesis using assms by (subst read_back.simps) (simp add: parents_ok_def)
  next
    case False
    then have "n \<in> set (ps_seen st) - {from}" using less.prems by simp
    then obtain p i where p: "bmap_get (ps_parent st) n = Some (p, i)" "p \<in> set (ps_seen st)" "d n = Suc (d p)"
      "i < length rs" "br_source_node_id (rs ! i) = p" "br_target_node_id (rs ! i) = n"
      using assms unfolding parents_ok_def by blast
    obtain "is" where i: "read_back (ps_parent st) from p (acc @ [i]) = Some (Some ((acc @ [i]) @ is))"
      "length is = d p" "\<forall>i \<in> set is. i < length rs" "is_path from (map (\<lambda>i. rs ! i) (rev is)) p"
      using less.hyps [of p "acc @ [i]"] p(2,3) by auto
    have "read_back (ps_parent st) from n acc = Some (Some (acc @ i # is))"
      using False p(1) i(1) by (subst read_back.simps) simp
    then show ?thesis using i p by (intro exI [of _ "i # is"]) (simp add: is_path_snoc)
  qed
qed

text \<open>Everything within \<open>k\<close> hops has been seen, when all nodes nearer than \<open>k\<close> are closed.\<close>

lemma closed_reaches:
  assumes "d from = 0" and "from \<in> seen" and "\<forall>n \<in> seen. d n < k \<longrightarrow> closed rs d seen n"
  shows "is_path from es n \<Longrightarrow> set es \<subseteq> set rs \<Longrightarrow> length es \<le> k \<Longrightarrow> n \<in> seen \<and> d n \<le> length es"
proof (induction es arbitrary: n rule: rev_induct)
  case Nil
  then show ?case using assms by simp
next
  case (snoc e es)
  then have "br_source_node_id e \<in> seen" "d (br_source_node_id e) \<le> length es" "e \<in> set rs" "br_target_node_id e = n"
    by (auto simp: is_path_snoc)
  then show ?case using assms(3) snoc.prems(3) unfolding closed_def by fastforce
qed

lemma parents_ok_insert:
  assumes "parents_ok rs from d st" and "next \<notin> set (ps_seen st)" and "p \<in> set (ps_seen st)"
    and "i < length rs" and "br_source_node_id (rs ! i) = p" and "br_target_node_id (rs ! i) = next"
  shows "parents_ok rs from (d(next := Suc (d p)))
    (st\<lparr>ps_seen := bset_insert next (ps_seen st), ps_parent := bmap_insert next (p, i) (ps_parent st)\<rparr>)"
  unfolding parents_ok_def
proof (intro conjI ballI)
  let ?d = "d(next := Suc (d p))"
  have ne: "m \<in> set (ps_seen st) \<Longrightarrow> m \<noteq> next" for m using assms(2) by blast
  have old: "from \<in> set (ps_seen st)" "d from = 0" "bmap_ok (ps_parent st)"
    using assms(1) by (simp_all add: parents_ok_def)
  show "?d from = 0" using old ne by auto
  fix n
  assume n: "n \<in> set (ps_seen (st\<lparr>ps_seen := bset_insert next (ps_seen st),
      ps_parent := bmap_insert next (p, i) (ps_parent st)\<rparr>)) - {from}"
  show "\<exists>q j. bmap_get (ps_parent (st\<lparr>ps_seen := bset_insert next (ps_seen st),
        ps_parent := bmap_insert next (p, i) (ps_parent st)\<rparr>)) n = Some (q, j)
      \<and> q \<in> set (ps_seen (st\<lparr>ps_seen := bset_insert next (ps_seen st),
        ps_parent := bmap_insert next (p, i) (ps_parent st)\<rparr>)) \<and> ?d n = Suc (?d q) \<and> j < length rs
      \<and> br_source_node_id (rs ! j) = q \<and> br_target_node_id (rs ! j) = n"
  proof (cases "n = next")
    case True
    then show ?thesis using assms ne by (simp add: bmap_get_insert old)
  next
    case False
    then have "n \<in> set (ps_seen st) - {from}" using n by simp
    then obtain q j where "bmap_get (ps_parent st) n = Some (q, j)" "q \<in> set (ps_seen st)"
      "d n = Suc (d q)" "j < length rs" "br_source_node_id (rs ! j) = q" "br_target_node_id (rs ! j) = n"
      using assms(1) unfolding parents_ok_def by blast
    then show ?thesis using False ne by (simp add: bmap_get_insert old)
  qed
qed (use assms(1) in \<open>simp_all add: parents_ok_def\<close>)

text \<open>What the inner loop does to a state, or the answer it finds.\<close>

definition scanned :: "bundle_relationship list \<Rightarrow> string \<Rightarrow> string \<Rightarrow> nat \<Rightarrow> (string \<Rightarrow> nat)
    \<Rightarrow> (nat \<times> bundle_relationship) list \<Rightarrow> path_search \<Rightarrow> path_search \<Rightarrow> (string \<Rightarrow> nat) \<Rightarrow> bool" where
  "scanned rs from to k d edges st st' d' \<longleftrightarrow>
     search_inv rs from to d' k st' \<and> (\<forall>n \<in> set (ps_seen st). d' n = d n)
     \<and> set (ps_seen st) \<subseteq> set (ps_seen st') \<and> set (ps_queue st) \<subseteq> set (ps_queue st')
     \<and> set (ps_seen st') - set (ps_seen st) \<subseteq> set (ps_queue st')
     \<and> (\<forall>(i, e) \<in> set edges. br_target_node_id e \<in> set (ps_seen st'))"

lemma scan_inv:
  assumes "search_inv rs from to d k st" and "current \<in> set (ps_seen st)" and "d current = k"
    and "\<forall>(i, e) \<in> set edges. i < length rs \<and> rs ! i = e \<and> br_source_node_id e = current"
  shows "(\<exists>es. scan_edges rs from to current edges st = Inl (Some (Some es))
      \<and> is_path from es to \<and> set es \<subseteq> set rs \<and> length es = Suc k)
    \<or> (\<exists>st' d'. scan_edges rs from to current edges st = Inr st' \<and> scanned rs from to k d edges st st' d')"
  using assms
proof (induction edges arbitrary: st d)
  case Nil
  then show ?case by (auto simp: scanned_def)
next
  case (Cons ie edges)
  obtain i e where ie: "ie = (i, e)" by (cases ie)
  let ?n = "br_target_node_id e"
  have e: "i < length rs" "rs ! i = e" "br_source_node_id e = current" using Cons.prems(4) ie by auto
  have rest: "\<forall>(i, e) \<in> set edges. i < length rs \<and> rs ! i = e \<and> br_source_node_id e = current"
    using Cons.prems(4) by simp
  show ?case
  proof (cases "?n \<in> set (ps_seen st)")
    case True
    have step: "scan_edges rs from to current (ie # edges) st = scan_edges rs from to current edges st"
      using ie True by (simp add: Let_def)
    have "scanned rs from to k d (ie # edges) st st' d'" if "scanned rs from to k d edges st st' d'" for st' d'
      using that True ie by (auto simp: scanned_def)
    then show ?thesis using Cons.IH [OF Cons.prems(1-3) rest] unfolding step by blast
  next
    case new: False
    let ?st = "st\<lparr>ps_seen := bset_insert ?n (ps_seen st), ps_parent := bmap_insert ?n (current, i) (ps_parent st)\<rparr>"
    let ?d = "d(?n := Suc (d current))"
    have p: "parents_ok rs from ?d ?st"
      using parents_ok_insert [OF _ new Cons.prems(2)] Cons.prems(1) e by (simp add: search_inv_def)
    show ?thesis
    proof (cases "?n = to")
      case True
      obtain "is" where "read_back (ps_parent ?st) from to [] = Some (Some is)" "length is = ?d to"
        "\<forall>i \<in> set is. i < length rs" "is_path from (map (\<lambda>i. rs ! i) (rev is)) to"
        using read_back_path [OF p, of to "[]"] True by auto
      then show ?thesis using ie new True Cons.prems(3)
        by (intro disjI1 exI [of _ "map (\<lambda>i. rs ! i) (rev is)"]) (auto simp: Let_def)
    next
      case False
      let ?st2 = "?st\<lparr>ps_queue := ps_queue st @ [?n]\<rparr>"
      have keep: "m \<in> set (ps_seen st) \<Longrightarrow> ?d m = d m" for m using new by auto
      have q: "set (ps_queue st) \<subseteq> set (ps_seen st)" using Cons.prems(1) by (simp add: search_inv_def)
      have "map ?d (ps_queue st) = map d (ps_queue st)" using q new by (intro map_cong) auto
      then have sq: "sorted (map ?d (ps_queue st))" using Cons.prems(1) by (simp only: search_inv_def)
      have p2: "parents_ok rs from ?d ?st2" using p by (simp add: parents_ok_def)
      have inv: "search_inv rs from to ?d k ?st2"
        unfolding search_inv_def using Cons.prems(1,3) p2 sq False keep q
        by (auto simp: search_inv_def sorted_append)
      have cur: "current \<in> set (ps_seen ?st2)" "?d current = k"
        using Cons.prems(2,3) keep by simp_all
      have step: "scan_edges rs from to current (ie # edges) st = scan_edges rs from to current edges ?st2"
        using ie new False by (simp add: Let_def)
      have "scanned rs from to k d (ie # edges) st st' d'" if "scanned rs from to k ?d edges ?st2 st' d'" for st' d'
        using that new ie by (auto simp: scanned_def)
      then show ?thesis using Cons.IH [OF inv cur rest] unfolding step by blast
    qed
  qed
qed

definition outer_inv :: "bundle_relationship list \<Rightarrow> string \<Rightarrow> string \<Rightarrow> (string \<Rightarrow> nat) \<Rightarrow> path_search \<Rightarrow> bool" where
  "outer_inv rs from to d st \<longleftrightarrow>
     (\<exists>k. search_inv rs from to d k st)
     \<and> (\<forall>n \<in> set (ps_seen st) - set (ps_queue st). closed rs d (set (ps_seen st)) n)"

definition shortest_path :: "bundle_relationship list \<Rightarrow> string \<Rightarrow> string \<Rightarrow> bundle_relationship list \<Rightarrow> bool" where
  "shortest_path rs from to es \<longleftrightarrow> is_path from es to \<and> set es \<subseteq> set rs
     \<and> (\<forall>fs. is_path from fs to \<and> set fs \<subseteq> set rs \<longrightarrow> length es \<le> length fs)"

lemma outer_pop:
  assumes o': "outer_inv rs from to d st" and q: "ps_queue st = current # rest"
  shows "search_inv rs from to d (d current) (st\<lparr>ps_queue := rest\<rparr>)" and "current \<in> set (ps_seen st)"
    and "\<forall>n \<in> set (ps_seen st). d n < d current \<longrightarrow> closed rs d (set (ps_seen st)) n"
proof -
  obtain k where k: "search_inv rs from to d k st" using o' by (auto simp: outer_inv_def)
  have le: "k \<le> d current" and sorted: "\<forall>n \<in> set rest. d current \<le> d n" using k q by (auto simp: search_inv_def)
  show "search_inv rs from to d (d current) (st\<lparr>ps_queue := rest\<rparr>)"
    using k le sorted q by (fastforce simp: search_inv_def parents_ok_def)
  show "current \<in> set (ps_seen st)" using k q by (simp add: search_inv_def)
  show "\<forall>n \<in> set (ps_seen st). d n < d current \<longrightarrow> closed rs d (set (ps_seen st)) n"
    using o' sorted q by (force simp: outer_inv_def)
qed

lemma search_path_answer:
  assumes "outer_inv rs from to d st" and "from \<noteq> to"
  shows "(\<exists>es. search_path rs from to st = Some (Some es) \<and> shortest_path rs from to es)
    \<or> search_path rs from to st = Some None \<and> \<not> (\<exists>es. is_path from es to \<and> set es \<subseteq> set rs)"
  using assms
proof (induction rs "from" to st arbitrary: d rule: search_path.induct)
  case (1 rs "from" to st)
  have d0: "d from = 0" "from \<in> set (ps_seen st)" "to \<notin> set (ps_seen st)"
    using "1.prems"(1) by (auto simp: outer_inv_def search_inv_def parents_ok_def)
  show ?case
  proof (cases "ps_queue st")
    case Nil
    then have "\<forall>n \<in> set (ps_seen st). closed rs d (set (ps_seen st)) n"
      using "1.prems"(1) by (simp add: outer_inv_def)
    then have "\<not> (is_path from es to \<and> set es \<subseteq> set rs)" for es
      using closed_reaches [of d "from" "set (ps_seen st)" "length es" rs es to] d0 by blast
    then show ?thesis using Nil by (subst (1 2) search_path.simps) simp
  next
    case (Cons current rest)
    note pop = outer_pop [OF "1.prems"(1) Cons]
    let ?st = "st\<lparr>ps_queue := rest\<rparr>"
    have edges: "\<forall>(i, e) \<in> set (edges_from rs current). i < length rs \<and> rs ! i = e \<and> br_source_node_id e = current"
      by (auto simp: edges_from_iff)
    have cur: "current \<in> set (ps_seen ?st)" using pop(2) by simp
    consider (found) es where "scan_edges rs from to current (edges_from rs current) ?st = Inl (Some (Some es))"
        "is_path from es to" "set es \<subseteq> set rs" "length es = Suc (d current)"
      | (on) st' d' where "scan_edges rs from to current (edges_from rs current) ?st = Inr st'"
        "scanned rs from to (d current) d (edges_from rs current) ?st st' d'"
      using scan_inv [OF pop(1) cur refl edges] by blast
    then show ?thesis
    proof cases
      case found
      have "Suc (d current) \<le> length fs" if "is_path from fs to" "set fs \<subseteq> set rs" for fs
        using closed_reaches [of d "from" "set (ps_seen st)" "d current" rs fs to] d0 pop(3) that
        by (meson not_less_eq_eq)
      then have "shortest_path rs from to es" using found by (simp add: shortest_path_def)
      then show ?thesis using found Cons by (subst (1 2) search_path.simps) simp
    next
      case on
      have "outer_inv rs from to d' st'"
        unfolding outer_inv_def
      proof (intro conjI ballI)
        show "\<exists>k. search_inv rs from to d' k st'" using on(2) by (auto simp: scanned_def)
        fix n assume n: "n \<in> set (ps_seen st') - set (ps_queue st')"
        then have old: "n \<in> set (ps_seen st)" "n \<notin> set rest" using on(2) by (auto simp: scanned_def)
        have kept: "\<forall>m \<in> set (ps_seen st). d' m = d m \<and> m \<in> set (ps_seen st')"
          using on(2) by (auto simp: scanned_def)
        have bound: "\<forall>m \<in> set (ps_seen st'). d' m \<le> Suc (d current)"
          using on(2) by (simp add: scanned_def search_inv_def)
        show "closed rs d' (set (ps_seen st')) n"
        proof (cases "n = current")
          case True
          have "br_target_node_id e \<in> set (ps_seen st')" if e: "e \<in> set rs" "br_source_node_id e = current" for e
          proof -
            obtain i where "i < length rs" "rs ! i = e" using e(1) by (auto simp: in_set_conv_nth)
            then have "(i, e) \<in> set (edges_from rs current)" using e(2) by (simp add: edges_from_iff)
            then show ?thesis using on(2) by (auto simp: scanned_def)
          qed
          then show ?thesis using True kept old bound by (simp add: closed_def)
        next
          case False
          then have "closed rs d (set (ps_seen st)) n"
            using "1.prems"(1) old Cons by (simp add: outer_inv_def)
          then show ?thesis using kept old by (simp add: closed_def)
        qed
      qed
      from "1.IH" [OF Cons on(1) this "1.prems"(2)] show ?thesis
        using Cons on(1) by (subst (1 2) search_path.simps) simp
    qed
  qed
qed

lemma directed_relationship_path_answer:
  "(\<exists>es. directed_relationship_path rs from to = Some (Some es) \<and> shortest_path rs from to es)
   \<or> directed_relationship_path rs from to = Some None \<and> \<not> (\<exists>es. is_path from es to \<and> set es \<subseteq> set rs)"
proof (cases "from = to")
  case True
  then show ?thesis by (auto simp: directed_relationship_path_def shortest_path_def)
next
  case False
  have "outer_inv rs from to (\<lambda>_. 0) \<lparr>ps_queue = [from], ps_seen = [from], ps_parent = []\<rparr>"
    using False by (auto simp: outer_inv_def search_inv_def parents_ok_def intro: exI [of _ 0])
  from search_path_answer [OF this False] show ?thesis
    using False by (simp add: directed_relationship_path_def)
qed

subsection \<open>Properties\<close>

text \<open>C11. The path search always returns. A path it returns is a walk of stored relationships from
  the first memory to the second, in hop order, and none is shorter; \<open>None\<close> means that no
  such walk exists.\<close>

theorem relationship_path_shortest:
  "\<exists>r. directed_relationship_path rs from to = Some r
     \<and> (case r of
          Some es \<Rightarrow> is_path from es to \<and> set es \<subseteq> set rs
            \<and> (\<forall>fs. is_path from fs to \<and> set fs \<subseteq> set rs \<longrightarrow> length es \<le> length fs)
        | None \<Rightarrow> \<not> (\<exists>es. is_path from es to \<and> set es \<subseteq> set rs))"
  using directed_relationship_path_answer [of rs "from" to] unfolding shortest_path_def by auto

definition path_sample :: "bundle_relationship list" where
  "path_sample = [sample_edge ''c2'' ''c1'' ''t'', sample_edge ''c3'' ''c2'' ''t'', sample_edge ''c1'' ''old'' ''t'',
     sample_edge ''c5'' ''c4'' ''t'', sample_edge ''c4'' ''c3'' ''t'']"

theorem relationship_path_shortest_witness:
  "map_option (map_option (map br_source_node_id)) (directed_relationship_path path_sample ''c5'' ''c1'')
     = Some (Some [''c5'', ''c4'', ''c3'', ''c2''])
   \<and> (\<exists>es. directed_relationship_path path_sample ''c5'' ''c1'' = Some (Some es) \<and> is_path ''c5'' es ''c1'')"
proof -
  have v: "map_option (map_option (map br_source_node_id)) (directed_relationship_path path_sample ''c5'' ''c1'')
     = Some (Some [''c5'', ''c4'', ''c3'', ''c2''])" by code_simp
  then obtain es where "directed_relationship_path path_sample ''c5'' ''c1'' = Some (Some es)" by auto
  with v relationship_path_shortest [of path_sample "''c5''" "''c1''"] show ?thesis by auto
qed

end
