(* ===== verification/PathSearch.thy ===== *)
theory PathSearch
  imports Ports
begin

text \<open>
  The bounded bidirectional path search (\<open>model/bidirectional_path_search.rs\<close>,
  \<open>path_search_side.rs\<close>, \<open>context_path_search.rs\<close>, \<open>trace_search_limits.rs\<close>,
  \<open>trace_search_stop.rs\<close>): two breadth-first sides that expand the smaller frontier level by
  level under four work limits, and the replay that reads one shortest path out of the rows
  both sides read. The store is the parameter \<open>neighbor_ids\<close>. Counters are natural numbers:
  each is compared with a \<open>u32\<close> limit before it grows. Indexing a map that lacks the key is
  \<open>None\<close>.
\<close>

subsection \<open>Limits and stops\<close>

datatype trace_search_stop =
    TargetsReached | FrontierExhausted | NodeBudget | EdgeBudget | StateBudget | DepthBudget
  | SourceOutsideSelection

fun stop_as_str :: "trace_search_stop \<Rightarrow> string" where
  "stop_as_str TargetsReached = ''targets_reached''"
| "stop_as_str FrontierExhausted = ''frontier_exhausted''"
| "stop_as_str NodeBudget = ''node_budget''"
| "stop_as_str EdgeBudget = ''edge_budget''"
| "stop_as_str StateBudget = ''state_budget''"
| "stop_as_str DepthBudget = ''depth_budget''"
| "stop_as_str SourceOutsideSelection = ''source_outside_selection''"

record trace_search_limits =
  tl_nodes :: "32 word"
  tl_edges :: "32 word"
  tl_depth :: "32 word"
  tl_states :: "32 word"

definition limits_validate :: "trace_search_limits \<Rightarrow> unit domain_result" where
  "limits_validate l =
     (if \<not> (1 \<le> tl_nodes l \<and> tl_nodes l \<le> 4096) \<or> \<not> (1 \<le> tl_edges l \<and> tl_edges l \<le> 32768)
         \<or> \<not> (1 \<le> tl_depth l \<and> tl_depth l \<le> 1024) \<or> \<not> (1 \<le> tl_states l \<and> tl_states l \<le> 32768)
      then Inl (InvalidState ''trace search requires max_nodes 1..4096, max_edges 1..32768, max_depth 1..1024 and max_states 1..32768'')
      else Inr ())"

definition limits_default :: trace_search_limits where
  "limits_default = \<lparr>tl_nodes = 256, tl_edges = 2048, tl_depth = 128, tl_states = 4096\<rparr>"

definition single_destination :: trace_search_limits where
  "single_destination = \<lparr>tl_nodes = 1024, tl_edges = 8192, tl_depth = 512, tl_states = 16384\<rparr>"

definition widest :: trace_search_limits where
  "widest = \<lparr>tl_nodes = 4096, tl_edges = 32768, tl_depth = 1024, tl_states = 32768\<rparr>"

subsection \<open>A side\<close>

record path_side =
  pd_direction :: relation_direction
  pd_distance :: "(string, nat) bmap"
  pd_frontier :: "string list"
  pd_depth :: nat
  pd_read :: "(string \<times> string list) list"

definition path_side_new :: "string \<Rightarrow> relation_direction \<Rightarrow> path_side" where
  "path_side_new start direction =
     \<lparr>pd_direction = direction, pd_distance = [(start, 0)], pd_frontier = [start], pd_depth = 0, pd_read = []\<rparr>"

definition knows :: "path_side \<Rightarrow> string \<Rightarrow> bool" where
  "knows side node \<longleftrightarrow> bmap_get (pd_distance side) node \<noteq> None"

record context_path_search =
  cp_path :: "string list option"
  cp_stop :: trace_search_stop
  cp_discovered_nodes :: nat
  cp_scanned_edges :: nat
  cp_expanded_nodes :: nat

definition is_partial :: "context_path_search \<Rightarrow> bool" where
  "is_partial s \<longleftrightarrow> cp_path s = None
     \<and> (case cp_stop s of NodeBudget \<Rightarrow> True | EdgeBudget \<Rightarrow> True | StateBudget \<Rightarrow> True | DepthBudget \<Rightarrow> True | _ \<Rightarrow> False)"

subsection \<open>One level\<close>

record level_state =
  lv_side :: path_side
  lv_next :: "string list"
  lv_states :: nat
  lv_met :: bool
  lv_result :: context_path_search

definition set_stop :: "trace_search_stop \<Rightarrow> level_state \<Rightarrow> level_state" where
  "set_stop stop st = st\<lparr>lv_result := (lv_result st)\<lparr>cp_stop := stop\<rparr>\<rparr>"

text \<open>The neighbours of one node; \<open>True\<close> is \<open>break 'search\<close>.\<close>

definition take_neighbour :: "bool \<Rightarrow> string \<Rightarrow> level_state \<Rightarrow> level_state" where
  "take_neighbour fresh neighbour st =
     st\<lparr>lv_states := lv_states st + 1,
        lv_result := (lv_result st)\<lparr>cp_discovered_nodes := cp_discovered_nodes (lv_result st) + of_bool fresh\<rparr>,
        lv_met := (lv_met st \<or> \<not> fresh),
        lv_side := (lv_side st)\<lparr>pd_distance := bmap_insert neighbour (pd_depth (lv_side st) + 1) (pd_distance (lv_side st))\<rparr>,
        lv_next := lv_next st @ [neighbour]\<rparr>"

fun visit_neighbours :: "trace_search_limits \<Rightarrow> path_side \<Rightarrow> string list \<Rightarrow> level_state \<Rightarrow> bool \<times> level_state" where
  "visit_neighbours limits other [] st = (False, st)"
| "visit_neighbours limits other (neighbour # neighbours) st =
     (if knows (lv_side st) neighbour then visit_neighbours limits other neighbours st
      else
        let fresh = (\<not> knows other neighbour) in
        if fresh \<and> unat (tl_nodes limits) \<le> cp_discovered_nodes (lv_result st) then (True, set_stop NodeBudget st)
        else if unat (tl_states limits) \<le> lv_states st then (True, set_stop StateBudget st)
        else visit_neighbours limits other neighbours (take_neighbour fresh neighbour st))"

type_synonym neighbour_reader = "string \<Rightarrow> relation_direction \<Rightarrow> 32 word \<Rightarrow> string list port_result"

text \<open>\<open>remaining.saturating_add(1)\<close>.\<close>

definition row_limit :: "nat \<Rightarrow> 32 word" where
  "row_limit remaining = (let r = of_nat remaining in if r = - 1 then - 1 else r + 1)"

fun expand_level :: "neighbour_reader \<Rightarrow> trace_search_limits \<Rightarrow> path_side \<Rightarrow> string list \<Rightarrow> level_state
    \<Rightarrow> (bool \<times> level_state) port_result" where
  "expand_level neighbor_ids limits other [] st = Inr (False, st)"
| "expand_level neighbor_ids limits other (node # level) st =
     (let remaining = unat (tl_edges limits) - cp_scanned_edges (lv_result st) in
      try_bind (neighbor_ids node (pd_direction (lv_side st)) (row_limit remaining)) (\<lambda>neighbours.
        let st = st\<lparr>lv_result := (lv_result st)\<lparr>cp_expanded_nodes := cp_expanded_nodes (lv_result st) + 1\<rparr>\<rparr> in
        if remaining < length neighbours then
          Inr (True, set_stop EdgeBudget (st\<lparr>lv_result := (lv_result st)\<lparr>cp_scanned_edges := unat (tl_edges limits)\<rparr>\<rparr>))
        else
          let st = st\<lparr>lv_result := (lv_result st)\<lparr>cp_scanned_edges := cp_scanned_edges (lv_result st) + length neighbours\<rparr>\<rparr>;
              (stopped, st) = visit_neighbours limits other neighbours st
          in if stopped then Inr (True, st)
             else expand_level neighbor_ids limits other level
                    (st\<lparr>lv_side := (lv_side st)\<lparr>pd_read := pd_read (lv_side st) @ [(node, neighbours)]\<rparr>\<rparr>)))"

subsection \<open>The levels\<close>

record search_state =
  ss_forward :: path_side
  ss_backward :: path_side
  ss_states :: nat
  ss_met :: bool
  ss_result :: context_path_search

definition forward_turn :: "search_state \<Rightarrow> bool" where
  "forward_turn s \<longleftrightarrow> length (pd_frontier (ss_forward s)) \<le> length (pd_frontier (ss_backward s))"

definition this_side :: "search_state \<Rightarrow> path_side" where
  "this_side s = (if forward_turn s then ss_forward s else ss_backward s)"

definition other_side :: "search_state \<Rightarrow> path_side" where
  "other_side s = (if forward_turn s then ss_backward s else ss_forward s)"

definition begin_level :: "search_state \<Rightarrow> level_state" where
  "begin_level s = \<lparr>lv_side = (this_side s)\<lparr>pd_frontier := []\<rparr>, lv_next = [], lv_states = ss_states s,
     lv_met = ss_met s, lv_result = ss_result s\<rparr>"

definition put_level :: "search_state \<Rightarrow> level_state \<Rightarrow> search_state" where
  "put_level s st =
     (if forward_turn s then s\<lparr>ss_forward := lv_side st\<rparr> else s\<lparr>ss_backward := lv_side st\<rparr>)
       \<lparr>ss_states := lv_states st, ss_met := lv_met st, ss_result := lv_result st\<rparr>"

definition end_level :: "level_state \<Rightarrow> level_state" where
  "end_level st = st\<lparr>lv_side := (lv_side st)\<lparr>pd_depth := pd_depth (lv_side st) + 1, pd_frontier := lv_next st\<rparr>\<rparr>"

definition stop_search :: "trace_search_stop \<Rightarrow> search_state \<Rightarrow> search_state" where
  "stop_search stop s = s\<lparr>ss_result := (ss_result s)\<lparr>cp_stop := stop\<rparr>\<rparr>"

lemma visit_neighbours_depth:
  "visit_neighbours limits other ns st = (stopped, st') \<Longrightarrow> pd_depth (lv_side st') = pd_depth (lv_side st)"
  by (induction limits other ns st rule: visit_neighbours.induct)
    (auto simp: Let_def set_stop_def take_neighbour_def split: if_splits)

lemma expand_level_depth:
  "expand_level neighbor_ids limits other level st = Inr (stopped, st') \<Longrightarrow> pd_depth (lv_side st') = pd_depth (lv_side st)"
proof (induction level arbitrary: st)
  case (Cons node level)
  let ?r = "unat (tl_edges limits) - cp_scanned_edges (lv_result st)"
  obtain ns where ns: "neighbor_ids node (pd_direction (lv_side st)) (row_limit ?r) = Inr ns"
    using Cons.prems by (auto simp: try_bind_Inr_iff Let_def)
  show ?case
  proof (cases "?r < length ns")
    case True
    then show ?thesis using Cons.prems ns by (auto simp: set_stop_def Let_def)
  next
    case False
    obtain b st1 where v: "visit_neighbours limits other ns
        (st\<lparr>lv_result := (lv_result st)\<lparr>cp_expanded_nodes := cp_expanded_nodes (lv_result st) + 1,
           cp_scanned_edges := cp_scanned_edges (lv_result st) + length ns\<rparr>\<rparr>) = (b, st1)"
      by (meson surj_pair)
    show ?thesis
    proof (cases b)
      case True
      then show ?thesis using Cons.prems ns False v visit_neighbours_depth [OF v] by (simp add: Let_def)
    next
      case go: False
      let ?st = "st1\<lparr>lv_side := (lv_side st1)\<lparr>pd_read := pd_read (lv_side st1) @ [(node, ns)]\<rparr>\<rparr>"
      have "expand_level neighbor_ids limits other level ?st = Inr (stopped, st')"
        using Cons.prems ns False v go by (simp add: Let_def)
      from Cons.IH [OF this] visit_neighbours_depth [OF v] show ?thesis by simp
    qed
  qed
qed simp

function search_loop :: "neighbour_reader \<Rightarrow> trace_search_limits \<Rightarrow> search_state \<Rightarrow> search_state port_result" where
  "search_loop neighbor_ids limits s =
     (if pd_frontier (ss_forward s) = [] \<or> pd_frontier (ss_backward s) = [] then
        Inr (stop_search FrontierExhausted s)
      else if unat (tl_depth limits) < pd_depth (ss_forward s) + pd_depth (ss_backward s) + 1 then
        Inr (stop_search DepthBudget s)
      else
        (case expand_level neighbor_ids limits (other_side s) (pd_frontier (this_side s)) (begin_level s) of
           Inl e \<Rightarrow> Inl e
         | Inr (stopped, st) \<Rightarrow>
             if stopped then Inr (put_level s st)
             else if lv_met st then Inr (stop_search TargetsReached (put_level s (end_level st)))
             else search_loop neighbor_ids limits (put_level s (end_level st))))"
  by pat_completeness auto
termination
proof (relation "measure (\<lambda>(_, limits, s). Suc (unat (tl_depth limits)) - (pd_depth (ss_forward s) + pd_depth (ss_backward s)))",
    goal_cases)
  case (2 neighbor_ids limits s r stopped st)
  then have "expand_level neighbor_ids limits (other_side s) (pd_frontier (this_side s)) (begin_level s) = Inr (stopped, st)"
    by simp
  from expand_level_depth [OF this] have "pd_depth (lv_side st) = pd_depth (this_side s)"
    by (simp add: begin_level_def)
  then show ?case using 2(2)
    by (auto simp: put_level_def end_level_def this_side_def split: if_splits)
qed simp

declare search_loop.simps [simp del]

subsection \<open>The replay\<close>

type_synonym adjacency = "(string, string list) bmap"

definition adjacent :: "adjacency \<Rightarrow> string \<Rightarrow> string list" where
  "adjacent m node = (case bmap_get m node of None \<Rightarrow> [] | Some ns \<Rightarrow> ns)"

definition push_edge :: "adjacency \<times> adjacency \<Rightarrow> string \<times> string \<Rightarrow> adjacency \<times> adjacency" where
  "push_edge maps edge =
     (bmap_update (fst edge) (push_value (snd edge)) (fst maps), bmap_update (snd edge) (push_value (fst edge)) (snd maps))"

definition read_edges :: "path_side \<Rightarrow> path_side \<Rightarrow> (string \<times> string) list" where
  "read_edges forward backward =
     concat (map (\<lambda>(node, neighbours). map (\<lambda>next. (node, next)) neighbours) (pd_read forward))
     @ concat (map (\<lambda>(node, neighbours). map (\<lambda>previous. (previous, node)) neighbours) (pd_read backward))"

text \<open>\<open>distances\<close>: the inner loop, then the queue.\<close>

definition reach_next :: "nat \<Rightarrow> (string, nat) bmap \<times> string list \<Rightarrow> string \<Rightarrow> (string, nat) bmap \<times> string list" where
  "reach_next here dq next =
     (case bmap_get (fst dq) next of
        Some _ \<Rightarrow> dq
      | None \<Rightarrow> (bmap_insert next (here + 1) (fst dq), snd dq @ [next]))"

definition adjacency_names :: "adjacency \<Rightarrow> string set" where
  "adjacency_names m = \<Union> (set ` snd ` set m)"

lemma adjacent_names: "set (adjacent m n) \<subseteq> adjacency_names m"
proof (cases "map_of m n")
  case (Some ns)
  then have "(n, ns) \<in> set m" by (rule map_of_SomeD)
  then have "ns \<in> snd ` set m" by (metis imageI snd_conv)
  then show ?thesis using Some by (auto simp: adjacent_def adjacency_names_def bmap_get_def)
qed (simp add: adjacent_def bmap_get_def)

definition unreached :: "adjacency \<Rightarrow> (string, nat) bmap \<Rightarrow> nat" where
  "unreached m d = card {n \<in> adjacency_names m. bmap_get d n = None}"

lemma finite_adjacency_names [simp]: "finite (adjacency_names m)"
  by (auto simp: adjacency_names_def)

lemma bmap_get_insert_sub: "bmap_get (bmap_insert k v m) n = None \<Longrightarrow> bmap_get m n = None"
proof -
  have "fst ` set m \<subseteq> fst ` set (bmap_insert k v m)" by (auto simp: bmap_insert_def bmap_update_keys)
  then show "bmap_get (bmap_insert k v m) n = None \<Longrightarrow> bmap_get m n = None"
    by (auto simp: bmap_get_def map_of_eq_None_iff)
qed

lemma bmap_get_insert_key: "bmap_get (bmap_insert k v m) k \<noteq> None"
  using bmap_update_keys [of k "\<lambda>_. v" m] by (auto simp: bmap_get_def bmap_insert_def map_of_eq_None_iff)

lemma reach_fold_progress:
  assumes "set ns \<subseteq> adjacency_names m"
  shows "let dq' = foldl (reach_next here) dq ns in
    unreached m (fst dq') < unreached m (fst dq) \<or> unreached m (fst dq') = unreached m (fst dq) \<and> snd dq' = snd dq"
  using assms
proof (induction ns arbitrary: dq)
  case (Cons n ns)
  have "unreached m (fst (reach_next here dq n)) < unreached m (fst dq) \<or> reach_next here dq n = dq"
  proof (cases "bmap_get (fst dq) n")
    case None
    have "unreached m (fst (reach_next here dq n)) < unreached m (fst dq)"
      unfolding unreached_def
    proof (rule psubset_card_mono)
      have "n \<in> {n \<in> adjacency_names m. bmap_get (fst dq) n = None}" using None Cons.prems by simp
      moreover have "n \<notin> {n \<in> adjacency_names m. bmap_get (fst (reach_next here dq n)) n = None}"
        using None bmap_get_insert_key [of n "here + 1" "fst dq"] by (auto simp: reach_next_def)
      moreover have "{k \<in> adjacency_names m. bmap_get (fst (reach_next here dq n)) k = None}
          \<subseteq> {n \<in> adjacency_names m. bmap_get (fst dq) n = None}"
        using None bmap_get_insert_sub by (auto simp: reach_next_def)
      ultimately show "{k \<in> adjacency_names m. bmap_get (fst (reach_next here dq n)) k = None}
          \<subset> {n \<in> adjacency_names m. bmap_get (fst dq) n = None}" by blast
    qed simp
    then show ?thesis by simp
  qed (simp add: reach_next_def)
  then show ?case using Cons.IH [of "reach_next here dq n"] Cons.prems by (auto simp: Let_def)
qed simp

function distance_loop :: "adjacency \<Rightarrow> string list \<Rightarrow> (string, nat) bmap \<Rightarrow> (string, nat) bmap option" where
  "distance_loop m [] d = Some d"
| "distance_loop m (node # queue) d =
     (case bmap_get d node of
        None \<Rightarrow> None
      | Some here \<Rightarrow>
          (case foldl (reach_next here) (d, queue) (adjacent m node) of (d, queue) \<Rightarrow> distance_loop m queue d))"
  by pat_completeness auto
termination
proof (relation "measures [\<lambda>(m, _, d). unreached m d, \<lambda>(_, queue, _). length queue]", goal_cases)
  case (2 m node queue d here d' queue')
  have "foldl (reach_next here) (d, queue) (adjacent m node) = (d', queue')" using 2(2) by simp
  then show ?case using reach_fold_progress [OF adjacent_names [of m node], of here "(d, queue)"]
    by (auto simp: Let_def)
qed simp

definition distances :: "adjacency \<Rightarrow> string \<Rightarrow> (string, nat) bmap option" where
  "distances adjacency start = distance_loop adjacency [start] [(start, 0)]"

definition on_shortest :: "(string, nat) bmap \<Rightarrow> (string, nat) bmap \<Rightarrow> nat \<Rightarrow> string \<Rightarrow> bool" where
  "on_shortest from_root to_target len node =
     (case (bmap_get from_root node, bmap_get to_target node) of
        (Some f, Some b) \<Rightarrow> f + b = len
      | _ \<Rightarrow> False)"

partial_function (option) path_back :: "(string, string) bmap \<Rightarrow> string \<Rightarrow> string list \<Rightarrow> string list option" where
  "path_back predecessor at path =
     (case bmap_get predecessor at of
        None \<Rightarrow> Some path
      | Some previous \<Rightarrow> path_back predecessor previous (path @ [previous]))"

declare path_back.simps [code]

record replay_state =
  ry_predecessor :: "(string, string) bmap"
  ry_visited :: "string bset"
  ry_queue :: "string list"

text \<open>The inner loop of the replay. The answer is \<open>Some path\<close>, or \<open>None\<close> when reading back does
  not end.\<close>

fun replay_next :: "string \<Rightarrow> string \<Rightarrow> string list \<Rightarrow> replay_state \<Rightarrow> string list option + replay_state" where
  "replay_next target node [] st = Inr st"
| "replay_next target node (next # rest) st =
     (if next \<in> set (ry_visited st) then replay_next target node rest st
      else
        let st = st\<lparr>ry_visited := bset_insert next (ry_visited st),
                    ry_predecessor := bmap_insert next node (ry_predecessor st)\<rparr>
        in if next = target then Inl (map_option rev (path_back (ry_predecessor st) target [target]))
           else replay_next target node rest (st\<lparr>ry_queue := ry_queue st @ [next]\<rparr>))"

definition shortest_next :: "adjacency \<Rightarrow> (string, nat) bmap \<Rightarrow> (string, nat) bmap \<Rightarrow> nat \<Rightarrow> nat \<Rightarrow> string \<Rightarrow> string list" where
  "shortest_next outgoing from_root to_target len depth node =
     remdups_adj (sort (filter (\<lambda>next. on_shortest from_root to_target len next \<and> bmap_get from_root next = Some (depth + 1))
       (adjacent outgoing node)))"

lemma replay_next_new:
  "replay_next target node ns st = Inr st' \<Longrightarrow>
     \<exists>new. ry_queue st' = ry_queue st @ new \<and> set (ry_visited st') = set (ry_visited st) \<union> set new
       \<and> set new \<subseteq> set ns - set (ry_visited st)"
proof (induction target node ns st rule: replay_next.induct)
  case (2 target node n ns st)
  show ?case
  proof (cases "n \<in> set (ry_visited st)")
    case True
    then show ?thesis using 2 by (fastforce simp: Let_def)
  next
    case False
    then have "n \<noteq> target" using "2.prems" by (auto simp: Let_def)
    then obtain new where "ry_queue st' = ry_queue st @ [n] @ new"
      "set (ry_visited st') = insert n (set (ry_visited st)) \<union> set new"
      "set new \<subseteq> set ns - insert n (set (ry_visited st))"
      using 2 False by (fastforce simp: Let_def)
    then show ?thesis using False by (intro exI [of _ "n # new"]) auto
  qed
qed simp

definition unvisited :: "adjacency \<Rightarrow> replay_state \<Rightarrow> nat" where
  "unvisited m st = card (adjacency_names m - set (ry_visited st))"

lemma replay_next_progress:
  assumes "replay_next target node ns st = Inr st'" and "set ns \<subseteq> adjacency_names m"
  shows "unvisited m st' < unvisited m st \<or> unvisited m st' = unvisited m st \<and> ry_queue st' = ry_queue st"
proof -
  obtain new where new: "ry_queue st' = ry_queue st @ new" "set (ry_visited st') = set (ry_visited st) \<union> set new"
    "set new \<subseteq> set ns - set (ry_visited st)"
    using replay_next_new [OF assms(1)] by blast
  show ?thesis
  proof (cases "new = []")
    case True
    then show ?thesis using new by (simp add: unvisited_def)
  next
    case False
    then have "adjacency_names m - set (ry_visited st') \<subset> adjacency_names m - set (ry_visited st)"
      using new assms(2) by (cases new) auto
    then show ?thesis unfolding unvisited_def by (simp add: psubset_card_mono)
  qed
qed

lemma shortest_next_names: "set (shortest_next m f b len depth node) \<subseteq> adjacency_names m"
  using adjacent_names [of m node] by (auto simp: shortest_next_def)

text \<open>The queue of the replay: \<open>Some None\<close> is the function's last \<open>None\<close>, no path.\<close>

function replay_loop :: "adjacency \<Rightarrow> (string, nat) bmap \<Rightarrow> (string, nat) bmap \<Rightarrow> nat \<Rightarrow> string \<Rightarrow> replay_state
    \<Rightarrow> string list option option" where
  "replay_loop outgoing from_root to_target len target st =
     (case ry_queue st of
        [] \<Rightarrow> Some None
      | node # queue \<Rightarrow>
          (case bmap_get from_root node of
             None \<Rightarrow> None
           | Some depth \<Rightarrow>
               (case replay_next target node (shortest_next outgoing from_root to_target len depth node) (st\<lparr>ry_queue := queue\<rparr>) of
                  Inl path \<Rightarrow> map_option Some path
                | Inr st \<Rightarrow> replay_loop outgoing from_root to_target len target st)))"
  by pat_completeness auto
termination
proof (relation "measures [\<lambda>(m, _, _, _, _, st). unvisited m st, \<lambda>(_, _, _, _, _, st). length (ry_queue st)]", goal_cases)
  case (2 m f b len target st node queue depth st')
  then show ?case using replay_next_progress [OF 2(3) shortest_next_names] by (auto simp: unvisited_def)
qed simp

declare replay_loop.simps [simp del]

definition replay :: "path_side \<Rightarrow> path_side \<Rightarrow> string \<Rightarrow> string \<Rightarrow> string list option option" where
  "replay forward backward root target =
     (case foldl push_edge ([], []) (read_edges forward backward) of
        (outgoing, incoming) \<Rightarrow>
          Option.bind (distances outgoing root) (\<lambda>from_root.
          Option.bind (distances incoming target) (\<lambda>to_target.
            case bmap_get from_root target of
              None \<Rightarrow> Some None
            | Some len \<Rightarrow>
                replay_loop outgoing from_root to_target len target
                  \<lparr>ry_predecessor = [], ry_visited = [root], ry_queue = [root]\<rparr>)))"

subsection \<open>The search\<close>

definition search_start :: "string \<Rightarrow> string \<Rightarrow> search_state" where
  "search_start root target =
     \<lparr>ss_forward = path_side_new root Outgoing, ss_backward = path_side_new target Incoming, ss_states = 2,
      ss_met = False,
      ss_result = \<lparr>cp_path = None, cp_stop = FrontierExhausted, cp_discovered_nodes = 2, cp_scanned_edges = 0,
                   cp_expanded_nodes = 0\<rparr>\<rparr>"

definition with_path :: "string list option \<Rightarrow> context_path_search \<Rightarrow> context_path_search" where
  "with_path path result =
     (let result = result\<lparr>cp_path := path\<rparr>
      in if path \<noteq> None then result\<lparr>cp_stop := TargetsReached\<rparr> else result)"

definition bidirectional_path_search :: "neighbour_reader \<Rightarrow> string \<Rightarrow> string \<Rightarrow> trace_search_limits
    \<Rightarrow> context_path_search port_result option" where
  "bidirectional_path_search neighbor_ids root target limits =
     (if root = target then
        Some (Inr \<lparr>cp_path = Some [root], cp_stop = TargetsReached, cp_discovered_nodes = 1, cp_scanned_edges = 0,
                   cp_expanded_nodes = 0\<rparr>)
      else
        (case search_loop neighbor_ids limits (search_start root target) of
           Inl e \<Rightarrow> Some (Inl e)
         | Inr s \<Rightarrow>
             if ss_met s then
               map_option (\<lambda>path. Inr (with_path path (ss_result s))) (replay (ss_forward s) (ss_backward s) root target)
             else Some (Inr (ss_result s))))"

text \<open>The trait's default \<open>neighbor_ids\<close>, over the adjacency read.\<close>

definition default_neighbor_ids :: "(adjacency_request \<Rightarrow> adjacency_page port_result) \<Rightarrow> neighbour_reader" where
  "default_neighbor_ids adjacency node direction limit =
     try_bind (port_result (adjacency_request_new node direction limit)) (\<lambda>request.
     try_bind (adjacency request) (\<lambda>page.
       Inr (map (\<lambda>edge. case direction of Outgoing \<Rightarrow> nr_target_node_id edge | Incoming \<Rightarrow> nr_source_node_id edge)
              (ap_edges page))))"

end
