(* ===== verification/PathReplay.thy ===== *)
theory PathReplay
  imports PathSearch
begin

text \<open>
  The replay of the bidirectional search as graph theory: \<open>distances\<close> gives the least number
  of rows between its start and each node the rows reach, and the replay finds, through nodes
  on shortest paths only, one walk of that length. Neither misses a lookup.
\<close>

subsection \<open>The rows as a relation\<close>

definition adj_rel :: "adjacency \<Rightarrow> (string \<times> string) set" where
  "adj_rel m = {(a, b). b \<in> set (adjacent m a)}"

lemma adjacent_update:
  "bmap_ok m \<Longrightarrow> adjacent (bmap_update k (push_value v) m) a = adjacent m a @ (if a = k then [v] else [])"
  by (auto simp: adjacent_def bmap_get_update push_value_def split: option.splits)

lemma adj_rel_update: "bmap_ok m \<Longrightarrow> adj_rel (bmap_update k (push_value v) m) = insert (k, v) (adj_rel m)"
  by (auto simp: adj_rel_def adjacent_update split: if_splits)

lemma push_edges:
  assumes "bmap_ok (fst maps)" and "bmap_ok (snd maps)"
  shows "let m = foldl push_edge maps es in bmap_ok (fst m) \<and> bmap_ok (snd m)
    \<and> adj_rel (fst m) = adj_rel (fst maps) \<union> set es \<and> adj_rel (snd m) = adj_rel (snd maps) \<union> (set es)\<inverse>"
  using assms
proof (induction es arbitrary: maps)
  case (Cons e es)
  have "bmap_ok (fst (push_edge maps e))" "bmap_ok (snd (push_edge maps e))"
    using Cons.prems by (simp_all add: push_edge_def)
  moreover have "adj_rel (fst (push_edge maps e)) = insert e (adj_rel (fst maps))"
    "adj_rel (snd (push_edge maps e)) = insert (prod.swap e) (adj_rel (snd maps))"
    using Cons.prems by (simp_all add: push_edge_def adj_rel_update prod.swap_def)
  ultimately show ?case using Cons.IH [of "push_edge maps e"]
    by (cases e) (simp add: Let_def converse_def insert_commute, auto)
qed (simp add: converse_def)

subsection \<open>Distances\<close>

definition dist_inv :: "adjacency \<Rightarrow> string \<Rightarrow> nat \<Rightarrow> (string, nat) bmap \<Rightarrow> string list \<Rightarrow> bool" where
  "dist_inv m start k d queue \<longleftrightarrow>
     bmap_ok d \<and> bmap_get d start = Some 0
     \<and> (\<forall>n j. bmap_get d n = Some j \<longrightarrow> j \<le> Suc k \<and> (start, n) \<in> adj_rel m ^^ j)
     \<and> (\<forall>n \<in> set queue. \<exists>j \<ge> k. bmap_get d n = Some j)
     \<and> sorted (map (\<lambda>n. the (bmap_get d n)) queue)"

definition grown :: "(string, nat) bmap \<Rightarrow> string list \<Rightarrow> (string, nat) bmap \<Rightarrow> string list \<Rightarrow> bool" where
  "grown d queue d' queue' \<longleftrightarrow>
     (\<forall>n j. bmap_get d n = Some j \<longrightarrow> bmap_get d' n = Some j) \<and> set queue \<subseteq> set queue'
     \<and> (\<forall>n. bmap_get d' n \<noteq> None \<longrightarrow> bmap_get d n \<noteq> None \<or> n \<in> set queue')"

lemma grown_trans: "grown d q d' q' \<Longrightarrow> grown d' q' d'' q'' \<Longrightarrow> grown d q d'' q''"
  unfolding grown_def by (meson subset_iff)

lemma reach_next_inv:
  assumes inv: "dist_inv m start k d queue" and node: "bmap_get d node = Some k" and edge: "(node, n) \<in> adj_rel m"
  shows "case reach_next k (d, queue) n of (d', queue') \<Rightarrow>
    dist_inv m start k d' queue' \<and> grown d queue d' queue' \<and> bmap_get d' n \<noteq> None"
proof (cases "bmap_get d n")
  case (Some j)
  then show ?thesis using inv by (simp add: reach_next_def grown_def)
next
  case None
  have ok: "bmap_ok d" using inv by (simp add: dist_inv_def)
  let ?d = "bmap_insert n (Suc k) d"
  have g: "bmap_get ?d x = (if x = n then Some (Suc k) else bmap_get d x)" for x
    using ok by (simp add: bmap_get_insert)
  have q: "\<forall>x \<in> set queue. \<exists>j \<ge> k. bmap_get d x = Some j"
    and small: "\<And>x j. bmap_get d x = Some j \<Longrightarrow> j \<le> Suc k \<and> (start, x) \<in> adj_rel m ^^ j"
    using inv by (auto simp: dist_inv_def)
  have notin: "n \<notin> set queue" using q None by fastforce
  then have eq: "map (\<lambda>x. the (bmap_get ?d x)) queue = map (\<lambda>x. the (bmap_get d x)) queue"
    by (intro map_cong) (auto simp: g)
  have "(start, n) \<in> adj_rel m ^^ Suc k" using small [OF node] edge by auto
  then have walks: "j \<le> Suc k \<and> (start, x) \<in> adj_rel m ^^ j" if "bmap_get ?d x = Some j" for x j
    using that small by (cases "x = n") (auto simp: g simp del: relpow.simps)
  have "the (bmap_get d x) \<le> Suc k" if "x \<in> set queue" for x
    using q small that by fastforce
  then have "sorted (map (\<lambda>x. the (bmap_get ?d x)) (queue @ [n]))"
    using inv unfolding map_append eq by (auto simp: dist_inv_def sorted_append g)
  moreover have "\<forall>x \<in> set (queue @ [n]). \<exists>j \<ge> k. bmap_get ?d x = Some j"
    using q notin by (auto simp: g)
  moreover have "bmap_get ?d start = Some 0" using inv None by (auto simp: dist_inv_def g)
  ultimately have "dist_inv m start k ?d (queue @ [n])"
    using walks ok by (simp add: dist_inv_def)
  moreover have "grown d queue ?d (queue @ [n])" using None by (auto simp: grown_def g)
  ultimately show ?thesis using None by (simp add: reach_next_def g)
qed

lemma reach_fold_inv:
  assumes "dist_inv m start k d queue" and "bmap_get d node = Some k" and "\<forall>n \<in> set ns. (node, n) \<in> adj_rel m"
  shows "case foldl (reach_next k) (d, queue) ns of (d', queue') \<Rightarrow>
    dist_inv m start k d' queue' \<and> grown d queue d' queue' \<and> (\<forall>n \<in> set ns. bmap_get d' n \<noteq> None)"
  using assms
proof (induction ns arbitrary: d queue)
  case (Cons n ns)
  obtain d1 q1 where r: "reach_next k (d, queue) n = (d1, q1)" by (meson surj_pair)
  have s: "dist_inv m start k d1 q1" "grown d queue d1 q1" "bmap_get d1 n \<noteq> None"
    using reach_next_inv [OF Cons.prems(1,2), of n] Cons.prems(3) r by auto
  have node: "bmap_get d1 node = Some k" using s(2) Cons.prems(2) by (simp add: grown_def)
  obtain d2 q2 where f: "foldl (reach_next k) (d1, q1) ns = (d2, q2)" by (meson surj_pair)
  have t: "dist_inv m start k d2 q2" "grown d1 q1 d2 q2" "\<forall>n \<in> set ns. bmap_get d2 n \<noteq> None"
    using Cons.IH [OF s(1) node] Cons.prems(3) f by auto
  then have "bmap_get d2 n \<noteq> None" using s(3) by (auto simp: grown_def)
  then show ?case using t grown_trans [OF s(2) t(2)] f r by simp
qed (simp add: grown_def)

definition dist_closed :: "adjacency \<Rightarrow> (string, nat) bmap \<Rightarrow> string \<Rightarrow> bool" where
  "dist_closed m d n \<longleftrightarrow> (\<forall>j. bmap_get d n = Some j \<longrightarrow> (\<forall>x \<in> set (adjacent m n). \<exists>i \<le> Suc j. bmap_get d x = Some i))"

lemma distance_loop_exact:
  assumes "dist_inv m start k d queue" and "\<forall>n. n \<notin> set queue \<longrightarrow> dist_closed m d n"
  shows "\<exists>d'. distance_loop m queue d = Some d' \<and> (\<exists>k. dist_inv m start k d' []) \<and> (\<forall>n. dist_closed m d' n)"
  using assms
proof (induction m queue d arbitrary: k rule: distance_loop.induct)
  case (2 m node queue d)
  obtain here where here: "bmap_get d node = Some here" "k \<le> here"
    using "2.prems"(1) by (auto simp: dist_inv_def)
  have inv: "dist_inv m start here d queue"
    unfolding dist_inv_def
  proof (intro conjI allI impI ballI)
    fix n assume n: "n \<in> set queue"
    then obtain j where j: "bmap_get d n = Some j" using "2.prems"(1) by (auto simp: dist_inv_def)
    have "the (bmap_get d node) \<le> the (bmap_get d n)" using "2.prems"(1) n by (simp add: dist_inv_def)
    then show "\<exists>j \<ge> here. bmap_get d n = Some j" using j here(1) by simp
  next
    fix n j assume j: "bmap_get d n = Some j"
    then show "(start, n) \<in> adj_rel m ^^ j" using "2.prems"(1) by (simp add: dist_inv_def)
    have "j \<le> Suc k" using j "2.prems"(1) by (simp add: dist_inv_def)
    then show "j \<le> Suc here" using here(2) by simp
  qed (use "2.prems"(1) in \<open>simp_all add: dist_inv_def\<close>)
  obtain d1 q1 where f: "foldl (reach_next here) (d, queue) (adjacent m node) = (d1, q1)" by (meson surj_pair)
  have s: "dist_inv m start here d1 q1" "grown d queue d1 q1" "\<forall>n \<in> set (adjacent m node). bmap_get d1 n \<noteq> None"
    using reach_fold_inv [OF inv here(1), of "adjacent m node"] f by (simp_all add: adj_rel_def)
  have "dist_closed m d1 n" if n: "n \<notin> set q1" for n
  proof (cases "n = node")
    case True
    then show ?thesis using s here(1) by (fastforce simp: dist_closed_def grown_def dist_inv_def)
  next
    case False
    then have "n \<notin> set (node # queue)" using n s(2) by (auto simp: grown_def)
    then have c: "dist_closed m d n" using "2.prems"(2) by blast
    have "bmap_get d n = Some j" if "bmap_get d1 n = Some j" for j
      using s(2) that n unfolding grown_def by (metis option.exhaust option.inject option.distinct(1))
    then show ?thesis using c s(2) unfolding dist_closed_def grown_def by blast
  qed
  with "2.IH" [OF here(1) f [symmetric] s(1)] show ?case using here(1) f by simp
qed auto

lemma distances_exact:
  "\<exists>d. distances m start = Some d \<and> (\<forall>n k. bmap_get d n = Some k \<longrightarrow> (start, n) \<in> adj_rel m ^^ k)
     \<and> (\<forall>n k. (start, n) \<in> adj_rel m ^^ k \<longrightarrow> (\<exists>j \<le> k. bmap_get d n = Some j))"
proof -
  have "dist_inv m start 0 [(start, 0)] [start]"
    by (auto simp: dist_inv_def bmap_ok_Cons bmap_get_def split: if_splits)
  moreover have "\<forall>n. n \<notin> set [start] \<longrightarrow> dist_closed m [(start, 0)] n"
    by (simp add: dist_closed_def bmap_get_def)
  ultimately obtain d k where d: "distances m start = Some d" "dist_inv m start k d []" "\<forall>n. dist_closed m d n"
    using distance_loop_exact unfolding distances_def by blast
  have "\<exists>j \<le> i. bmap_get d n = Some j" if "(start, n) \<in> adj_rel m ^^ i" for n i
    using that
  proof (induction i arbitrary: n)
    case 0
    then show ?case using d(2) by (simp add: dist_inv_def)
  next
    case (Suc i)
    then obtain x where x: "(start, x) \<in> adj_rel m ^^ i" "(x, n) \<in> adj_rel m" by auto
    then obtain j where j: "j \<le> i" "bmap_get d x = Some j" using Suc.IH by blast
    then obtain l where "l \<le> Suc j" "bmap_get d n = Some l"
      using d(3) x(2) unfolding dist_closed_def adj_rel_def by blast
    then show ?case using j(1) by (meson Suc_le_mono le_trans)
  qed
  then show ?thesis using d by (auto simp: dist_inv_def)
qed

subsection \<open>Reading the path back\<close>

definition walk :: "(string \<times> string) set \<Rightarrow> string \<Rightarrow> string list \<Rightarrow> string \<Rightarrow> bool" where
  "walk R a w b \<longleftrightarrow> w \<noteq> [] \<and> hd w = a \<and> last w = b \<and> successively (\<lambda>x y. (x, y) \<in> R) w"

lemma walk_single [simp]: "walk R a [a] a"
  by (simp add: walk_def)

lemma walk_snoc: "walk R a w b \<Longrightarrow> (b, c) \<in> R \<Longrightarrow> walk R a (w @ [c]) c"
  by (auto simp: walk_def successively_append_iff)

lemma walk_mono: "walk R a w b \<Longrightarrow> R \<subseteq> S \<Longrightarrow> walk S a w b"
  by (auto simp: walk_def elim!: successively_mono)

lemma walk_relpow: "walk R a w b \<Longrightarrow> (a, b) \<in> R ^^ (length w - 1)"
proof (induction w arbitrary: a)
  case (Cons x w)
  then show ?case
  proof (cases w)
    case (Cons y ys)
    have "walk R y w b" "(a, y) \<in> R" using Cons.prems \<open>w = y # ys\<close> by (auto simp: walk_def)
    then show ?thesis using Cons.IH [of y] \<open>w = y # ys\<close> relpow_Suc_I2 by (fastforce simp: relpow_commute)
  qed (auto simp: walk_def)
qed (simp add: walk_def)

definition chained :: "(string \<times> string) set \<Rightarrow> string \<Rightarrow> (string, nat) bmap \<Rightarrow> (string, string) bmap \<Rightarrow> string set \<Rightarrow> bool" where
  "chained R root fr pred V \<longleftrightarrow>
     root \<in> V \<and> bmap_get fr root = Some 0 \<and> bmap_get pred root = None
     \<and> (\<forall>n \<in> V - {root}. \<exists>p k. bmap_get pred n = Some p \<and> p \<in> V \<and> (p, n) \<in> R
          \<and> bmap_get fr p = Some k \<and> bmap_get fr n = Some (Suc k))"

lemma path_back_walk:
  assumes "chained R root fr pred V"
  shows "n \<in> V \<Longrightarrow> bmap_get fr n = Some k \<Longrightarrow>
    \<exists>p. path_back pred n acc = Some (acc @ p) \<and> length p = k \<and> walk R root (rev (n # p)) n"
proof (induction k arbitrary: n acc)
  case 0
  then have "n = root" using assms unfolding chained_def by force
  then show ?case using assms by (subst path_back.simps) (simp add: chained_def)
next
  case (Suc k)
  then have "n \<in> V - {root}" using assms by (auto simp: chained_def)
  then obtain p where p: "bmap_get pred n = Some p" "p \<in> V" "(p, n) \<in> R" "bmap_get fr p = Some k"
    using assms Suc.prems(2) unfolding chained_def by force
  obtain q where q: "path_back pred p (acc @ [p]) = Some ((acc @ [p]) @ q)" "length q = k" "walk R root (rev (p # q)) p"
    using Suc.IH [OF p(2,4)] by blast
  have "walk R root (rev (p # q) @ [n]) n" using walk_snoc [OF q(3) p(3)] .
  then show ?case using p(1) q by (subst path_back.simps) (auto intro!: exI [of _ "p # q"])
qed

subsection \<open>The replay\<close>

definition replay_inv :: "(string \<times> string) set \<Rightarrow> string \<Rightarrow> string \<Rightarrow> (string, nat) bmap \<Rightarrow> replay_state \<Rightarrow> bool" where
  "replay_inv R root target fr st \<longleftrightarrow>
     bmap_ok (ry_predecessor st) \<and> target \<notin> set (ry_visited st) \<and> set (ry_queue st) \<subseteq> set (ry_visited st)
     \<and> chained R root fr (ry_predecessor st) (set (ry_visited st))"

lemma chained_insert:
  assumes "chained R root fr pred V" and "bmap_ok pred" and "n \<notin> V" and "p \<in> V" and "(p, n) \<in> R"
    and "bmap_get fr p = Some k" and "bmap_get fr n = Some (Suc k)"
  shows "chained R root fr (bmap_insert n p pred) (insert n V)"
proof -
  have g: "bmap_get (bmap_insert n p pred) x = (if x = n then Some p else bmap_get pred x)" for x
    using assms(2) by (simp add: bmap_get_insert)
  have "\<exists>q j. bmap_get (bmap_insert n p pred) x = Some q \<and> q \<in> insert n V \<and> (q, x) \<in> R
      \<and> bmap_get fr q = Some j \<and> bmap_get fr x = Some (Suc j)" if x: "x \<in> insert n V - {root}" for x
  proof (cases "x = n")
    case True
    then show ?thesis using assms by (auto simp: g)
  next
    case False
    then have "x \<in> V - {root}" using x by simp
    then show ?thesis using assms(1) False unfolding chained_def g by fastforce
  qed
  then show ?thesis using assms(1,3) by (auto simp: chained_def g)
qed

lemma replay_next_inv:
  assumes "replay_inv R root target fr st" and "node \<in> set (ry_visited st)" and "bmap_get fr node = Some k"
    and "\<forall>n \<in> set ns. (node, n) \<in> R \<and> bmap_get fr n = Some (Suc k)"
  shows "(\<exists>w. replay_next target node ns st = Inl (Some w) \<and> walk R root w target \<and> bmap_get fr target = Some (length w - 1))
    \<or> (\<exists>st'. replay_next target node ns st = Inr st' \<and> replay_inv R root target fr st'
         \<and> set (ry_visited st) \<union> set ns \<subseteq> set (ry_visited st'))"
  using assms
proof (induction ns arbitrary: st)
  case (Cons n ns)
  show ?case
  proof (cases "n \<in> set (ry_visited st)")
    case True
    then show ?thesis using Cons.IH [OF Cons.prems(1-3)] Cons.prems(4) by auto
  next
    case new: False
    have c: "chained R root fr (ry_predecessor st) (set (ry_visited st))" "bmap_ok (ry_predecessor st)"
      using Cons.prems(1) by (simp_all add: replay_inv_def)
    let ?st = "st\<lparr>ry_visited := bset_insert n (ry_visited st), ry_predecessor := bmap_insert n node (ry_predecessor st)\<rparr>"
    have n: "(node, n) \<in> R" "bmap_get fr n = Some (Suc k)" using Cons.prems(4) by simp_all
    have c': "chained R root fr (ry_predecessor ?st) (set (ry_visited ?st))"
      using chained_insert [OF c new Cons.prems(2) n(1) Cons.prems(3) n(2)] by simp
    show ?thesis
    proof (cases "n = target")
      case True
      obtain p where p: "path_back (ry_predecessor ?st) target [target] = Some ([target] @ p)" "length p = Suc k"
        "walk R root (rev (target # p)) target"
        using path_back_walk [OF c', of target "Suc k" "[target]"] True n(2) by auto
      then show ?thesis using new True n(2) by (simp add: Let_def)
    next
      case False
      let ?st2 = "?st\<lparr>ry_queue := ry_queue st @ [n]\<rparr>"
      have inv: "replay_inv R root target fr ?st2"
        using Cons.prems(1) c' False by (auto simp: replay_inv_def)
      have step: "replay_next target node (n # ns) st = replay_next target node ns ?st2"
        using new False by (simp add: Let_def)
      have node: "node \<in> set (ry_visited ?st2)" using Cons.prems(2) by simp
      have ns: "\<forall>n \<in> set ns. (node, n) \<in> R \<and> bmap_get fr n = Some (Suc k)" using Cons.prems(4) by simp
      from Cons.IH [OF inv node Cons.prems(3) ns] show ?thesis unfolding step by auto
    qed
  qed
qed auto

lemma set_shortest_next:
  "n \<in> set (shortest_next m fr tt len depth node) \<longleftrightarrow>
     (node, n) \<in> adj_rel m \<and> on_shortest fr tt len n \<and> bmap_get fr n = Some (Suc depth)"
  by (auto simp: shortest_next_def adj_rel_def)

definition replay_closed :: "adjacency \<Rightarrow> (string, nat) bmap \<Rightarrow> (string, nat) bmap \<Rightarrow> nat \<Rightarrow> string set \<Rightarrow> string \<Rightarrow> bool" where
  "replay_closed m fr tt len V n \<longleftrightarrow> (\<forall>k. bmap_get fr n = Some k \<longrightarrow> set (shortest_next m fr tt len k n) \<subseteq> V)"

lemma replay_loop_finds:
  assumes "replay_inv (adj_rel m) root target fr st"
    and "\<forall>n \<in> set (ry_visited st) - set (ry_queue st). replay_closed m fr tt len (set (ry_visited st)) n"
  shows "(\<exists>w. replay_loop m fr tt len target st = Some (Some w) \<and> walk (adj_rel m) root w target
      \<and> bmap_get fr target = Some (length w - 1))
    \<or> replay_loop m fr tt len target st = Some None \<and> (\<exists>V. root \<in> V \<and> target \<notin> V \<and> (\<forall>n \<in> V. replay_closed m fr tt len V n))"
  using assms
proof (induction m fr tt len target st rule: replay_loop.induct)
  case (1 m fr tt len target st)
  show ?case
  proof (cases "ry_queue st")
    case Nil
    then have "replay_loop m fr tt len target st = Some None" by (subst replay_loop.simps) simp
    moreover have "root \<in> set (ry_visited st) \<and> target \<notin> set (ry_visited st)"
      using "1.prems"(1) by (simp add: replay_inv_def chained_def)
    moreover have "\<forall>n \<in> set (ry_visited st). replay_closed m fr tt len (set (ry_visited st)) n"
      using "1.prems"(2) Nil by simp
    ultimately show ?thesis by blast
  next
    case (Cons node queue)
    let ?st = "st\<lparr>ry_queue := queue\<rparr>"
    have node: "node \<in> set (ry_visited ?st)" using "1.prems"(1) Cons by (simp add: replay_inv_def)
    then obtain k where k: "bmap_get fr node = Some k"
      using "1.prems"(1) by (cases "node = root") (force simp: replay_inv_def chained_def)+
    have inv: "replay_inv (adj_rel m) root target fr ?st" using "1.prems"(1) Cons by (simp add: replay_inv_def)
    have ns: "\<forall>n \<in> set (shortest_next m fr tt len k node). (node, n) \<in> adj_rel m \<and> bmap_get fr n = Some (Suc k)"
      by (simp add: set_shortest_next)
    consider (found) w where "replay_next target node (shortest_next m fr tt len k node) ?st = Inl (Some w)"
        "walk (adj_rel m) root w target" "bmap_get fr target = Some (length w - 1)"
      | (on) st' where "replay_next target node (shortest_next m fr tt len k node) ?st = Inr st'"
        "replay_inv (adj_rel m) root target fr st'"
        "set (ry_visited ?st) \<union> set (shortest_next m fr tt len k node) \<subseteq> set (ry_visited st')"
      using replay_next_inv [OF inv node k ns] by blast
    then show ?thesis
    proof cases
      case found
      then show ?thesis using Cons k by (subst (1 2) replay_loop.simps) simp
    next
      case on
      obtain new where new: "ry_queue st' = queue @ new" "set (ry_visited st') = set (ry_visited st) \<union> set new"
        using replay_next_new [OF on(1)] by auto
      have "replay_closed m fr tt len (set (ry_visited st')) n" if "n \<in> set (ry_visited st') - set (ry_queue st')" for n
      proof (cases "n = node")
        case True
        then show ?thesis using on(3) k by (auto simp: replay_closed_def)
      next
        case False
        then have "replay_closed m fr tt len (set (ry_visited st)) n"
          using that new "1.prems"(2) Cons by auto
        then show ?thesis using new(2) by (auto simp: replay_closed_def)
      qed
      with "1.IH" [OF Cons k on(1) on(2)] show ?thesis
        using Cons k on(1) by (subst (1 2) replay_loop.simps) simp
    qed
  qed
qed

definition exact :: "(string \<times> string) set \<Rightarrow> string \<Rightarrow> (string, nat) bmap \<Rightarrow> bool" where
  "exact R start d \<longleftrightarrow> (\<forall>n k. bmap_get d n = Some k \<longrightarrow> (start, n) \<in> R ^^ k)
     \<and> (\<forall>n k. (start, n) \<in> R ^^ k \<longrightarrow> (\<exists>j \<le> k. bmap_get d n = Some j))"

lemma exact_along:
  assumes "exact R start d" and "bmap_get d end' = Some len" and "(start, n) \<in> R ^^ i" and "(n, end') \<in> R ^^ j" and "i + j = len"
  shows "bmap_get d n = Some i"
proof -
  obtain k where k: "k \<le> i" "bmap_get d n = Some k" using assms(1,3) unfolding exact_def by blast
  then have "(start, n) \<in> R ^^ k" using assms(1) by (simp add: exact_def)
  then have "(start, end') \<in> R ^^ (k + j)" using assms(4) by (auto simp: relpow_add)
  then obtain l where "l \<le> k + j" "bmap_get d end' = Some l" using assms(1) unfolding exact_def by blast
  then have "len \<le> k + j" using assms(2) by simp
  then show ?thesis using k assms(5) by simp
qed

lemma converse_relpow:
  fixes R :: "('a \<times> 'a) set"
  shows "(a, b) \<in> (R\<inverse>) ^^ k \<longleftrightarrow> (b, a) \<in> R ^^ k"
proof (induction k arbitrary: a b)
  case (Suc k)
  have "(a, b) \<in> (R\<inverse>) ^^ Suc k \<longleftrightarrow> (\<exists>c. (c, a) \<in> R ^^ k \<and> (b, c) \<in> R)"
    using Suc by auto
  also have "\<dots> \<longleftrightarrow> (b, a) \<in> R ^^ Suc k"
    by (metis relpow_Suc_D2 relpow_Suc_I2)
  finally show ?case .
qed auto

lemma replay_reaches:
  assumes R: "adj_rel m = R" and fr: "exact R root fr" and tt: "exact (R\<inverse>) target tt"
    and len: "bmap_get fr target = Some len"
    and V: "root \<in> V" "\<forall>n \<in> V. replay_closed m fr tt len V n"
  shows "target \<in> V"
proof -
  have "(root, target) \<in> R ^^ len" using fr len by (simp add: exact_def)
  then obtain f where f: "f 0 = root" "f len = target" "\<forall>i < len. (f i, f (Suc i)) \<in> R"
    by (auto simp: relpow_fun_conv)
  have before: "(root, f i) \<in> R ^^ i" if "i \<le> len" for i
    using that f(1,3) by (induction i) auto
  have after': "(f (len - j), target) \<in> R ^^ j" if "j \<le> len" for j
    using that
  proof (induction j)
    case (Suc j)
    then have "(f (len - Suc j), f (Suc (len - Suc j))) \<in> R" "Suc (len - Suc j) = len - j" using f(3) by auto
    then show ?case using Suc relpow_Suc_I2 by (metis Suc_leD)
  qed (simp add: f)
  have after: "(f i, target) \<in> R ^^ (len - i)" if "i \<le> len" for i
    using after' [of "len - i"] that by simp
  have dr: "bmap_get fr (f i) = Some i" if "i \<le> len" for i
    using exact_along [OF fr len before [OF that] after [OF that]] that by simp
  have "bmap_get tt root = Some len"
  proof -
    obtain k where k: "k \<le> len" "bmap_get tt root = Some k"
      using tt \<open>(root, target) \<in> R ^^ len\<close> converse_relpow unfolding exact_def by metis
    then have "(root, target) \<in> R ^^ k" using tt converse_relpow unfolding exact_def by metis
    then obtain j where "j \<le> k" "bmap_get fr target = Some j" using fr unfolding exact_def by blast
    then show ?thesis using k len by simp
  qed
  then have dt: "bmap_get tt (f i) = Some (len - i)" if "i \<le> len" for i
    using exact_along [OF tt, of root len "f i" "len - i" i] before [OF that] after [OF that] that
    by (simp add: converse_relpow)
  have "f i \<in> V" if "i \<le> len" for i
    using that
  proof (induction i)
    case 0
    then show ?case using V(1) f(1) by simp
  next
    case (Suc i)
    then have "f (Suc i) \<in> set (shortest_next m fr tt len i (f i))"
      using f(3) dr dt R by (simp add: set_shortest_next on_shortest_def)
    then show ?case using Suc V(2) dr [of i] unfolding replay_closed_def by (meson Suc_leD subset_iff)
  qed
  then show ?thesis using f(2) by blast
qed

lemma replay_exact:
  assumes "root \<noteq> target"
  shows "\<exists>r. replay forward backward root target = Some r
    \<and> (case r of
         Some w \<Rightarrow> walk (set (read_edges forward backward)) root w target
           \<and> (\<forall>k. (root, target) \<in> set (read_edges forward backward) ^^ k \<longrightarrow> length w - 1 \<le> k)
       | None \<Rightarrow> (root, target) \<notin> (set (read_edges forward backward))\<^sup>*)"
proof -
  let ?R = "set (read_edges forward backward)"
  obtain out inc where maps: "foldl push_edge ([], []) (read_edges forward backward) = (out, inc)" by (meson surj_pair)
  have rel: "adj_rel out = ?R" "adj_rel inc = ?R\<inverse>"
    using push_edges [of "([], [])" "read_edges forward backward"] maps
    by (simp_all add: Let_def adj_rel_def adjacent_def bmap_get_def)
  obtain fr where fr: "distances out root = Some fr" "exact ?R root fr"
    using distances_exact [of out root] by (auto simp: exact_def rel)
  obtain tt where tt: "distances inc target = Some tt" "exact (?R\<inverse>) target tt"
    using distances_exact [of inc target] by (auto simp: exact_def rel)
  show ?thesis
  proof (cases "bmap_get fr target")
    case None
    then have "(root, target) \<notin> ?R\<^sup>*"
      using fr(2) rtrancl_imp_relpow unfolding exact_def by (metis option.distinct(1))
    then show ?thesis using None by (simp add: replay_def maps fr tt)
  next
    case (Some len)
    let ?st = "\<lparr>ry_predecessor = [], ry_visited = [root], ry_queue = [root]\<rparr>"
    have eq: "replay forward backward root target = replay_loop out fr tt len target ?st"
      using Some by (simp add: replay_def maps fr tt)
    have "bmap_get fr root = Some 0" using fr(2) unfolding exact_def
      by (metis le_zero_eq relpow_0_I)
    then have inv: "replay_inv (adj_rel out) root target fr ?st"
      using assms by (simp add: replay_inv_def chained_def bmap_get_def)
    have closed: "\<forall>n \<in> set (ry_visited ?st) - set (ry_queue ?st). replay_closed out fr tt len (set (ry_visited ?st)) n"
      by simp
    have least: "len \<le> k" if "(root, target) \<in> ?R ^^ k" for k
      using fr(2) Some that unfolding exact_def by (metis option.inject)
    from replay_loop_finds [OF inv closed] show ?thesis
    proof
      assume "\<exists>w. replay_loop out fr tt len target ?st = Some (Some w) \<and> walk (adj_rel out) root w target
        \<and> bmap_get fr target = Some (length w - 1)"
      then show ?thesis using least Some by (auto simp: eq rel)
    next
      assume "replay_loop out fr tt len target ?st = Some None \<and> (\<exists>V. root \<in> V \<and> target \<notin> V \<and> (\<forall>n \<in> V. replay_closed out fr tt len V n))"
      then show ?thesis using replay_reaches [OF rel(1) fr(2) tt(2) Some] by blast
    qed
  qed
qed

lemma replay_returns: "root \<noteq> target \<Longrightarrow> \<exists>r. replay forward backward root target = Some r"
  using replay_exact by blast

end
