(* ===== verification/PathSearchGuarantees.thy ===== *)
theory PathSearchGuarantees
  imports PathReplay
begin

text \<open>
  What the bidirectional search promises over a store that reads a graph: a path it returns is
  a walk of stored relations between the two ends; when no budget cut it, the path is a
  shortest one; an exhausted frontier means that there is none; the work stays inside the
  limits; and no lookup of the replay misses. The invariant of a side says that its distances
  are lengths of walks, and that it has read, completely, every node nearer than its depth.
\<close>

subsection \<open>The store\<close>

definition rel_of :: "relation_direction \<Rightarrow> (string \<times> string) set \<Rightarrow> (string \<times> string) set" where
  "rel_of direction G = (case direction of Outgoing \<Rightarrow> G | Incoming \<Rightarrow> G\<inverse>)"

text \<open>The documented behaviour of \<open>neighbor_ids\<close>: ends of stored relations, and all of them when
  fewer than the limit are returned.\<close>

definition reads_graph :: "neighbour_reader \<Rightarrow> (string \<times> string) set \<Rightarrow> bool" where
  "reads_graph neighbor_ids G \<longleftrightarrow>
     (\<forall>node direction limit ns. neighbor_ids node direction limit = Inr ns \<longrightarrow>
        set ns \<subseteq> rel_of direction G `` {node} \<and> (length ns < unat limit \<longrightarrow> set ns = rel_of direction G `` {node}))"

lemma row_limit_complete:
  assumes "reads_graph neighbor_ids G" and "neighbor_ids node direction (row_limit r) = Inr ns"
    and "length ns \<le> r" and "r < 2 ^ 32 - 1"
  shows "set ns = rel_of direction G `` {node}"
proof -
  have r: "unat (of_nat r :: 32 word) = r" using assms(4) by (simp only: unat_of_nat) simp
  have "unat (- 1 :: 32 word) = 2 ^ 32 - 1" by (simp add: unsigned_minus_1_eq_mask mask_eq_exp_minus_1)
  then have ne: "(of_nat r :: 32 word) \<noteq> - 1" using assms(4) r by (metis less_irrefl)
  have "unat (of_nat r + 1 :: 32 word) = r + 1"
    using r assms(4) by (simp add: unat_word_ariths)
  then have "unat (row_limit r) = r + 1" using ne by (simp add: row_limit_def Let_def)
  then show ?thesis using assms(1-3) unfolding reads_graph_def by fastforce
qed

subsection \<open>A side\<close>

definition dist :: "path_side \<Rightarrow> string \<Rightarrow> nat option" where
  "dist side n = bmap_get (pd_distance side) n"

definition side_rel :: "(string \<times> string) set \<Rightarrow> path_side \<Rightarrow> (string \<times> string) set" where
  "side_rel G side = rel_of (pd_direction side) G"

text \<open>The distances known, up to one past the depth.\<close>

definition core :: "(string \<times> string) set \<Rightarrow> string \<Rightarrow> path_side \<Rightarrow> string list \<Rightarrow> bool" where
  "core G start side next \<longleftrightarrow>
     bmap_ok (pd_distance side) \<and> dist side start = Some 0
     \<and> (\<forall>n k. dist side n = Some k \<longrightarrow> k \<le> Suc (pd_depth side) \<and> (start, n) \<in> side_rel G side ^^ k)
     \<and> set next = {n. dist side n = Some (Suc (pd_depth side))}"

definition row_ok :: "(string \<times> string) set \<Rightarrow> path_side \<Rightarrow> string \<times> string list \<Rightarrow> bool" where
  "row_ok G side row \<longleftrightarrow> set (snd row) = side_rel G side `` {fst row}
     \<and> (\<exists>k. dist side (fst row) = Some k \<and> k \<le> pd_depth side \<and> (\<forall>m \<in> set (snd row). \<exists>j \<le> Suc k. dist side m = Some j))"

lemma row_ok_mono:
  assumes "row_ok G side row" and "\<And>n k. dist side n = Some k \<Longrightarrow> dist side' n = Some k"
    and "pd_depth side \<le> pd_depth side'" and "pd_direction side' = pd_direction side"
  shows "row_ok G side' row"
proof -
  obtain k where k: "dist side (fst row) = Some k" "k \<le> pd_depth side" "\<forall>m \<in> set (snd row). \<exists>j \<le> Suc k. dist side m = Some j"
    using assms(1) by (auto simp: row_ok_def)
  then have "dist side' (fst row) = Some k" "k \<le> pd_depth side'" "\<forall>m \<in> set (snd row). \<exists>j \<le> Suc k. dist side' m = Some j"
    using assms(2,3) by (blast, linarith, blast)
  then show ?thesis using assms(1,4) unfolding row_ok_def side_rel_def by auto
qed

definition reads_ok :: "(string \<times> string) set \<Rightarrow> path_side \<Rightarrow> bool" where
  "reads_ok G side \<longleftrightarrow>
     (\<forall>row \<in> set (pd_read side). row_ok G side row)
     \<and> (\<forall>n k. dist side n = Some k \<and> k < pd_depth side \<longrightarrow> n \<in> fst ` set (pd_read side))"

definition meets :: "path_side \<Rightarrow> path_side \<Rightarrow> bool" where
  "meets side other \<longleftrightarrow> (\<exists>n. dist side n \<noteq> None \<and> dist other n \<noteq> None)"

definition mid_inv :: "(string \<times> string) set \<Rightarrow> string \<Rightarrow> path_side \<Rightarrow> level_state \<Rightarrow> bool" where
  "mid_inv G start other st \<longleftrightarrow>
     core G start (lv_side st) (lv_next st) \<and> reads_ok G (lv_side st) \<and> (lv_met st \<longleftrightarrow> meets (lv_side st) other)"

text \<open>How one state of a level follows another.\<close>

definition later :: "level_state \<Rightarrow> level_state \<Rightarrow> bool" where
  "later st st' \<longleftrightarrow>
     pd_depth (lv_side st') = pd_depth (lv_side st) \<and> pd_direction (lv_side st') = pd_direction (lv_side st)
     \<and> (\<forall>n k. dist (lv_side st) n = Some k \<longrightarrow> dist (lv_side st') n = Some k)
     \<and> (\<forall>n k. dist (lv_side st') n = Some k \<longrightarrow> dist (lv_side st) n = Some k \<or> k = Suc (pd_depth (lv_side st)))
     \<and> set (pd_read (lv_side st)) \<subseteq> set (pd_read (lv_side st'))"

lemma later_refl [simp]: "later st st"
  by (simp add: later_def)

lemma later_trans: "later a b \<Longrightarrow> later b c \<Longrightarrow> later a c"
  unfolding later_def by (metis subset_trans)

lemma take_neighbour_sel [simp]:
  "pd_depth (lv_side (take_neighbour fresh n st)) = pd_depth (lv_side st)"
  "pd_direction (lv_side (take_neighbour fresh n st)) = pd_direction (lv_side st)"
  "pd_read (lv_side (take_neighbour fresh n st)) = pd_read (lv_side st)"
  "lv_next (take_neighbour fresh n st) = lv_next st @ [n]"
  "lv_met (take_neighbour fresh n st) = (lv_met st \<or> \<not> fresh)"
  by (simp_all add: take_neighbour_def)

lemma dist_take:
  "bmap_ok (pd_distance (lv_side st)) \<Longrightarrow> dist (lv_side (take_neighbour fresh n st)) m
     = (if m = n then Some (Suc (pd_depth (lv_side st))) else dist (lv_side st) m)"
  by (simp add: dist_def take_neighbour_def bmap_get_insert)

lemma take_neighbour_inv:
  assumes inv: "mid_inv G start other st" and new: "dist (lv_side st) n = None"
    and edge: "dist (lv_side st) node = Some (pd_depth (lv_side st))" "(node, n) \<in> side_rel G (lv_side st)"
  shows "mid_inv G start other (take_neighbour (dist other n = None) n st)"
    and "later st (take_neighbour (dist other n = None) n st)"
proof -
  let ?st = "take_neighbour (dist other n = None) n st"
  have ok: "bmap_ok (pd_distance (lv_side st))" and start: "dist (lv_side st) start = Some 0"
    and walks: "\<And>m k. dist (lv_side st) m = Some k \<Longrightarrow> k \<le> Suc (pd_depth (lv_side st)) \<and> (start, m) \<in> side_rel G (lv_side st) ^^ k"
    and next_eq: "set (lv_next st) = {m. dist (lv_side st) m = Some (Suc (pd_depth (lv_side st)))}"
    and reads: "reads_ok G (lv_side st)" and met: "lv_met st \<longleftrightarrow> meets (lv_side st) other"
    using inv by (auto simp: mid_inv_def core_def)
  note d = dist_take [OF ok, of "dist other n = None" n]
  have rel: "side_rel G (lv_side ?st) = side_rel G (lv_side st)" by (simp add: side_rel_def)
  have "(start, n) \<in> side_rel G (lv_side st) ^^ Suc (pd_depth (lv_side st))"
    using walks [OF edge(1)] edge(2) by auto
  then have reach: "(start, n) \<in> side_rel G (lv_side st) ^^ Suc (pd_depth (lv_side st))" .
  have "bmap_ok (pd_distance (lv_side ?st))" using ok by (simp add: take_neighbour_def)
  moreover have "dist (lv_side ?st) start = Some 0" using start new by (auto simp: d)
  moreover have "k \<le> Suc (pd_depth (lv_side ?st)) \<and> (start, m) \<in> side_rel G (lv_side ?st) ^^ k"
    if "dist (lv_side ?st) m = Some k" for m k
  proof (cases "m = n")
    case True
    then show ?thesis using that reach by (simp add: d rel del: relpow.simps)
  next
    case False
    then show ?thesis using that walks by (simp add: d rel)
  qed
  moreover have "set (lv_next ?st) = {m. dist (lv_side ?st) m = Some (Suc (pd_depth (lv_side ?st)))}"
    using next_eq by (auto simp: d)
  ultimately have "core G start (lv_side ?st) (lv_next ?st)" by (simp add: core_def)
  moreover have kept: "dist (lv_side ?st) m = Some k" if "dist (lv_side st) m = Some k" for m k
    using that new by (auto simp: d)
  have "reads_ok G (lv_side ?st)"
    unfolding reads_ok_def
  proof (intro conjI ballI allI impI)
    fix row assume "row \<in> set (pd_read (lv_side ?st))"
    then have "row_ok G (lv_side st) row" using reads by (simp add: reads_ok_def)
    then show "row_ok G (lv_side ?st) row" by (rule row_ok_mono) (simp_all add: kept)
  next
    fix m k assume "dist (lv_side ?st) m = Some k \<and> k < pd_depth (lv_side ?st)"
    then show "m \<in> fst ` set (pd_read (lv_side ?st))"
      using reads unfolding reads_ok_def by (auto simp: d split: if_splits)
  qed
  moreover have "lv_met ?st \<longleftrightarrow> meets (lv_side ?st) other"
    using met new by (auto simp: meets_def d)
  ultimately show "mid_inv G start other ?st" by (simp add: mid_inv_def)
  show "later st ?st" using kept by (simp add: later_def d)
qed

lemma set_stop_sel [simp]:
  "lv_side (set_stop x st) = lv_side st" "lv_next (set_stop x st) = lv_next st" "lv_met (set_stop x st) = lv_met st"
  "lv_result (set_stop x st) = (lv_result st)\<lparr>cp_stop := x\<rparr>" "lv_states (set_stop x st) = lv_states st"
  by (simp_all add: set_stop_def)

lemma knows_dist: "knows side n \<longleftrightarrow> dist side n \<noteq> None"
  by (simp add: knows_def dist_def)

lemma side_visit_inv:
  assumes "visit_neighbours limits other ns st = (stopped, st')" and "mid_inv G start other st"
    and "dist (lv_side st) node = Some (pd_depth (lv_side st))" and "set ns \<subseteq> side_rel G (lv_side st) `` {node}"
  shows "mid_inv G start other st' \<and> later st st' \<and> pd_read (lv_side st') = pd_read (lv_side st)
    \<and> (\<not> stopped \<longrightarrow> (\<forall>n \<in> set ns. dist (lv_side st') n \<noteq> None))
    \<and> (stopped \<longrightarrow> cp_stop (lv_result st') \<in> {NodeBudget, StateBudget})"
  using assms
proof (induction ns arbitrary: st)
  case (Cons n ns)
  show ?case
  proof (cases "dist (lv_side st) n")
    case (Some k)
    have v: "visit_neighbours limits other ns st = (stopped, st')"
      using Cons.prems(1) Some by (simp add: knows_dist)
    have "set ns \<subseteq> side_rel G (lv_side st) `` {node}" using Cons.prems(4) by simp
    from Cons.IH [OF v Cons.prems(2,3) this] Some show ?thesis by (auto simp: later_def)
  next
    case None
    let ?fresh = "dist other n = None"
    have fresh: "(\<not> knows other n) = ?fresh" by (simp add: knows_dist)
    have edge: "(node, n) \<in> side_rel G (lv_side st)" using Cons.prems(4) by auto
    note t = take_neighbour_inv [OF Cons.prems(2) None Cons.prems(3) edge]
    show ?thesis
    proof (cases "(?fresh \<and> unat (tl_nodes limits) \<le> cp_discovered_nodes (lv_result st)) \<or> unat (tl_states limits) \<le> lv_states st")
      case True
      then have "stopped \<and> (st' = set_stop NodeBudget st \<or> st' = set_stop StateBudget st)"
        using Cons.prems(1) None fresh by (simp add: knows_dist Let_def split: if_splits)
      then show ?thesis using Cons.prems(2) by (elim conjE disjE) (simp_all add: mid_inv_def later_def)
    next
      case False
      have v: "visit_neighbours limits other ns (take_neighbour ?fresh n st) = (stopped, st')"
        using Cons.prems(1) None False fresh by (auto simp: knows_dist Let_def)
      have node': "dist (lv_side (take_neighbour ?fresh n st)) node = Some (pd_depth (lv_side (take_neighbour ?fresh n st)))"
        using t(2) Cons.prems(3) by (simp add: later_def)
      have ns': "set ns \<subseteq> side_rel G (lv_side (take_neighbour ?fresh n st)) `` {node}"
        using Cons.prems(4) by (simp add: side_rel_def)
      have ih: "mid_inv G start other st' \<and> later (take_neighbour ?fresh n st) st'
          \<and> pd_read (lv_side st') = pd_read (lv_side (take_neighbour ?fresh n st))
          \<and> (\<not> stopped \<longrightarrow> (\<forall>n \<in> set ns. dist (lv_side st') n \<noteq> None))
          \<and> (stopped \<longrightarrow> cp_stop (lv_result st') \<in> {NodeBudget, StateBudget})"
        by (rule Cons.IH [OF v t(1) node' ns'])
      then have lt: "later (take_neighbour ?fresh n st) st'" by blast
      obtain k where "dist (lv_side (take_neighbour ?fresh n st)) n = Some k"
        using Cons.prems(2) by (auto simp: dist_take mid_inv_def core_def)
      then have "dist (lv_side st') n \<noteq> None" using lt by (auto simp: later_def)
      then show ?thesis using ih later_trans [OF t(2) lt] by simp
    qed
  qed
qed simp

subsection \<open>A level\<close>

lemma mid_inv_result:
  "mid_inv G start other (st\<lparr>lv_result := r\<rparr>) = mid_inv G start other st"
  "later st (st\<lparr>lv_result := r\<rparr>)" "later (st\<lparr>lv_result := r\<rparr>) st' = later st st'"
  by (simp_all add: mid_inv_def later_def)

definition add_row :: "string \<Rightarrow> string list \<Rightarrow> level_state \<Rightarrow> level_state" where
  "add_row node ns st = st\<lparr>lv_side := (lv_side st)\<lparr>pd_read := pd_read (lv_side st) @ [(node, ns)]\<rparr>\<rparr>"

lemma add_row_inv:
  assumes "mid_inv G start other st" and "dist (lv_side st) node = Some (pd_depth (lv_side st))"
    and "set ns = side_rel G (lv_side st) `` {node}" and "\<forall>n \<in> set ns. dist (lv_side st) n \<noteq> None"
  shows "mid_inv G start other (add_row node ns st)" and "later st (add_row node ns st)"
    and "(node, ns) \<in> set (pd_read (lv_side (add_row node ns st)))"
proof -
  have d: "dist (lv_side (add_row node ns st)) n = dist (lv_side st) n" for n by (simp add: add_row_def dist_def)
  have dep: "pd_depth (lv_side (add_row node ns st)) = pd_depth (lv_side st)"
    "pd_direction (lv_side (add_row node ns st)) = pd_direction (lv_side st)"
    "pd_distance (lv_side (add_row node ns st)) = pd_distance (lv_side st)"
    "pd_read (lv_side (add_row node ns st)) = pd_read (lv_side st) @ [(node, ns)]"
    "lv_next (add_row node ns st) = lv_next st" "lv_met (add_row node ns st) = lv_met st"
    by (simp_all add: add_row_def)
  have c: "core G start (lv_side st) (lv_next st)" and r: "reads_ok G (lv_side st)"
    and m: "lv_met st \<longleftrightarrow> meets (lv_side st) other"
    using assms(1) by (simp_all add: mid_inv_def)
  have bound: "\<And>n k. dist (lv_side st) n = Some k \<Longrightarrow> k \<le> Suc (pd_depth (lv_side st))"
    using c by (simp add: core_def)
  have "\<forall>m \<in> set ns. \<exists>j \<le> Suc (pd_depth (lv_side st)). dist (lv_side st) m = Some j"
    using assms(4) bound by fast
  then have row: "row_ok G (lv_side st) (node, ns)" using assms(2,3) by (simp add: row_ok_def)
  have "row_ok G (lv_side (add_row node ns st)) row" if "row \<in> set (pd_read (lv_side (add_row node ns st)))" for row
  proof -
    have "row_ok G (lv_side st) row" using that row r by (auto simp: dep reads_ok_def)
    then show ?thesis by (rule row_ok_mono) (simp_all add: d dep)
  qed
  moreover have "n \<in> fst ` set (pd_read (lv_side (add_row node ns st)))"
    if "dist (lv_side (add_row node ns st)) n = Some k \<and> k < pd_depth (lv_side (add_row node ns st))" for n k
    using that r by (auto simp: d dep reads_ok_def)
  ultimately have "reads_ok G (lv_side (add_row node ns st))" unfolding reads_ok_def by blast
  then show "mid_inv G start other (add_row node ns st)"
    using c m by (simp add: mid_inv_def core_def meets_def d dep side_rel_def)
  show "later st (add_row node ns st)" by (auto simp: later_def d dep)
  show "(node, ns) \<in> set (pd_read (lv_side (add_row node ns st)))" by (simp add: dep)
qed

lemma expand_inv:
  assumes "reads_graph neighbor_ids G" and "unat (tl_edges limits) < 2 ^ 32 - 1"
    and "expand_level neighbor_ids limits other level st = Inr (stopped, st')" and "mid_inv G start other st"
    and "\<forall>n \<in> set level. dist (lv_side st) n = Some (pd_depth (lv_side st))"
  shows "mid_inv G start other st' \<and> later st st'
    \<and> (\<not> stopped \<longrightarrow> set level \<subseteq> fst ` set (pd_read (lv_side st')))
    \<and> (stopped \<longrightarrow> cp_stop (lv_result st') \<in> {NodeBudget, EdgeBudget, StateBudget})"
  using assms(3-)
proof (induction level arbitrary: st)
  case (Cons node level)
  let ?r = "unat (tl_edges limits) - cp_scanned_edges (lv_result st)"
  obtain ns where ns: "neighbor_ids node (pd_direction (lv_side st)) (row_limit ?r) = Inr ns"
    using Cons.prems by (auto simp: try_bind_Inr_iff Let_def)
  have node: "dist (lv_side st) node = Some (pd_depth (lv_side st))" using Cons.prems(3) by simp
  show ?case
  proof (cases "?r < length ns")
    case True
    then have "stopped \<and> st' = set_stop EdgeBudget (st\<lparr>lv_result := (lv_result st)
        \<lparr>cp_expanded_nodes := cp_expanded_nodes (lv_result st) + 1, cp_scanned_edges := unat (tl_edges limits)\<rparr>\<rparr>)"
      using Cons.prems(1) ns by (simp add: Let_def)
    then show ?thesis using Cons.prems(2)
      by (elim conjE) (simp add: set_stop_def mid_inv_result)
  next
    case False
    have complete: "set ns = side_rel G (lv_side st) `` {node}"
      using row_limit_complete [OF assms(1) ns] False assms(2) by (simp add: side_rel_def)
    let ?st1 = "st\<lparr>lv_result := (lv_result st)\<lparr>cp_expanded_nodes := cp_expanded_nodes (lv_result st) + 1,
           cp_scanned_edges := cp_scanned_edges (lv_result st) + length ns\<rparr>\<rparr>"
    obtain b st2 where v: "visit_neighbours limits other ns ?st1 = (b, st2)" by (meson surj_pair)
    have inv1: "mid_inv G start other ?st1" using Cons.prems(2) by (simp add: mid_inv_result)
    have "mid_inv G start other st2 \<and> later ?st1 st2 \<and> pd_read (lv_side st2) = pd_read (lv_side ?st1)
      \<and> (\<not> b \<longrightarrow> (\<forall>n \<in> set ns. dist (lv_side st2) n \<noteq> None))
      \<and> (b \<longrightarrow> cp_stop (lv_result st2) \<in> {NodeBudget, StateBudget})"
      by (rule side_visit_inv [OF v inv1, of node]) (use node complete in simp_all)
    then have v': "mid_inv G start other st2" "later st st2" "\<not> b \<Longrightarrow> \<forall>n \<in> set ns. dist (lv_side st2) n \<noteq> None"
      "b \<Longrightarrow> cp_stop (lv_result st2) \<in> {NodeBudget, StateBudget}"
      by (simp_all add: mid_inv_result)
    show ?thesis
    proof (cases b)
      case True
      then have "stopped \<and> st' = st2" using Cons.prems(1) ns False v by (simp add: Let_def)
      then show ?thesis using v' True by auto
    next
      case go: False
      have e: "expand_level neighbor_ids limits other level (add_row node ns st2) = Inr (stopped, st')"
        using Cons.prems(1) ns False v go by (simp add: Let_def add_row_def)
      have node2: "dist (lv_side st2) node = Some (pd_depth (lv_side st2))"
        using v'(2) node by (simp add: later_def)
      have complete2: "set ns = side_rel G (lv_side st2) `` {node}"
        using v'(2) complete by (simp add: later_def side_rel_def)
      note row = add_row_inv [OF v'(1) node2 complete2 v'(3) [OF go]]
      have later2: "later st (add_row node ns st2)" using later_trans [OF v'(2) row(2)] .
      have "\<forall>n \<in> set level. dist (lv_side (add_row node ns st2)) n = Some (pd_depth (lv_side (add_row node ns st2)))"
        using later2 Cons.prems(3) by (simp add: later_def)
      from Cons.IH [OF e row(1) this]
      have ih: "mid_inv G start other st'" "later (add_row node ns st2) st'"
        "\<not> stopped \<longrightarrow> set level \<subseteq> fst ` set (pd_read (lv_side st'))"
        "stopped \<longrightarrow> cp_stop (lv_result st') \<in> {NodeBudget, EdgeBudget, StateBudget}" by blast+
      have "(node, ns) \<in> set (pd_read (lv_side st'))" using row(3) ih(2) unfolding later_def by blast
      then have "node \<in> fst ` set (pd_read (lv_side st'))" by (metis fst_conv imageI)
      then show ?thesis using ih later_trans [OF later2 ih(2)] by simp
    qed
  qed
qed simp

subsection \<open>The levels\<close>

definition level_ok :: "(string \<times> string) set \<Rightarrow> string \<Rightarrow> path_side \<Rightarrow> bool" where
  "level_ok G start side \<longleftrightarrow>
     bmap_ok (pd_distance side) \<and> dist side start = Some 0
     \<and> (\<forall>n k. dist side n = Some k \<longrightarrow> k \<le> pd_depth side \<and> (start, n) \<in> side_rel G side ^^ k)
     \<and> set (pd_frontier side) = {n. dist side n = Some (pd_depth side)} \<and> reads_ok G side"

text \<open>Everything within the depth is known, no further than it is.\<close>

lemma level_complete:
  assumes "level_ok G start side"
  shows "(start, n) \<in> side_rel G side ^^ j \<Longrightarrow> j \<le> pd_depth side \<Longrightarrow> \<exists>k \<le> j. dist side n = Some k"
proof (induction j arbitrary: n)
  case 0
  then show ?case using assms by (simp add: level_ok_def)
next
  case (Suc j)
  then obtain m where m: "(start, m) \<in> side_rel G side ^^ j" "(m, n) \<in> side_rel G side" by auto
  then obtain k where k: "k \<le> j" "dist side m = Some k" using Suc by (meson Suc_leD)
  have "m \<in> fst ` set (pd_read side)" using assms k Suc.prems(2) by (simp add: level_ok_def reads_ok_def)
  then obtain row where row: "row \<in> set (pd_read side)" "fst row = m" by auto
  then have "row_ok G side row" using assms by (simp add: level_ok_def reads_ok_def)
  then have "n \<in> set (snd row)" "\<forall>m \<in> set (snd row). \<exists>j \<le> Suc k. dist side m = Some j"
    using m(2) row(2) k(2) by (auto simp: row_ok_def)
  then show ?case using k(1) by (meson Suc_le_mono le_trans)
qed

lemma level_exhausted:
  assumes "level_ok G start side" and "pd_frontier side = []"
  shows "(start, n) \<in> (side_rel G side)\<^sup>* \<Longrightarrow> dist side n \<noteq> None"
proof (induction rule: rtrancl_induct)
  case base
  then show ?case using assms by (simp add: level_ok_def)
next
  case (step m n)
  then obtain k where k: "dist side m = Some k" by blast
  moreover have "k \<noteq> pd_depth side" using k assms by (auto simp: level_ok_def)
  ultimately have "k < pd_depth side" using assms by (auto simp: level_ok_def order_le_less)
  then have "m \<in> fst ` set (pd_read side)" using assms k by (simp add: level_ok_def reads_ok_def)
  then obtain row where row: "row \<in> set (pd_read side)" "fst row = m" by auto
  then have "row_ok G side row" using assms by (simp add: level_ok_def reads_ok_def)
  then show ?case using step.hyps(2) row(2) by (auto simp: row_ok_def)
qed

lemma begin_inv:
  assumes "level_ok G start side" and "met \<longleftrightarrow> meets side other"
  shows "mid_inv G start other \<lparr>lv_side = side\<lparr>pd_frontier := []\<rparr>, lv_next = [], lv_states = n, lv_met = met, lv_result = r\<rparr>"
proof -
  have "dist (side\<lparr>pd_frontier := []\<rparr>) n = dist side n" for n by (simp add: dist_def)
  moreover have "row_ok G (side\<lparr>pd_frontier := []\<rparr>) = row_ok G side"
    by (rule ext) (simp add: row_ok_def side_rel_def dist_def)
  moreover have "dist side n \<noteq> Some (Suc (pd_depth side))" for n
    using assms(1) by (fastforce simp: level_ok_def)
  ultimately show ?thesis
    using assms by (fastforce simp: mid_inv_def core_def level_ok_def reads_ok_def side_rel_def meets_def)
qed

lemma end_inv:
  assumes "mid_inv G start other st'" and "later st st'"
    and "{n. dist (lv_side st) n = Some (pd_depth (lv_side st))} \<subseteq> fst ` set (pd_read (lv_side st'))"
  shows "level_ok G start (lv_side (end_level st'))" and "lv_met st' \<longleftrightarrow> meets (lv_side (end_level st')) other"
proof -
  have d: "dist (lv_side (end_level st')) n = dist (lv_side st') n" for n by (simp add: end_level_def dist_def)
  have sel: "pd_depth (lv_side (end_level st')) = Suc (pd_depth (lv_side st'))"
    "pd_direction (lv_side (end_level st')) = pd_direction (lv_side st')"
    "pd_read (lv_side (end_level st')) = pd_read (lv_side st')"
    "pd_frontier (lv_side (end_level st')) = lv_next st'"
    "pd_distance (lv_side (end_level st')) = pd_distance (lv_side st')" by (simp_all add: end_level_def)
  have r: "reads_ok G (lv_side st')" and c: "core G start (lv_side st') (lv_next st')"
    using assms(1) by (simp_all add: mid_inv_def)
  have "row_ok G (lv_side (end_level st')) row" if "row \<in> set (pd_read (lv_side st'))" for row
  proof -
    have "row_ok G (lv_side st') row" using r that by (simp add: reads_ok_def)
    then show ?thesis by (rule row_ok_mono) (simp_all add: d sel)
  qed
  moreover have "n \<in> fst ` set (pd_read (lv_side st'))" if "dist (lv_side st') n = Some k" "k \<le> pd_depth (lv_side st')" for n k
  proof (cases "k < pd_depth (lv_side st')")
    case True
    then show ?thesis using r that by (simp add: reads_ok_def)
  next
    case False
    then have "dist (lv_side st) n = Some (pd_depth (lv_side st))"
      using assms(2) that unfolding later_def by (metis Suc_n_not_le_n le_antisym not_less)
    then show ?thesis using assms(3) by blast
  qed
  ultimately have "reads_ok G (lv_side (end_level st'))" by (simp add: reads_ok_def d sel less_Suc_eq_le)
  then show "level_ok G start (lv_side (end_level st'))"
    using c by (simp add: level_ok_def core_def d sel side_rel_def)
  show "lv_met st' \<longleftrightarrow> meets (lv_side (end_level st')) other"
    using assms(1) by (simp add: mid_inv_def meets_def d)
qed

subsection \<open>Both sides\<close>

definition search_ok :: "(string \<times> string) set \<Rightarrow> string \<Rightarrow> string \<Rightarrow> search_state \<Rightarrow> bool" where
  "search_ok G root target s \<longleftrightarrow>
     pd_direction (ss_forward s) = Outgoing \<and> pd_direction (ss_backward s) = Incoming
     \<and> level_ok G root (ss_forward s) \<and> level_ok G target (ss_backward s)
     \<and> (ss_met s \<longleftrightarrow> meets (ss_forward s) (ss_backward s))"

lemma meets_commute: "meets a b = meets b a"
  by (auto simp: meets_def)

lemma relpow_split_le:
  assumes "(a, b) \<in> R ^^ k" and "i \<le> k"
  obtains c where "(a, c) \<in> R ^^ i" "(c, b) \<in> R ^^ (k - i)"
proof -
  have "(a, b) \<in> R ^^ (i + (k - i))" using assms by simp
  then show thesis using that unfolding relpow_add by blast
qed

lemma not_met_far:
  assumes ok: "search_ok G root target s" and no: "\<not> ss_met s" and path: "(root, target) \<in> G ^^ k"
  shows "pd_depth (ss_forward s) + pd_depth (ss_backward s) < k"
proof (rule ccontr)
  let ?f = "pd_depth (ss_forward s)" and ?b = "pd_depth (ss_backward s)"
  assume "\<not> ?f + ?b < k"
  then have le: "k - min k ?f \<le> ?b" by auto
  obtain c where c: "(root, c) \<in> G ^^ min k ?f" "(c, target) \<in> G ^^ (k - min k ?f)"
    using relpow_split_le [OF path, of "min k ?f"] by auto
  have "(root, c) \<in> side_rel G (ss_forward s) ^^ min k ?f"
    using c(1) ok by (simp add: side_rel_def rel_of_def search_ok_def)
  then have "dist (ss_forward s) c \<noteq> None"
    using level_complete [of G root "ss_forward s" c "min k ?f"] ok by (auto simp: search_ok_def)
  moreover have "(target, c) \<in> side_rel G (ss_backward s) ^^ (k - min k ?f)"
    using c(2) ok by (simp add: side_rel_def rel_of_def search_ok_def converse_relpow)
  then have "dist (ss_backward s) c \<noteq> None"
    using level_complete [of G target "ss_backward s" c "k - min k ?f"] ok le by (auto simp: search_ok_def)
  ultimately have "meets (ss_forward s) (ss_backward s)" unfolding meets_def by blast
  then show False using ok no by (simp add: search_ok_def)
qed

lemma exhausted_unreachable:
  assumes ok: "search_ok G root target s" and no: "\<not> ss_met s"
    and e: "pd_frontier (ss_forward s) = [] \<or> pd_frontier (ss_backward s) = []"
  shows "(root, target) \<notin> G\<^sup>*"
proof
  assume path: "(root, target) \<in> G\<^sup>*"
  have start: "dist (ss_forward s) root \<noteq> None" "dist (ss_backward s) target \<noteq> None"
    using ok by (simp_all add: search_ok_def level_ok_def)
  have no_common: "\<not> (dist (ss_forward s) n \<noteq> None \<and> dist (ss_backward s) n \<noteq> None)" for n
    using ok no by (auto simp: search_ok_def meets_def)
  from e show False
  proof
    assume "pd_frontier (ss_forward s) = []"
    moreover have "(root, target) \<in> (side_rel G (ss_forward s))\<^sup>*"
      using path ok by (simp add: side_rel_def rel_of_def search_ok_def)
    ultimately have "dist (ss_forward s) target \<noteq> None"
      using level_exhausted ok unfolding search_ok_def by metis
    then show False using no_common start by blast
  next
    assume "pd_frontier (ss_backward s) = []"
    moreover have "(target, root) \<in> (side_rel G (ss_backward s))\<^sup>*"
      using path ok by (simp add: side_rel_def rel_of_def search_ok_def rtrancl_converse)
    ultimately have "dist (ss_backward s) root \<noteq> None"
      using level_exhausted ok unfolding search_ok_def by metis
    then show False using no_common start by blast
  qed
qed

definition rows_sound :: "(string \<times> string) set \<Rightarrow> path_side \<Rightarrow> bool" where
  "rows_sound G side \<longleftrightarrow> (\<forall>row \<in> set (pd_read side). set (snd row) \<subseteq> side_rel G side `` {fst row})"

definition outcome_ok :: "(string \<times> string) set \<Rightarrow> string \<Rightarrow> string \<Rightarrow> search_state \<Rightarrow> bool" where
  "outcome_ok G root target s \<longleftrightarrow>
     pd_direction (ss_forward s) = Outgoing \<and> pd_direction (ss_backward s) = Incoming
     \<and> rows_sound G (ss_forward s) \<and> rows_sound G (ss_backward s)
     \<and> cp_stop (ss_result s) \<noteq> SourceOutsideSelection
     \<and> (cp_stop (ss_result s) = FrontierExhausted \<longrightarrow> \<not> ss_met s \<and> (root, target) \<notin> G\<^sup>*)
     \<and> (cp_stop (ss_result s) = TargetsReached \<longrightarrow> ss_met s \<and> search_ok G root target s
          \<and> (\<forall>k. (root, target) \<in> G ^^ k \<longrightarrow> pd_depth (ss_forward s) + pd_depth (ss_backward s) \<le> k))"

lemma reads_rows: "reads_ok G side \<Longrightarrow> rows_sound G side"
  by (simp add: reads_ok_def rows_sound_def row_ok_def)

lemma search_ok_rows: "search_ok G root target s \<Longrightarrow> rows_sound G (ss_forward s) \<and> rows_sound G (ss_backward s)"
  by (simp add: search_ok_def level_ok_def reads_rows)

definition start_of :: "string \<Rightarrow> string \<Rightarrow> search_state \<Rightarrow> string" where
  "start_of root target s = (if forward_turn s then root else target)"

lemma search_ok_sides:
  assumes "search_ok G root target s"
  shows "level_ok G (start_of root target s) (this_side s)" and "level_ok G (start_of target root s) (other_side s)"
    and "ss_met s \<longleftrightarrow> meets (this_side s) (other_side s)"
  using assms meets_commute [of "ss_forward s"] by (auto simp: search_ok_def start_of_def this_side_def other_side_def)

lemma put_level_sel:
  "forward_turn s \<Longrightarrow> ss_forward (put_level s st) = lv_side st" "forward_turn s \<Longrightarrow> ss_backward (put_level s st) = ss_backward s"
  "\<not> forward_turn s \<Longrightarrow> ss_backward (put_level s st) = lv_side st" "\<not> forward_turn s \<Longrightarrow> ss_forward (put_level s st) = ss_forward s"
  "ss_met (put_level s st) = lv_met st" "ss_result (put_level s st) = lv_result st"
  by (simp_all add: put_level_def)

lemma level_step:
  assumes "reads_graph neighbor_ids G" and "unat (tl_edges limits) < 2 ^ 32 - 1" and ok: "search_ok G root target s"
    and e: "expand_level neighbor_ids limits (other_side s) (pd_frontier (this_side s)) (begin_level s) = Inr (stopped, st)"
  shows "stopped \<Longrightarrow> outcome_ok G root target (put_level s st)"
    and "\<not> stopped \<Longrightarrow> search_ok G root target (put_level s (end_level st))
      \<and> pd_depth (ss_forward (put_level s (end_level st))) + pd_depth (ss_backward (put_level s (end_level st)))
          = Suc (pd_depth (ss_forward s) + pd_depth (ss_backward s))"
proof -
  let ?start = "start_of root target s"
  note sides = search_ok_sides [OF ok]
  have begin_i: "mid_inv G ?start (other_side s) (begin_level s)"
    unfolding begin_level_def by (rule begin_inv [OF sides(1,3)])
  have f: "set (pd_frontier (this_side s)) = {n. dist (lv_side (begin_level s)) n = Some (pd_depth (lv_side (begin_level s)))}"
    using sides(1) by (simp add: level_ok_def begin_level_def dist_def)
  have x: "mid_inv G ?start (other_side s) st" "later (begin_level s) st"
    "\<not> stopped \<Longrightarrow> set (pd_frontier (this_side s)) \<subseteq> fst ` set (pd_read (lv_side st))"
    "stopped \<Longrightarrow> cp_stop (lv_result st) \<in> {NodeBudget, EdgeBudget, StateBudget}"
    using expand_inv [OF assms(1,2) e begin_i] f by simp_all
  have dir: "pd_direction (lv_side st) = pd_direction (this_side s)" "pd_depth (lv_side st) = pd_depth (this_side s)"
    using x(2) by (simp_all add: later_def begin_level_def)
  show "outcome_ok G root target (put_level s st)" if "stopped"
  proof -
    have "rows_sound G (lv_side st)" using x(1) by (simp add: mid_inv_def reads_rows)
    then show ?thesis using x(4) [OF that] search_ok_rows [OF ok] ok dir
      by (cases "forward_turn s") (auto simp: outcome_ok_def put_level_sel search_ok_def this_side_def)
  qed
  show "search_ok G root target (put_level s (end_level st))
      \<and> pd_depth (ss_forward (put_level s (end_level st))) + pd_depth (ss_backward (put_level s (end_level st)))
          = Suc (pd_depth (ss_forward s) + pd_depth (ss_backward s))" if "\<not> stopped"
  proof -
    note ended = end_inv [OF x(1,2)] x(3) [OF that, unfolded f]
    have lo: "level_ok G ?start (lv_side (end_level st))" "lv_met st \<longleftrightarrow> meets (lv_side (end_level st)) (other_side s)"
      using end_inv [OF x(1,2) x(3) [OF that, unfolded f]] by simp_all
    have sel: "pd_direction (lv_side (end_level st)) = pd_direction (this_side s)"
      "pd_depth (lv_side (end_level st)) = Suc (pd_depth (this_side s))" "lv_met (end_level st) = lv_met st"
      using dir by (simp_all add: end_level_def)
    show ?thesis
      using lo sel ok meets_commute [of "ss_forward s"]
      by (cases "forward_turn s") (simp_all add: search_ok_def put_level_sel this_side_def other_side_def start_of_def)
  qed
qed

lemma search_loop_outcome:
  assumes "reads_graph neighbor_ids G" and "unat (tl_edges limits) < 2 ^ 32 - 1"
  shows "search_ok G root target s \<Longrightarrow> \<not> ss_met s \<Longrightarrow> search_loop neighbor_ids limits s = Inr s' \<Longrightarrow> outcome_ok G root target s'"
  using assms
proof (induction neighbor_ids limits s rule: search_loop.induct)
  case (1 neighbor_ids limits s)
  note ok = "1.prems"(1) and no = "1.prems"(2)
  show ?case
  proof (cases "pd_frontier (ss_forward s) = [] \<or> pd_frontier (ss_backward s) = []")
    case True
    then have "s' = stop_search FrontierExhausted s"
      using "1.prems"(3) by (subst (asm) search_loop.simps) simp
    then show ?thesis using exhausted_unreachable [OF ok no True] ok no search_ok_rows [OF ok]
      by (simp add: outcome_ok_def stop_search_def search_ok_def)
  next
    case go: False
    show ?thesis
    proof (cases "unat (tl_depth limits) < pd_depth (ss_forward s) + pd_depth (ss_backward s) + 1")
      case True
      then have "s' = stop_search DepthBudget s"
        using "1.prems"(3) go by (subst (asm) search_loop.simps) simp
      then show ?thesis using ok search_ok_rows [OF ok] by (simp add: outcome_ok_def stop_search_def search_ok_def)
    next
      case deep: False
      let ?e = "expand_level neighbor_ids limits (other_side s) (pd_frontier (this_side s)) (begin_level s)"
      have unfold: "search_loop neighbor_ids limits s = (case ?e of
           Inl e \<Rightarrow> Inl e
         | Inr (stopped, st) \<Rightarrow>
             if stopped then Inr (put_level s st)
             else if lv_met st then Inr (stop_search TargetsReached (put_level s (end_level st)))
             else search_loop neighbor_ids limits (put_level s (end_level st)))"
        using go deep by (subst search_loop.simps) simp
      then obtain stopped st where e: "?e = Inr (stopped, st)"
        using "1.prems"(3) by (cases ?e) auto
      note step = level_step [OF "1.prems"(4,5) ok e]
      show ?thesis
      proof (cases stopped)
        case True
        then show ?thesis using step(1) "1.prems"(3) unfold e by simp
      next
        case on: False
        let ?s = "put_level s (end_level st)"
        have next_ok: "search_ok G root target ?s"
          "pd_depth (ss_forward ?s) + pd_depth (ss_backward ?s) = Suc (pd_depth (ss_forward s) + pd_depth (ss_backward s))"
          using step(2) [OF on] by simp_all
        have met: "ss_met ?s = lv_met st" by (simp add: put_level_def end_level_def)
        show ?thesis
        proof (cases "lv_met st")
          case True
          then have "s' = stop_search TargetsReached ?s" using "1.prems"(3) unfold e on by simp
          moreover have "search_ok G root target (stop_search TargetsReached ?s)"
            using next_ok(1) by (simp add: search_ok_def stop_search_def)
          moreover have "pd_depth (ss_forward ?s) + pd_depth (ss_backward ?s) \<le> k" if "(root, target) \<in> G ^^ k" for k
            using not_met_far [OF ok no that] next_ok(2) by simp
          ultimately show ?thesis
            using True met next_ok(1) search_ok_rows [OF next_ok(1)]
            by (simp add: outcome_ok_def stop_search_def search_ok_def)
        next
          case False
          have l: "search_loop neighbor_ids limits ?s = Inr s'" using "1.prems"(3) unfold e on False by simp
          have "\<not> ss_met ?s" using False met by simp
          with "1.IH" [OF go deep e refl on False next_ok(1)] l "1.prems"(4,5) show ?thesis by blast
        qed
      qed
    qed
  qed
qed

lemma search_start_ok:
  assumes "root \<noteq> target"
  shows "search_ok G root target (search_start root target)" and "\<not> ss_met (search_start root target)"
proof -
  have d: "dist (path_side_new a dir) n = (if n = a then Some 0 else None)" for a dir n
    by (simp add: dist_def path_side_new_def bmap_get_def)
  have "level_ok G a (path_side_new a dir)" for a dir
    by (auto simp: level_ok_def d reads_ok_def split: if_splits) (auto simp: path_side_new_def bmap_ok_Cons split: if_splits)
  then show "search_ok G root target (search_start root target)"
    using assms by (auto simp: search_ok_def search_start_def meets_def d) (simp_all add: path_side_new_def)
qed (simp add: search_start_def)

subsection \<open>The answer\<close>

lemma read_edges_iff:
  "(a, b) \<in> set (read_edges f g) \<longleftrightarrow>
     (\<exists>row \<in> set (pd_read f). fst row = a \<and> b \<in> set (snd row)) \<or> (\<exists>row \<in> set (pd_read g). fst row = b \<and> a \<in> set (snd row))"
  by (force simp: read_edges_def)

lemma rows_in_graph:
  assumes "pd_direction f = Outgoing" and "pd_direction g = Incoming" and "rows_sound G f" and "rows_sound G g"
  shows "set (read_edges f g) \<subseteq> G"
proof (rule subrelI)
  fix a b assume "(a, b) \<in> set (read_edges f g)"
  then show "(a, b) \<in> G"
    using assms unfolding read_edges_iff rows_sound_def side_rel_def rel_of_def by fastforce
qed

text \<open>Of two complete levels, each walk no longer than the two depths together was read.\<close>

lemma walk_was_read:
  assumes ok: "search_ok G root target s" and path: "(root, target) \<in> G ^^ k"
    and k: "k \<le> pd_depth (ss_forward s) + pd_depth (ss_backward s)"
  shows "(root, target) \<in> set (read_edges (ss_forward s) (ss_backward s)) ^^ k"
proof -
  let ?f = "ss_forward s" and ?b = "ss_backward s"
  obtain x where x: "x 0 = root" "x k = target" "\<forall>i < k. (x i, x (Suc i)) \<in> G"
    using path by (auto simp: relpow_fun_conv)
  have before: "(root, x i) \<in> G ^^ i" if "i \<le> k" for i
    using that x(1,3) by (induction i) auto
  have after: "(x (k - j), target) \<in> G ^^ j" if "j \<le> k" for j
    using that
  proof (induction j)
    case (Suc j)
    then have "(x (k - Suc j), x (Suc (k - Suc j))) \<in> G" "Suc (k - Suc j) = k - j" using x(3) by auto
    then show ?case using Suc relpow_Suc_I2 by (metis Suc_leD)
  qed (simp add: x)
  have lv: "level_ok G root ?f" "level_ok G target ?b" "pd_direction ?f = Outgoing" "pd_direction ?b = Incoming"
    using ok by (simp_all add: search_ok_def)
  have "(x i, x (Suc i)) \<in> set (read_edges ?f ?b)" if i: "i < k" for i
  proof (cases "i < pd_depth ?f")
    case True
    have "(root, x i) \<in> side_rel G ?f ^^ i" using before [of i] i lv(3) by (simp add: side_rel_def rel_of_def)
    then obtain d where d: "d \<le> i" "dist ?f (x i) = Some d" using level_complete [OF lv(1)] True by (meson less_imp_le)
    then have "x i \<in> fst ` set (pd_read ?f)" using lv(1) True by (simp add: level_ok_def reads_ok_def)
    then obtain row where row: "row \<in> set (pd_read ?f)" "fst row = x i" by auto
    then have "row_ok G ?f row" using lv(1) by (simp add: level_ok_def reads_ok_def)
    then have "x (Suc i) \<in> set (snd row)" using x(3) i row(2) lv(3) by (simp add: row_ok_def side_rel_def rel_of_def)
    then show ?thesis using row by (auto simp: read_edges_iff)
  next
    case False
    have "k - (k - Suc i) = Suc i" using i by simp
    then have "(x (Suc i), target) \<in> G ^^ (k - Suc i)" using after [of "k - Suc i"] by simp
    then have "(target, x (Suc i)) \<in> side_rel G ?b ^^ (k - Suc i)"
      using lv(4) by (simp add: side_rel_def rel_of_def converse_relpow)
    moreover have short: "k - Suc i < pd_depth ?b" using False k i by linarith
    ultimately obtain d where d: "d \<le> k - Suc i" "dist ?b (x (Suc i)) = Some d"
      using level_complete [OF lv(2)] by (meson less_imp_le)
    then have "x (Suc i) \<in> fst ` set (pd_read ?b)" using lv(2) short by (simp add: level_ok_def reads_ok_def)
    then obtain row where row: "row \<in> set (pd_read ?b)" "fst row = x (Suc i)" by auto
    then have "row_ok G ?b row" using lv(2) by (simp add: level_ok_def reads_ok_def)
    then have "x i \<in> set (snd row)" using x(3) i row(2) lv(4) by (simp add: row_ok_def side_rel_def rel_of_def)
    then show ?thesis using row by (auto simp: read_edges_iff)
  qed
  then show ?thesis using x(1,2) by (auto simp: relpow_fun_conv)
qed

lemma met_depths:
  assumes ok: "search_ok G root target s" and met: "ss_met s"
  obtains k where "k \<le> pd_depth (ss_forward s) + pd_depth (ss_backward s)" "(root, target) \<in> G ^^ k"
proof -
  have lv: "level_ok G root (ss_forward s)" "level_ok G target (ss_backward s)"
    "pd_direction (ss_forward s) = Outgoing" "pd_direction (ss_backward s) = Incoming"
    using ok by (simp_all add: search_ok_def)
  obtain n i j where n: "dist (ss_forward s) n = Some i" "dist (ss_backward s) n = Some j"
    using ok met by (auto simp: search_ok_def meets_def)
  then have "i \<le> pd_depth (ss_forward s)" "(root, n) \<in> G ^^ i" "j \<le> pd_depth (ss_backward s)" "(n, target) \<in> G ^^ j"
    using lv by (auto simp: level_ok_def side_rel_def rel_of_def converse_relpow)
  then show thesis using that [of "i + j"] by (auto simp: relpow_add)
qed

text \<open>What the search did, and what the answer was made of.\<close>

lemma search_answer:
  assumes "bidirectional_path_search neighbor_ids root target limits = Some (Inr r)" and "root \<noteq> target"
    and "reads_graph neighbor_ids G" and "unat (tl_edges limits) < 2 ^ 32 - 1"
  obtains s where "search_loop neighbor_ids limits (search_start root target) = Inr s" "outcome_ok G root target s"
    "\<not> ss_met s \<Longrightarrow> r = ss_result s"
    "ss_met s \<Longrightarrow> \<exists>p. replay (ss_forward s) (ss_backward s) root target = Some p \<and> r = with_path p (ss_result s)"
proof -
  obtain s where s: "search_loop neighbor_ids limits (search_start root target) = Inr s"
    using assms(1,2) by (auto simp: bidirectional_path_search_def split: sum.splits)
  have "outcome_ok G root target s"
    using search_loop_outcome [OF assms(3,4) search_start_ok [OF assms(2)] s] .
  moreover have "ss_met s \<Longrightarrow> \<exists>p. replay (ss_forward s) (ss_backward s) root target = Some p \<and> r = with_path p (ss_result s)"
    using assms(1,2) s by (auto simp: bidirectional_path_search_def)
  moreover have "\<not> ss_met s \<Longrightarrow> r = ss_result s"
    using assms(1,2) s by (simp add: bidirectional_path_search_def)
  ultimately show thesis using that s by blast
qed

lemma search_never_panics: "bidirectional_path_search neighbor_ids root target limits \<noteq> None"
  using replay_returns by (auto simp: bidirectional_path_search_def split: sum.splits)

lemma complete_path:
  assumes o': "outcome_ok G root target s" and t: "cp_stop (ss_result s) = TargetsReached" and ne: "root \<noteq> target"
  shows "\<exists>w. replay (ss_forward s) (ss_backward s) root target = Some (Some w) \<and> walk G root w target
    \<and> (\<forall>k. (root, target) \<in> G ^^ k \<longrightarrow> length w - 1 \<le> k)"
proof -
  let ?R = "set (read_edges (ss_forward s) (ss_backward s))"
  have ok: "search_ok G root target s" "ss_met s"
    "\<And>k. (root, target) \<in> G ^^ k \<Longrightarrow> pd_depth (ss_forward s) + pd_depth (ss_backward s) \<le> k"
    using o' t by (auto simp: outcome_ok_def)
  have R: "?R \<subseteq> G" using o' rows_in_graph by (simp add: outcome_ok_def)
  obtain k where k: "k \<le> pd_depth (ss_forward s) + pd_depth (ss_backward s)" "(root, target) \<in> G ^^ k"
    using met_depths [OF ok(1,2)] by blast
  have path: "(root, target) \<in> ?R ^^ k" using walk_was_read [OF ok(1) k(2,1)] .
  obtain r where r: "replay (ss_forward s) (ss_backward s) root target = Some r"
    "case r of Some w \<Rightarrow> walk ?R root w target \<and> (\<forall>k. (root, target) \<in> ?R ^^ k \<longrightarrow> length w - 1 \<le> k)
     | None \<Rightarrow> (root, target) \<notin> ?R\<^sup>*"
    using replay_exact [OF ne] by blast
  have "r \<noteq> None"
  proof
    assume "r = None"
    then have "(root, target) \<notin> ?R\<^sup>*" using r(2) by simp
    then show False using relpow_imp_rtrancl [OF path] by contradiction
  qed
  then obtain w where w: "r = Some w" "walk ?R root w target" "length w - 1 \<le> k" using r(2) path by auto
  have "length w - 1 \<le> j" if "(root, target) \<in> G ^^ j" for j
    using w(3) k(1) ok(3) [OF that] by linarith
  then show ?thesis using r(1) w walk_mono [OF w(2) R] by blast
qed

subsection \<open>Work\<close>

definition within :: "trace_search_limits \<Rightarrow> context_path_search \<Rightarrow> bool" where
  "within limits r \<longleftrightarrow> cp_discovered_nodes r \<le> max 2 (unat (tl_nodes limits)) \<and> cp_scanned_edges r \<le> unat (tl_edges limits)
     \<and> cp_path r = None"

lemma visit_within:
  "visit_neighbours limits other ns st = (stopped, st') \<Longrightarrow> within limits (lv_result st) \<Longrightarrow> within limits (lv_result st')"
proof (induction ns arbitrary: st)
  case (Cons n ns)
  have "within limits (lv_result (take_neighbour fresh n st))"
    if "\<not> (fresh \<and> unat (tl_nodes limits) \<le> cp_discovered_nodes (lv_result st))" for fresh
    using that Cons.prems(2) by (auto simp: take_neighbour_def within_def)
  then show ?case using Cons by (auto simp: Let_def within_def split: if_splits)
qed simp

lemma expand_within:
  "expand_level neighbor_ids limits other level st = Inr (stopped, st') \<Longrightarrow> within limits (lv_result st)
     \<Longrightarrow> within limits (lv_result st')"
proof (induction level arbitrary: st)
  case (Cons node level)
  let ?r = "unat (tl_edges limits) - cp_scanned_edges (lv_result st)"
  obtain ns where ns: "neighbor_ids node (pd_direction (lv_side st)) (row_limit ?r) = Inr ns"
    using Cons.prems by (auto simp: try_bind_Inr_iff Let_def)
  let ?st1 = "st\<lparr>lv_result := (lv_result st)\<lparr>cp_expanded_nodes := cp_expanded_nodes (lv_result st) + 1,
         cp_scanned_edges := cp_scanned_edges (lv_result st) + length ns\<rparr>\<rparr>"
  obtain b st2 where v: "visit_neighbours limits other ns ?st1 = (b, st2)" by (meson surj_pair)
  show ?case
  proof (cases "?r < length ns")
    case True
    then show ?thesis using Cons.prems ns by (auto simp: Let_def within_def)
  next
    case False
    then have "cp_scanned_edges (lv_result st) + length ns \<le> unat (tl_edges limits)"
      using Cons.prems(2) unfolding within_def by linarith
    then have "within limits (lv_result ?st1)" using Cons.prems(2) by (simp add: within_def)
    then have w: "within limits (lv_result st2)" using visit_within [OF v] by blast
    show ?thesis using Cons.IH [of "st2\<lparr>lv_side := (lv_side st2)\<lparr>pd_read := pd_read (lv_side st2) @ [(node, ns)]\<rparr>\<rparr>"]
      Cons.prems(1) ns False v w by (cases b) (simp_all add: Let_def)
  qed
qed simp

lemma expand_error:
  "expand_level neighbor_ids limits other level st = Inl e \<Longrightarrow> \<exists>n dir lim. neighbor_ids n dir lim = Inl e"
proof (induction level arbitrary: st)
  case (Cons node level)
  let ?r = "unat (tl_edges limits) - cp_scanned_edges (lv_result st)"
  show ?case
  proof (cases "neighbor_ids node (pd_direction (lv_side st)) (row_limit ?r)")
    case (Inl e')
    then show ?thesis using Cons.prems by (auto simp: Let_def)
  next
    case (Inr ns)
    then show ?thesis using Cons by (auto simp: Let_def split: if_splits prod.splits)
  qed
qed simp

lemma search_loop_within:
  "within limits (ss_result s) \<Longrightarrow>
     (case search_loop neighbor_ids limits s of
        Inl e \<Rightarrow> \<exists>n dir lim. neighbor_ids n dir lim = Inl e
      | Inr s' \<Rightarrow> within limits (ss_result s'))"
proof (induction neighbor_ids limits s rule: search_loop.induct)
  case (1 neighbor_ids limits s)
  let ?e = "expand_level neighbor_ids limits (other_side s) (pd_frontier (this_side s)) (begin_level s)"
  have begin_w: "within limits (lv_result (begin_level s))" using "1.prems" by (simp add: begin_level_def)
  show ?case
  proof (cases "(pd_frontier (ss_forward s) = [] \<or> pd_frontier (ss_backward s) = [])
      \<or> unat (tl_depth limits) < pd_depth (ss_forward s) + pd_depth (ss_backward s) + 1")
    case True
    then show ?thesis using "1.prems" by (subst search_loop.simps) (auto simp: stop_search_def within_def)
  next
    case False
    then have unfold: "search_loop neighbor_ids limits s = (case ?e of
           Inl e \<Rightarrow> Inl e
         | Inr (stopped, st) \<Rightarrow>
             if stopped then Inr (put_level s st)
             else if lv_met st then Inr (stop_search TargetsReached (put_level s (end_level st)))
             else search_loop neighbor_ids limits (put_level s (end_level st)))"
      by (subst search_loop.simps) simp
    show ?thesis
    proof (cases ?e)
      case (Inl e)
      then show ?thesis using expand_error [OF Inl] by (simp add: unfold)
    next
      case (Inr p)
      obtain stopped st where p: "p = (stopped, st)" by (cases p)
      have w: "within limits (lv_result st)" using expand_within [OF Inr [unfolded p] begin_w] .
      then have w': "within limits (ss_result (put_level s (end_level st)))" "within limits (ss_result (put_level s st))"
        by (simp_all add: put_level_def end_level_def)
      show ?thesis
      proof (cases "stopped \<or> lv_met st")
        case True
        then show ?thesis using w' unfold Inr p by (auto simp: stop_search_def within_def)
      next
        case go: False
        then have "search_loop neighbor_ids limits s = search_loop neighbor_ids limits (put_level s (end_level st))"
          using unfold Inr p by simp
        then show ?thesis using "1.IH" [OF _ _ Inr p [symmetric]] False go w'(1) by simp
      qed
    qed
  qed
qed

lemma with_path_sel [simp]:
  "cp_discovered_nodes (with_path p r) = cp_discovered_nodes r" "cp_scanned_edges (with_path p r) = cp_scanned_edges r"
  by (simp_all add: with_path_def Let_def)

subsection \<open>Properties\<close>

text \<open>C10. What an answer of the bidirectional search means, over a store that reads a graph: a path
  is a walk of stored relations from the root to the target, whether or not a budget cut the
  search; a search that stopped because a frontier was exhausted has no path and there is
  none; and every other answer without a path says that it is partial.\<close>

theorem path_search_sound:
  assumes "bidirectional_path_search neighbor_ids root target limits = Some (Inr r)"
    and "reads_graph neighbor_ids G" and "unat (tl_edges limits) < 2 ^ 32 - 1"
  shows "(\<forall>p. cp_path r = Some p \<longrightarrow> walk G root p target)
    \<and> (cp_stop r = FrontierExhausted \<longrightarrow> cp_path r = None \<and> (root, target) \<notin> G\<^sup>*)
    \<and> (cp_path r = None \<and> cp_stop r \<noteq> FrontierExhausted \<longrightarrow> is_partial r)"
proof (cases "root = target")
  case True
  then have "r = \<lparr>cp_path = Some [root], cp_stop = TargetsReached, cp_discovered_nodes = 1, cp_scanned_edges = 0,
                   cp_expanded_nodes = 0\<rparr>"
    using assms(1) by (simp add: bidirectional_path_search_def)
  then show ?thesis using True by simp
next
  case ne: False
  obtain s where s: "search_loop neighbor_ids limits (search_start root target) = Inr s" "outcome_ok G root target s"
    "\<not> ss_met s \<Longrightarrow> r = ss_result s"
    "ss_met s \<Longrightarrow> \<exists>p. replay (ss_forward s) (ss_backward s) root target = Some p \<and> r = with_path p (ss_result s)"
    using search_answer [OF assms(1) ne assms(2,3)] by blast
  have R: "set (read_edges (ss_forward s) (ss_backward s)) \<subseteq> G"
    using s(2) rows_in_graph by (simp add: outcome_ok_def)
  have start: "cp_path (ss_result s) = None" 
    using search_loop_within [of limits "search_start root target" neighbor_ids] s(1)
    by (simp add: within_def search_start_def)
  have partial: "cp_stop (ss_result s) \<notin> {FrontierExhausted, TargetsReached} \<Longrightarrow> is_partial (ss_result s)"
    using s(2) start by (cases "cp_stop (ss_result s)") (simp_all add: outcome_ok_def is_partial_def)
  show ?thesis
  proof (cases "ss_met s")
    case False
    then have "cp_stop (ss_result s) \<noteq> TargetsReached" using s(2) by (auto simp: outcome_ok_def)
    then show ?thesis using s(2,3) False start partial by (simp add: outcome_ok_def)
  next
    case True
    then obtain p where p: "replay (ss_forward s) (ss_backward s) root target = Some p" "r = with_path p (ss_result s)"
      using s(4) by blast
    have stop: "cp_stop (ss_result s) \<noteq> FrontierExhausted" using s(2) True by (auto simp: outcome_ok_def)
    show ?thesis
    proof (cases p)
      case None
      then have "cp_stop (ss_result s) \<noteq> TargetsReached"
        using complete_path [OF s(2) _ ne] p(1) by auto
      then have "is_partial (ss_result s)" using partial stop by simp
      then show ?thesis using p(2) None stop by (simp add: with_path_def is_partial_def)
    next
      case (Some w)
      have "walk (set (read_edges (ss_forward s) (ss_backward s))) root w target"
        using replay_exact [OF ne, of "ss_forward s" "ss_backward s"] p(1) Some by auto
      then show ?thesis using p(2) Some walk_mono [OF _ R] by (simp add: with_path_def)
    qed
  qed
qed

definition graph_reader :: "(string \<times> string) list \<Rightarrow> neighbour_reader" where
  "graph_reader es node direction limit =
     Inr (take (unat limit) (case direction of
        Outgoing \<Rightarrow> map snd (filter (\<lambda>e. fst e = node) es)
      | Incoming \<Rightarrow> map fst (filter (\<lambda>e. snd e = node) es)))"

lemma reads_graph_reader: "reads_graph (graph_reader es) (set es)"
proof -
  let ?l = "\<lambda>node direction. case direction of
        Outgoing \<Rightarrow> map snd (filter (\<lambda>e. fst e = node) es)
      | Incoming \<Rightarrow> map fst (filter (\<lambda>e. snd e = node) es)"
  have l: "set (?l node dir) = rel_of dir (set es) `` {node}" for node dir
    by (cases dir) (force simp: rel_of_def)+
  show ?thesis unfolding reads_graph_def graph_reader_def
  proof (intro allI impI conjI)
    fix node :: string and dir and limit :: "32 word" and ns
    assume ns: "(Inr (take (unat limit) (?l node dir)) :: string list port_result) = Inr ns"
    show "set ns \<subseteq> rel_of dir (set es) `` {node}" using ns l set_take_subset by fastforce
    assume "length ns < unat limit"
    then show "set ns = rel_of dir (set es) `` {node}" using ns l by auto
  qed
qed

definition search_graph :: "(string \<times> string) list" where
  "search_graph = [(''a'', ''b''), (''b'', ''c''), (''c'', ''d''), (''a'', ''e''), (''e'', ''d'')]"

definition search_limits :: trace_search_limits where
  "search_limits = \<lparr>tl_nodes = 8, tl_edges = 8, tl_depth = 8, tl_states = 8\<rparr>"

definition found :: "(context_path_search \<Rightarrow> bool) \<Rightarrow> context_path_search port_result option \<Rightarrow> bool" where
  "found P r = (case r of Some (Inr c) \<Rightarrow> P c | _ \<Rightarrow> False)"

lemma foundE: "found P r \<Longrightarrow> \<exists>c. r = Some (Inr c) \<and> P c"
  by (auto simp: found_def split: option.splits sum.splits)

theorem path_search_sound_witness:
  "walk (set search_graph) ''a'' [''a'', ''e'', ''d''] ''d'' \<and> (''d'', ''a'') \<notin> (set search_graph)\<^sup>*"
proof -
  have small: "unat (tl_edges search_limits) < 2 ^ 32 - 1" by (simp add: search_limits_def)
  have "found (\<lambda>r. cp_path r = Some [''a'', ''e'', ''d'']) (bidirectional_path_search (graph_reader search_graph) ''a'' ''d'' search_limits)"
    by code_simp
  then have one: "walk (set search_graph) ''a'' [''a'', ''e'', ''d''] ''d''"
    using path_search_sound [OF _ reads_graph_reader small] foundE by blast
  have "found (\<lambda>r. cp_stop r = FrontierExhausted) (bidirectional_path_search (graph_reader search_graph) ''d'' ''a'' search_limits)"
    by code_simp
  then have "(''d'', ''a'') \<notin> (set search_graph)\<^sup>*"
    using path_search_sound [OF _ reads_graph_reader small] foundE by blast
  then show ?thesis using one by blast
qed

text \<open>C5. When no work limit cuts the search and its sides meet, it answers with a path, and no
  chain of stored relations from the root to the target is shorter.\<close>

theorem path_search_shortest:
  assumes "search_loop neighbor_ids limits (search_start root target) = Inr s"
    and "cp_stop (ss_result s) = TargetsReached" and "root \<noteq> target"
    and "reads_graph neighbor_ids G" and "unat (tl_edges limits) < 2 ^ 32 - 1"
  shows "\<exists>r w. bidirectional_path_search neighbor_ids root target limits = Some (Inr r) \<and> cp_path r = Some w
    \<and> cp_stop r = TargetsReached \<and> walk G root w target
    \<and> (\<forall>k. (root, target) \<in> G ^^ k \<longrightarrow> length w \<le> Suc k)"
proof -
  have o': "outcome_ok G root target s"
    using search_loop_outcome [OF assms(4,5) search_start_ok [OF assms(3)] assms(1)] .
  then have met: "ss_met s" using assms(2) by (simp add: outcome_ok_def)
  obtain w where "replay (ss_forward s) (ss_backward s) root target = Some (Some w)" "walk G root w target"
    "\<forall>k. (root, target) \<in> G ^^ k \<longrightarrow> length w - 1 \<le> k"
    using complete_path [OF o' assms(2,3)] by blast
  then show ?thesis using assms(1,3) met
    by (fastforce simp: bidirectional_path_search_def with_path_def)
qed

theorem path_search_shortest_witness:
  "\<exists>w. walk (set search_graph) ''a'' w ''d'' \<and> (\<forall>k. (''a'', ''d'') \<in> set search_graph ^^ k \<longrightarrow> length w \<le> Suc k)"
proof -
  let ?l = "search_loop (graph_reader search_graph) search_limits (search_start ''a'' ''d'')"
  have "(case ?l of Inr s \<Rightarrow> cp_stop (ss_result s) = TargetsReached | _ \<Rightarrow> False)" by code_simp
  then obtain s where s: "?l = Inr s" "cp_stop (ss_result s) = TargetsReached"
    by (cases ?l) auto
  have small: "unat (tl_edges search_limits) < 2 ^ 32 - 1" by (simp add: search_limits_def)
  show ?thesis
    using path_search_shortest [OF s _ reads_graph_reader small] by auto
qed


end
