(* ===== verification/ReadWindow.thy ===== *)
theory ReadWindow
  imports TemporalTraverse
begin

text \<open>
  What a read may stand on in time (\<open>model/temporal_read_window.rs\<close>). The window admits a
  coordinate or a relation by the instants the selection names; the lemmas say what those
  admissions mean on the nanosecond axis, and that the cut for derived cards is the same
  boundary.
\<close>

subsection \<open>Clocks\<close>

definition temporal_clock_instant :: "temporal_coordinate \<Rightarrow> temporal_axis \<Rightarrow> (string \<times> temporal_axis) option" where
  "temporal_clock_instant c axis =
     (case axis of
        AxisOccurred \<Rightarrow> map_option (\<lambda>at. (at, axis)) (tc_occurred_at c)
      | AxisObserved \<Rightarrow> map_option (\<lambda>at. (at, axis)) (tc_observed_at c)
      | AxisIngested \<Rightarrow> map_option (\<lambda>at. (at, axis)) (tc_ingested_at c)
      | AxisValidity \<Rightarrow> map_option (\<lambda>at. (at, axis)) (tc_valid_from c)
      | AxisDefault \<Rightarrow>
          or_else (or_else (or_else
            (map_option (\<lambda>at. (at, AxisOccurred)) (tc_occurred_at c))
            (map_option (\<lambda>at. (at, AxisValidity)) (tc_valid_from c)))
            (map_option (\<lambda>at. (at, AxisObserved)) (tc_observed_at c)))
            (map_option (\<lambda>at. (at, AxisIngested)) (tc_ingested_at c)))"

subsection \<open>The window\<close>

record read_window =
  rw_selection :: temporal_selection
  rw_resolved_as_of :: "string option"
  rw_boundary :: "(int \<times> bool) option"

definition read_window_new :: "temporal_selection \<Rightarrow> string option \<Rightarrow> read_window" where
  "read_window_new selection resolved =
     \<lparr>rw_selection = selection, rw_resolved_as_of = resolved,
      rw_boundary = (case selection of
          Frontier \<Rightarrow> None
        | AsOf _ _ \<Rightarrow> map_option (\<lambda>t. (t, True)) (Option.bind resolved temporal_instant_nanos)
        | Within interval _ \<Rightarrow> map_option (\<lambda>t. (t, False)) (Option.bind (ti_end interval) temporal_instant_nanos))\<rparr>"

definition is_frontier :: "temporal_selection \<Rightarrow> bool" where
  "is_frontier selection \<longleftrightarrow> selection = Frontier"

definition axis_or_default :: "temporal_selection \<Rightarrow> temporal_axis" where
  "axis_or_default selection = (case selection_axis selection of None \<Rightarrow> AxisDefault | Some axis \<Rightarrow> axis)"

text \<open>\<open>i128::MIN\<close> is the impossible instant.\<close>

definition card_cut_nanos :: "read_window \<Rightarrow> int option" where
  "card_cut_nanos w =
     (if is_frontier (rw_selection w) then None
      else case rw_boundary w of
          Some (at, inclusive) \<Rightarrow> Some (if inclusive then at else wrap128 (at - 1))
        | None \<Rightarrow> (case rw_selection w of
              Within interval _ \<Rightarrow> if ti_end interval = None then None else Some (- (2 ^ 127))
            | _ \<Rightarrow> Some (- (2 ^ 127))))"

definition at_or_before :: "string \<Rightarrow> string \<Rightarrow> bool" where
  "at_or_before a b \<longleftrightarrow> compare_temporal_instants a b = Some Less \<or> compare_temporal_instants a b = Some Equal"

definition window_admits_coordinate :: "read_window \<Rightarrow> temporal_coordinate \<Rightarrow> bool" where
  "window_admits_coordinate w c =
     (let axis = axis_or_default (rw_selection w) in
      case rw_selection w of
        Frontier \<Rightarrow> True
      | AsOf _ _ \<Rightarrow>
          (case rw_resolved_as_of w of
             None \<Rightarrow> False
           | Some at \<Rightarrow>
               if axis = AxisValidity then
                 (if tc_valid_from c = None \<and> tc_valid_until c = None then False
                  else is_none_or (tc_valid_from c) (\<lambda>from. at_or_before from at)
                    \<and> is_none_or (tc_valid_until c) (\<lambda>until. compare_temporal_instants at until = Some Less))
               else (case temporal_clock_instant c axis of None \<Rightarrow> False
                     | Some (instant, _) \<Rightarrow> at_or_before instant at))
      | Within interval _ \<Rightarrow>
          if axis = AxisValidity then
            (if tc_valid_from c = None \<and> tc_valid_until c = None then False
             else interval_overlaps interval (tc_valid_from c) (tc_valid_until c))
          else (case temporal_clock_instant c axis of None \<Rightarrow> False
                | Some (instant, _) \<Rightarrow> interval_contains interval instant))"

definition relation_instant :: "read_window \<Rightarrow> relation_explanation \<Rightarrow> int option" where
  "relation_instant w e =
     Option.bind
       (case axis_or_default (rw_selection w) of
          AxisOccurred \<Rightarrow> rex_occurred_at e
        | AxisObserved \<Rightarrow> rex_observed_at e
        | AxisIngested \<Rightarrow> rex_ingested_at e
        | AxisValidity \<Rightarrow> rex_valid_from e
        | AxisDefault \<Rightarrow> or_else (or_else (or_else (rex_occurred_at e) (rex_valid_from e)) (rex_observed_at e)) (rex_ingested_at e))
       temporal_instant_nanos"

definition admits_relation_clock :: "read_window \<Rightarrow> relation_explanation \<Rightarrow> bool" where
  "admits_relation_clock w e =
     (case rw_boundary w of
        None \<Rightarrow> True
      | Some (end', inclusive) \<Rightarrow>
          is_none_or (relation_instant w e) (\<lambda>at. at < end' \<or> (inclusive \<and> at = end')))"

definition relation_clock_known :: "read_window \<Rightarrow> relation_explanation \<Rightarrow> bool" where
  "relation_clock_known w e \<longleftrightarrow> relation_instant w e \<noteq> None"

definition window_start :: "read_window \<Rightarrow> string option" where
  "window_start w =
     (case rw_selection w of
        AsOf _ _ \<Rightarrow> rw_resolved_as_of w
      | Within interval _ \<Rightarrow> ti_start interval
      | Frontier \<Rightarrow> None)"

definition admits_dependency_relation :: "read_window \<Rightarrow> relation_explanation \<Rightarrow> bool" where
  "admits_dependency_relation w e =
     (if \<not> admits_relation_clock w e then False
      else if selection_axis (rw_selection w) \<noteq> Some AxisValidity then True
      else case (rex_valid_until e, window_start w) of
          (Some end', Some start) \<Rightarrow> compare_temporal_instants end' start = Some Greater
        | _ \<Rightarrow> True)"

subsection \<open>What admission means\<close>

lemma at_or_before_iff:
  "at_or_before a b \<longleftrightarrow> (\<exists>m n. timestamp_nanos a = Some m \<and> timestamp_nanos b = Some n \<and> m \<le> n)"
  by (auto simp: at_or_before_def compare_instants le_less)

lemma window_new_sel [simp]:
  "rw_selection (read_window_new s r) = s" "rw_resolved_as_of (read_window_new s r) = r"
  by (simp_all add: read_window_new_def)

lemma window_axis [simp]:
  "axis_or_default Frontier = AxisDefault" "axis_or_default (AsOf c a) = a" "axis_or_default (Within i a) = a"
  by (simp_all add: axis_or_default_def)

lemma frontier_admits [simp]:
  "window_admits_coordinate (read_window_new Frontier r) c" "admits_dependency_relation (read_window_new Frontier r) e"
  by (simp_all add: window_admits_coordinate_def admits_dependency_relation_def admits_relation_clock_def
      read_window_new_def)

text \<open>The clock a coordinate stands on for a reading that is not about validity.\<close>

definition clock_of :: "temporal_coordinate \<Rightarrow> temporal_axis \<Rightarrow> int option" where
  "clock_of c axis = Option.bind (map_option fst (temporal_clock_instant c axis)) timestamp_nanos"

lemma as_of_admits_clock:
  assumes "axis \<noteq> AxisValidity" and "timestamp_nanos at = Some n"
  shows "window_admits_coordinate (read_window_new (AsOf cursor axis) (Some at)) c
    \<longleftrightarrow> (\<exists>m. clock_of c axis = Some m \<and> m \<le> n)"
  using assms by (auto simp: window_admits_coordinate_def clock_of_def at_or_before_iff Let_def split: option.splits)

lemma as_of_admits_validity:
  assumes "timestamp_nanos at = Some n"
    and "tc_valid_from c = None \<or> nanos_of (tc_valid_from c) \<noteq> None"
    and "tc_valid_until c = None \<or> nanos_of (tc_valid_until c) \<noteq> None"
  shows "window_admits_coordinate (read_window_new (AsOf cursor AxisValidity) (Some at)) c
    \<longleftrightarrow> (tc_valid_from c \<noteq> None \<or> tc_valid_until c \<noteq> None)
      \<and> in_span (nanos_of (tc_valid_from c)) (nanos_of (tc_valid_until c)) n"
  using assms
  by (cases "tc_valid_from c"; cases "tc_valid_until c")
    (auto simp: window_admits_coordinate_def at_or_before_iff compare_instants is_none_or_def in_span_def nanos_of_def)

lemma within_admits_clock:
  assumes "axis \<noteq> AxisValidity" and "interval_ok i"
  shows "window_admits_coordinate (read_window_new (Within i axis) r) c
    \<longleftrightarrow> (\<exists>m. clock_of c axis = Some m \<and> interval_span i m)"
proof -
  have "interval_contains i t \<longleftrightarrow> (\<exists>m. timestamp_nanos t = Some m \<and> interval_span i m)" for t
    using assms(2) interval_contains_span [of i t] by (auto simp: nanos_of_def)
  then show ?thesis using assms(1)
    by (auto simp: window_admits_coordinate_def clock_of_def Let_def split: option.splits)
qed

subsection \<open>Properties\<close>


definition dated_coordinate :: "temporal_coordinate" where
  "dated_coordinate = blank_coordinate\<lparr>tc_valid_from := Some ''2026-01-01T00:00:00Z'',
     tc_valid_until := Some ''2026-02-01T00:00:00Z''\<rparr>"


text \<open>One boundary for graph and cards: wherever a historical read has placed its cut, the
  relations it admits by their clock are exactly those dated no later than the instant up to
  which a derived card may have been written.\<close>

theorem card_cut_is_relation_cut:
  assumes "rw_boundary (read_window_new s r) = Some (cut_at, inclusive)"
    and "- (2 ^ 127) < cut_at" and "cut_at < 2 ^ 127"
    and "relation_instant (read_window_new s r) e = Some at"
  shows "\<exists>limit. card_cut_nanos (read_window_new s r) = Some limit
    \<and> (admits_relation_clock (read_window_new s r) e \<longleftrightarrow> at \<le> limit)"
proof -
  have "s \<noteq> Frontier" using assms(1) by (auto simp: read_window_new_def)
  then have "card_cut_nanos (read_window_new s r) = Some (if inclusive then cut_at else wrap128 (cut_at - 1))"
    using assms(1) by (simp add: card_cut_nanos_def is_frontier_def)
  moreover have "wrap128 (cut_at - 1) = cut_at - 1" using assms(2,3) by (intro wrap128_id) auto
  ultimately show ?thesis using assms(1,4) by (auto simp: admits_relation_clock_def is_none_or_def)
qed

theorem card_cut_is_relation_cut_witness:
  "\<exists>limit. card_cut_nanos (read_window_new (Within \<lparr>ti_start = None, ti_end = Some ''2026-02-01T00:00:00Z''\<rparr> AxisObserved) None) = Some limit
    \<and> \<not> 1769904000000000000 \<le> limit"
proof -
  let ?w = "read_window_new (Within \<lparr>ti_start = None, ti_end = Some ''2026-02-01T00:00:00Z''\<rparr> AxisObserved) None"
  let ?e = "(rex_new Causal)\<lparr>rex_observed_at := Some ''2026-02-01T00:00:00Z''\<rparr>"
  have t: "timestamp_nanos ''2026-02-01T00:00:00Z'' = Some 1769904000000000000" by code_simp
  have b: "rw_boundary ?w = Some (1769904000000000000, False)"
    by (simp add: read_window_new_def temporal_instant_nanos_def t)
  have r: "relation_instant ?w ?e = Some 1769904000000000000"
    by (simp add: relation_instant_def temporal_instant_nanos_def t)
  have "\<not> admits_relation_clock ?w ?e" using b r by (simp add: admits_relation_clock_def is_none_or_def)
  then show ?thesis using card_cut_is_relation_cut [OF b _ _ r] by simp
qed

end
