(* ===== verification/DependencyGroup.thy ===== *)
theory DependencyGroup
  imports Bundle
begin

text \<open>
  The neighbourhood of a proof's memory (\<open>model/proof_dependency_group.rs\<close>): a breadth-first
  selection over evidenced links, at most two hops and eight members, that counts what it
  left out because it was not eligible or did not fit. The counts are exact: every member is
  expanded, so each neighbour is a member, unavailable or omitted.
\<close>

subsection \<open>The selection\<close>

definition MAX_HOPS :: nat where "MAX_HOPS = 2"

definition MAX_MEMBERS :: nat where "MAX_MEMBERS = 8"

definition evidenced_memory_link :: "bundle_relationship \<Rightarrow> string set \<Rightarrow> bool" where
  "evidenced_memory_link edge entries \<longleftrightarrow>
     br_source_node_id edge \<in> entries \<and> br_target_node_id edge \<in> entries
     \<and> rex_semantic_class (br_explanation edge) \<noteq> Structural
     \<and> (case rex_rationale (br_explanation edge) of None \<Rightarrow> False | Some text' \<Rightarrow> trim text' \<noteq> [])
     \<and> (case rex_evidence (br_explanation edge) of None \<Rightarrow> False | Some text' \<Rightarrow> trim text' \<noteq> [])"

definition other_end :: "string \<Rightarrow> bundle_relationship \<Rightarrow> string option" where
  "other_end current edge =
     (if br_source_node_id edge = current then Some (br_target_node_id edge)
      else if br_target_node_id edge = current then Some (br_source_node_id edge)
      else None)"

definition group_neighbors :: "bundle_relationship list \<Rightarrow> string set \<Rightarrow> string \<Rightarrow> string bset" where
  "group_neighbors relationships entries current =
     bset_of (List.map_filter (other_end current) (filter (\<lambda>edge. evidenced_memory_link edge entries) relationships))"

record group_state =
  gs_members :: "string bset"
  gs_order :: "string list"
  gs_queue :: "(string \<times> nat) list"
  gs_unavailable :: "string bset"
  gs_omitted :: "string bset"

definition visit_neighbor :: "string bset \<Rightarrow> nat \<Rightarrow> group_state \<Rightarrow> string \<Rightarrow> group_state" where
  "visit_neighbor eligible hops st target =
     (if target \<in> set (gs_members st) then st
      else if target \<notin> set eligible then st\<lparr>gs_unavailable := bset_insert target (gs_unavailable st)\<rparr>
      else if hops = MAX_HOPS \<or> length (gs_members st) = MAX_MEMBERS then
        st\<lparr>gs_omitted := bset_insert target (gs_omitted st)\<rparr>
      else st\<lparr>gs_members := bset_insert target (gs_members st), gs_order := gs_order st @ [target],
              gs_queue := gs_queue st @ [(target, hops + 1)]\<rparr>)"

definition reachable_names :: "bundle_relationship list \<Rightarrow> string set" where
  "reachable_names rs = br_source_node_id ` set rs \<union> br_target_node_id ` set rs"

lemma group_neighbors_iff:
  "n \<in> set (group_neighbors rs entries c) \<longleftrightarrow>
     (\<exists>e \<in> set rs. evidenced_memory_link e entries \<and> other_end c e = Some n)"
  unfolding group_neighbors_def set_bset_of
  by (induction rs) (auto simp: List.map_filter_simps split: option.splits)

lemma group_neighbors_names: "set (group_neighbors rs entries c) \<subseteq> reachable_names rs"
  by (auto simp: group_neighbors_iff other_end_def reachable_names_def split: if_splits)

lemma visit_fold_progress:
  assumes "set ns \<subseteq> reachable_names rs"
  shows "let st' = foldl (visit_neighbor eligible hops) st ns in
    (card (reachable_names rs - set (gs_members st')) < card (reachable_names rs - set (gs_members st))
     \<or> card (reachable_names rs - set (gs_members st')) = card (reachable_names rs - set (gs_members st))
       \<and> gs_queue st' = gs_queue st)"
  using assms
proof (induction ns arbitrary: st)
  case (Cons n ns)
  let ?c = "\<lambda>st. card (reachable_names rs - set (gs_members st))"
  have fin: "finite (reachable_names rs)" by (simp add: reachable_names_def)
  have "?c (visit_neighbor eligible hops st n) < ?c st
      \<or> ?c (visit_neighbor eligible hops st n) = ?c st \<and> gs_queue (visit_neighbor eligible hops st n) = gs_queue st"
  proof (cases "n \<in> set (gs_members st)")
    case False
    have "?c (visit_neighbor eligible hops st n) < ?c st"
      if "set (gs_members (visit_neighbor eligible hops st n)) = insert n (set (gs_members st))"
      using that False Cons.prems fin by (intro psubset_card_mono) auto
    then show ?thesis by (auto simp: visit_neighbor_def)
  qed (simp add: visit_neighbor_def)
  then show ?case using Cons.IH [of "visit_neighbor eligible hops st n"] Cons.prems by (auto simp: Let_def)
qed simp

function select_group :: "string set \<Rightarrow> string bset \<Rightarrow> bundle_relationship list \<Rightarrow> group_state \<Rightarrow> group_state" where
  "select_group entries eligible relationships st =
     (case gs_queue st of
        [] \<Rightarrow> st
      | (current, hops) # queue \<Rightarrow>
          select_group entries eligible relationships
            (foldl (visit_neighbor eligible hops) (st\<lparr>gs_queue := queue\<rparr>)
               (group_neighbors relationships entries current)))"
  by pat_completeness auto
termination
proof (relation "measures [\<lambda>(_, _, rs, st). card (reachable_names rs - set (gs_members st)),
      \<lambda>(_, _, _, st). length (gs_queue st)]", goal_cases)
  case (2 entries eligible rs st x queue current hops)
  then show ?case
    using visit_fold_progress [OF group_neighbors_names [of rs entries current], of eligible hops "st\<lparr>gs_queue := queue\<rparr>"]
    by (auto simp: Let_def)
qed simp

declare select_group.simps [simp del]

record dependency_group =
  dg_seed_ref :: string
  dg_member_refs :: "string list"
  dg_unavailable_in_selection :: nat
  dg_omitted_by_limit :: nat

definition group_start :: "string \<Rightarrow> string bset \<Rightarrow> group_state" where
  "group_start seed eligible =
     (let st = \<lparr>gs_members = [], gs_order = [], gs_queue = [], gs_unavailable = [], gs_omitted = []\<rparr>
      in if seed \<in> set eligible
         then st\<lparr>gs_members := [seed], gs_order := [seed], gs_queue := [(seed, 0)]\<rparr>
         else st)"

definition dependency_select :: "string \<Rightarrow> string bset \<Rightarrow> string bset \<Rightarrow> bundle_relationship list \<Rightarrow> dependency_group" where
  "dependency_select seed scoped eligible relationships =
     (let st = select_group (set scoped) eligible relationships (group_start seed eligible);
          omitted = filter (\<lambda>target. target \<notin> set (gs_members st)) (gs_omitted st)
      in \<lparr>dg_seed_ref = seed, dg_member_refs = gs_order st,
          dg_unavailable_in_selection = length (gs_unavailable st), dg_omitted_by_limit = length omitted\<rparr>)"

subsection \<open>Links and the invariant\<close>

definition linked :: "bundle_relationship list \<Rightarrow> string set \<Rightarrow> (string \<times> string) set" where
  "linked rs entries = {(m, n). n \<in> set (group_neighbors rs entries m)}"

text \<open>\<open>todo\<close> are the neighbours of the member being expanded that are still to be visited.\<close>

definition accounted :: "group_state \<Rightarrow> string \<Rightarrow> bool" where
  "accounted st n \<longleftrightarrow> n \<in> set (gs_members st) \<union> set (gs_unavailable st) \<union> set (gs_omitted st)"

definition group_inv :: "bundle_relationship list \<Rightarrow> string set \<Rightarrow> string bset \<Rightarrow> string \<Rightarrow> group_state \<Rightarrow> bool" where
  "group_inv rs entries eligible seed st \<longleftrightarrow>
     bset_ok (gs_members st) \<and> bset_ok (gs_unavailable st) \<and> bset_ok (gs_omitted st)
     \<and> set (gs_order st) = set (gs_members st) \<and> distinct (gs_order st)
     \<and> length (gs_members st) \<le> MAX_MEMBERS \<and> set (gs_members st) \<subseteq> set eligible
     \<and> (\<forall>n \<in> set (gs_members st). \<exists>h \<le> MAX_HOPS. (seed, n) \<in> linked rs entries ^^ h)
     \<and> (\<forall>(n, h) \<in> set (gs_queue st). n \<in> set (gs_members st) \<and> h \<le> MAX_HOPS \<and> (seed, n) \<in> linked rs entries ^^ h)
     \<and> (\<forall>n \<in> set (gs_unavailable st). n \<notin> set eligible \<and> (\<exists>m \<in> set (gs_members st). (m, n) \<in> linked rs entries))
     \<and> (\<forall>n \<in> set (gs_omitted st). n \<in> set eligible \<and> (\<exists>m \<in> set (gs_members st). (m, n) \<in> linked rs entries))"

definition expanded :: "bundle_relationship list \<Rightarrow> string set \<Rightarrow> group_state \<Rightarrow> string set \<Rightarrow> bool" where
  "expanded rs entries st A \<longleftrightarrow> (\<forall>m \<in> A. \<forall>n. (m, n) \<in> linked rs entries \<longrightarrow> accounted st n)"

lemma group_visit_inv:
  assumes "group_inv rs entries eligible seed st" and "hops \<le> MAX_HOPS"
    and "(seed, current) \<in> linked rs entries ^^ hops" and "current \<in> set (gs_members st)"
    and "(current, n) \<in> linked rs entries"
  shows "group_inv rs entries eligible seed (visit_neighbor eligible hops st n)"
    and "accounted (visit_neighbor eligible hops st n) n"
    and "accounted st m \<Longrightarrow> accounted (visit_neighbor eligible hops st n) m"
    and "set (gs_members st) \<subseteq> set (gs_members (visit_neighbor eligible hops st n))"
    and "set (gs_members (visit_neighbor eligible hops st n)) - set (gs_members st) \<subseteq> fst ` set (gs_queue (visit_neighbor eligible hops st n))"
    and "set (gs_queue st) \<subseteq> set (gs_queue (visit_neighbor eligible hops st n))"
proof -
  have hop: "(seed, n) \<in> linked rs entries ^^ Suc hops" using assms(3,5) by auto
  have len: "length (bset_insert n (gs_members st)) \<le> MAX_MEMBERS"
    if "length (gs_members st) \<noteq> MAX_MEMBERS" "bset_ok (gs_members st)" "length (gs_members st) \<le> MAX_MEMBERS"
    using that bset_ok_insert [OF that(2), of n] card_insert_le_m1 [of MAX_MEMBERS "set (gs_members st)" n]
    by (simp add: length_bset card_insert_if)
  have hops': "hops \<noteq> MAX_HOPS \<Longrightarrow> Suc hops \<le> MAX_HOPS" using assms(2) by simp
  have near: "hops \<noteq> MAX_HOPS \<Longrightarrow> \<exists>h \<le> MAX_HOPS. (seed, n) \<in> linked rs entries ^^ h"
    using hop hops' by blast
  show "group_inv rs entries eligible seed (visit_neighbor eligible hops st n)"
    using assms hop len hops' near unfolding group_inv_def visit_neighbor_def by auto
qed (auto simp: accounted_def visit_neighbor_def)

lemma visit_fold_inv:
  assumes "group_inv rs entries eligible seed st" and "hops \<le> MAX_HOPS"
    and "(seed, current) \<in> linked rs entries ^^ hops" and "current \<in> set (gs_members st)"
    and "\<forall>n \<in> set ns. (current, n) \<in> linked rs entries"
  shows "let st' = foldl (visit_neighbor eligible hops) st ns in
    group_inv rs entries eligible seed st' \<and> (\<forall>n \<in> set ns. accounted st' n) \<and> (\<forall>m. accounted st m \<longrightarrow> accounted st' m)
    \<and> set (gs_members st) \<subseteq> set (gs_members st')
    \<and> set (gs_members st') - set (gs_members st) \<subseteq> fst ` set (gs_queue st') \<and> set (gs_queue st) \<subseteq> set (gs_queue st')"
  using assms
proof (induction ns arbitrary: st)
  case (Cons n ns)
  have n: "(current, n) \<in> linked rs entries" using Cons.prems(5) by simp
  note v = group_visit_inv [OF Cons.prems(1-4) n]
  have "current \<in> set (gs_members (visit_neighbor eligible hops st n))" using v(4) Cons.prems(4) by blast
  from Cons.IH [OF v(1) Cons.prems(2,3) this] Cons.prems(5) v(2-6) show ?case
    by (simp add: Let_def) blast
qed simp

lemma select_inv:
  assumes "group_inv rs entries eligible seed st"
    and "expanded rs entries st (set (gs_members st) - fst ` set (gs_queue st))"
  shows "let st' = select_group entries eligible rs st in
    group_inv rs entries eligible seed st' \<and> expanded rs entries st' (set (gs_members st'))
    \<and> set (gs_members st) \<subseteq> set (gs_members st')"
  using assms
proof (induction entries eligible rs st rule: select_group.induct)
  case (1 entries eligible rs st)
  show ?case
  proof (cases "gs_queue st")
    case Nil
    then show ?thesis using "1.prems" by (simp add: select_group.simps [of entries eligible rs st] Let_def)
  next
    case (Cons ch queue)
    obtain current hops where ch: "ch = (current, hops)" by (cases ch)
    let ?st = "st\<lparr>gs_queue := queue\<rparr>"
    let ?st' = "foldl (visit_neighbor eligible hops) ?st (group_neighbors rs entries current)"
    have inv: "group_inv rs entries eligible seed ?st"
      using "1.prems"(1) Cons by (simp add: group_inv_def)
    have cur: "hops \<le> MAX_HOPS" "(seed, current) \<in> linked rs entries ^^ hops" "current \<in> set (gs_members ?st)"
      using "1.prems"(1) Cons ch by (auto simp: group_inv_def)
    have ns: "\<forall>n \<in> set (group_neighbors rs entries current). (current, n) \<in> linked rs entries"
      by (simp add: linked_def)
    have f: "group_inv rs entries eligible seed ?st'" "\<forall>n \<in> set (group_neighbors rs entries current). accounted ?st' n"
      "\<forall>m. accounted ?st m \<longrightarrow> accounted ?st' m" "set (gs_members st) \<subseteq> set (gs_members ?st')"
      "set (gs_members ?st') - set (gs_members st) \<subseteq> fst ` set (gs_queue ?st')"
      "set queue \<subseteq> set (gs_queue ?st')"
      using visit_fold_inv [OF inv cur ns] by (simp_all add: Let_def)
    have "expanded rs entries ?st' (set (gs_members ?st') - fst ` set (gs_queue ?st'))"
      unfolding expanded_def
    proof (intro ballI allI impI)
      fix m n assume m: "m \<in> set (gs_members ?st') - fst ` set (gs_queue ?st')" and l: "(m, n) \<in> linked rs entries"
      show "accounted ?st' n"
      proof (cases "m = current")
        case True
        then show ?thesis using l f(2) by (simp add: linked_def)
      next
        case False
        have "m \<in> set (gs_members st) - fst ` set (gs_queue st)"
          using m f(5,6) False Cons ch by auto
        then have "accounted st n" using "1.prems"(2) l by (auto simp: expanded_def)
        then have "accounted ?st n" by (simp add: accounted_def)
        then show ?thesis using f(3) by blast
      qed
    qed
    from "1.IH" [OF Cons ch [symmetric] f(1) this] f(4) show ?thesis
      by (simp add: select_group.simps [of entries eligible rs st] Cons ch Let_def) blast
  qed
qed

lemma group_start_inv:
  "group_inv rs entries eligible seed (group_start seed eligible)"
  "expanded rs entries (group_start seed eligible)
     (set (gs_members (group_start seed eligible)) - fst ` set (gs_queue (group_start seed eligible)))"
  by (auto simp: group_start_def Let_def group_inv_def expanded_def MAX_MEMBERS_def bset_ok_def
    intro: exI [of _ 0])

lemma dependency_group_members:
  assumes "n \<in> set (dg_member_refs (dependency_select seed scoped eligible rs))"
  shows "n \<in> set eligible \<and> (\<exists>h \<le> 2. (seed, n) \<in> linked rs (set scoped) ^^ h)"
proof -
  have "group_inv rs (set scoped) eligible seed (select_group (set scoped) eligible rs (group_start seed eligible))"
    using select_inv [of rs "set scoped" eligible seed "group_start seed eligible", OF group_start_inv] by (simp add: Let_def)
  then show ?thesis
    using assms by (fastforce simp: dependency_select_def Let_def group_inv_def MAX_HOPS_def)
qed

subsection \<open>Properties\<close>

text \<open>C19. A dependency group holds at most eight memories, each once, all eligible and each within
  two evidenced links of the seed; the seed is in it exactly when it is eligible, and what the
  two counts report is exact: the ineligible, and the eligible but left out, neighbours of
  its members.\<close>

theorem dependency_group_exact:
  "let g = dependency_select seed scoped eligible rs; M = set (dg_member_refs g); L = linked rs (set scoped)
   in distinct (dg_member_refs g) \<and> length (dg_member_refs g) \<le> 8 \<and> M \<subseteq> set eligible
    \<and> (seed \<in> M \<longleftrightarrow> seed \<in> set eligible)
    \<and> (\<forall>n \<in> M. \<exists>h \<le> 2. (seed, n) \<in> L ^^ h)
    \<and> dg_unavailable_in_selection g = card {n. n \<notin> set eligible \<and> (\<exists>m \<in> M. (m, n) \<in> L)}
    \<and> dg_omitted_by_limit g = card {n. n \<in> set eligible \<and> n \<notin> M \<and> (\<exists>m \<in> M. (m, n) \<in> L)}"
proof -
  define st where "st = select_group (set scoped) eligible rs (group_start seed eligible)"
  have i: "group_inv rs (set scoped) eligible seed st" "expanded rs (set scoped) st (set (gs_members st))"
    "set (gs_members (group_start seed eligible)) \<subseteq> set (gs_members st)"
    using select_inv [of rs "set scoped" eligible seed "group_start seed eligible", OF group_start_inv] by (simp_all add: st_def Let_def)
  have order: "set (gs_order st) = set (gs_members st)" "distinct (gs_order st)"
    "length (gs_members st) \<le> MAX_MEMBERS" "bset_ok (gs_members st)" "set (gs_members st) \<subseteq> set eligible"
    using i(1) by (simp_all add: group_inv_def)
  have len: "length (gs_order st) \<le> 8"
    using order by (metis MAX_MEMBERS_def distinct_card length_bset)
  have unavailable: "set (gs_unavailable st) = {n. n \<notin> set eligible \<and> (\<exists>m \<in> set (gs_members st). (m, n) \<in> linked rs (set scoped))}"
    using i(1,2) unfolding group_inv_def expanded_def accounted_def by blast
  have omitted: "set (filter (\<lambda>t. t \<notin> set (gs_members st)) (gs_omitted st))
      = {n. n \<in> set eligible \<and> n \<notin> set (gs_members st) \<and> (\<exists>m \<in> set (gs_members st). (m, n) \<in> linked rs (set scoped))}"
    using i(1,2) unfolding group_inv_def expanded_def accounted_def set_filter by blast
  have counts: "length (gs_unavailable st) = card (set (gs_unavailable st))"
    "length (filter (\<lambda>t. t \<notin> set (gs_members st)) (gs_omitted st))
       = card (set (filter (\<lambda>t. t \<notin> set (gs_members st)) (gs_omitted st)))"
    using i(1) by (simp_all add: group_inv_def length_bset del: set_filter)
  have seed: "seed \<in> set (gs_members st) \<longleftrightarrow> seed \<in> set eligible"
    using i(3) order(5) by (auto simp: group_start_def Let_def split: if_splits)
  have near: "\<forall>n \<in> set (gs_members st). \<exists>h \<le> 2. (seed, n) \<in> linked rs (set scoped) ^^ h"
    using i(1) unfolding group_inv_def MAX_HOPS_def by simp
  show ?thesis
    using order len seed near unavailable omitted counts
    by (simp add: dependency_select_def Let_def st_def [symmetric] del: set_filter)
qed

definition evidenced_edge :: "string \<Rightarrow> string \<Rightarrow> bundle_relationship" where
  "evidenced_edge s t = \<lparr>br_source_node_id = s, br_target_node_id = t, br_relationship_type = ''supports'',
     br_explanation = (rex_new Evidential)\<lparr>rex_rationale := Some ''why'', rex_evidence := Some ''e''\<rparr>, br_provenance = None\<rparr>"

definition group_sample :: "bundle_relationship list" where
  "group_sample = [evidenced_edge ''a'' ''b'', evidenced_edge ''b'' ''c'', evidenced_edge ''c'' ''d'', evidenced_edge ''x'' ''a'']"

theorem dependency_group_exact_witness:
  "dg_member_refs (dependency_select ''a'' (bset_of [''a'', ''b'', ''c'', ''d'', ''x'']) (bset_of [''a'', ''b'', ''c'', ''d'']) group_sample) = [''a'', ''b'', ''c'']
   \<and> (\<exists>h \<le> 2. (''a'', ''c'') \<in> linked group_sample (set (bset_of [''a'', ''b'', ''c'', ''d'', ''x''])) ^^ h)
   \<and> dg_omitted_by_limit (dependency_select ''a'' (bset_of [''a'', ''b'', ''c'', ''d'', ''x'']) (bset_of [''a'', ''b'', ''c'', ''d'']) group_sample) = 1"
proof -
  have m: "dg_member_refs (dependency_select ''a'' (bset_of [''a'', ''b'', ''c'', ''d'', ''x'']) (bset_of [''a'', ''b'', ''c'', ''d'']) group_sample) = [''a'', ''b'', ''c'']"
    by code_simp
  then have "''c'' \<in> set (dg_member_refs (dependency_select ''a'' (bset_of [''a'', ''b'', ''c'', ''d'', ''x'']) (bset_of [''a'', ''b'', ''c'', ''d'']) group_sample))"
    by simp
  then have "\<exists>h \<le> 2. (''a'', ''c'') \<in> linked group_sample (set (bset_of [''a'', ''b'', ''c'', ''d'', ''x''])) ^^ h"
    using dependency_group_exact [of "''a''" "bset_of [''a'', ''b'', ''c'', ''d'', ''x'']" "bset_of [''a'', ''b'', ''c'', ''d'']" group_sample]
    unfolding Let_def by blast
  moreover have "dg_omitted_by_limit (dependency_select ''a'' (bset_of [''a'', ''b'', ''c'', ''d'', ''x'']) (bset_of [''a'', ''b'', ''c'', ''d'']) group_sample) = 1"
    by code_simp
  ultimately show ?thesis using m by blast
qed

end
