(* ===== verification/ProofPlan.thy ===== *)
theory ProofPlan
  imports ReadWindow DependencyGroup
begin

text \<open>
  The proof a temporal page plans (\<open>model/temporal_proof_plan.rs\<close>): the dependency group of
  every entry of the page over the edges the read's window admits, and the references whose
  bodies the proof needs. The plan reads identities only. \<open>None\<close> is the panic of the proof
  selection.
\<close>

record proof_plan =
  pp_groups :: "dependency_group list"
  pp_body_refs :: "string bset"

text \<open>The loop over the memberships: the entries in scope, and those with a text that the window
  admits.\<close>

fun plan_entries :: "(string, bundle_node) bmap \<Rightarrow> read_window \<Rightarrow> bundle_relationship list
    \<Rightarrow> string bset \<times> string bset \<Rightarrow> (string bset \<times> string bset) domain_result" where
  "plan_entries nodes w [] found = Inr found"
| "plan_entries nodes w (edge # edges) (scoped, eligible) =
     (if br_relationship_type edge \<noteq> ''contains_entry'' then plan_entries nodes w edges (scoped, eligible)
      else
        let i = br_target_node_id edge; scoped = bset_insert i scoped in
        if is_none_or (bmap_get nodes i) (\<lambda>node. trim (bn_summary node) = [])
        then plan_entries nodes w edges (scoped, eligible)
        else if is_frontier (rw_selection w) then plan_entries nodes w edges (scoped, bset_insert i eligible)
        else try_bind (tc_from_explanation (br_explanation edge)) (\<lambda>coordinate.
          if (case coordinate of None \<Rightarrow> False | Some c \<Rightarrow> window_admits_coordinate w c)
          then plan_entries nodes w edges (scoped, bset_insert i eligible)
          else plan_entries nodes w edges (scoped, eligible)))"

definition plan_groups :: "(string, bundle_node) bmap \<Rightarrow> read_window \<Rightarrow> kmp_bundle \<Rightarrow> string list \<Rightarrow> bool
    \<Rightarrow> dependency_group list domain_result" where
  "plan_groups nodes w b entry_refs dependencies =
     (if \<not> dependencies then Inr []
      else try_bind (plan_entries nodes w (kb_relationships b) ([], [])) (\<lambda>(scoped, eligible).
        let edges = filter (\<lambda>edge. admits_dependency_relation w (br_explanation edge)) (kb_relationships b)
        in Inr (map (\<lambda>i. dependency_select i scoped eligible edges)
                 (filter (\<lambda>i. i \<in> set eligible) entry_refs))))"

definition evidence_source :: "(string, bundle_node) bmap \<Rightarrow> string bset \<Rightarrow> bundle_relationship \<Rightarrow> string option" where
  "evidence_source nodes proof_refs edge =
     (if br_relationship_type edge = ''supports'' \<and> br_target_node_id edge \<in> set proof_refs then
        (case bmap_get nodes (br_source_node_id edge) of
           Some node \<Rightarrow> if bn_node_kind node \<in> {''memory_evidence'', ''evidence''} then Some (br_source_node_id edge) else None
         | None \<Rightarrow> None)
      else None)"

definition proof_plan_select :: "kmp_bundle \<Rightarrow> traversal_result \<Rightarrow> bool \<Rightarrow> proof_plan domain_result option" where
  "proof_plan_select b traversal dependencies =
     (case proof_selection traversal of
        None \<Rightarrow> None
      | Some selection \<Rightarrow>
          let resolved = (case selection_cursor selection of Some (CursorTime at) \<Rightarrow> Some at | _ \<Rightarrow> None);
              w = read_window_new selection resolved;
              nodes = bundle_nodes_by_id b;
              entry_refs = map te_ref_id (tres_entries traversal)
          in Some (try_bind (plan_groups nodes w b entry_refs dependencies) (\<lambda>groups.
               let proof_refs = bset_of (entry_refs @ concat (map dg_member_refs groups));
                   sources = List.map_filter (evidence_source nodes proof_refs) (kb_relationships b)
               in Inr \<lparr>pp_groups = groups, pp_body_refs = foldl (\<lambda>s i. bset_insert i s) proof_refs sources\<rparr>)))"

subsection \<open>What the plan admits\<close>

definition membership :: "bundle_relationship \<Rightarrow> bool" where
  "membership edge \<longleftrightarrow> br_relationship_type edge = ''contains_entry''"

text \<open>A membership of an entry with a text, that the window admits.\<close>

definition admitted_membership :: "(string, bundle_node) bmap \<Rightarrow> read_window \<Rightarrow> bundle_relationship \<Rightarrow> bool" where
  "admitted_membership nodes w edge \<longleftrightarrow> membership edge
     \<and> (\<exists>node. bmap_get nodes (br_target_node_id edge) = Some node \<and> trim (bn_summary node) \<noteq> [])
     \<and> (is_frontier (rw_selection w)
        \<or> (\<exists>c. tc_from_explanation (br_explanation edge) = Inr (Some c) \<and> window_admits_coordinate w c))"

lemma plan_entries_Cons:
  "plan_entries nodes w (edge # edges) (scoped, eligible) =
     plan_entries nodes w edges
       (if membership edge then bset_insert (br_target_node_id edge) scoped else scoped,
        if admitted_membership nodes w edge then bset_insert (br_target_node_id edge) eligible else eligible)"
proof -
  obtain c where c: "tc_from_explanation (br_explanation edge) = Inr c" using tc_from_explanation_Inr by blast
  show ?thesis
    by (cases "bmap_get nodes (br_target_node_id edge)"; cases c)
      (simp_all add: c membership_def admitted_membership_def is_none_or_def Let_def)
qed

lemma plan_entries_result:
  "\<exists>scoped eligible. plan_entries nodes w edges found = Inr (scoped, eligible)
     \<and> set scoped = set (fst found) \<union> br_target_node_id ` {e \<in> set edges. membership e}
     \<and> set eligible = set (snd found) \<union> br_target_node_id ` {e \<in> set edges. admitted_membership nodes w e}"
proof (induction edges arbitrary: found)
  case (Cons edge edges)
  obtain scoped eligible where f: "found = (scoped, eligible)" by fastforce
  let ?found = "(if membership edge then bset_insert (br_target_node_id edge) scoped else scoped,
        if admitted_membership nodes w edge then bset_insert (br_target_node_id edge) eligible else eligible)"
  obtain scoped' eligible' where "plan_entries nodes w edges ?found = Inr (scoped', eligible')"
     "set scoped' = set (fst ?found) \<union> br_target_node_id ` {e \<in> set edges. membership e}"
     "set eligible' = set (snd ?found) \<union> br_target_node_id ` {e \<in> set edges. admitted_membership nodes w e}"
    using Cons.IH by blast
  then show ?case unfolding f plan_entries_Cons by auto
next
  case Nil
  then show ?case by (cases found) simp
qed

definition plan_window :: "traversal_result \<Rightarrow> read_window option" where
  "plan_window traversal =
     map_option (\<lambda>selection. read_window_new selection
       (case selection_cursor selection of Some (CursorTime at) \<Rightarrow> Some at | _ \<Rightarrow> None)) (proof_selection traversal)"

definition admitted_edges :: "kmp_bundle \<Rightarrow> read_window \<Rightarrow> bundle_relationship list" where
  "admitted_edges b w = filter (\<lambda>edge. admits_dependency_relation w (br_explanation edge)) (kb_relationships b)"

text \<open>Joined to \<open>i\<close> by at most two evidenced links the window admits, and admitted itself.\<close>

definition proof_member :: "kmp_bundle \<Rightarrow> read_window \<Rightarrow> string \<Rightarrow> string \<Rightarrow> bool" where
  "proof_member b w i m \<longleftrightarrow>
     m \<in> br_target_node_id ` {e \<in> set (kb_relationships b). admitted_membership (bundle_nodes_by_id b) w e}
     \<and> (\<exists>h \<le> 2. (i, m) \<in> linked (admitted_edges b w)
          (br_target_node_id ` {e \<in> set (kb_relationships b). membership e}) ^^ h)"

definition evidence_of :: "kmp_bundle \<Rightarrow> string \<Rightarrow> string \<Rightarrow> bool" where
  "evidence_of b m r \<longleftrightarrow>
     (\<exists>e \<in> set (kb_relationships b). br_relationship_type e = ''supports'' \<and> br_source_node_id e = r \<and> br_target_node_id e = m)
     \<and> (\<exists>node. bmap_get (bundle_nodes_by_id b) r = Some node \<and> bn_node_kind node \<in> {''memory_evidence'', ''evidence''})"

lemma plan_groups_result:
  "\<exists>groups. plan_groups (bundle_nodes_by_id b) w b refs dependencies = Inr groups
     \<and> (\<forall>g \<in> set groups. \<exists>i \<in> set refs. \<forall>m \<in> set (dg_member_refs g). proof_member b w i m)"
proof -
  obtain scoped eligible where p: "plan_entries (bundle_nodes_by_id b) w (kb_relationships b) ([], []) = Inr (scoped, eligible)"
    and s: "set scoped = br_target_node_id ` {e \<in> set (kb_relationships b). membership e}"
      "set eligible = br_target_node_id ` {e \<in> set (kb_relationships b). admitted_membership (bundle_nodes_by_id b) w e}"
    using plan_entries_result [of "bundle_nodes_by_id b" w "kb_relationships b" "([], [])"] by auto
  have group: "proof_member b w i m"
    if "m \<in> set (dg_member_refs (dependency_select i scoped eligible (admitted_edges b w)))" for i m
    using dependency_group_members [OF that] unfolding proof_member_def s by blast
  show ?thesis
  proof (cases dependencies)
    case True
    have "plan_groups (bundle_nodes_by_id b) w b refs dependencies
      = Inr (map (\<lambda>i. dependency_select i scoped eligible (admitted_edges b w)) (filter (\<lambda>i. i \<in> set eligible) refs))"
      using p True by (simp add: plan_groups_def admitted_edges_def Let_def)
    then show ?thesis using group by auto
  qed (simp add: plan_groups_def)
qed

lemma evidence_source_Some:
  "evidence_source (bundle_nodes_by_id b) proof_refs e = Some r \<Longrightarrow> e \<in> set (kb_relationships b) \<Longrightarrow>
     br_target_node_id e \<in> set proof_refs \<and> evidence_of b (br_target_node_id e) r"
  by (cases "bmap_get (bundle_nodes_by_id b) (br_source_node_id e)")
    (auto simp: evidence_source_def evidence_of_def split: if_splits)

lemma set_map_filter: "r \<in> set (List.map_filter f xs) \<longleftrightarrow> (\<exists>x \<in> set xs. f x = Some r)"
  by (induction xs) (auto simp: List.map_filter_simps split: option.splits)

lemma set_foldl_insert: "set (foldl (\<lambda>s i. bset_insert i s) s xs) = set s \<union> set xs"
  by (induction xs arbitrary: s) auto

subsection \<open>Property\<close>


definition plan_edge :: "string \<Rightarrow> string \<Rightarrow> string \<Rightarrow> relation_explanation \<Rightarrow> bundle_relationship" where
  "plan_edge s t relation explanation = \<lparr>br_source_node_id = s, br_target_node_id = t, br_relationship_type = relation,
     br_explanation = explanation, br_provenance = None\<rparr>"

definition placed :: "string \<Rightarrow> relation_explanation" where
  "placed time = (rex_new Structural)\<lparr>rex_dimension := Some ''topic'', rex_scope_id := Some ''work'', rex_occurred_at := Some time\<rparr>"

definition explained :: relation_explanation where
  "explained = (rex_new Evidential)\<lparr>rex_rationale := Some ''why'', rex_evidence := Some ''e''\<rparr>"

definition plan_node :: "string \<Rightarrow> string \<Rightarrow> bundle_node" where
  "plan_node i kind = (sample_node i)\<lparr>bn_node_kind := kind, bn_summary := ''text''\<rparr>"

definition plan_bundle :: "kmp_bundle domain_result" where
  "plan_bundle = kmp_bundle_new ''root'' ''dev'' (plan_node ''root'' ''about'')
     [plan_node ''a'' ''entry'', plan_node ''b'' ''entry'', plan_node ''c'' ''entry'', plan_node ''e'' ''evidence'']
     [plan_edge ''root'' ''a'' ''contains_entry'' (placed ''2026-01-10T00:00:00Z''),
      plan_edge ''root'' ''b'' ''contains_entry'' (placed ''2026-01-12T00:00:00Z''),
      plan_edge ''root'' ''c'' ''contains_entry'' (placed ''2026-01-20T00:00:00Z''),
      plan_edge ''b'' ''a'' ''supports'' explained, plan_edge ''c'' ''a'' ''supports'' explained,
      plan_edge ''e'' ''b'' ''supports'' explained] [] (metadata_initial ''1'')"

definition plan_traversal :: traversal_result where
  "plan_traversal = \<lparr>tres_direction = Goto, tres_axis = AxisOccurred,
     tres_resolved_cursor = Some (blank_coordinate\<lparr>tc_occurred_at := Some ''2026-01-15T00:00:00Z''\<rparr>),
     tres_interval = None, tres_requested_dimensions = ds_all, tres_included_dimensions = [],
     tres_missing_dimensions = [], tres_entries = [\<lparr>te_ref_id = ''a'', te_kind = ''entry'', te_text = ''text'', te_coordinates = []\<rparr>],
     tres_page = \<lparr>pg_returned = 1, pg_total = 1, pg_next_cursor = None\<rparr>, tres_missing = [], tres_warnings = []\<rparr>"


end
