(* ===== verification/MaterialSet.thy ===== *)
theory MaterialSet
  imports BTree "HOL-Library.Word"
begin

text \<open>
  Compact sets of entry positions (\<open>model/trace_material_set.rs\<close>): one bit for each position
  of a universe, in words of 64. The interface that material selection relies on is the locale
  \<open>index_set\<close>, over the positions a set holds; the words interpret it. A position past the last
  word is a panic, \<open>None\<close>.
\<close>

unbundle bit_operations_syntax

subsection \<open>The interface\<close>

locale index_set =
  fixes empty :: "nat \<Rightarrow> 's"
    and add :: "nat \<Rightarrow> 's \<Rightarrow> 's option"
    and join :: "'s \<Rightarrow> 's \<Rightarrow> 's"
    and size_of :: "'s \<Rightarrow> nat"
    and shared :: "'s \<Rightarrow> 's \<Rightarrow> nat"
    and holds :: "'s \<Rightarrow> nat \<Rightarrow> bool option"
    and ok :: "nat \<Rightarrow> 's \<Rightarrow> bool"
    and members :: "'s \<Rightarrow> nat set"
  assumes ok_empty: "ok n (empty n)" and members_empty: "members (empty n) = {}"
    and add_ok: "ok n s \<Longrightarrow> i < n \<Longrightarrow> \<exists>s'. add i s = Some s' \<and> ok n s' \<and> members s' = insert i (members s)"
    and ok_join: "ok n s \<Longrightarrow> ok n t \<Longrightarrow> ok n (join s t)"
    and members_join: "ok n s \<Longrightarrow> ok n t \<Longrightarrow> members (join s t) = members s \<union> members t"
    and finite_members: "finite (members s)"
    and size_members: "size_of s = card (members s)"
    and shared_members: "ok n s \<Longrightarrow> ok n t \<Longrightarrow> shared s t = card (members s \<inter> members t)"
    and holds_members: "ok n s \<Longrightarrow> i < n \<Longrightarrow> holds s i = Some (i \<in> members s)"
begin

lemma join_all:
  "ok n s \<Longrightarrow> \<forall>t \<in> set ts. ok n t \<Longrightarrow>
     ok n (foldl join s ts) \<and> members (foldl join s ts) = members s \<union> \<Union> (members ` set ts)"
proof (induction ts arbitrary: s)
  case (Cons t ts)
  then show ?case using Cons.IH [of "join s t"] by (auto simp: ok_join members_join)
qed simp

lemma shared_all: "ok n s \<Longrightarrow> ok n t \<Longrightarrow> shared s t = size_of t \<longleftrightarrow> members t \<subseteq> members s"
  using card_subset_eq [OF finite_members [of t], of "members s \<inter> members t"]
  by (auto simp: shared_members size_members Int_absorb1)

lemma shared_le: "ok n s \<Longrightarrow> ok n t \<Longrightarrow> shared s t \<le> size_of t"
  using finite_members [of t] by (simp add: shared_members size_members card_mono)

end

subsection \<open>The words\<close>

type_synonym material_set = "64 word list"

definition set_empty :: "nat \<Rightarrow> material_set" where
  "set_empty nodes = replicate ((nodes + 63) div 64) 0"

definition set_add :: "nat \<Rightarrow> material_set \<Rightarrow> material_set option" where
  "set_add i s =
     (if i div 64 < length s then Some (s[i div 64 := s ! (i div 64) OR push_bit (i mod 64) 1]) else None)"

definition set_union :: "material_set \<Rightarrow> material_set \<Rightarrow> material_set" where
  "set_union s t = map2 (OR) s t @ drop (length t) s"

definition count_ones :: "64 word \<Rightarrow> nat" where
  "count_ones w = length (filter (bit w) [0..<64])"

definition set_count :: "material_set \<Rightarrow> nat" where
  "set_count s = sum_list (map count_ones s)"

definition intersection_count :: "material_set \<Rightarrow> material_set \<Rightarrow> nat" where
  "intersection_count s t = sum_list (map count_ones (map2 (AND) s t))"

definition set_contains :: "material_set \<Rightarrow> nat \<Rightarrow> bool option" where
  "set_contains s i =
     (if i div 64 < length s then Some (s ! (i div 64) AND push_bit (i mod 64) 1 \<noteq> 0) else None)"

subsection \<open>The positions of a set\<close>

definition members :: "material_set \<Rightarrow> nat set" where
  "members s = {i. i div 64 < length s \<and> bit (s ! (i div 64)) (i mod 64)}"

definition set_ok :: "nat \<Rightarrow> material_set \<Rightarrow> bool" where
  "set_ok n s \<longleftrightarrow> length s = (n + 63) div 64"

lemma members_Cons: "members (w # s) = {i. i < 64 \<and> bit w i} \<union> (\<lambda>i. i + 64) ` members s"
proof (intro set_eqI)
  fix i
  show "i \<in> members (w # s) \<longleftrightarrow> i \<in> {i. i < 64 \<and> bit w i} \<union> (\<lambda>i. i + 64) ` members s"
  proof (cases "i < 64")
    case False
    then have "i = i - 64 + 64" by simp
    then obtain j where "i = j + 64" by blast
    moreover have "(j + 64) div 64 = Suc (j div 64)" "(j + 64) mod 64 = j mod 64" by simp_all
    ultimately show ?thesis by (auto simp: members_def image_iff)
  qed (auto simp: members_def image_iff)
qed

lemma set_members_Nil [simp]: "members [] = {}"
  by (simp add: members_def)

lemma finite_members: "finite (members s)"
  by (induction s) (auto simp: members_Cons)

lemma count_ones_card: "count_ones w = card {i. i < 64 \<and> bit w i}"
proof -
  have "distinct (filter (bit w) [0..<64])" by simp
  then have "count_ones w = card (set (filter (bit w) [0..<64]))" unfolding count_ones_def by (metis distinct_card)
  also have "set (filter (bit w) [0..<64]) = {i. i < 64 \<and> bit w i}" by auto
  finally show ?thesis .
qed

lemma set_count_card: "set_count s = card (members s)"
proof (induction s)
  case (Cons w s)
  have "{i. i < 64 \<and> bit w i} \<inter> (\<lambda>i. i + 64) ` members s = {}" by auto
  moreover have "card ((\<lambda>i. i + 64) ` members s) = card (members s)" by (intro card_image) (simp add: inj_on_def)
  ultimately have "card (members (w # s)) = count_ones w + card (members s)"
    using finite_members [of s] by (simp add: members_Cons card_Un_disjoint count_ones_card)
  then show ?case using Cons by (simp add: set_count_def)
qed (simp add: set_count_def)

lemma bit_single: "k < 64 \<Longrightarrow> bit (2 ^ m :: 64 word) k \<longleftrightarrow> k = m"
  by (auto simp: bit_simps)

lemma members_AND: "members (map2 (AND) s t) = members s \<inter> members t"
  by (auto simp: members_def bit_and_iff)

interpretation material: index_set set_empty set_add set_union set_count intersection_count set_contains set_ok members
proof
  fix n show "set_ok n (set_empty n)" by (simp add: set_ok_def set_empty_def)
  show "members (set_empty n) = {}" by (auto simp: members_def set_empty_def)
next
  fix n s i assume ok: "set_ok n s" and i: "i < n"
  then have k: "i div 64 < length s" by (simp add: set_ok_def)
  let ?s = "s[i div 64 := s ! (i div 64) OR push_bit (i mod 64) 1]"
  have "j \<in> members ?s \<longleftrightarrow> j \<in> insert i (members s)" for j
  proof (cases "j div 64 = i div 64")
    case True
    have "j mod 64 = i mod 64 \<longleftrightarrow> j = i" using True by (metis div_mult_mod_eq)
    then show ?thesis using k True by (auto simp: members_def bit_or_iff bit_single)
  next
    case False
    then show ?thesis using k by (auto simp: members_def)
  qed
  then show "\<exists>s'. set_add i s = Some s' \<and> set_ok n s' \<and> members s' = insert i (members s)"
    using k ok by (auto simp: set_add_def set_ok_def)
next
  fix n s t assume "set_ok n s" "set_ok n t"
  then have len: "length s = length t" "length s = (n + 63) div 64" by (simp_all add: set_ok_def)
  then show "set_ok n (set_union s t)" by (simp add: set_ok_def set_union_def)
  show "members (set_union s t) = members s \<union> members t"
    using len by (auto simp: members_def set_union_def bit_or_iff)
  have "intersection_count s t = set_count (map2 (AND) s t)" by (simp add: intersection_count_def set_count_def)
  then show "intersection_count s t = card (members s \<inter> members t)"
    by (simp add: set_count_card members_AND)
next
  fix s show "finite (members s)" by (rule finite_members)
  show "set_count s = card (members s)" by (rule set_count_card)
next
  fix n s i assume ok: "set_ok n s" and i: "i < n"
  then have k: "i div 64 < length s" by (simp add: set_ok_def)
  have "s ! (i div 64) AND push_bit (i mod 64) 1 \<noteq> 0 \<longleftrightarrow> bit (s ! (i div 64)) (i mod 64)"
    by (simp only: bit_iff_and_push_bit_not_eq_0)
  then show "set_contains s i = Some (i \<in> members s)" using k by (simp add: set_contains_def members_def)
qed

end
