(* ===== verification/TraceBudget.thy ===== *)
theory TraceBudget
  imports PathSearch
begin

text \<open>
  The reads of a bounded trace search and their budget (\<open>model/trace_read_budget.rs\<close>,
  \<open>projection/node_projection.rs\<close>, \<open>repositories/trace_snapshot_reader.rs\<close>). The snapshot is
  a parameter: a function for nodes and one for bounded adjacency pages. Counters keep their
  \<open>u32\<close> width. Over a snapshot that returns no more rows than it is asked for, the references
  and the rows stay inside the limits, so that no counter wraps.
\<close>

subsection \<open>The snapshot\<close>

record node_projection =
  np_node_id :: string
  np_node_kind :: string
  np_title :: string
  np_summary :: string
  np_status :: string
  np_labels :: "string list"
  np_properties :: "(string, string) bmap"
  np_provenance :: "provenance option"

record snapshot_reader =
  sr_node :: "string \<Rightarrow> node_projection option port_result"
  sr_adjacency :: "adjacency_request \<Rightarrow> adjacency_page port_result"

subsection \<open>The budget\<close>

record read_budget =
  rb_refs :: "string bset"
  rb_scanned :: "32 word"
  rb_coordinate_rows :: "32 word"
  rb_adjacency_pages :: "32 word"
  rb_coordinate_pages :: "32 word"
  rb_stop :: "trace_search_stop option"

definition budget_new :: read_budget where
  "budget_new = \<lparr>rb_refs = [], rb_scanned = 0, rb_coordinate_rows = 0, rb_adjacency_pages = 0,
     rb_coordinate_pages = 0, rb_stop = None\<rparr>"

definition budget_node :: "snapshot_reader \<Rightarrow> trace_search_limits \<Rightarrow> string \<Rightarrow> read_budget
    \<Rightarrow> (node_projection option \<times> read_budget) port_result" where
  "budget_node reader limits i b =
     (if i \<notin> set (rb_refs b) \<and> length (rb_refs b) = unat (tl_nodes limits) then
        Inr (None, b\<lparr>rb_stop := Some NodeBudget\<rparr>)
      else try_bind (sr_node reader i) (\<lambda>node. Inr (node, b\<lparr>rb_refs := bset_insert i (rb_refs b)\<rparr>)))"

definition row_end :: "relation_direction \<Rightarrow> node_relation_projection \<Rightarrow> string" where
  "row_end direction edge =
     (case direction of Outgoing \<Rightarrow> nr_target_node_id edge | Incoming \<Rightarrow> nr_source_node_id edge)"

text \<open>The counters of one page.\<close>

definition count_page :: "relation_direction \<Rightarrow> string option \<Rightarrow> adjacency_page \<Rightarrow> read_budget \<Rightarrow> read_budget" where
  "count_page direction relation_type page b =
     (let rows = of_nat (length (ap_edges page));
          b = b\<lparr>rb_scanned := rb_scanned b + rows\<rparr>;
          b = (if relation_type = Some ''contains_entry''
               then b\<lparr>rb_coordinate_rows := rb_coordinate_rows b + rows, rb_coordinate_pages := rb_coordinate_pages b + 1\<rparr>
               else b\<lparr>rb_adjacency_pages := rb_adjacency_pages b + 1\<rparr>)
      in b\<lparr>rb_refs := foldl (\<lambda>refs edge. bset_insert (row_end direction edge) refs) (rb_refs b) (ap_edges page)\<rparr>)"

definition page_request :: "string \<Rightarrow> relation_direction \<Rightarrow> relation_position option \<Rightarrow> string option \<Rightarrow> 32 word
    \<Rightarrow> adjacency_request port_result" where
  "page_request node direction after relation_type limit =
     try_bind (port_result (adjacency_request_new node direction limit)) (\<lambda>request.
     try_bind (case relation_type of None \<Rightarrow> Inr request | Some kind \<Rightarrow> port_result (with_relation_type request kind)) (\<lambda>request.
       Inr (case after of None \<Rightarrow> request | Some position \<Rightarrow> with_after request position)))"

definition nodes_left :: "trace_search_limits \<Rightarrow> read_budget \<Rightarrow> 32 word" where
  "nodes_left limits b = tl_nodes limits - of_nat (length (rb_refs b))"

definition edges_left :: "trace_search_limits \<Rightarrow> read_budget \<Rightarrow> 32 word" where
  "edges_left limits b = tl_edges limits - rb_scanned b"

definition page_limited :: "snapshot_reader \<Rightarrow> trace_search_limits \<Rightarrow> string \<Rightarrow> relation_direction
    \<Rightarrow> relation_position option \<Rightarrow> string option \<Rightarrow> 32 word \<Rightarrow> read_budget
    \<Rightarrow> (adjacency_page option \<times> read_budget) port_result" where
  "page_limited reader limits node direction after relation_type rows b =
     (if nodes_left limits b = 0 \<or> edges_left limits b = 0 then
        Inr (None, b\<lparr>rb_stop := Some (if nodes_left limits b = 0 then NodeBudget else EdgeBudget)\<rparr>)
      else
        try_bind (page_request node direction after relation_type
            (min (min (nodes_left limits b) (edges_left limits b)) rows)) (\<lambda>request.
        try_bind (sr_adjacency reader request) (\<lambda>page.
          Inr (Some page, count_page direction relation_type page b))))"

definition budget_page :: "snapshot_reader \<Rightarrow> trace_search_limits \<Rightarrow> string \<Rightarrow> relation_direction
    \<Rightarrow> relation_position option \<Rightarrow> string option \<Rightarrow> read_budget \<Rightarrow> (adjacency_page option \<times> read_budget) port_result" where
  "budget_page reader limits node direction after relation_type b =
     page_limited reader limits node direction after relation_type 32 b"

subsection \<open>Inside the limits\<close>

text \<open>The documented bound of an adjacency page.\<close>

definition rows_bounded :: "snapshot_reader \<Rightarrow> bool" where
  "rows_bounded reader \<longleftrightarrow>
     (\<forall>request page. sr_adjacency reader request = Inr page \<longrightarrow> length (ap_edges page) \<le> unat (ar_limit request))"

definition budget_ok :: "trace_search_limits \<Rightarrow> read_budget \<Rightarrow> bool" where
  "budget_ok limits b \<longleftrightarrow> bset_ok (rb_refs b) \<and> length (rb_refs b) \<le> unat (tl_nodes limits)
     \<and> rb_scanned b \<le> tl_edges limits \<and> rb_stop b \<in> {None, Some NodeBudget, Some EdgeBudget}"

lemma budget_new_ok [simp]: "budget_ok limits budget_new"
  by (simp add: budget_ok_def budget_new_def)

lemma budget_stop_ok:
  "budget_ok limits b \<Longrightarrow> s \<in> {NodeBudget, EdgeBudget} \<Longrightarrow> budget_ok limits (b\<lparr>rb_stop := Some s\<rparr>)"
  by (auto simp: budget_ok_def)

lemma length_bset_insert:
  assumes "bset_ok s"
  shows "length (bset_insert x s) = (if x \<in> set s then length s else Suc (length s))"
proof -
  have "length (bset_insert x s) = card (insert x (set s))"
    using length_bset [OF bset_ok_insert [OF assms, of x]] by simp
  then show ?thesis using assms by (auto simp: length_bset card_insert_if)
qed

lemma bset_fold_insert:
  assumes "bset_ok s"
  shows "bset_ok (foldl (\<lambda>s e. bset_insert (f e) s) s es)
    \<and> length (foldl (\<lambda>s e. bset_insert (f e) s) s es) \<le> length s + length es
    \<and> set (foldl (\<lambda>s e. bset_insert (f e) s) s es) = set s \<union> f ` set es"
  using assms
proof (induction es arbitrary: s)
  case (Cons e es)
  from Cons.IH [OF bset_ok_insert [OF Cons.prems, of "f e"]] Cons.prems
  show ?case by (auto simp: length_bset_insert split: if_splits)
qed simp

lemma budget_node_ok:
  assumes "budget_node reader limits i b = Inr (node, b')" and "budget_ok limits b"
  shows "budget_ok limits b'"
  using assms by (auto simp: budget_node_def budget_ok_def try_bind_Inr_iff length_bset_insert bset_ok_insert
      split: if_splits)

lemma unat_u32: "unat (w :: 32 word) < 2 ^ 32"
  by (rule order_less_le_trans [OF unsigned_less]) simp

lemma unat_of_nat_u32: "n < 2 ^ 32 \<Longrightarrow> unat (of_nat n :: 32 word) = n"
  by (simp add: unat_of_nat take_bit_nat_eq_self)

lemma left_unat:
  assumes "budget_ok limits b"
  shows "unat (nodes_left limits b) = unat (tl_nodes limits) - length (rb_refs b)"
    and "unat (edges_left limits b) = unat (tl_edges limits) - unat (rb_scanned b)"
proof -
  have "unat (of_nat (length (rb_refs b)) :: 32 word) = length (rb_refs b)"
    using assms unat_u32 [of "tl_nodes limits"] by (intro unat_of_nat_u32) (simp add: budget_ok_def)
  then show "unat (nodes_left limits b) = unat (tl_nodes limits) - length (rb_refs b)"
    using assms by (simp add: nodes_left_def unat_sub word_le_nat_alt budget_ok_def)
  show "unat (edges_left limits b) = unat (tl_edges limits) - unat (rb_scanned b)"
    using assms by (simp add: edges_left_def unat_sub budget_ok_def)
qed

lemma port_result_Inr: "port_result r = Inr x \<longleftrightarrow> r = Inr x"
  by (simp add: port_result_def split: sum.splits)

lemma request_new_limit: "adjacency_request_new node direction limit = Inr request \<Longrightarrow> ar_limit request = limit"
  by (auto simp: adjacency_request_new_def split: if_splits)

lemma with_type_limit: "with_relation_type request kind = Inr request' \<Longrightarrow> ar_limit request' = ar_limit request"
  by (auto simp: with_relation_type_def try_bind_Inr_iff)

lemma page_request_limit:
  "page_request node direction after relation_type limit = Inr request \<Longrightarrow> ar_limit request = limit"
  by (cases after; cases relation_type)
    (auto simp: page_request_def try_bind_Inr_iff with_after_def port_result_Inr
      intro: request_new_limit trans [OF with_type_limit request_new_limit])

text \<open>What one granted page does to a budget.\<close>

lemma page_limited_Some:
  assumes page: "page_limited reader limits node direction after relation_type rows b = Inr (Some page, b')"
    and ok: "budget_ok limits b" and bounded: "rows_bounded reader"
  shows "budget_ok limits b'" and "rb_stop b' = rb_stop b"
    and "unat (rb_scanned b') = unat (rb_scanned b) + length (ap_edges page)"
    and "set (rb_refs b') = set (rb_refs b) \<union> row_end direction ` set (ap_edges page)"
proof -
  obtain request where q: "page_request node direction after relation_type
      (min (min (nodes_left limits b) (edges_left limits b)) rows) = Inr request"
    and r: "sr_adjacency reader request = Inr page" and b': "b' = count_page direction relation_type page b"
    using page by (auto simp: page_limited_def try_bind_Inr_iff split: if_splits)
  have "length (ap_edges page) \<le> unat (ar_limit request)" using bounded r by (simp add: rows_bounded_def)
  also have "\<dots> = unat (min (min (nodes_left limits b) (edges_left limits b)) rows)"
    by (simp add: page_request_limit [OF q])
  finally have len: "length (ap_edges page) \<le> unat (min (min (nodes_left limits b) (edges_left limits b)) rows)" .
  have "min (min (nodes_left limits b) (edges_left limits b)) rows \<le> nodes_left limits b"
    "min (min (nodes_left limits b) (edges_left limits b)) rows \<le> edges_left limits b"
    by (simp_all add: min.coboundedI1)
  then have lens: "length (ap_edges page) \<le> unat (nodes_left limits b)" "length (ap_edges page) \<le> unat (edges_left limits b)"
    using len unfolding word_le_nat_alt by linarith+
  let ?n = "of_nat (length (ap_edges page)) :: 32 word"
  have le: "unat (rb_scanned b) \<le> unat (tl_edges limits)" using ok by (simp add: budget_ok_def word_le_nat_alt)
  have small: "unat (rb_scanned b) + length (ap_edges page) \<le> unat (tl_edges limits)"
    using lens(2) left_unat(2) [OF ok] le by simp
  moreover have lt: "unat (tl_edges limits) < 2 ^ 32"
    by (rule unat_u32)
  ultimately have n: "unat ?n = length (ap_edges page)" by (intro unat_of_nat_u32) simp
  have sum: "unat (rb_scanned b + ?n) = unat (rb_scanned b) + length (ap_edges page)"
    using small lt n by (subst unat_add_lem [THEN iffD1]) simp_all
  show "unat (rb_scanned b') = unat (rb_scanned b) + length (ap_edges page)"
    using sum by (simp add: b' count_page_def Let_def)
  have refs: "bset_ok (rb_refs b)" using ok by (simp add: budget_ok_def)
  note fold = bset_fold_insert [OF refs, of "row_end direction" "ap_edges page"]
  have b'_refs: "rb_refs b' = foldl (\<lambda>refs edge. bset_insert (row_end direction edge) refs) (rb_refs b) (ap_edges page)"
    by (simp add: b' count_page_def Let_def)
  show "set (rb_refs b') = set (rb_refs b) \<union> row_end direction ` set (ap_edges page)"
    using fold by (simp add: b'_refs)
  have "length (rb_refs b') \<le> unat (tl_nodes limits)"
    using fold [THEN conjunct2, THEN conjunct1] lens(1) left_unat(1) [OF ok] ok
    unfolding b'_refs budget_ok_def by linarith
  moreover have "rb_scanned b' \<le> tl_edges limits"
    using sum small by (simp add: b' count_page_def Let_def word_le_nat_alt)
  moreover show stop: "rb_stop b' = rb_stop b" by (simp add: b' count_page_def Let_def)
  moreover have "rb_stop b \<in> {None, Some NodeBudget, Some EdgeBudget}" using ok unfolding budget_ok_def by simp
  ultimately show "budget_ok limits b'" using fold unfolding budget_ok_def b'_refs by simp
qed

lemma page_limited_None:
  "page_limited reader limits node direction after relation_type rows b = Inr (None, b') \<Longrightarrow>
     \<exists>s. s \<in> {NodeBudget, EdgeBudget} \<and> b' = b\<lparr>rb_stop := Some s\<rparr>"
  by (auto simp: page_limited_def try_bind_Inr_iff split: if_splits)

lemma page_limited_ok:
  assumes "page_limited reader limits node direction after relation_type rows b = Inr (page, b')"
    and "budget_ok limits b" and "rows_bounded reader"
  shows "budget_ok limits b'"
proof (cases page)
  case None
  then show ?thesis using assms(1,2) page_limited_None budget_stop_ok by blast
next
  case (Some p)
  then show ?thesis using assms page_limited_Some(1) by blast
qed

end
