(* ===== verification/TraceRequest.thy ===== *)
theory TraceRequest
  imports PathSearch TemporalValues
begin

text \<open>
  What a bounded trace search is asked (\<open>model/trace_search_request.rs\<close>,
  \<open>trace_relation_step.rs\<close>, \<open>trace_dimension_policy.rs\<close>, \<open>trace_material_selection.rs\<close>,
  \<open>trace_proof_requirement.rs\<close>, \<open>trace_body_options.rs\<close>): the request, its parts and their
  validation, which refuses at the first fault in the order of the code.
\<close>

subsection \<open>Dimensions\<close>

record trace_dimension_policy =
  dp_required :: "dimension_selection option"
  dp_preferred :: "dimension_selection option"

definition constrained :: "dimension_selection \<Rightarrow> bool" where
  "constrained s \<longleftrightarrow> ds_mode s \<noteq> ModeAll \<or> ds_scope_ids s \<noteq> [] \<or> has_selectors s"

text \<open>\<open>iter()\<close> of an \<open>Option\<close>.\<close>

definition option_list :: "'a option \<Rightarrow> 'a list" where
  "option_list v = (case v of None \<Rightarrow> [] | Some x \<Rightarrow> [x])"

fun validate_dimensions :: "dimension_selection list \<Rightarrow> unit domain_result" where
  "validate_dimensions [] = Inr ()"
| "validate_dimensions (s # ss) =
     (if ds_scope_mode s \<noteq> CurrentAbout then
        Inl (InvalidState ''bounded trace dimensions require current_about scope'')
      else if 64 < length (ds_dimensions s) \<or> 64 < length (ds_scope_ids s) \<or> 16 < length (ds_selectors s)
          \<or> list_ex (\<lambda>sel. 64 < length (ls_values sel)) (ds_selectors s) then
        Inl (InvalidState ''trace dimensions allow at most 64 kinds/scopes, 16 selectors and 64 values per selector'')
      else if ds_mode s \<noteq> ModeAll \<and> ds_dimensions s = [] then
        Inl (InvalidState ''trace only/except requires dimension kinds'')
      else validate_dimensions ss)"

definition policy_validate :: "trace_dimension_policy \<Rightarrow> unit domain_result" where
  "policy_validate p =
     try_bind (validate_dimensions (option_list (dp_required p) @ option_list (dp_preferred p))) (\<lambda>_.
       if (case dp_preferred p of None \<Rightarrow> False | Some s \<Rightarrow> \<not> constrained s) then
         Inl (InvalidState ''search.prefer_dimensions requires a kind, scope value or selector'')
       else Inr ())"

definition reads_coordinates :: "trace_dimension_policy \<Rightarrow> bool" where
  "reads_coordinates p \<longleftrightarrow>
     (case dp_required p of None \<Rightarrow> False | Some s \<Rightarrow> constrained s) \<or> dp_preferred p \<noteq> None"

definition policy_is_active :: "trace_dimension_policy \<Rightarrow> bool" where
  "policy_is_active p \<longleftrightarrow> dp_required p \<noteq> None \<or> dp_preferred p \<noteq> None"

subsection \<open>Material\<close>

record trace_proof_requirement =
  rq_alternatives :: "string bset list"
  rq_weight :: "32 word"

record trace_material_selection =
  ms_max_nodes :: "32 word"
  ms_max_paths :: "32 word"
  ms_groups :: "trace_proof_requirement list"

definition requirement_refused :: "string bset \<Rightarrow> trace_proof_requirement \<Rightarrow> bool" where
  "requirement_refused targets g \<longleftrightarrow>
     \<not> (1 \<le> rq_weight g \<and> rq_weight g \<le> 1000) \<or> rq_alternatives g = [] \<or> 8 < length (rq_alternatives g)
     \<or> list_ex (\<lambda>a. a = [] \<or> 8 < length a \<or> \<not> set a \<subseteq> set targets) (rq_alternatives g)"

definition material_validate :: "trace_material_selection \<Rightarrow> string bset \<Rightarrow> unit domain_result" where
  "material_validate p targets =
     (if \<not> (1 \<le> ms_max_nodes p \<and> ms_max_nodes p \<le> 4096) \<or> \<not> (1 \<le> ms_max_paths p \<and> ms_max_paths p \<le> 8)
         \<or> 8 < length (ms_groups p) \<or> targets = [] \<or> 8 < length targets then
        Inl (InvalidState ''trace material requires 1..4096 nodes, 1..8 paths, at most 8 groups and 1..8 targets'')
      else if list_ex (requirement_refused targets) (ms_groups p) then
        Inl (InvalidState ''each trace group requires weight 1..1000 and 1..8 nonempty alternatives drawn from to'')
      else Inr ())"

definition requirements :: "trace_material_selection \<Rightarrow> string bset \<Rightarrow> trace_proof_requirement list" where
  "requirements p targets =
     (if ms_groups p = [] then map (\<lambda>target. \<lparr>rq_alternatives = [[target]], rq_weight = 1\<rparr>) targets
      else ms_groups p)"

subsection \<open>Bodies\<close>

definition MAX_EXPANSION_REFS :: nat where "MAX_EXPANSION_REFS = 64"

record trace_body_options =
  bo_max_record_bytes :: "64 word option"
  bo_refs :: "string bset option"
  bo_expect_selection :: "string option"
  bo_compact :: "string option"

definition body_options_default :: trace_body_options where
  "body_options_default = \<lparr>bo_max_record_bytes = None, bo_refs = None, bo_expect_selection = None, bo_compact = None\<rparr>"

definition body_is_active :: "trace_body_options \<Rightarrow> bool" where
  "body_is_active o' \<longleftrightarrow> bo_max_record_bytes o' \<noteq> None \<or> bo_refs o' \<noteq> None
     \<or> bo_expect_selection o' \<noteq> None \<or> bo_compact o' \<noteq> None"

definition validate_refs :: "trace_body_options \<Rightarrow> string bset \<Rightarrow> unit domain_result" where
  "validate_refs o' refs =
     (if MAX_EXPANSION_REFS < length refs then
        Inl (InvalidState (''a named body expansion takes at most '' @ dec MAX_EXPANSION_REFS @ '' refs; ''
          @ ''ask for the rest in the next bound batch''))
      else if list_ex (\<lambda>r. trim r = []) refs then
        Inl (InvalidState ''a named body expansion takes nonempty refs'')
      else if refs \<noteq> [] \<and> (bo_max_record_bytes o' = None \<or> bo_expect_selection o' = None) then
        Inl (InvalidState (''a named body expansion requires both a record byte ceiling and the ''
          @ ''expect_selection returned by the read that named these refs''))
      else Inr ())"

definition body_validate :: "trace_body_options \<Rightarrow> unit domain_result" where
  "body_validate o' =
     try_bind (case bo_refs o' of None \<Rightarrow> Inr () | Some refs \<Rightarrow> validate_refs o' refs) (\<lambda>_.
       if bo_max_record_bytes o' = Some 0 then
         Inl (InvalidState (''a record byte ceiling is positive; omit it for the unbounded legacy read, ''
           @ ''or ask for an empty ref list to see descriptors only''))
       else if (case bo_compact o' of None \<Rightarrow> False | Some l \<Rightarrow> trim l = []) then
         Inl (InvalidState ''compact presentation needs the language its cards were written in'')
       else Inr ())"

subsection \<open>The request\<close>

record trace_relation_step =
  rs_relation :: relation_type
  rs_direction :: relation_direction

record trace_search_request =
  sq_proof :: bool
  sq_about :: string
  sq_from :: string
  sq_targets :: "string bset"
  sq_direction :: relation_direction
  sq_relations :: "string bset"
  sq_follow :: "trace_relation_step list"
  sq_paths_per_target :: "32 word"
  sq_policy :: trace_dimension_policy
  sq_select :: "trace_material_selection option"
  sq_limits :: trace_search_limits
  sq_temporal :: temporal_selection
  sq_body :: trace_body_options

definition step_key :: "trace_relation_step \<Rightarrow> string \<times> bool" where
  "step_key step = (rt_canonical (rs_relation step), rs_direction step = Incoming)"

definition cursor_refused :: "temporal_selection \<Rightarrow> bool" where
  "cursor_refused selection =
     (case selection_cursor selection of
        None \<Rightarrow> False
      | Some (CursorRef reference) \<Rightarrow> trim reference = []
      | Some (CursorTime at) \<Rightarrow> temporal_instant_nanos at = None
      | Some (CursorSequence _) \<Rightarrow> True)"

fun validate_relations :: "string list \<Rightarrow> unit domain_result" where
  "validate_relations [] = Inr ()"
| "validate_relations (r # rs) = try_bind (relation_type_new r) (\<lambda>_. validate_relations rs)"

definition search_validate :: "trace_search_request \<Rightarrow> unit domain_result" where
  "search_validate r =
     try_bind (limits_validate (sq_limits r)) (\<lambda>_.
     try_bind (body_validate (sq_body r)) (\<lambda>_.
     try_bind (policy_validate (sq_policy r)) (\<lambda>_.
     try_bind (case sq_select r of None \<Rightarrow> Inr () | Some p \<Rightarrow> material_validate p (sq_targets r)) (\<lambda>_.
       if \<not> (1 \<le> sq_paths_per_target r \<and> sq_paths_per_target r \<le> 8) \<or> 16 < length (sq_follow r) then
         Inl (InvalidState ''trace search requires paths_per_target 1..8 and at most 16 follow moves'')
       else if sq_follow r \<noteq> [] \<and> (sq_relations r \<noteq> [] \<or> sq_direction r \<noteq> Outgoing) then
         Inl (InvalidState ''search.follow replaces global direction and relations'')
       else if \<not> distinct (map step_key (sq_follow r)) then
         Inl (InvalidState ''search.follow requires distinct moves'')
       else if cursor_refused (sq_temporal r) then
         Inl (InvalidState ''trace as_of requires a nonempty ref or a valid instant, never a sequence'')
       else if trim (sq_about r) = [] \<or> trim (sq_from r) = [] \<or> sq_targets r = [] \<or> 8 < length (sq_targets r)
           \<or> list_ex (\<lambda>s. trim s = []) (sq_targets r) then
         Inl (InvalidState ''trace search requires an about, a source and 1..8 destinations'')
       else validate_relations (sq_relations r)))))"

end
