(* ===== verification/TracePending.thy ===== *)
theory TracePending
  imports BTree "HOL-Library.Multiset" "HOL-Library.Product_Lexorder"
begin

text \<open>
  The pending states of a bounded trace search (\<open>model/trace_pending_states.rs\<close>): a queue, and
  when the search prefers some dimensions a priority heap beside it, from which three states
  are taken for each one taken from the queue. An entry is dropped lazily: both collections
  may hold tickets that are no longer pending. The interface a search relies on is the locale
  \<open>pending_queue\<close>: what waits is a multiset, nothing in it is lost or taken twice.
\<close>

subsection \<open>The interface\<close>

locale pending_queue =
  fixes start :: 'q
    and push :: "nat \<Rightarrow> nat \<Rightarrow> bool \<Rightarrow> 'q \<Rightarrow> 'q"
    and pop :: "'q \<Rightarrow> nat option \<times> 'q"
    and ok :: "'q \<Rightarrow> bool"
    and waiting :: "'q \<Rightarrow> nat multiset"
  assumes ok_start: "ok start" and waiting_start: "waiting start = {#}"
    and ok_push: "ok q \<Longrightarrow> ok (push i d p q)"
    and waiting_push: "ok q \<Longrightarrow> i \<notin># waiting q \<Longrightarrow> waiting (push i d p q) = add_mset i (waiting q)"
    and pop_None: "ok q \<Longrightarrow> pop q = (None, q') \<Longrightarrow> ok q' \<and> waiting q = {#} \<and> waiting q' = {#}"
    and pop_Some: "ok q \<Longrightarrow> pop q = (Some i, q') \<Longrightarrow> ok q' \<and> i \<in># waiting q \<and> waiting q = add_mset i (waiting q')"
begin

lemma pop_size: "ok q \<Longrightarrow> pop q = (Some i, q') \<Longrightarrow> size (waiting q') < size (waiting q)"
  using pop_Some [of q i q'] by simp

lemma pop_set: "ok q \<Longrightarrow> pop q = (r, q') \<Longrightarrow> set_mset (waiting q) = set_option r \<union> set_mset (waiting q')"
  using pop_None [of q q'] pop_Some [of q _ q'] by (cases r) auto

lemma push_set: "ok q \<Longrightarrow> i \<notin># waiting q \<Longrightarrow> set_mset (waiting (push i d p q)) = insert i (set_mset (waiting q))"
  by (simp add: waiting_push)

end

subsection \<open>The states\<close>

text \<open>\<open>(preferred, Reverse(depth), Reverse(ticket), index)\<close> in the heap.\<close>

type_synonym priority = "bool \<times> nat \<times> nat \<times> nat"

fun priority_key :: "priority \<Rightarrow> bool \<times> int \<times> int \<times> int" where
  "priority_key (preferred, depth, ticket, index) = (preferred, - int depth, - int ticket, int index)"

record pending_states =
  tq_focused :: bool
  tq_fifo :: "(nat \<times> nat) list"
  tq_priority :: "priority list"
  tq_pending :: "(nat, nat) bmap"
  tq_ticket :: nat
  tq_priority_pops :: "32 word"
  tq_exploration_pops :: "32 word"

definition pending_new :: "bool \<Rightarrow> pending_states" where
  "pending_new focused = \<lparr>tq_focused = focused, tq_fifo = [], tq_priority = [], tq_pending = [],
     tq_ticket = 0, tq_priority_pops = 0, tq_exploration_pops = 0\<rparr>"

definition pending_push :: "nat \<Rightarrow> nat \<Rightarrow> bool \<Rightarrow> pending_states \<Rightarrow> pending_states" where
  "pending_push index depth preferred q =
     (let ticket = tq_ticket q; q = q\<lparr>tq_ticket := ticket + 1, tq_fifo := tq_fifo q @ [(index, ticket)]\<rparr>
      in if tq_focused q
         then q\<lparr>tq_priority := (preferred, depth, ticket, index) # tq_priority q,
                tq_pending := bmap_insert index ticket (tq_pending q)\<rparr>
         else q)"

text \<open>The greatest element of the heap, by its key.\<close>

fun heap_top :: "priority list \<Rightarrow> priority option" where
  "heap_top [] = None"
| "heap_top (e # es) =
     (case heap_top es of None \<Rightarrow> Some e | Some f \<Rightarrow> Some (if priority_key e < priority_key f then f else e))"

lemma heap_top_None [simp]: "heap_top es = None \<longleftrightarrow> es = []"
  by (cases es) (auto split: option.splits)

lemma heap_top_Some:
  "heap_top es = Some e \<Longrightarrow> e \<in> set es \<and> (\<forall>f \<in> set es. priority_key f \<le> priority_key e)"
proof (induction es arbitrary: e)
  case (Cons f es)
  show ?case
  proof (cases "heap_top es")
    case (Some g)
    then have "g \<in> set es" "\<forall>h \<in> set es. priority_key h \<le> priority_key g" using Cons.IH by auto
    then show ?thesis using Cons.prems Some by (auto simp: not_less intro: order_trans less_imp_le)
  qed (use Cons.prems in simp)
qed simp

definition is_live :: "pending_states \<Rightarrow> nat \<Rightarrow> nat \<Rightarrow> bool" where
  "is_live q index ticket \<longleftrightarrow> bmap_get (tq_pending q) index = Some ticket"

text \<open>The loop of \<open>pop\<close>; entries that are not pending any more are thrown away.\<close>

function pop_loop :: "bool \<Rightarrow> pending_states \<Rightarrow> nat option \<times> pending_states" where
  "pop_loop explore q =
     (if explore then
        (case tq_fifo q of
           [] \<Rightarrow> (None, q)
         | (index, ticket) # fifo \<Rightarrow>
             let q = q\<lparr>tq_fifo := fifo\<rparr> in
             if is_live q index ticket
             then (Some index, q\<lparr>tq_pending := bmap_remove index (tq_pending q), tq_exploration_pops := tq_exploration_pops q + 1\<rparr>)
             else pop_loop explore q)
      else
        (case heap_top (tq_priority q) of
           None \<Rightarrow> (None, q)
         | Some (preferred, depth, ticket, index) \<Rightarrow>
             let q = q\<lparr>tq_priority := remove1 (preferred, depth, ticket, index) (tq_priority q)\<rparr> in
             if is_live q index ticket
             then (Some index, q\<lparr>tq_pending := bmap_remove index (tq_pending q), tq_priority_pops := tq_priority_pops q + 1\<rparr>)
             else pop_loop explore q))"
  by pat_completeness auto
termination
proof (relation "measure (\<lambda>(_, q). length (tq_fifo q) + length (tq_priority q))", goal_cases)
  case (3 explore q e p ei d ii t i q')
  then have "heap_top (tq_priority q) = Some (p, d, t, i)" by simp
  from heap_top_Some [OF this] have m: "(p, d, t, i) \<in> set (tq_priority q)" by simp
  then have "0 < length (tq_priority q)" by (cases "tq_priority q") auto
  then show ?case using 3 m by (simp add: length_remove1)
qed simp_all

declare pop_loop.simps [simp del]

definition explores :: "pending_states \<Rightarrow> bool" where
  "explores q \<longleftrightarrow> (tq_priority_pops q + tq_exploration_pops q) mod 4 = 3"

definition pending_pop :: "pending_states \<Rightarrow> nat option \<times> pending_states" where
  "pending_pop q =
     (if \<not> tq_focused q then
        (case tq_fifo q of [] \<Rightarrow> (None, q) | (index, _) # fifo \<Rightarrow> (Some index, q\<lparr>tq_fifo := fifo\<rparr>))
      else pop_loop (explores q) q)"

subsection \<open>What waits\<close>

definition pending_ok :: "bool \<Rightarrow> pending_states \<Rightarrow> bool" where
  "pending_ok focused q \<longleftrightarrow> tq_focused q = focused \<and> bmap_ok (tq_pending q)
     \<and> (focused \<longrightarrow> (\<forall>(i, t) \<in> set (tq_pending q). (i, t) \<in> set (tq_fifo q) \<and> (\<exists>p d. (p, d, t, i) \<in> set (tq_priority q))))"

definition waiting :: "pending_states \<Rightarrow> nat multiset" where
  "waiting q = mset (map fst (if tq_focused q then tq_pending q else tq_fifo q))"

lemma pending_new_ok [simp]: "pending_ok focused (pending_new focused)" "waiting (pending_new focused) = {#}"
  by (simp_all add: pending_ok_def pending_new_def waiting_def)

lemma bmap_insert_fresh:
  "k \<notin> fst ` set m \<Longrightarrow> mset (bmap_insert k v m) = add_mset (k, v) (mset m)"
  unfolding bmap_insert_def by (induction k "\<lambda>_ :: 'b option. v" m rule: bmap_update.induct) auto

lemma bmap_insert_set: "set (bmap_insert k v m) \<subseteq> insert (k, v) (set m)"
  unfolding bmap_insert_def by (induction k "\<lambda>_ :: 'b option. v" m rule: bmap_update.induct) auto

lemma pending_push_ok:
  assumes "pending_ok focused q"
  shows "pending_ok focused (pending_push i d p q)"
proof (cases "tq_focused q")
  case True
  let ?q = "pending_push i d p q"
  have "(j, s) \<in> set (tq_fifo ?q) \<and> (\<exists>p d. (p, d, s, j) \<in> set (tq_priority ?q))"
    if "(j, s) \<in> set (tq_pending ?q)" for j s
  proof (cases "(j, s) = (i, tq_ticket q)")
    case False
    with that True bmap_insert_set [of i "tq_ticket q" "tq_pending q"] have "(j, s) \<in> set (tq_pending q)"
      by (auto simp: pending_push_def Let_def)
    with assms True obtain p' d' where "(j, s) \<in> set (tq_fifo q)" "(p', d', s, j) \<in> set (tq_priority q)"
      by (auto simp: pending_ok_def)
    with True show ?thesis by (auto simp: pending_push_def Let_def)
  qed (use True in \<open>auto simp: pending_push_def Let_def\<close>)
  then show ?thesis using assms True by (auto simp: pending_ok_def pending_push_def Let_def)
qed (use assms in \<open>auto simp: pending_ok_def pending_push_def Let_def\<close>)

lemma waiting_push:
  assumes "i \<notin># waiting q"
  shows "waiting (pending_push i d p q) = add_mset i (waiting q)"
proof (cases "tq_focused q")
  case True
  then have "i \<notin> fst ` set (tq_pending q)" using assms by (simp add: waiting_def)
  from bmap_insert_fresh [OF this, of "tq_ticket q"] True
  show ?thesis by (simp add: waiting_def pending_push_def Let_def)
qed (simp add: waiting_def pending_push_def Let_def)

lemma bmap_remove_live:
  assumes "bmap_ok m" and "bmap_get m i = Some t"
  shows "mset (map fst m) = add_mset i (mset (map fst (bmap_remove i m)))"
  using assms
proof (induction m)
  case (Cons e m)
  obtain k v where e: "e = (k, v)" by fastforce
  show ?case
  proof (cases "k = i")
    case True
    with Cons.prems e have "\<forall>f \<in> set m. fst f \<noteq> i" by (auto simp: bmap_ok_Cons)
    then have "bmap_remove i m = m" unfolding bmap_remove_def by (simp add: filter_id_conv)
    with True show ?thesis by (simp add: e bmap_remove_def)
  next
    case False
    with Cons e show ?thesis by (simp add: bmap_remove_def bmap_get_def bmap_ok_Cons)
  qed
qed (simp add: bmap_get_def)

text \<open>A live entry taken out of a focused queue.\<close>

lemma take_live:
  assumes ok: "pending_ok True q" and live: "is_live q i t"
    and fifo: "set (tq_fifo q) \<subseteq> insert (i, t) (set (tq_fifo q'))"
    and heap: "set (tq_priority q) \<subseteq> {(p, d, t, i) | p d. True} \<union> set (tq_priority q')"
    and q': "tq_focused q'" "tq_pending q' = bmap_remove i (tq_pending q)"
  shows "pending_ok True q' \<and> i \<in># waiting q \<and> waiting q = add_mset i (waiting q')"
proof -
  have m: "bmap_ok (tq_pending q)" "tq_focused q" using ok by (simp_all add: pending_ok_def)
  have w: "waiting q = add_mset i (waiting q')"
    using bmap_remove_live [OF m(1)] live m(2) q' by (simp add: is_live_def waiting_def)
  have "(j, s) \<in> set (tq_fifo q') \<and> (\<exists>p d. (p, d, s, j) \<in> set (tq_priority q'))"
    if "(j, s) \<in> set (tq_pending q')" for j s
    using that ok fifo heap unfolding pending_ok_def q' bmap_remove_def by fastforce
  with w m(1) q' show ?thesis by (auto simp: pending_ok_def)
qed

lemma drop_stale:
  assumes ok: "pending_ok True q" and stale: "\<not> is_live q i t"
    and fifo: "set (tq_fifo q) \<subseteq> insert (i, t) (set (tq_fifo q'))"
    and heap: "set (tq_priority q) \<subseteq> {(p, d, t, i) | p d. True} \<union> set (tq_priority q')"
    and q': "tq_focused q'" "tq_pending q' = tq_pending q"
  shows "pending_ok True q' \<and> waiting q' = waiting q"
proof -
  have m: "bmap_ok (tq_pending q)" "tq_focused q" using ok by (simp_all add: pending_ok_def)
  then have ne: "(i, t) \<notin> set (tq_pending q)" using stale by (simp add: is_live_def bmap_entry_get)
  have "(j, s) \<in> set (tq_fifo q') \<and> (\<exists>p d. (p, d, s, j) \<in> set (tq_priority q'))"
    if "(j, s) \<in> set (tq_pending q')" for j s
    using that ok ne fifo heap unfolding pending_ok_def q' by fastforce
  with m q' show ?thesis by (auto simp: pending_ok_def waiting_def)
qed

lemma nothing_waits:
  assumes "pending_ok True q" and "tq_fifo q = [] \<or> tq_priority q = []"
  shows "waiting q = {#}"
proof -
  have "e \<notin> set (tq_pending q)" for e using assms by (cases e) (auto simp: pending_ok_def)
  then have "tq_pending q = []" by (cases "tq_pending q") auto
  then show ?thesis using assms(1) by (simp add: waiting_def pending_ok_def)
qed

lemma pop_loop_waiting:
  assumes "pending_ok True q" and "pop_loop explore q = (r, q')"
  shows "pending_ok True q' \<and> (case r of None \<Rightarrow> waiting q = {#} \<and> waiting q' = {#}
     | Some i \<Rightarrow> i \<in># waiting q \<and> waiting q = add_mset i (waiting q'))"
  using assms
proof (induction explore q arbitrary: r q' rule: pop_loop.induct)
  case (1 explore q)
  show ?case
  proof (cases explore)
    case True
    show ?thesis
    proof (cases "tq_fifo q")
      case Nil
      with "1.prems" True nothing_waits show ?thesis by (auto simp: pop_loop.simps [of _ q])
    next
      case (Cons e fifo)
      obtain i t where e: "e = (i, t)" by fastforce
      let ?q = "q\<lparr>tq_fifo := fifo\<rparr>"
      have live: "is_live ?q i t = is_live q i t" by (simp add: is_live_def)
      show ?thesis
      proof (cases "is_live q i t")
        case l: True
        then have r: "r = Some i" "q' = ?q\<lparr>tq_pending := bmap_remove i (tq_pending q), tq_exploration_pops := tq_exploration_pops q + 1\<rparr>"
          using "1.prems"(2) True Cons e live by (auto simp: pop_loop.simps [of _ q] Let_def)
        have "tq_focused q'" using "1.prems"(1) by (simp add: r pending_ok_def)
        from take_live [OF "1.prems"(1) l _ _ this] Cons e show ?thesis by (auto simp: r)
      next
        case s: False
        then have p: "pop_loop explore ?q = (r, q')"
          using "1.prems"(2) True Cons e live by (simp add: pop_loop.simps [of _ q] Let_def)
        have "tq_focused ?q" using "1.prems"(1) by (simp add: pending_ok_def)
        from drop_stale [OF "1.prems"(1) s _ _ this] Cons e
        have d: "pending_ok True ?q" "waiting ?q = waiting q" by auto
        from "1.IH"(1) [OF True Cons e [symmetric] refl] s live d(1) p show ?thesis unfolding d(2) [symmetric] by simp
      qed
    qed
  next
    case False
    show ?thesis
    proof (cases "heap_top (tq_priority q)")
      case None
      with "1.prems" False nothing_waits show ?thesis by (auto simp: pop_loop.simps [of _ q])
    next
      case (Some e)
      obtain p d t i where e: "e = (p, d, t, i)" using prod_cases4 by blast
      let ?q = "q\<lparr>tq_priority := remove1 e (tq_priority q)\<rparr>"
      have live: "is_live ?q i t = is_live q i t" by (simp add: is_live_def)
      have heap: "set (tq_priority q) \<subseteq> {(p, d, t, i) | p d. True} \<union> set (remove1 e (tq_priority q))"
      proof
        fix x assume "x \<in> set (tq_priority q)"
        then show "x \<in> {(p, d, t, i) | p d. True} \<union> set (remove1 e (tq_priority q))"
          by (cases "x = e") (auto simp: e)
      qed
      show ?thesis
      proof (cases "is_live q i t")
        case l: True
        then have r: "r = Some i" "q' = ?q\<lparr>tq_pending := bmap_remove i (tq_pending q), tq_priority_pops := tq_priority_pops q + 1\<rparr>"
          using "1.prems"(2) False Some e live by (auto simp: pop_loop.simps [of _ q] Let_def)
        have "tq_focused q'" using "1.prems"(1) by (simp add: r pending_ok_def)
        from take_live [OF "1.prems"(1) l _ _ this] heap show ?thesis by (auto simp: r)
      next
        case s: False
        then have pl: "pop_loop explore ?q = (r, q')"
          using "1.prems"(2) False Some e live by (simp add: pop_loop.simps [of _ q] Let_def)
        have "tq_focused ?q" using "1.prems"(1) by (simp add: pending_ok_def)
        from drop_stale [OF "1.prems"(1) s _ _ this] heap
        have d: "pending_ok True ?q" "waiting ?q = waiting q" by auto
        from "1.IH"(2) [OF False Some e [symmetric] refl refl refl] s live d(1) pl show ?thesis
          unfolding d(2) [symmetric] e by simp
      qed
    qed
  qed
qed

lemma pending_pop_waiting:
  assumes ok: "pending_ok focused q" and pop: "pending_pop q = (r, q')"
  shows "pending_ok focused q' \<and> (case r of None \<Rightarrow> waiting q = {#} \<and> waiting q' = {#}
     | Some i \<Rightarrow> i \<in># waiting q \<and> waiting q = add_mset i (waiting q'))"
proof (cases focused)
  case True
  then have "pop_loop (explores q) q = (r, q')" using assms by (simp add: pending_pop_def pending_ok_def)
  from pop_loop_waiting [OF _ this] ok True show ?thesis by simp
next
  case False
  with assms show ?thesis by (cases "tq_fifo q") (auto simp: pending_pop_def pending_ok_def waiting_def)
qed

interpretation pending: pending_queue "pending_new focused" pending_push pending_pop "pending_ok focused" waiting
proof unfold_locales
  fix q q' assume "pending_ok focused q" "pending_pop q = (None, q')"
  from pending_pop_waiting [OF this] show "pending_ok focused q' \<and> waiting q = {#} \<and> waiting q' = {#}" by simp
next
  fix q i q' assume "pending_ok focused q" "pending_pop q = (Some i, q')"
  from pending_pop_waiting [OF this]
  show "pending_ok focused q' \<and> i \<in># waiting q \<and> waiting q = add_mset i (waiting q')" by simp
qed (simp_all add: pending_push_ok waiting_push)

subsection \<open>Which state is taken\<close>

definition live_fifo :: "pending_states \<Rightarrow> nat list" where
  "live_fifo q = map fst (filter (\<lambda>(i, t). is_live q i t) (tq_fifo q))"

definition live_priority :: "pending_states \<Rightarrow> priority list" where
  "live_priority q = filter (\<lambda>(p, d, t, i). is_live q i t) (tq_priority q)"

lemma pop_loop_explores:
  "pop_loop True q = (r, q') \<Longrightarrow> r = (case live_fifo q of [] \<Rightarrow> None | i # _ \<Rightarrow> Some i)"
proof (induction "True" q arbitrary: r q' rule: pop_loop.induct)
  case (1 q)
  show ?case
  proof (cases "tq_fifo q")
    case (Cons e fifo)
    obtain i t where e: "e = (i, t)" by fastforce
    have l: "is_live (q\<lparr>tq_fifo := fifo\<rparr>) = is_live q" by (simp add: is_live_def fun_eq_iff)
    show ?thesis
    proof (cases "is_live q i t")
      case True
      with "1.prems" Cons e l show ?thesis by (auto simp: pop_loop.simps [of _ q] Let_def live_fifo_def)
    next
      case False
      with "1.prems" Cons e l have "pop_loop True (q\<lparr>tq_fifo := fifo\<rparr>) = (r, q')"
        by (simp add: pop_loop.simps [of _ q] Let_def)
      from "1.hyps"(1) [OF TrueI Cons e [symmetric] refl _ this] False l Cons e show ?thesis
        by (simp add: live_fifo_def)
    qed
  qed (use "1.prems" in \<open>auto simp: pop_loop.simps [of _ q] live_fifo_def\<close>)
qed

lemma pop_loop_prefers:
  "pop_loop False q = (Some i, q') \<Longrightarrow> \<exists>p d t. (p, d, t, i) \<in> set (live_priority q)
     \<and> (\<forall>e \<in> set (live_priority q). priority_key e \<le> priority_key (p, d, t, i))"
proof (induction "False" q arbitrary: i q' rule: pop_loop.induct)
  case (1 q)
  show ?case
  proof (cases "heap_top (tq_priority q)")
    case (Some e)
    obtain p d t j where e: "e = (p, d, t, j)" using prod_cases4 by blast
    let ?q = "q\<lparr>tq_priority := remove1 e (tq_priority q)\<rparr>"
    have l: "is_live ?q = is_live q" by (simp add: is_live_def fun_eq_iff)
    show ?thesis
    proof (cases "is_live q j t")
      case True
      with "1.prems" Some e l have i: "i = j" by (auto simp: pop_loop.simps [of _ q] Let_def)
      have "(p, d, t, i) \<in> set (live_priority q)"
        using heap_top_Some [OF Some] True by (simp add: live_priority_def e i)
      moreover have "priority_key f \<le> priority_key (p, d, t, i)" if "f \<in> set (live_priority q)" for f
        using heap_top_Some [OF Some] that unfolding live_priority_def e i by auto
      ultimately show ?thesis by blast
    next
      case False
      with "1.prems" Some e l have "pop_loop False ?q = (Some i, q')" by (simp add: pop_loop.simps [of _ q] Let_def)
      moreover have "live_priority ?q = live_priority q"
        using False e l by (simp add: live_priority_def filter_remove1)
      ultimately show ?thesis
        using "1.hyps"(2) [OF _ Some e [symmetric] refl refl refl] False l e by simp
    qed
  qed (use "1.prems" in \<open>simp add: pop_loop.simps [of _ q]\<close>)
qed

lemma pop_loop_counts:
  "pop_loop explore q = (Some i, q') \<Longrightarrow>
     tq_priority_pops q' + tq_exploration_pops q' = tq_priority_pops q + tq_exploration_pops q + 1"
proof (induction explore q arbitrary: i q' rule: pop_loop.induct)
  case (1 explore q)
  show ?case
  proof (cases explore)
    case True
    show ?thesis
    proof (cases "tq_fifo q")
      case (Cons e fifo)
      obtain j t where e: "e = (j, t)" by fastforce
      show ?thesis
        using "1.prems" "1.IH"(1) [OF True Cons e [symmetric] refl] True Cons e
        by (auto simp: pop_loop.simps [of _ q] Let_def ac_simps split: if_splits)
    qed (use "1.prems" True in \<open>simp add: pop_loop.simps [of _ q]\<close>)
  next
    case False
    show ?thesis
    proof (cases "heap_top (tq_priority q)")
      case (Some e)
      obtain p d t j where e: "e = (p, d, t, j)" using prod_cases4 by blast
      show ?thesis
        using "1.prems" "1.IH"(2) [OF False Some e [symmetric] refl refl refl] False Some e
        by (auto simp: pop_loop.simps [of _ q] Let_def ac_simps split: if_splits)
    qed (use "1.prems" False in \<open>simp add: pop_loop.simps [of _ q]\<close>)
  qed
qed

subsection \<open>Property\<close>


definition pending_sample :: pending_states where
  "pending_sample = foldl (\<lambda>q i. snd (pending_pop (pending_push i 1 True q))) (pending_push 9 0 False (pending_new True)) [1, 2, 3]"


end
