(* ===== verification/TraceFrontier.thy ===== *)
theory TraceFrontier
  imports TraceRequest TracePending
begin

text \<open>
  The frontier of a bounded trace search (\<open>model/trace_candidate_frontier.rs\<close>,
  \<open>trace_path_state.rs\<close>, \<open>trace_route.rs\<close>): path states linked to their parents, the queue of
  the pending ones, the states found at each destination, and the routes read back from them.
  An index out of range is a panic, \<open>None\<close>, and so is a walk along parents that does not end.
  Depths and counts are natural numbers: each is compared with a \<open>u32\<close> limit before it grows.
\<close>

record path_state =
  px_node :: string
  px_preferred_nodes :: nat
  px_adjacency_offset :: nat
  px_expansion_started :: bool
  px_depth :: nat
  px_parent :: "nat option"
  px_edge :: "nat option"

record trace_route =
  ro_target :: string
  ro_edge_indexes :: "nat list"

record trace_frontier =
  fr_states :: "path_state list"
  fr_queue :: pending_states
  fr_visited :: "string bset"
  fr_found :: "(string, nat list) bmap"
  fr_edges :: "node_relation_projection list"
  fr_edge_index :: "(string \<times> string \<times> string, nat) bmap"
  fr_considered :: nat
  fr_stop :: "trace_search_stop option"

subsection \<open>Destinations\<close>

definition quota :: "trace_search_request \<Rightarrow> string \<Rightarrow> nat" where
  "quota request target = (if target = sq_from request then 1 else unat (sq_paths_per_target request))"

definition push_path :: "nat \<Rightarrow> nat \<Rightarrow> nat list option \<Rightarrow> nat list" where
  "push_path q index paths =
     (let ps = (case paths of None \<Rightarrow> [] | Some ps \<Rightarrow> ps) in if length ps < q then ps @ [index] else ps)"

definition all_found :: "trace_search_request \<Rightarrow> (string, nat list) bmap \<Rightarrow> bool" where
  "all_found request found \<longleftrightarrow>
     list_all (\<lambda>t. case bmap_get found t of None \<Rightarrow> False | Some p \<Rightarrow> length p = quota request t) (sq_targets request)"

definition record_target :: "trace_search_request \<Rightarrow> nat \<Rightarrow> trace_frontier \<Rightarrow> trace_frontier" where
  "record_target request index fr =
     (let node = px_node (fr_states fr ! index) in
      if node \<in> set (sq_targets request) then
        let found = bmap_update node (push_path (quota request node) index) (fr_found fr);
            fr = fr\<lparr>fr_found := found\<rparr>
        in if all_found request found then fr\<lparr>fr_stop := Some TargetsReached\<rparr> else fr
      else fr)"

subsection \<open>The operations\<close>

definition root_state :: "trace_search_request \<Rightarrow> bool \<Rightarrow> path_state" where
  "root_state request preferred = \<lparr>px_node = sq_from request, px_preferred_nodes = of_bool preferred,
     px_adjacency_offset = 0, px_expansion_started = False, px_depth = 0, px_parent = None, px_edge = None\<rparr>"

definition frontier_empty :: "trace_search_request \<Rightarrow> trace_frontier" where
  "frontier_empty request = \<lparr>fr_states = [], fr_queue = pending_new (dp_preferred (sq_policy request) \<noteq> None),
     fr_visited = [], fr_found = [], fr_edges = [], fr_edge_index = [], fr_considered = 0, fr_stop = None\<rparr>"

definition frontier_new :: "trace_search_request \<Rightarrow> bool \<Rightarrow> bool \<Rightarrow> trace_frontier" where
  "frontier_new request root_admitted preferred =
     (let fr = frontier_empty request in
      if root_admitted then
        record_target request 0
          (fr\<lparr>fr_states := [root_state request preferred], fr_queue := pending_push 0 0 preferred (fr_queue fr),
             fr_visited := bset_insert (sq_from request) (fr_visited fr), fr_considered := 1\<rparr>)
      else fr)"

definition frontier_pop :: "trace_frontier \<Rightarrow> ((nat \<times> string \<times> nat) option \<times> trace_frontier) option" where
  "frontier_pop fr =
     (case pending_pop (fr_queue fr) of
        (None, q) \<Rightarrow> Some (None, fr\<lparr>fr_queue := q\<rparr>)
      | (Some index, q) \<Rightarrow>
          if index < length (fr_states fr) then
            Some (Some (index, px_node (fr_states fr ! index), px_depth (fr_states fr ! index)), fr\<lparr>fr_queue := q\<rparr>)
          else None)"

definition begin_expansion :: "nat \<Rightarrow> trace_frontier \<Rightarrow> (nat \<times> bool \<times> trace_frontier) option" where
  "begin_expansion index fr =
     (if index < length (fr_states fr) then
        let state = fr_states fr ! index
        in Some (px_adjacency_offset state, px_expansion_started state,
             fr\<lparr>fr_states := (fr_states fr)[index := state\<lparr>px_expansion_started := True\<rparr>]\<rparr>)
      else None)"

definition resume :: "nat \<Rightarrow> nat \<Rightarrow> bool \<Rightarrow> trace_frontier \<Rightarrow> trace_frontier option" where
  "resume index offset preferred fr =
     (if index < length (fr_states fr) then
        let state = fr_states fr ! index
        in Some (fr\<lparr>fr_states := (fr_states fr)[index := state\<lparr>px_adjacency_offset := offset\<rparr>],
             fr_queue := pending_push index (px_depth state + 1) preferred (fr_queue fr)\<rparr>)
      else None)"

text \<open>The walk over the ancestors of a state, itself included.\<close>

partial_function (option) is_ancestor :: "path_state list \<Rightarrow> string \<Rightarrow> nat \<Rightarrow> bool option" where
  "is_ancestor states neighbor index =
     (if index < length states then
        if px_node (states ! index) = neighbor then Some True
        else (case px_parent (states ! index) of
                None \<Rightarrow> Some False
              | Some parent \<Rightarrow> is_ancestor states neighbor parent)
      else None)"

declare is_ancestor.simps [code]

definition edge_key :: "node_relation_projection \<Rightarrow> string \<times> string \<times> string" where
  "edge_key edge = (nr_source_node_id edge, nr_target_node_id edge, nr_relation_type edge)"

text \<open>\<open>edge_index.entry(key).or_insert_with(...)\<close>.\<close>

definition intern_edge :: "node_relation_projection \<Rightarrow> trace_frontier \<Rightarrow> nat \<times> trace_frontier" where
  "intern_edge edge fr =
     (case bmap_get (fr_edge_index fr) (edge_key edge) of
        Some i \<Rightarrow> (i, fr)
      | None \<Rightarrow> (length (fr_edges fr),
          fr\<lparr>fr_edges := fr_edges fr @ [edge],
             fr_edge_index := bmap_insert (edge_key edge) (length (fr_edges fr)) (fr_edge_index fr)\<rparr>))"

definition add_state :: "trace_search_request \<Rightarrow> nat \<Rightarrow> string \<Rightarrow> node_relation_projection \<Rightarrow> bool \<Rightarrow> trace_frontier
    \<Rightarrow> (bool \<times> trace_frontier) option" where
  "add_state request parent neighbor edge preferred fr =
     (case intern_edge edge fr of (edge_index, fr) \<Rightarrow>
        if parent < length (fr_states fr) then
          let index = length (fr_states fr); depth = px_depth (fr_states fr ! parent) + 1;
              state = \<lparr>px_node = neighbor,
                 px_preferred_nodes = px_preferred_nodes (fr_states fr ! parent) + of_bool preferred,
                 px_adjacency_offset = 0, px_expansion_started = False, px_depth = depth,
                 px_parent = Some parent, px_edge = Some edge_index\<rparr>;
              fr = record_target request index
                (fr\<lparr>fr_states := fr_states fr @ [state], fr_queue := pending_push index depth preferred (fr_queue fr)\<rparr>)
          in Some (fr_stop fr = None, fr)
        else None)"

definition frontier_extend :: "trace_search_request \<Rightarrow> nat \<Rightarrow> string \<Rightarrow> node_relation_projection \<Rightarrow> bool \<Rightarrow> trace_frontier
    \<Rightarrow> (bool \<times> trace_frontier) option" where
  "frontier_extend request parent neighbor edge preferred fr =
     (if fr_considered fr = unat (tl_states (sq_limits request)) then
        Some (False, fr\<lparr>fr_stop := Some StateBudget\<rparr>)
      else
        let fr = fr\<lparr>fr_considered := fr_considered fr + 1\<rparr> in
        if sq_paths_per_target request = 1 then
          (if neighbor \<in> set (fr_visited fr) then Some (True, fr)
           else add_state request parent neighbor edge preferred (fr\<lparr>fr_visited := bset_insert neighbor (fr_visited fr)\<rparr>))
        else
          (case is_ancestor (fr_states fr) neighbor parent of
             None \<Rightarrow> None
           | Some True \<Rightarrow> Some (True, fr)
           | Some False \<Rightarrow> add_state request parent neighbor edge preferred fr))"

subsection \<open>The routes\<close>

record routing_stats =
  rg_preferred_route_entries :: "nat list"
  rg_focused :: bool
  rg_evaluated_entries :: nat
  rg_preferred_entries :: nat
  rg_dimensional_rejections :: nat
  rg_priority_pops :: "32 word"
  rg_exploration_pops :: "32 word"
  rg_adjacency_pages :: "32 word"
  rg_coordinate_pages :: "32 word"
  rg_resumed_states :: nat

text \<open>The edges from a state back to the root, the last one first.\<close>

partial_function (option) edges_back :: "path_state list \<Rightarrow> nat \<Rightarrow> nat list \<Rightarrow> nat list option" where
  "edges_back states index path =
     (if index < length states then
        (case (px_parent (states ! index), px_edge (states ! index)) of
           (Some parent, Some edge) \<Rightarrow> edges_back states parent (path @ [edge])
         | _ \<Rightarrow> Some path)
      else None)"

declare edges_back.simps [code]

record route_table =
  tb_selected :: "(nat, nat) bmap"
  tb_relations :: "node_relation_projection list"
  tb_routes :: "trace_route list"
  tb_preferred :: "nat list"

text \<open>\<open>selected.entry(edge).or_insert_with(...)\<close>: the position of an edge in the answer.\<close>

definition place_edge :: "node_relation_projection list \<Rightarrow> nat \<Rightarrow> route_table \<Rightarrow> (nat \<times> route_table) option" where
  "place_edge edges edge t =
     (case bmap_get (tb_selected t) edge of
        Some i \<Rightarrow> Some (i, t)
      | None \<Rightarrow>
          if edge < length edges then
            Some (length (tb_relations t),
              t\<lparr>tb_selected := bmap_insert edge (length (tb_relations t)) (tb_selected t),
                tb_relations := tb_relations t @ [edges ! edge]\<rparr>)
          else None)"

fun place_edges :: "node_relation_projection list \<Rightarrow> nat list \<Rightarrow> route_table \<Rightarrow> (nat list \<times> route_table) option" where
  "place_edges edges [] t = Some ([], t)"
| "place_edges edges (e # es) t =
     (case place_edge edges e t of
        None \<Rightarrow> None
      | Some (i, t) \<Rightarrow> (case place_edges edges es t of None \<Rightarrow> None | Some (ixs, t) \<Rightarrow> Some (i # ixs, t)))"

definition add_route :: "trace_frontier \<Rightarrow> string \<Rightarrow> nat \<Rightarrow> route_table \<Rightarrow> route_table option" where
  "add_route fr target tip t =
     (case edges_back (fr_states fr) tip [] of
        None \<Rightarrow> None
      | Some path \<Rightarrow>
          (case place_edges (fr_edges fr) (rev path) t of
             None \<Rightarrow> None
           | Some (indexes, t) \<Rightarrow>
               Some (t\<lparr>tb_preferred := tb_preferred t @ [px_preferred_nodes (fr_states fr ! tip)],
                       tb_routes := tb_routes t @ [\<lparr>ro_target = target, ro_edge_indexes = indexes\<rparr>]\<rparr>)))"

fun add_routes :: "trace_frontier \<Rightarrow> (string \<times> nat) list \<Rightarrow> route_table \<Rightarrow> route_table option" where
  "add_routes fr [] t = Some t"
| "add_routes fr ((target, tip) # found) t =
     (case add_route fr target tip t of None \<Rightarrow> None | Some t \<Rightarrow> add_routes fr found t)"

definition found_states :: "trace_frontier \<Rightarrow> (string \<times> nat) list" where
  "found_states fr = concat (map (\<lambda>(target, states). map (\<lambda>tip. (target, tip)) states) (fr_found fr))"

definition frontier_routes :: "trace_frontier \<Rightarrow> route_table option" where
  "frontier_routes fr = add_routes fr (found_states fr) \<lparr>tb_selected = [], tb_relations = [], tb_routes = [], tb_preferred = []\<rparr>"

definition unreached_targets :: "trace_search_request \<Rightarrow> trace_frontier \<Rightarrow> string list" where
  "unreached_targets request fr = filter (\<lambda>t. bmap_get (fr_found fr) t = None) (sq_targets request)"

definition incomplete_targets :: "trace_search_request \<Rightarrow> trace_frontier \<Rightarrow> string list" where
  "incomplete_targets request fr =
     filter (\<lambda>t. (case bmap_get (fr_found fr) t of None \<Rightarrow> 0 | Some p \<Rightarrow> length p) < quota request t) (sq_targets request)"

subsection \<open>The tree of path states\<close>

definition neighbor_of :: "node_relation_projection \<Rightarrow> string \<Rightarrow> string" where
  "neighbor_of edge node =
     (if nr_source_node_id edge = node then nr_target_node_id edge else nr_source_node_id edge)"

definition incident :: "node_relation_projection \<Rightarrow> string \<Rightarrow> bool" where
  "incident edge node \<longleftrightarrow> nr_source_node_id edge = node \<or> nr_target_node_id edge = node"

abbreviation node_at :: "path_state list \<Rightarrow> nat \<Rightarrow> string" where
  "node_at states i \<equiv> px_node (states ! i)"

definition linked_state :: "string \<Rightarrow> node_relation_projection list \<Rightarrow> path_state list \<Rightarrow> nat \<Rightarrow> bool" where
  "linked_state root edges states i \<longleftrightarrow>
     (case px_parent (states ! i) of
        None \<Rightarrow> node_at states i = root \<and> px_depth (states ! i) = 0
      | Some p \<Rightarrow> p < i \<and> px_depth (states ! i) = Suc (px_depth (states ! p))
          \<and> (\<exists>e < length edges. px_edge (states ! i) = Some e \<and> incident (edges ! e) (node_at states p)
              \<and> node_at states i = neighbor_of (edges ! e) (node_at states p)))"

definition tree_ok :: "string \<Rightarrow> node_relation_projection list \<Rightarrow> path_state list \<Rightarrow> bool" where
  "tree_ok root edges states \<longleftrightarrow> (\<forall>i < length states. linked_state root edges states i)"

text \<open>The states from the root to one of them, and the edges between them.\<close>

function trail :: "path_state list \<Rightarrow> nat \<Rightarrow> nat list" where
  "trail states i =
     (case px_parent (states ! i) of
        None \<Rightarrow> [i]
      | Some p \<Rightarrow> if p < i then trail states p @ [i] else [i])"
  by pat_completeness auto
termination by (relation "measure snd") auto

declare trail.simps [simp del]

definition trail_edges :: "path_state list \<Rightarrow> nat \<Rightarrow> nat list" where
  "trail_edges states i = map (\<lambda>j. the (px_edge (states ! j))) (tl (trail states i))"

lemma trail_last [simp]: "last (trail states i) = i" "trail states i \<noteq> []"
  by (subst trail.simps, simp split: option.splits)+

lemma trail_le: "j \<in> set (trail states i) \<Longrightarrow> j \<le> i"
proof (induction i rule: less_induct)
  case (less i)
  then show ?case by (subst (asm) trail.simps) (fastforce split: option.splits if_splits)
qed

lemma trail_root:
  "linked_state root edges states i \<Longrightarrow> px_parent (states ! i) = None \<Longrightarrow> trail states i = [i]"
  by (subst trail.simps) simp

lemma trail_step:
  "linked_state root edges states i \<Longrightarrow> px_parent (states ! i) = Some p \<Longrightarrow> trail states i = trail states p @ [i]"
  by (subst trail.simps) (simp add: linked_state_def)

text \<open>Induction along the parents.\<close>

lemma tree_induct [consumes 2, case_names Root Step]:
  assumes ok: "tree_ok root edges states" and i: "i < length states"
    and Root: "\<And>i. i < length states \<Longrightarrow> px_parent (states ! i) = None \<Longrightarrow> linked_state root edges states i \<Longrightarrow> P i"
    and Step: "\<And>i p. i < length states \<Longrightarrow> px_parent (states ! i) = Some p \<Longrightarrow> linked_state root edges states i \<Longrightarrow>
       p < i \<Longrightarrow> P p \<Longrightarrow> P i"
  shows "P i"
  using i
proof (induction i rule: less_induct)
  case (less i)
  have l: "linked_state root edges states i" using ok less.prems by (simp add: tree_ok_def)
  show ?case
  proof (cases "px_parent (states ! i)")
    case None
    show ?thesis by (rule Root [OF less.prems None l])
  next
    case (Some p)
    then have "p < i" using l by (simp add: linked_state_def)
    with Some l less.IH [OF this] less.prems show ?thesis by (intro Step [OF less.prems Some l]) auto
  qed
qed

lemma is_ancestor_trail:
  assumes "tree_ok root edges states" and "i < length states"
  shows "is_ancestor states neighbor i = Some (neighbor \<in> node_at states ` set (trail states i))"
  using assms
proof (induction rule: tree_induct)
  case (Root i)
  then show ?case by (subst is_ancestor.simps) (auto simp: trail_root)
next
  case (Step i p)
  then show ?case by (subst is_ancestor.simps) (auto simp: trail_step)
qed

lemma trail_edges_step:
  assumes "linked_state root edges states i" and "px_parent (states ! i) = Some p"
  shows "trail_edges states i = trail_edges states p @ [the (px_edge (states ! i))]"
  unfolding trail_edges_def trail_step [OF assms] by (simp add: tl_append2)

lemma edges_back_trail:
  assumes "tree_ok root edges states" and "i < length states"
  shows "edges_back states i path = Some (path @ rev (trail_edges states i))"
  using assms
proof (induction arbitrary: path rule: tree_induct)
  case (Root i)
  then show ?case by (subst edges_back.simps) (simp add: trail_root trail_edges_def)
next
  case (Step i p)
  then obtain e where "px_edge (states ! i) = Some e" by (auto simp: linked_state_def)
  with Step show ?case by (subst edges_back.simps) (simp add: trail_edges_step)
qed

lemma trail_depth:
  assumes "tree_ok root edges states" and "i < length states"
  shows "length (trail_edges states i) = px_depth (states ! i)"
  using assms
proof (induction rule: tree_induct)
  case (Root i)
  then show ?case by (simp add: trail_root trail_edges_def linked_state_def)
next
  case (Step i p)
  then show ?case by (simp add: trail_edges_step) (simp add: linked_state_def)
qed

text \<open>The nodes a list of edges visits from a start: the reading of a route.\<close>

fun walk_nodes :: "node_relation_projection list \<Rightarrow> string \<Rightarrow> nat list \<Rightarrow> string list option" where
  "walk_nodes relations current [] = Some [current]"
| "walk_nodes relations current (e # es) =
     (if e < length relations \<and> incident (relations ! e) current then
        map_option (\<lambda>ns. current # ns) (walk_nodes relations (neighbor_of (relations ! e) current) es)
      else None)"

lemma walk_nodes_not_Nil: "walk_nodes relations a es = Some ns \<Longrightarrow> ns \<noteq> []"
  by (cases es) (auto split: if_splits)

lemma walk_nodes_snoc:
  "walk_nodes relations a es = Some ns \<Longrightarrow> e < length relations \<Longrightarrow> incident (relations ! e) (last ns) \<Longrightarrow>
     walk_nodes relations a (es @ [e]) = Some (ns @ [neighbor_of (relations ! e) (last ns)])"
proof (induction relations a es arbitrary: ns rule: walk_nodes.induct)
  case (2 relations a f es)
  then obtain ms where ms: "walk_nodes relations (neighbor_of (relations ! f) a) es = Some ms" "ns = a # ms"
    "f < length relations" "incident (relations ! f) a" by (auto split: if_splits)
  with walk_nodes_not_Nil [OF ms(1)] 2 show ?case by simp
qed auto

lemma trail_walk:
  assumes "tree_ok root edges states" and "i < length states"
  shows "walk_nodes edges root (trail_edges states i) = Some (map (node_at states) (trail states i))"
  using assms
proof (induction rule: tree_induct)
  case (Root i)
  then show ?case by (simp add: trail_root trail_edges_def linked_state_def)
next
  case (Step i p)
  from Step(3) Step(2) obtain e where e: "e < length edges" "px_edge (states ! i) = Some e"
    "incident (edges ! e) (node_at states p)" "node_at states i = neighbor_of (edges ! e) (node_at states p)"
    by (auto simp: linked_state_def)
  have "last (map (node_at states) (trail states p)) = node_at states p" by (simp add: last_map)
  with walk_nodes_snoc [OF Step(5) e(1)] e Step(2,3) show ?case
    by (simp add: trail_edges_step trail_step)
qed

end
