(* ===== verification/TraceAdmission.thy ===== *)
theory TraceAdmission
  imports TraceBudget TraceFrontier ReadWindow
begin

text \<open>
  Which entries a bounded trace search may stand on (\<open>model/trace_temporal_admission.rs\<close>): an
  entry the about owns, with a membership the read's window admits, whose labels and
  coordinates pass the required dimensions. Reads are charged to the budget and answers are
  remembered. A read that ends in an error discards the state, so that an error carries none;
  paging that does not end is \<open>None\<close>.
\<close>

record admission_context =
  ac_reader :: snapshot_reader
  ac_about :: string
  ac_temporal :: temporal_selection
  ac_dimensions :: trace_dimension_policy
  ac_limits :: trace_search_limits

record admission =
  ad_budget :: read_budget
  ad_resolved_as_of :: "string option"
  ad_owned :: "(string, bool) bmap"
  ad_coordinates :: "(string, temporal_coordinate list) bmap"
  ad_admitted :: "(string, bool) bmap"
  ad_preferred :: "(string, bool) bmap"
  ad_routing :: routing_stats

definition context_of :: "snapshot_reader \<Rightarrow> trace_search_request \<Rightarrow> admission_context" where
  "context_of reader request = \<lparr>ac_reader = reader, ac_about = sq_about request, ac_temporal = sq_temporal request,
     ac_dimensions = sq_policy request, ac_limits = sq_limits request\<rparr>"

definition routing_new :: "bool \<Rightarrow> routing_stats" where
  "routing_new focused = \<lparr>rg_preferred_route_entries = [], rg_focused = focused, rg_evaluated_entries = 0,
     rg_preferred_entries = 0, rg_dimensional_rejections = 0, rg_priority_pops = 0, rg_exploration_pops = 0,
     rg_adjacency_pages = 0, rg_coordinate_pages = 0, rg_resumed_states = 0\<rparr>"

definition admission_new :: "admission_context \<Rightarrow> admission" where
  "admission_new cx = \<lparr>ad_budget = budget_new, ad_resolved_as_of = None, ad_owned = [], ad_coordinates = [],
     ad_admitted = [], ad_preferred = [], ad_routing = routing_new (dp_preferred (ac_dimensions cx) \<noteq> None)\<rparr>"

subsection \<open>Ownership\<close>

definition owned_entry :: "string \<Rightarrow> node_projection option \<Rightarrow> bool" where
  "owned_entry about node =
     (case node of
        None \<Rightarrow> False
      | Some node \<Rightarrow> bmap_get (np_properties node) ''memory_about'' = Some about \<and> ''entry'' \<in> set (np_labels node))"

definition is_owned :: "admission_context \<Rightarrow> string \<Rightarrow> admission \<Rightarrow> (bool \<times> admission) port_result" where
  "is_owned cx i ad =
     (case bmap_get (ad_owned ad) i of
        Some owned \<Rightarrow> Inr (owned, ad)
      | None \<Rightarrow>
          try_bind (budget_node (ac_reader cx) (ac_limits cx) i (ad_budget ad)) (\<lambda>(node, b).
            let owned = owned_entry (ac_about cx) node; ad = ad\<lparr>ad_budget := b\<rparr> in
            Inr (owned, if rb_stop b = None then ad\<lparr>ad_owned := bmap_insert i owned (ad_owned ad)\<rparr> else ad)))"

subsection \<open>Coordinates\<close>

fun collect_coordinates :: "string \<Rightarrow> node_relation_projection list \<Rightarrow> temporal_coordinate list port_result" where
  "collect_coordinates about [] = Inr []"
| "collect_coordinates about (edge # edges) =
     (if mdi_resolve about (nr_source_node_id edge) = None then collect_coordinates about edges
      else try_bind (port_result (tc_from_explanation (nr_explanation edge))) (\<lambda>coordinate.
           try_bind (collect_coordinates about edges) (\<lambda>rest.
             Inr (case coordinate of
                    Some c \<Rightarrow> if tc_scope_id c = nr_source_node_id edge then c # rest else rest
                  | None \<Rightarrow> rest))))"

partial_function (option) coordinate_pages :: "admission_context \<Rightarrow> string \<Rightarrow> relation_position option
    \<Rightarrow> temporal_coordinate list \<Rightarrow> read_budget \<Rightarrow> (temporal_coordinate list option \<times> read_budget) port_result option" where
  "coordinate_pages cx i after coordinates b =
     (case budget_page (ac_reader cx) (ac_limits cx) i Incoming after (Some ''contains_entry'') b of
        Inl e \<Rightarrow> Some (Inl e)
      | Inr (None, b) \<Rightarrow> Some (Inr (None, b))
      | Inr (Some page, b) \<Rightarrow>
          (case collect_coordinates (ac_about cx) (ap_edges page) of
             Inl e \<Rightarrow> Some (Inl e)
           | Inr found \<Rightarrow>
               if ap_exhausted page then Some (Inr (Some (coordinates @ found), b))
               else coordinate_pages cx i (ap_next page) (coordinates @ found) b))"

declare coordinate_pages.simps [code]

definition load_coordinates :: "admission_context \<Rightarrow> string \<Rightarrow> admission \<Rightarrow> (bool \<times> admission) port_result option" where
  "load_coordinates cx i ad =
     (if bmap_get (ad_coordinates ad) i \<noteq> None then Some (Inr (True, ad))
      else case coordinate_pages cx i None [] (ad_budget ad) of
          None \<Rightarrow> None
        | Some (Inl e) \<Rightarrow> Some (Inl e)
        | Some (Inr (None, b)) \<Rightarrow> Some (Inr (False, ad\<lparr>ad_budget := b\<rparr>))
        | Some (Inr (Some cs, b)) \<Rightarrow>
            Some (Inr (True, ad\<lparr>ad_budget := b, ad_coordinates := bmap_insert i cs (ad_coordinates ad)\<rparr>)))"

text \<open>\<open>self.coordinates[id]\<close> right after a load that answered true.\<close>

definition coordinates_at :: "admission \<Rightarrow> string \<Rightarrow> temporal_coordinate list option" where
  "coordinates_at ad i = bmap_get (ad_coordinates ad) i"

subsection \<open>The cut\<close>

text \<open>\<open>min_by\<close>: the first of the earliest.\<close>

fun earliest :: "string list \<Rightarrow> string option" where
  "earliest [] = None"
| "earliest (at # ats) =
     (case earliest ats of
        None \<Rightarrow> Some at
      | Some later \<Rightarrow> if compare_temporal_instants later at = Some Less then Some later else Some at)"

definition cut_of :: "temporal_axis \<Rightarrow> temporal_coordinate list \<Rightarrow> string option" where
  "cut_of axis cs =
     earliest (filter (\<lambda>at. temporal_instant_nanos at \<noteq> None)
       (List.map_filter (\<lambda>c. map_option fst (temporal_clock_instant c axis)) cs))"

definition resolve_cut :: "admission_context \<Rightarrow> admission \<Rightarrow> (bool \<times> admission) port_result option" where
  "resolve_cut cx ad =
     (case selection_cursor (ac_temporal cx) of
        Some (CursorTime time) \<Rightarrow> Some (Inr (True, ad\<lparr>ad_resolved_as_of := Some time\<rparr>))
      | Some (CursorRef reference) \<Rightarrow>
          (case is_owned cx reference ad of
             Inl e \<Rightarrow> Some (Inl e)
           | Inr (owned, ad) \<Rightarrow>
               if \<not> owned then
                 (if rb_stop (ad_budget ad) \<noteq> None then Some (Inr (False, ad))
                  else Some (Inl (PortInvalidState ''as_of.ref must be an existing entry owned by about'')))
               else
                 (case load_coordinates cx reference ad of
                    None \<Rightarrow> None
                  | Some (Inl e) \<Rightarrow> Some (Inl e)
                  | Some (Inr (loaded, ad)) \<Rightarrow>
                      if \<not> loaded then Some (Inr (False, ad))
                      else (case coordinates_at ad reference of
                          None \<Rightarrow> None
                        | Some cs \<Rightarrow>
                            (case cut_of (axis_or_default (ac_temporal cx)) cs of
                               None \<Rightarrow> Some (Inl (PortInvalidState ''as_of.ref has no instant on the selected clock''))
                             | Some at \<Rightarrow> Some (Inr (True, ad\<lparr>ad_resolved_as_of := Some at\<rparr>))))))
      | _ \<Rightarrow> Some (Inr (True, ad)))"

subsection \<open>Admission\<close>

definition window_of :: "admission_context \<Rightarrow> admission \<Rightarrow> read_window" where
  "window_of cx ad = read_window_new (ac_temporal cx) (ad_resolved_as_of ad)"

definition labels_of :: "temporal_coordinate list \<Rightarrow> entry_labels" where
  "labels_of cs = labels_from_coordinates (map (\<lambda>c. (tc_dimension c, tc_scope_id c)) cs)"

definition dimension_matches :: "temporal_coordinate list \<Rightarrow> dimension_selection \<Rightarrow> bool" where
  "dimension_matches cs selection \<longleftrightarrow> \<not> constrained selection
     \<or> (list_ex (\<lambda>c. includes_coordinate selection (tc_dimension c) (tc_scope_id c)) cs
        \<and> ds_admits selection (labels_of cs))"

definition temporal_ok :: "admission_context \<Rightarrow> temporal_coordinate list \<Rightarrow> bool" where
  "temporal_ok cx cs \<longleftrightarrow> is_frontier (ac_temporal cx) \<or> cs \<noteq> []"

definition dimensional_ok :: "admission_context \<Rightarrow> temporal_coordinate list \<Rightarrow> bool" where
  "dimensional_ok cx cs \<longleftrightarrow> is_none_or (dp_required (ac_dimensions cx)) (dimension_matches cs)"

definition preferred_ok :: "admission_context \<Rightarrow> temporal_coordinate list \<Rightarrow> bool" where
  "preferred_ok cx cs \<longleftrightarrow> temporal_ok cx cs \<and> dimensional_ok cx cs
     \<and> (case dp_preferred (ac_dimensions cx) of None \<Rightarrow> False | Some s \<Rightarrow> dimension_matches cs s)"

definition count_admission :: "admission_context \<Rightarrow> temporal_coordinate list \<Rightarrow> routing_stats \<Rightarrow> routing_stats" where
  "count_admission cx cs r =
     r\<lparr>rg_evaluated_entries := rg_evaluated_entries r + of_bool (policy_is_active (ac_dimensions cx)),
       rg_dimensional_rejections := rg_dimensional_rejections r + of_bool (temporal_ok cx cs \<and> \<not> dimensional_ok cx cs),
       rg_preferred_entries := rg_preferred_entries r + of_bool (preferred_ok cx cs)\<rparr>"

definition admits :: "admission_context \<Rightarrow> string \<Rightarrow> admission \<Rightarrow> (bool \<times> admission) port_result option" where
  "admits cx i ad =
     (case bmap_get (ad_admitted ad) i of
        Some admitted \<Rightarrow> Some (Inr (admitted, ad))
      | None \<Rightarrow>
          (case is_owned cx i ad of
             Inl e \<Rightarrow> Some (Inl e)
           | Inr (owned, ad) \<Rightarrow>
               if \<not> owned then Some (Inr (False, ad))
               else if is_frontier (ac_temporal cx) \<and> \<not> reads_coordinates (ac_dimensions cx) then Some (Inr (True, ad))
               else
                 (case load_coordinates cx i ad of
                    None \<Rightarrow> None
                  | Some (Inl e) \<Rightarrow> Some (Inl e)
                  | Some (Inr (loaded, ad)) \<Rightarrow>
                      if \<not> loaded then Some (Inr (False, ad))
                      else (case coordinates_at ad i of
                          None \<Rightarrow> None
                        | Some all \<Rightarrow>
                            let cs = filter (window_admits_coordinate (window_of cx ad)) all;
                                admitted = temporal_ok cx cs \<and> dimensional_ok cx cs
                            in Some (Inr (admitted,
                                 ad\<lparr>ad_routing := count_admission cx cs (ad_routing ad),
                                    ad_preferred := bmap_insert i (preferred_ok cx cs) (ad_preferred ad),
                                    ad_admitted := bmap_insert i admitted (ad_admitted ad)\<rparr>))))))"

definition preferred_at :: "admission \<Rightarrow> string \<Rightarrow> bool" where
  "preferred_at ad i = (case bmap_get (ad_preferred ad) i of None \<Rightarrow> False | Some p \<Rightarrow> p)"

text \<open>The admitted coordinates of an entry and their labels, for a proof.\<close>

definition proof_coordinates :: "admission_context \<Rightarrow> string \<Rightarrow> admission
    \<Rightarrow> (temporal_coordinate list option \<times> admission) port_result option" where
  "proof_coordinates cx i ad =
     (case load_coordinates cx i ad of
        None \<Rightarrow> None
      | Some (Inl e) \<Rightarrow> Some (Inl e)
      | Some (Inr (loaded, ad)) \<Rightarrow>
          if \<not> loaded then Some (Inr (None, ad))
          else (case coordinates_at ad i of
              None \<Rightarrow> None
            | Some all \<Rightarrow> Some (Inr (Some (filter (window_admits_coordinate (window_of cx ad)) all), ad))))"

definition admission_labels :: "admission_context \<Rightarrow> string \<Rightarrow> admission \<Rightarrow> (entry_labels option \<times> admission) port_result option" where
  "admission_labels cx i ad =
     (case proof_coordinates cx i ad of
        None \<Rightarrow> None
      | Some (Inl e) \<Rightarrow> Some (Inl e)
      | Some (Inr (cs, ad)) \<Rightarrow> Some (Inr (map_option labels_of cs, ad)))"

end
