(* ===== verification/TraceSearch.thy ===== *)
theory TraceSearch
  imports TraceAdmission "HOL-Library.Option_ord"
begin

text \<open>
  Bounded candidate discovery (\<open>model/bounded_trace_search.rs\<close>, \<open>trace_node_expansion.rs\<close>,
  \<open>trace_search_result.rs\<close>): from an admitted source, path states are taken from the frontier,
  the adjacency of their node is paged within the budget, and every eligible link to an
  admitted entry extends a path. Errors of the store end the search; a panic (an index or a
  slice out of range) or a loop that does not end is \<open>None\<close>. Candidate discovery stands on its
  own here: the material chosen from its answer and the proof read for it are not part of it.
\<close>

subsection \<open>The adjacency stream of a node\<close>

record node_expansion =
  ne_move_index :: nat
  ne_after :: "relation_position option"
  ne_complete :: bool
  ne_has_eligible :: bool
  ne_eligible :: "node_relation_projection list"

type_synonym trace_move = "relation_direction \<times> string option"

definition expansion_default :: node_expansion where
  "expansion_default = \<lparr>ne_move_index = 0, ne_after = None, ne_complete = False, ne_has_eligible = False, ne_eligible = []\<rparr>"

definition expansion_page :: "snapshot_reader \<Rightarrow> trace_search_limits \<Rightarrow> string \<Rightarrow> trace_move list \<Rightarrow> 32 word
    \<Rightarrow> node_expansion \<Rightarrow> read_budget
    \<Rightarrow> (node_relation_projection list option \<times> node_expansion \<times> read_budget) port_result option" where
  "expansion_page reader limits node moves rows ex b =
     (if ne_move_index ex < length moves then
        (case moves ! ne_move_index ex of (direction, relation_type) \<Rightarrow>
           Some (try_bind (page_limited reader limits node direction (ne_after ex) relation_type rows b) (\<lambda>(page, b).
             let ex = ex\<lparr>ne_after := None\<rparr> in
             case page of
               None \<Rightarrow> Inr (None, ex, b)
             | Some page \<Rightarrow>
                 Inr (Some (ap_edges page),
                   if ap_exhausted page
                   then ex\<lparr>ne_move_index := ne_move_index ex + 1, ne_complete := ne_move_index ex + 1 = length moves\<rparr>
                   else ex\<lparr>ne_after := ap_next page\<rparr>, b))))
      else None)"

subsection \<open>What the request asks of a link\<close>

definition move_key :: "trace_move \<Rightarrow> string option \<times> bool" where
  "move_key m = (snd m, fst m = Incoming)"

definition search_moves :: "trace_search_request \<Rightarrow> trace_move list" where
  "search_moves request =
     (let moves = sort_key move_key (map (\<lambda>s. (rs_direction s, Some (rt_canonical (rs_relation s)))) (sq_follow request))
      in if moves = [] then [(sq_direction request, None)] else moves)"

definition focused :: "trace_search_request \<Rightarrow> bool" where
  "focused request \<longleftrightarrow> dp_preferred (sq_policy request) \<noteq> None"

definition alternatives :: "trace_search_request \<Rightarrow> bool" where
  "alternatives request \<longleftrightarrow> 1 < sq_paths_per_target request"

definition page_rows :: "trace_search_request \<Rightarrow> 32 word" where
  "page_rows request = (if focused request then 4 else 32)"

definition blank :: "string option \<Rightarrow> bool" where
  "blank v \<longleftrightarrow> is_none_or v (\<lambda>s. trim s = [])"

definition eligible_edge :: "trace_search_request \<Rightarrow> read_window \<Rightarrow> node_relation_projection \<Rightarrow> bool" where
  "eligible_edge request w edge \<longleftrightarrow>
     rex_semantic_class (nr_explanation edge) \<noteq> Structural
     \<and> \<not> blank (rex_rationale (nr_explanation edge)) \<and> \<not> blank (rex_evidence (nr_explanation edge))
     \<and> admits_dependency_relation w (nr_explanation edge)
     \<and> (sq_relations request = [] \<or> nr_relation_type edge \<in> set (sq_relations request))"

subsection \<open>One visit of a path state\<close>

record visit =
  vi_admission :: admission
  vi_frontier :: trace_frontier
  vi_expansion :: node_expansion
  vi_offset :: nat
  vi_leaves :: nat

text \<open>How a turn ends: \<open>break 'search\<close>, \<open>break\<close> of the inner loop, or one more turn.\<close>

datatype flow = StopSearch | LeaveVisit | TurnAgain

text \<open>The admitted rows other states of the node left behind.\<close>

fun offer_edges :: "trace_search_request \<Rightarrow> admission \<Rightarrow> nat \<Rightarrow> string \<Rightarrow> node_relation_projection list \<Rightarrow> trace_frontier
    \<Rightarrow> (bool \<times> trace_frontier) option" where
  "offer_edges request ad state node [] fr = Some (True, fr)"
| "offer_edges request ad state node (edge # edges) fr =
     (case frontier_extend request state (neighbor_of edge node) edge (preferred_at ad (neighbor_of edge node)) fr of
        None \<Rightarrow> None
      | Some (go, fr) \<Rightarrow> if go then offer_edges request ad state node edges fr else Some (False, fr))"

fun take_edges :: "trace_search_request \<Rightarrow> admission_context \<Rightarrow> nat \<Rightarrow> string \<Rightarrow> node_relation_projection list \<Rightarrow> visit
    \<Rightarrow> (bool \<times> visit) port_result option" where
  "take_edges request cx state node [] v = Some (Inr (True, v))"
| "take_edges request cx state node (edge # edges) v =
     (if \<not> eligible_edge request (window_of cx (vi_admission v)) edge then take_edges request cx state node edges v
      else
        (let next = neighbor_of edge node in
         case admits cx next (vi_admission v) of
           None \<Rightarrow> None
         | Some (Inl e) \<Rightarrow> Some (Inl e)
         | Some (Inr (admitted, ad)) \<Rightarrow>
             let v = v\<lparr>vi_admission := ad\<rparr> in
             if \<not> admitted then
               (if rb_stop (ad_budget ad) \<noteq> None then Some (Inr (False, v)) else take_edges request cx state node edges v)
             else
               (case frontier_extend request state next edge (preferred_at ad next) (vi_frontier v) of
                  None \<Rightarrow> None
                | Some (go, fr) \<Rightarrow>
                    let v = v\<lparr>vi_frontier := fr, vi_expansion := (vi_expansion v)\<lparr>ne_has_eligible := True\<rparr>\<rparr> in
                    if \<not> go then Some (Inr (False, v))
                    else take_edges request cx state node edges
                      (if alternatives request
                       then v\<lparr>vi_expansion := (vi_expansion v)\<lparr>ne_eligible := ne_eligible (vi_expansion v) @ [edge]\<rparr>,
                              vi_offset := vi_offset v + 1\<rparr>
                       else v))))"

definition replay_end :: "trace_search_request \<Rightarrow> visit \<Rightarrow> nat" where
  "replay_end request v =
     (let len = length (ne_eligible (vi_expansion v)) in
      if focused request then min (vi_offset v + unat (page_rows request)) len else len)"

text \<open>A page read and offered.\<close>

definition page_turn :: "trace_search_request \<Rightarrow> admission_context \<Rightarrow> trace_move list \<Rightarrow> nat \<Rightarrow> string \<Rightarrow> visit
    \<Rightarrow> (flow \<times> visit) port_result option" where
  "page_turn request cx moves state node v =
     (case expansion_page (ac_reader cx) (ac_limits cx) node moves (page_rows request) (vi_expansion v)
         (ad_budget (vi_admission v)) of
        None \<Rightarrow> None
      | Some (Inl e) \<Rightarrow> Some (Inl e)
      | Some (Inr (edges, ex, b)) \<Rightarrow>
          let v = v\<lparr>vi_admission := (vi_admission v)\<lparr>ad_budget := b\<rparr>, vi_expansion := ex\<rparr> in
          (case edges of
             None \<Rightarrow> Some (Inr (StopSearch, v))
           | Some edges \<Rightarrow>
               (case take_edges request cx state node edges v of
                  None \<Rightarrow> None
                | Some (Inl e) \<Rightarrow> Some (Inl e)
                | Some (Inr (go, v)) \<Rightarrow>
                    if \<not> go then Some (Inr (StopSearch, v))
                    else
                      (let ex = vi_expansion v;
                           v = v\<lparr>vi_leaves := vi_leaves v + of_bool (ne_complete ex \<and> \<not> ne_has_eligible ex)\<rparr>
                       in Some (Inr (if focused request \<or> ne_complete ex then LeaveVisit else TurnAgain, v))))))"

definition visit_turn :: "trace_search_request \<Rightarrow> admission_context \<Rightarrow> trace_move list \<Rightarrow> nat \<Rightarrow> string \<Rightarrow> visit
    \<Rightarrow> (flow \<times> visit) port_result option" where
  "visit_turn request cx moves state node v =
     (let offset = vi_offset v; end' = replay_end request v in
      if end' < offset then None
      else
        (case offer_edges request (vi_admission v) state node
            (take (end' - offset) (drop offset (ne_eligible (vi_expansion v)))) (vi_frontier v) of
           None \<Rightarrow> None
         | Some (go, fr) \<Rightarrow>
             let v = v\<lparr>vi_frontier := fr\<rparr> in
             if \<not> go then Some (Inr (StopSearch, v))
             else
               (let v = v\<lparr>vi_offset := end'\<rparr> in
                if focused request \<and> offset < end' \<or> ne_complete (vi_expansion v) then Some (Inr (LeaveVisit, v))
                else page_turn request cx moves state node v)))"

partial_function (option) visit_loop :: "trace_search_request \<Rightarrow> admission_context \<Rightarrow> trace_move list \<Rightarrow> nat \<Rightarrow> string
    \<Rightarrow> visit \<Rightarrow> (bool \<times> visit) port_result option" where
  "visit_loop request cx moves state node v =
     (case visit_turn request cx moves state node v of
        None \<Rightarrow> None
      | Some (Inl e) \<Rightarrow> Some (Inl e)
      | Some (Inr (flow, v)) \<Rightarrow>
          (case flow of
             StopSearch \<Rightarrow> Some (Inr (False, v))
           | LeaveVisit \<Rightarrow> Some (Inr (True, v))
           | TurnAgain \<Rightarrow> visit_loop request cx moves state node v))"

declare visit_loop.simps [code]

subsection \<open>The search\<close>

record search =
  se_admission :: admission
  se_frontier :: trace_frontier
  se_cache :: "(string, node_expansion) bmap"
  se_expanded :: nat
  se_leaves :: nat
  se_depth_cut :: bool
  se_stop :: trace_search_stop

text \<open>A popped state above the depth limit: its node's stream is taken up where it stands.\<close>

definition begin_visit :: "search \<Rightarrow> trace_frontier \<Rightarrow> string \<Rightarrow> nat \<Rightarrow> bool \<Rightarrow> visit" where
  "begin_visit s fr node offset resumed =
     (let ad = se_admission s; r = ad_routing ad in
      \<lparr>vi_admission = ad\<lparr>ad_routing := r\<lparr>rg_resumed_states := rg_resumed_states r + of_bool resumed\<rparr>\<rparr>,
       vi_frontier = fr,
       vi_expansion = (case bmap_get (se_cache s) node of None \<Rightarrow> expansion_default | Some ex \<Rightarrow> ex),
       vi_offset = offset, vi_leaves = se_leaves s\<rparr>)"

definition end_visit :: "trace_search_request \<Rightarrow> nat \<Rightarrow> string \<Rightarrow> search \<Rightarrow> visit \<Rightarrow> search option" where
  "end_visit request state node s v =
     (let ex = vi_expansion v; ad = vi_admission v;
          cache = bmap_remove node (se_cache s);
          cache = (if alternatives request \<or> \<not> ne_complete ex then bmap_insert node ex cache else cache);
          s = s\<lparr>se_admission := ad, se_leaves := vi_leaves v, se_cache := cache\<rparr>
      in if \<not> ne_complete ex \<or> vi_offset v < length (ne_eligible ex) then
           (case resume state (vi_offset v) (preferred_at ad node) (vi_frontier v) of
              None \<Rightarrow> None
            | Some fr \<Rightarrow> Some (s\<lparr>se_frontier := fr\<rparr>))
         else Some (s\<lparr>se_frontier := vi_frontier v\<rparr>))"

definition visit_state :: "trace_search_request \<Rightarrow> admission_context \<Rightarrow> trace_move list \<Rightarrow> nat \<Rightarrow> string \<Rightarrow> search
    \<Rightarrow> (bool \<times> search) port_result option" where
  "visit_state request cx moves state node s =
     (case begin_expansion state (se_frontier s) of
        None \<Rightarrow> None
      | Some (offset, resumed, fr) \<Rightarrow>
          let expanded = se_expanded s + of_bool (bmap_get (se_cache s) node = None) in
          (case visit_loop request cx moves state node (begin_visit s fr node offset resumed) of
             None \<Rightarrow> None
           | Some (Inl e) \<Rightarrow> Some (Inl e)
           | Some (Inr (go, v)) \<Rightarrow>
               let s = s\<lparr>se_expanded := expanded\<rparr> in
               if \<not> go then
                 Some (Inr (False, s\<lparr>se_admission := vi_admission v, se_frontier := vi_frontier v, se_leaves := vi_leaves v\<rparr>))
               else map_option (\<lambda>s. Inr (True, s)) (end_visit request state node s v)))"

definition search_step :: "trace_search_request \<Rightarrow> admission_context \<Rightarrow> trace_move list \<Rightarrow> search
    \<Rightarrow> (bool \<times> search) port_result option" where
  "search_step request cx moves s =
     (case frontier_pop (se_frontier s) of
        None \<Rightarrow> None
      | Some (None, fr) \<Rightarrow>
          Some (Inr (False, s\<lparr>se_frontier := fr, se_stop := if se_depth_cut s then DepthBudget else se_stop s\<rparr>))
      | Some (Some (state, node, depth), fr) \<Rightarrow>
          if depth = unat (tl_depth (sq_limits request)) then Some (Inr (True, s\<lparr>se_frontier := fr, se_depth_cut := True\<rparr>))
          else visit_state request cx moves state node (s\<lparr>se_frontier := fr\<rparr>))"

definition search_runs :: "search \<Rightarrow> bool" where
  "search_runs s \<longleftrightarrow> rb_stop (ad_budget (se_admission s)) = None \<and> fr_stop (se_frontier s) = None"

partial_function (option) trace_loop :: "trace_search_request \<Rightarrow> admission_context \<Rightarrow> trace_move list \<Rightarrow> search
    \<Rightarrow> search port_result option" where
  "trace_loop request cx moves s =
     (if search_runs s then
        (case search_step request cx moves s of
           None \<Rightarrow> None
         | Some (Inl e) \<Rightarrow> Some (Inl e)
         | Some (Inr (go, s)) \<Rightarrow> if go then trace_loop request cx moves s else Some (Inr s))
      else Some (Inr s))"

declare trace_loop.simps [code]

subsection \<open>The answer\<close>

record trace_search_result =
  tr_routing :: "routing_stats option"
  tr_from :: string
  tr_follow :: "trace_relation_step list"
  tr_paths_per_target :: "32 word"
  tr_considered_states :: nat
  tr_incomplete_targets :: "string list"
  tr_routes :: "trace_route list"
  tr_relations :: "node_relation_projection list"
  tr_unreached :: "string list"
  tr_stop :: trace_search_stop
  tr_discovered_nodes :: nat
  tr_scanned_edges :: "32 word"
  tr_expanded_nodes :: nat
  tr_leaves :: nat
  tr_coordinate_rows :: "32 word"
  tr_clock_unknown_edges :: "nat list"
  tr_temporal_axis :: temporal_axis
  tr_resolved_as_of :: "string option"
  tr_temporal_selection_resolved :: bool

definition final_stop :: "search \<Rightarrow> trace_search_stop" where
  "final_stop s =
     (case fr_stop (se_frontier s) of
        Some stop \<Rightarrow> stop
      | None \<Rightarrow> (case rb_stop (ad_budget (se_admission s)) of Some stop \<Rightarrow> stop | None \<Rightarrow> se_stop s))"

definition final_routing :: "trace_search_request \<Rightarrow> search \<Rightarrow> nat list \<Rightarrow> routing_stats option" where
  "final_routing request s preferred =
     (if policy_is_active (sq_policy request) then
        Some ((ad_routing (se_admission s))
          \<lparr>rg_adjacency_pages := rb_adjacency_pages (ad_budget (se_admission s)),
           rg_coordinate_pages := rb_coordinate_pages (ad_budget (se_admission s)),
           rg_priority_pops := tq_priority_pops (fr_queue (se_frontier s)),
           rg_exploration_pops := tq_exploration_pops (fr_queue (se_frontier s)),
           rg_preferred_route_entries := preferred\<rparr>)
      else None)"

definition clock_unknown_edges :: "read_window \<Rightarrow> node_relation_projection list \<Rightarrow> nat list" where
  "clock_unknown_edges w edges =
     filter (\<lambda>i. \<not> relation_clock_known w (nr_explanation (edges ! i))) [0..<length edges]"

definition search_result :: "trace_search_request \<Rightarrow> admission_context \<Rightarrow> bool \<Rightarrow> search \<Rightarrow> trace_search_result option" where
  "search_result request cx resolved s =
     (let ad = se_admission s; fr = se_frontier s in
      case frontier_routes fr of
        None \<Rightarrow> None
      | Some t \<Rightarrow> Some \<lparr>
          tr_routing = final_routing request s (tb_preferred t),
          tr_from = sq_from request, tr_follow = sq_follow request,
          tr_paths_per_target = sq_paths_per_target request,
          tr_considered_states = fr_considered fr,
          tr_incomplete_targets = incomplete_targets request fr,
          tr_routes = tb_routes t, tr_relations = tb_relations t,
          tr_unreached = unreached_targets request fr, tr_stop = final_stop s,
          tr_discovered_nodes = length (rb_refs (ad_budget ad)), tr_scanned_edges = rb_scanned (ad_budget ad),
          tr_expanded_nodes = se_expanded s, tr_leaves = se_leaves s,
          tr_coordinate_rows = rb_coordinate_rows (ad_budget ad),
          tr_clock_unknown_edges =
            (if is_frontier (sq_temporal request) then [] else clock_unknown_edges (window_of cx ad) (tb_relations t)),
          tr_temporal_axis = axis_or_default (sq_temporal request),
          tr_resolved_as_of = ad_resolved_as_of ad, tr_temporal_selection_resolved = resolved\<rparr>)"

definition trace_start :: "trace_search_request \<Rightarrow> bool \<Rightarrow> admission \<Rightarrow> search" where
  "trace_start request root_admitted ad = \<lparr>se_admission = ad,
     se_frontier = frontier_new request root_admitted (preferred_at ad (sq_from request)),
     se_cache = [], se_expanded = 0, se_leaves = 0, se_depth_cut = False,
     se_stop = (if root_admitted then FrontierExhausted else SourceOutsideSelection)\<rparr>"

text \<open>The root of the search: an owned source, the cut resolved, the source admitted.\<close>

definition search_root :: "trace_search_request \<Rightarrow> admission_context \<Rightarrow> (bool \<times> bool \<times> admission) port_result option" where
  "search_root request cx =
     (case is_owned cx (sq_from request) (admission_new cx) of
        Inl e \<Rightarrow> Some (Inl e)
      | Inr (owned, ad) \<Rightarrow>
          if \<not> owned then Some (Inl (PortInvalidState ''trace search source must be an existing entry owned by about''))
          else
            (case resolve_cut cx ad of
               None \<Rightarrow> None
             | Some (Inl e) \<Rightarrow> Some (Inl e)
             | Some (Inr (resolved, ad)) \<Rightarrow>
                 if \<not> resolved then Some (Inr (False, False, ad))
                 else map_option (map_sum id (\<lambda>(admitted, ad). (True, admitted, ad))) (admits cx (sq_from request) ad)))"

definition trace_candidates :: "snapshot_reader \<Rightarrow> trace_search_request \<Rightarrow> trace_search_result port_result option" where
  "trace_candidates reader request =
     (case port_result (search_validate request) of
        Inl e \<Rightarrow> Some (Inl e)
      | Inr _ \<Rightarrow>
          let cx = context_of reader request in
          (case search_root request cx of
             None \<Rightarrow> None
           | Some (Inl e) \<Rightarrow> Some (Inl e)
           | Some (Inr (resolved, root_admitted, ad)) \<Rightarrow>
               (case trace_loop request cx (search_moves request) (trace_start request root_admitted ad) of
                  None \<Rightarrow> None
                | Some (Inl e) \<Rightarrow> Some (Inl e)
                | Some (Inr s) \<Rightarrow> map_option Inr (search_result request cx resolved s))))"

end
