(* ===== verification/TraceMaterial.thy ===== *)
theory TraceMaterial
  imports MaterialSet TraceSearch
begin

text \<open>
  The material of a bounded trace search (\<open>model/select_trace_material.rs\<close>,
  \<open>trace_material_catalog.rs\<close>, \<open>trace_material_state.rs\<close>, \<open>trace_material_result.rs\<close>): the
  routes of an answer as sets of entries, scored against declared requirements, and a beam of
  width four that chooses up to eight of them within a bound on entries. Weights are at most
  1000 in at most eight groups, so that benefits and priorities are natural numbers here. An
  index or a lookup that fails is a panic, \<open>None\<close>.
\<close>

subsection \<open>The catalogue\<close>

record material_catalogue =
  mc_names :: "string list"
  mc_paths :: "material_set list"
  mc_groups :: "(nat \<times> material_set list) list"

text \<open>The entries of one route, which must be connected and simple.\<close>

fun walk_route :: "node_relation_projection list \<Rightarrow> string \<Rightarrow> string bset \<Rightarrow> nat list \<Rightarrow> (string \<times> string bset) domain_result" where
  "walk_route relations current nodes [] = Inr (current, nodes)"
| "walk_route relations current nodes (i # indexes) =
     (if length relations \<le> i then Inl (InvalidState ''trace route contains an absent edge index'')
      else
        let edge = relations ! i in
        if nr_source_node_id edge \<noteq> current \<and> nr_target_node_id edge \<noteq> current then
          Inl (InvalidState ''trace route has disconnected edges'')
        else
          let next = (if nr_source_node_id edge = current then nr_target_node_id edge else nr_source_node_id edge) in
          if next \<in> set nodes then Inl (InvalidState ''trace material expects simple paths'')
          else walk_route relations next (bset_insert next nodes) indexes)"

definition extend_names :: "string bset \<Rightarrow> string list \<Rightarrow> string bset" where
  "extend_names names refs = foldl (\<lambda>s x. bset_insert x s) names refs"

fun collect_routes :: "node_relation_projection list \<Rightarrow> string \<Rightarrow> trace_route list \<Rightarrow> string bset
    \<Rightarrow> (string bset \<times> string bset list) domain_result" where
  "collect_routes relations source [] names = Inr (names, [])"
| "collect_routes relations source (route # routes) names =
     try_bind (walk_route relations source [source] (ro_edge_indexes route)) (\<lambda>(current, nodes).
       if current \<noteq> ro_target route then Inl (InvalidState ''trace route does not reach its target'')
       else try_bind (collect_routes relations source routes (extend_names names nodes)) (\<lambda>(names, sets).
         Inr (names, nodes # sets)))"

definition requirement_names :: "trace_proof_requirement list \<Rightarrow> string list" where
  "requirement_names groups = concat (concat (map rq_alternatives groups))"

definition name_positions :: "string list \<Rightarrow> (string, nat) bmap" where
  "name_positions names = foldl (\<lambda>m (name, i). bmap_insert name i m) [] (zip names [0..<length names])"

fun mask :: "(string, nat) bmap \<Rightarrow> string list \<Rightarrow> material_set \<Rightarrow> material_set option" where
  "mask positions [] s = Some s"
| "mask positions (name # names) s =
     (case bmap_get positions name of
        None \<Rightarrow> None
      | Some i \<Rightarrow> (case set_add i s of None \<Rightarrow> None | Some s \<Rightarrow> mask positions names s))"

definition catalogue_masks :: "string list \<Rightarrow> string bset list \<Rightarrow> material_set list option" where
  "catalogue_masks names refs = those (map (\<lambda>r. mask (name_positions names) r (set_empty (length names))) refs)"

definition catalogue_new :: "trace_search_result \<Rightarrow> trace_proof_requirement list \<Rightarrow> material_catalogue domain_result option" where
  "catalogue_new result groups =
     (case collect_routes (tr_relations result) (tr_from result) (tr_routes result) [tr_from result] of
        Inl e \<Rightarrow> Some (Inl e)
      | Inr (found, routes) \<Rightarrow>
          let names = extend_names found (requirement_names groups) in
          (case (catalogue_masks names routes, those (map (\<lambda>g. catalogue_masks names (rq_alternatives g)) groups)) of
             (Some paths, Some alts) \<Rightarrow>
               Some (Inr \<lparr>mc_names = names, mc_paths = paths,
                 mc_groups = zip (map (\<lambda>g. unat (rq_weight g)) groups) alts\<rparr>)
           | _ \<Rightarrow> None))"

text \<open>The score: what is covered, and \<open>1680 * (F + H / 2)\<close>.\<close>

definition best_share :: "material_set \<Rightarrow> material_set list \<Rightarrow> nat" where
  "best_share m alts =
     foldl max 0 (map (\<lambda>a. intersection_count m a * (840 div set_count a)) alts)"

fun score_groups :: "material_set \<Rightarrow> nat \<Rightarrow> (nat \<times> material_set list) list \<Rightarrow> nat \<times> nat \<times> nat list" where
  "score_groups m index [] = (0, 0, [])"
| "score_groups m index ((weight, alts) # groups) =
     (case score_groups m (Suc index) groups of (benefit, partial, covered) \<Rightarrow>
        if list_ex (\<lambda>a. intersection_count m a = set_count a) alts
        then (weight + benefit, partial, index # covered)
        else (benefit, weight * best_share m alts + partial, covered))"

definition catalogue_score :: "material_catalogue \<Rightarrow> material_set \<Rightarrow> nat \<times> nat \<times> nat list" where
  "catalogue_score cat m =
     (case score_groups m 0 (mc_groups cat) of (benefit, partial, covered) \<Rightarrow> (benefit, 1680 * benefit + partial, covered))"

subsection \<open>The beam\<close>

record material_state =
  mt_indexes :: "nat list"
  mt_material :: material_set
  mt_benefit :: nat
  mt_priority :: nat

text \<open>\<open>actual_order\<close>: more benefit, then less material, fewer routes, lexical indexes.\<close>

definition actual_key :: "material_state \<Rightarrow> int \<times> nat \<times> nat \<times> nat list" where
  "actual_key s = (- int (mt_benefit s), set_count (mt_material s), length (mt_indexes s), mt_indexes s)"

definition priority_order :: "material_state \<Rightarrow> int \<times> int \<times> nat \<times> nat \<times> nat list" where
  "priority_order s = (- int (mt_priority s), actual_key s)"

definition union_of :: "material_catalogue \<Rightarrow> nat list \<Rightarrow> material_set" where
  "union_of cat indexes = foldl set_union (set_empty (length (mc_names cat))) (map ((!) (mc_paths cat)) indexes)"

definition state_of :: "material_catalogue \<Rightarrow> nat list \<Rightarrow> material_state" where
  "state_of cat indexes =
     (case catalogue_score cat (union_of cat indexes) of (benefit, priority, _) \<Rightarrow>
        \<lparr>mt_indexes = indexes, mt_material = union_of cat indexes, mt_benefit = benefit, mt_priority = priority\<rparr>)"

definition empty_state :: "material_catalogue \<Rightarrow> material_state" where
  "empty_state cat = \<lparr>mt_indexes = [], mt_material = set_empty (length (mc_names cat)), mt_benefit = 0, mt_priority = 0\<rparr>"

definition generate :: "nat \<Rightarrow> nat list list \<Rightarrow> nat list bset" where
  "generate paths frontier =
     foldl (\<lambda>generated current.
       foldl (\<lambda>generated index. if index \<in> set current then generated else bset_insert (sort (current @ [index])) generated)
         generated [0..<paths]) [] frontier"

fun evaluate :: "material_catalogue \<Rightarrow> nat \<Rightarrow> nat list list \<Rightarrow> material_state \<Rightarrow> material_state list
    \<Rightarrow> material_state \<times> material_state list" where
  "evaluate cat max_nodes [] incumbent feasible = (incumbent, feasible)"
| "evaluate cat max_nodes (indexes # rest) incumbent feasible =
     (if max_nodes < set_count (union_of cat indexes) then evaluate cat max_nodes rest incumbent feasible
      else
        let s = state_of cat indexes in
        evaluate cat max_nodes rest (if actual_key s < actual_key incumbent then s else incumbent) (feasible @ [s]))"

record beam =
  bm_incumbent :: material_state
  bm_frontier :: "nat list list"
  bm_evaluated :: nat
  bm_pruned :: nat

definition beam_round :: "material_catalogue \<Rightarrow> nat \<Rightarrow> beam \<Rightarrow> beam" where
  "beam_round cat max_nodes b =
     (let generated = generate (length (mc_paths cat)) (bm_frontier b) in
      case evaluate cat max_nodes generated (bm_incumbent b) [] of (incumbent, feasible) \<Rightarrow>
        let feasible = sort_key priority_order feasible in
        \<lparr>bm_incumbent = incumbent, bm_frontier = map mt_indexes (take 4 feasible),
         bm_evaluated = bm_evaluated b + length generated, bm_pruned = bm_pruned b + (length feasible - 4)\<rparr>)"

fun beam_rounds :: "material_catalogue \<Rightarrow> nat \<Rightarrow> nat \<Rightarrow> beam \<Rightarrow> beam" where
  "beam_rounds cat max_nodes 0 b = b"
| "beam_rounds cat max_nodes (Suc n) b =
     (let b = beam_round cat max_nodes b in
      if bm_frontier b = [] then b else beam_rounds cat max_nodes n b)"

subsection \<open>The selection\<close>

record trace_material_result =
  mr_selected_candidates :: "nat list"
  mr_material_refs :: "string list"
  mr_covered_groups :: "nat list"
  mr_incomplete_groups :: "nat list"
  mr_benefit :: nat
  mr_evaluated :: nat
  mr_pruned_by_width :: nat

definition material_names :: "string list \<Rightarrow> material_set \<Rightarrow> string list option" where
  "material_names names m =
     map_option (\<lambda>held. map fst (filter snd (zip names held))) (those (map (set_contains m) [0..<length names]))"

definition beam_result :: "material_catalogue \<Rightarrow> beam \<Rightarrow> trace_material_result option" where
  "beam_result cat b =
     (case catalogue_score cat (mt_material (bm_incumbent b)) of (_, _, covered) \<Rightarrow>
        map_option (\<lambda>refs. \<lparr>mr_selected_candidates = mt_indexes (bm_incumbent b), mr_material_refs = refs,
            mr_covered_groups = covered,
            mr_incomplete_groups = filter (\<lambda>g. g \<notin> set covered) [0..<length (mc_groups cat)],
            mr_benefit = mt_benefit (bm_incumbent b), mr_evaluated = bm_evaluated b, mr_pruned_by_width = bm_pruned b\<rparr>)
          (material_names (mc_names cat) (mt_material (bm_incumbent b))))"

definition beam_start :: "material_catalogue \<Rightarrow> beam" where
  "beam_start cat = \<lparr>bm_incumbent = empty_state cat, bm_frontier = [[]], bm_evaluated = 0, bm_pruned = 0\<rparr>"

definition select_trace_material :: "trace_search_result \<Rightarrow> string bset \<Rightarrow> trace_material_selection
    \<Rightarrow> trace_material_result domain_result option" where
  "select_trace_material candidates targets policy =
     (case material_validate policy targets of
        Inl e \<Rightarrow> Some (Inl e)
      | Inr _ \<Rightarrow>
          if 64 < length (tr_routes candidates) then
            Some (Inl (InvalidState ''trace material admits at most 64 candidate paths''))
          else
            (case catalogue_new candidates (requirements policy targets) of
               None \<Rightarrow> None
             | Some (Inl e) \<Rightarrow> Some (Inl e)
             | Some (Inr cat) \<Rightarrow>
                 map_option Inr (beam_result cat
                   (beam_rounds cat (unat (ms_max_nodes policy)) (unat (ms_max_paths policy)) (beam_start cat)))))"

text \<open>The search with the material its request selects.\<close>

definition trace_with_material :: "snapshot_reader \<Rightarrow> trace_search_request
    \<Rightarrow> (trace_search_result \<times> trace_material_result option) port_result option" where
  "trace_with_material reader request =
     (case trace_candidates reader request of
        None \<Rightarrow> None
      | Some (Inl e) \<Rightarrow> Some (Inl e)
      | Some (Inr result) \<Rightarrow>
          (case sq_select request of
             None \<Rightarrow> Some (Inr (result, None))
           | Some policy \<Rightarrow>
               map_option (\<lambda>m. map_sum id (\<lambda>m. (result, Some m)) (port_result m))
                 (select_trace_material result (sq_targets request) policy)))"

end
