(* ===== verification/TraceStore.thy ===== *)
theory TraceStore
  imports TraceAdmission
begin

text \<open>
  Admission over a snapshot that reads a stored graph. The documented behaviour of the reader
  is the hypothesis \<open>snapshot_of\<close>: a node read answers the node; an adjacency read answers at
  most the rows asked for, in key order after the position given, with the position of the
  last row when the page is full, and is exhausted only when it is not full. Paging through it
  ends and reads every row once, so that an admission says exactly what the stored graph says
  unless a budget stopped it.
\<close>

subsection \<open>The stored graph\<close>

definition row_start :: "relation_direction \<Rightarrow> node_relation_projection \<Rightarrow> string" where
  "row_start direction edge =
     (case direction of Outgoing \<Rightarrow> nr_source_node_id edge | Incoming \<Rightarrow> nr_target_node_id edge)"

definition row_position :: "relation_direction \<Rightarrow> node_relation_projection \<Rightarrow> string \<times> string" where
  "row_position direction edge = (row_end direction edge, nr_relation_type edge)"

definition stored_rows :: "node_relation_projection list \<Rightarrow> string \<Rightarrow> relation_direction \<Rightarrow> string option
    \<Rightarrow> node_relation_projection list" where
  "stored_rows G node direction relation =
     sort_key (row_position direction)
       (filter (\<lambda>e. row_start direction e = node \<and> (relation = None \<or> relation = Some (nr_relation_type e))) G)"

definition rows_after :: "relation_direction \<Rightarrow> relation_position option \<Rightarrow> node_relation_projection list
    \<Rightarrow> node_relation_projection list" where
  "rows_after direction after rows =
     (case after of None \<Rightarrow> rows
      | Some p \<Rightarrow> filter (\<lambda>e. (rp_neighbor p, rp_relation p) < row_position direction e) rows)"

definition position_of :: "relation_direction \<Rightarrow> node_relation_projection \<Rightarrow> relation_position" where
  "position_of direction edge = \<lparr>rp_neighbor = row_end direction edge, rp_relation = nr_relation_type edge\<rparr>"

definition stored_page :: "node_relation_projection list \<Rightarrow> adjacency_request \<Rightarrow> adjacency_page" where
  "stored_page G q =
     (let rest = rows_after (ar_direction q) (ar_after q) (stored_rows G (ar_node_id q) (ar_direction q) (ar_relation_type q));
          n = unat (ar_limit q); es = take n rest
      in \<lparr>ap_edges = es,
          ap_next = (if length es = n then Some (position_of (ar_direction q) (last es)) else None),
          ap_exhausted = (length es < n)\<rparr>)"

definition snapshot_of :: "snapshot_reader \<Rightarrow> (string \<Rightarrow> node_projection option) \<Rightarrow> node_relation_projection list \<Rightarrow> bool" where
  "snapshot_of reader nodes G \<longleftrightarrow> distinct (map edge_key G)
     \<and> (\<forall>i node. sr_node reader i = Inr node \<longrightarrow> node = nodes i)
     \<and> (\<forall>q page. sr_adjacency reader q = Inr page \<longrightarrow> page = stored_page G q)"

lemma stored_page_rows: "length (ap_edges (stored_page G q)) \<le> unat (ar_limit q)"
  by (simp add: stored_page_def Let_def)

lemma snapshot_rows_bounded: "snapshot_of reader nodes G \<Longrightarrow> rows_bounded reader"
  unfolding snapshot_of_def rows_bounded_def using stored_page_rows by blast

lemma stored_rows_iff:
  "e \<in> set (stored_rows G node direction relation) \<longleftrightarrow>
     e \<in> set G \<and> row_start direction e = node \<and> (relation = None \<or> relation = Some (nr_relation_type e))"
  by (auto simp: stored_rows_def)

lemma row_key: "row_start direction e = row_start direction f \<Longrightarrow> row_position direction e = row_position direction f \<Longrightarrow>
    edge_key e = edge_key f"
  by (cases direction) (auto simp: row_start_def row_position_def row_end_def edge_key_def)

lemma stored_rows_sorted:
  assumes "distinct (map edge_key G)"
  shows "sorted_wrt (\<lambda>e f. row_position direction e < row_position direction f) (stored_rows G node direction relation)"
proof -
  let ?rows = "stored_rows G node direction relation"
  have "distinct G" using assms by (simp add: distinct_map)
  then have "distinct ?rows" by (simp add: stored_rows_def)
  moreover have "inj_on (row_position direction) (set ?rows)"
  proof (rule inj_onI)
    fix e f assume "e \<in> set ?rows" "f \<in> set ?rows" "row_position direction e = row_position direction f"
    then have "edge_key e = edge_key f" "e \<in> set G" "f \<in> set G" using row_key [of direction e f] by (simp_all add: stored_rows_iff)
    then show "e = f" using assms by (simp add: distinct_map inj_on_def)
  qed
  ultimately have "distinct (map (row_position direction) ?rows)" by (simp add: distinct_map)
  moreover have "sorted (map (row_position direction) ?rows)" by (simp add: stored_rows_def)
  ultimately have "sorted_wrt (<) (map (row_position direction) ?rows)" unfolding strict_sorted_iff by blast
  then show ?thesis by (simp add: sorted_wrt_map)
qed

text \<open>Where a full page ends, the next one starts.\<close>

lemma rows_after_page:
  assumes sorted: "sorted_wrt (\<lambda>e f. row_position direction e < row_position direction f) rows"
    and rest: "rest = rows_after direction after rows" and n: "0 < n" "n \<le> length rest"
  shows "rows_after direction (Some (position_of direction (last (take n rest)))) rows = drop n rest"
proof -
  define k where "k = row_position direction (last (take n rest))"
  have k: "(rp_neighbor (position_of direction (last (take n rest))), rp_relation (position_of direction (last (take n rest)))) = k"
    by (simp add: k_def position_of_def row_position_def)
  have in_rest: "last (take n rest) \<in> set rest"
    using n by (intro in_set_takeD [OF last_in_set]) auto
  have srest: "sorted_wrt (\<lambda>e f. row_position direction e < row_position direction f) rest"
    using sorted unfolding rest rows_after_def by (cases after) (auto intro: sorted_wrt_filter)
  have "filter (\<lambda>e. k < row_position direction e) rows = filter (\<lambda>e. k < row_position direction e) rest"
  proof (cases after)
    case (Some p)
    then have "(rp_neighbor p, rp_relation p) < k" using in_rest by (simp add: rest rows_after_def k_def)
    then show ?thesis by (auto simp: rest rows_after_def Some intro!: filter_cong dest: order.strict_trans)
  qed (simp add: rest rows_after_def)
  also have "\<dots> = filter (\<lambda>e. k < row_position direction e) (take n rest) @ filter (\<lambda>e. k < row_position direction e) (drop n rest)"
    by (metis append_take_drop_id filter_append)
  also have "filter (\<lambda>e. k < row_position direction e) (take n rest) = []"
  proof -
    have t: "take n rest \<noteq> []" using n by auto
    have s: "sorted_wrt (\<lambda>e f. row_position direction e < row_position direction f) (take n rest)"
      using srest by (rule sorted_wrt_take)
    have "take n rest = butlast (take n rest) @ [last (take n rest)]" using t by simp
    with s have "\<forall>e \<in> set (butlast (take n rest)). row_position direction e < k"
      unfolding k_def by (metis sorted_wrt_append list.set_intros(1))
    moreover have "set (take n rest) = insert (last (take n rest)) (set (butlast (take n rest)))"
      using arg_cong [OF append_butlast_last_id [OF t], of set] by simp
    ultimately have "\<forall>e \<in> set (take n rest). \<not> k < row_position direction e"
      by (auto simp: k_def)
    then show ?thesis by (simp add: filter_empty_conv)
  qed
  also have "filter (\<lambda>e. k < row_position direction e) (drop n rest) = drop n rest"
  proof -
    have "last (take n rest) \<in> set (take n rest)" using n by (intro last_in_set) auto
    then have "\<forall>e \<in> set (drop n rest). k < row_position direction e"
      using srest unfolding k_def by (metis append_take_drop_id sorted_wrt_append)
    then show ?thesis by simp
  qed
  finally show ?thesis by (simp add: rows_after_def k)
qed

text \<open>One page granted over the stored graph.\<close>

lemma page_limited_stored:
  assumes store: "snapshot_of reader nodes G" and ok: "budget_ok limits b"
    and page: "page_limited reader limits node direction after relation rows b = Inr (Some page, b')"
    and relation: "\<forall>kind. relation = Some kind \<longrightarrow> relation_type_new kind = Inr r \<and> rt_canonical r = kind"
    and rows: "0 < rows"
  defines "rest \<equiv> rows_after direction after (stored_rows G node direction relation)"
  shows "if ap_exhausted page then ap_edges page = rest
    else ap_edges page \<noteq> [] \<and> (\<exists>p. ap_next page = Some p
      \<and> rest = ap_edges page @ rows_after direction (Some p) (stored_rows G node direction relation))"
proof -
  let ?limit = "min (min (nodes_left limits b) (edges_left limits b)) rows"
  obtain q where q: "page_request node direction after relation ?limit = Inr q"
    and r: "sr_adjacency reader q = Inr page" and left: "nodes_left limits b \<noteq> 0" "edges_left limits b \<noteq> 0"
    using page by (auto simp: page_limited_def try_bind_Inr_iff split: if_splits)
  have page': "page = stored_page G q" using store r by (simp add: snapshot_of_def)
  have fields: "ar_node_id q = node" "ar_direction q = direction" "ar_after q = after" "ar_relation_type q = relation"
    "ar_limit q = ?limit"
    using q relation
    by (cases relation; cases after; auto simp: page_request_def try_bind_Inr_iff port_result_Inr
        adjacency_request_new_def with_relation_type_def with_after_def split: if_splits)+
  have pos: "0 < unat ?limit" using left rows by (simp add: min_def unat_gt_0 word_gt_0)
  have sorted: "sorted_wrt (\<lambda>e f. row_position direction e < row_position direction f) (stored_rows G node direction relation)"
    using store by (intro stored_rows_sorted) (simp add: snapshot_of_def)
  have rest: "rest = rows_after direction after (stored_rows G node direction relation)" by (simp add: rest_def)
  show ?thesis
  proof (cases "length rest < unat ?limit")
    case True
    then show ?thesis by (simp add: page' stored_page_def Let_def fields rest [symmetric])
  next
    case False
    then have n: "unat ?limit \<le> length rest" by simp
    from rows_after_page [OF sorted rest pos this] pos n
    show ?thesis by (auto simp: page' stored_page_def Let_def fields rest [symmetric])
  qed
qed

subsection \<open>Paging the coordinates of an entry\<close>

lemma collect_coordinates_total: "\<exists>cs. collect_coordinates about es = Inr cs"
proof (induction es)
  case (Cons e es)
  obtain c where "tc_from_explanation (nr_explanation e) = Inr c" using tc_from_explanation_Inr by blast
  with Cons show ?case by auto
qed simp

definition coordinates_of_rows :: "string \<Rightarrow> node_relation_projection list \<Rightarrow> temporal_coordinate list" where
  "coordinates_of_rows about es = projr (collect_coordinates about es)"

lemma collect_coordinates_rows: "collect_coordinates about es = Inr (coordinates_of_rows about es)"
  using collect_coordinates_total [of about es] by (auto simp: coordinates_of_rows_def)

lemma coordinates_of_rows_Nil [simp]: "coordinates_of_rows about [] = []"
  by (simp add: coordinates_of_rows_def)

lemma coordinates_of_rows_append:
  "coordinates_of_rows about (es @ fs) = coordinates_of_rows about es @ coordinates_of_rows about fs"
proof -
  have "collect_coordinates about (es @ fs) = Inr (coordinates_of_rows about es @ coordinates_of_rows about fs)"
  proof (induction es)
    case (Cons e es)
    obtain c where c: "tc_from_explanation (nr_explanation e) = Inr c" using tc_from_explanation_Inr by blast
    have e: "collect_coordinates about (e # es) = Inr (coordinates_of_rows about (e # es))" by (rule collect_coordinates_rows)
    with Cons c collect_coordinates_rows [of about es] show ?case
      by (cases c) (auto split: if_splits)
  qed (simp add: collect_coordinates_rows)
  then show ?thesis by (simp add: collect_coordinates_rows)
qed

definition stored_coordinates :: "string \<Rightarrow> node_relation_projection list \<Rightarrow> string \<Rightarrow> temporal_coordinate list" where
  "stored_coordinates about G i = coordinates_of_rows about (stored_rows G i Incoming (Some ''contains_entry''))"

lemma contains_entry_relation:
  "\<exists>r. relation_type_new ''contains_entry'' = Inr r \<and> rt_canonical r = ''contains_entry''"
proof -
  have "\<not> isl (relation_type_new ''contains_entry'')" "rt_canonical (projr (relation_type_new ''contains_entry'')) = ''contains_entry''"
    by code_simp+
  then show ?thesis by (cases "relation_type_new ''contains_entry''") auto
qed

lemma coordinate_pages_stored:
  assumes store: "snapshot_of (ac_reader cx) nodes G"
    and rest: "rest = rows_after Incoming after (stored_rows G i Incoming (Some ''contains_entry''))"
    and ok: "budget_ok (ac_limits cx) b"
  shows "\<exists>r. coordinate_pages cx i after cs b = Some r \<and> (\<forall>out b'. r = Inr (out, b') \<longrightarrow> budget_ok (ac_limits cx) b'
    \<and> (case out of None \<Rightarrow> rb_stop b' \<noteq> None
       | Some cs' \<Rightarrow> rb_stop b' = rb_stop b \<and> cs' = cs @ coordinates_of_rows (ac_about cx) rest)
    \<and> unat (rb_scanned b) \<le> unat (rb_scanned b'))"
  using rest ok
proof (induction "unat (tl_edges (ac_limits cx)) - unat (rb_scanned b)" arbitrary: after cs b rest rule: less_induct)
  case less
  let ?page = "budget_page (ac_reader cx) (ac_limits cx) i Incoming after (Some ''contains_entry'') b"
  obtain kind where kind: "relation_type_new ''contains_entry'' = Inr kind" "rt_canonical kind = ''contains_entry''"
    using contains_entry_relation by blast
  show ?case
  proof (cases ?page)
    case (Inl e)
    then show ?thesis by (subst coordinate_pages.simps) simp
  next
    case (Inr ob)
    obtain p b1 where pb: "ob = (p, b1)" by fastforce
    show ?thesis
    proof (cases p)
      case None
      have l: "page_limited (ac_reader cx) (ac_limits cx) i Incoming after (Some ''contains_entry'') 32 b = Inr (None, b1)"
        using Inr pb None by (simp add: budget_page_def)
      obtain s where s: "s \<in> {NodeBudget, EdgeBudget}" "b1 = b\<lparr>rb_stop := Some s\<rparr>"
        using page_limited_None [OF l] by (elim exE conjE)
      have "budget_ok (ac_limits cx) b1" using budget_stop_ok [OF less.prems(2) s(1)] s(2) by simp
      with Inr pb None s(2) show ?thesis by (subst coordinate_pages.simps) simp
    next
      case (Some page)
      have g: "page_limited (ac_reader cx) (ac_limits cx) i Incoming after (Some ''contains_entry'') 32 b = Inr (Some page, b1)"
        using Inr pb Some by (simp add: budget_page_def)
      note granted = page_limited_Some [OF g less.prems(2) snapshot_rows_bounded [OF store]]
      have stored: "if ap_exhausted page then ap_edges page = rest
          else ap_edges page \<noteq> [] \<and> (\<exists>q. ap_next page = Some q
            \<and> rest = ap_edges page @ rows_after Incoming (Some q) (stored_rows G i Incoming (Some ''contains_entry'')))"
        using page_limited_stored [OF store less.prems(2) g, of kind] kind less.prems(1) by simp
      have collect: "collect_coordinates (ac_about cx) (ap_edges page) = Inr (coordinates_of_rows (ac_about cx) (ap_edges page))"
        by (rule collect_coordinates_rows)
      show ?thesis
      proof (cases "ap_exhausted page")
        case True
        with Inr pb Some collect stored granted show ?thesis by (subst coordinate_pages.simps) simp
      next
        case False
        with stored obtain q where q: "ap_edges page \<noteq> []" "ap_next page = Some q"
          "rest = ap_edges page @ rows_after Incoming (Some q) (stored_rows G i Incoming (Some ''contains_entry''))" by auto
        have eq: "coordinate_pages cx i after cs b =
            coordinate_pages cx i (Some q) (cs @ coordinates_of_rows (ac_about cx) (ap_edges page)) b1"
          using Inr pb Some collect False q(2) by (subst coordinate_pages.simps) simp
        have more: "unat (rb_scanned b) < unat (rb_scanned b1)" using granted(3) q(1) by simp
        moreover have "unat (rb_scanned b1) \<le> unat (tl_edges (ac_limits cx))"
          using granted(1) by (simp add: budget_ok_def word_le_nat_alt)
        ultimately have "unat (tl_edges (ac_limits cx)) - unat (rb_scanned b1) < unat (tl_edges (ac_limits cx)) - unat (rb_scanned b)"
          by linarith
        from less.hyps [OF this refl granted(1), of "Some q" "cs @ coordinates_of_rows (ac_about cx) (ap_edges page)"]
        obtain r where r: "coordinate_pages cx i after cs b = Some r"
          and result: "\<And>out b'. r = Inr (out, b') \<Longrightarrow> budget_ok (ac_limits cx) b'
            \<and> (case out of None \<Rightarrow> rb_stop b' \<noteq> None
               | Some cs' \<Rightarrow> rb_stop b' = rb_stop b1 \<and> cs' = cs @ coordinates_of_rows (ac_about cx) rest)
            \<and> unat (rb_scanned b1) \<le> unat (rb_scanned b')"
          unfolding eq q(3) coordinates_of_rows_append append_assoc by blast
        from more have "unat (rb_scanned b) \<le> unat (rb_scanned b1)" by simp
        then have "\<forall>out b'. r = Inr (out, b') \<longrightarrow> budget_ok (ac_limits cx) b'
            \<and> (case out of None \<Rightarrow> rb_stop b' \<noteq> None
               | Some cs' \<Rightarrow> rb_stop b' = rb_stop b \<and> cs' = cs @ coordinates_of_rows (ac_about cx) rest)
            \<and> unat (rb_scanned b) \<le> unat (rb_scanned b')"
        proof (intro allI impI, goal_cases)
          case (1 out b')
          from result [OF 1(2), unfolded granted(2)] 1(1) show ?case by simp
        qed
        with r show ?thesis by blast
      qed
    qed
  qed
qed

subsection \<open>What the stored graph admits\<close>

definition window_coordinates :: "admission_context \<Rightarrow> node_relation_projection list \<Rightarrow> string option \<Rightarrow> string
    \<Rightarrow> temporal_coordinate list" where
  "window_coordinates cx G at i =
     filter (window_admits_coordinate (read_window_new (ac_temporal cx) at)) (stored_coordinates (ac_about cx) G i)"

definition admissible :: "admission_context \<Rightarrow> (string \<Rightarrow> node_projection option) \<Rightarrow> node_relation_projection list
    \<Rightarrow> string option \<Rightarrow> string \<Rightarrow> bool" where
  "admissible cx nodes G at i \<longleftrightarrow> owned_entry (ac_about cx) (nodes i)
     \<and> ((is_frontier (ac_temporal cx) \<and> \<not> reads_coordinates (ac_dimensions cx))
        \<or> temporal_ok cx (window_coordinates cx G at i) \<and> dimensional_ok cx (window_coordinates cx G at i))"

definition admission_ok :: "admission_context \<Rightarrow> (string \<Rightarrow> node_projection option) \<Rightarrow> node_relation_projection list
    \<Rightarrow> admission \<Rightarrow> bool" where
  "admission_ok cx nodes G ad \<longleftrightarrow> budget_ok (ac_limits cx) (ad_budget ad)
     \<and> bmap_ok (ad_owned ad) \<and> bmap_ok (ad_coordinates ad) \<and> bmap_ok (ad_admitted ad)
     \<and> (\<forall>i owned. bmap_get (ad_owned ad) i = Some owned \<longrightarrow> owned = owned_entry (ac_about cx) (nodes i))
     \<and> (\<forall>i cs. bmap_get (ad_coordinates ad) i = Some cs \<longrightarrow> cs = stored_coordinates (ac_about cx) G i)
     \<and> (\<forall>i a. bmap_get (ad_admitted ad) i = Some a \<longrightarrow> a = admissible cx nodes G (ad_resolved_as_of ad) i)"

lemma admission_new_ok [simp]: "admission_ok cx nodes G (admission_new cx)"
  by (simp add: admission_ok_def admission_new_def bmap_get_def)

text \<open>How a step of admission may change its state.\<close>

definition charged :: "admission \<Rightarrow> admission \<Rightarrow> bool" where
  "charged ad ad' \<longleftrightarrow> unat (rb_scanned (ad_budget ad)) \<le> unat (rb_scanned (ad_budget ad'))
     \<and> ad_resolved_as_of ad' = ad_resolved_as_of ad"

lemma charged_refl [simp]: "charged ad ad"
  by (simp add: charged_def)

lemma charged_trans: "charged ad ad' \<Longrightarrow> charged ad' ad'' \<Longrightarrow> charged ad ad''"
  by (simp add: charged_def)

lemma is_owned_ok:
  assumes store: "snapshot_of (ac_reader cx) nodes G" and ok: "admission_ok cx nodes G ad"
    and r: "is_owned cx i ad = Inr (owned, ad')"
  shows "admission_ok cx nodes G ad' \<and> charged ad ad' \<and> ad_admitted ad' = ad_admitted ad
    \<and> (owned \<longrightarrow> owned_entry (ac_about cx) (nodes i))
    \<and> (rb_stop (ad_budget ad') = None \<longrightarrow> owned = owned_entry (ac_about cx) (nodes i) \<and> rb_stop (ad_budget ad) = None)"
proof (cases "bmap_get (ad_owned ad) i")
  case (Some o')
  then have "owned = o'" "ad' = ad" using r by (simp_all add: is_owned_def)
  with Some ok show ?thesis by (auto simp: admission_ok_def)
next
  case None
  then obtain node b where n: "budget_node (ac_reader cx) (ac_limits cx) i (ad_budget ad) = Inr (node, b)"
    and owned: "owned = owned_entry (ac_about cx) node"
    and ad': "ad' = (if rb_stop b = None then ad\<lparr>ad_budget := b, ad_owned := bmap_insert i owned (ad_owned ad)\<rparr> else ad\<lparr>ad_budget := b\<rparr>)"
    using r by (auto simp: is_owned_def try_bind_Inr_iff Let_def)
  have b_ok: "budget_ok (ac_limits cx) b" using ok by (intro budget_node_ok [OF n]) (simp add: admission_ok_def)
  have node: "node = None \<and> rb_stop b \<noteq> None \<or> node = nodes i \<and> rb_stop b = rb_stop (ad_budget ad)"
    and scanned: "rb_scanned b = rb_scanned (ad_budget ad)"
    using n store by (auto simp: budget_node_def snapshot_of_def try_bind_Inr_iff split: if_splits)
  from node have owned': "rb_stop b = None \<Longrightarrow> owned = owned_entry (ac_about cx) (nodes i)"
    "owned \<Longrightarrow> owned_entry (ac_about cx) (nodes i)" by (auto simp: owned owned_entry_def)
  show ?thesis
    using ok b_ok owned' node scanned
    by (auto simp: ad' admission_ok_def charged_def bmap_get_insert split: if_splits)
qed

lemma load_coordinates_ok:
  assumes store: "snapshot_of (ac_reader cx) nodes G" and ok: "admission_ok cx nodes G ad"
  shows "\<exists>r. load_coordinates cx i ad = Some r \<and> (\<forall>loaded ad'. r = Inr (loaded, ad') \<longrightarrow>
      admission_ok cx nodes G ad' \<and> charged ad ad' \<and> ad_admitted ad' = ad_admitted ad
      \<and> (if loaded then coordinates_at ad' i = Some (stored_coordinates (ac_about cx) G i)
           \<and> rb_stop (ad_budget ad') = rb_stop (ad_budget ad)
         else rb_stop (ad_budget ad') \<noteq> None))"
proof (cases "bmap_get (ad_coordinates ad) i")
  case (Some cs)
  with ok have "cs = stored_coordinates (ac_about cx) G i" by (simp add: admission_ok_def)
  with Some ok show ?thesis by (simp add: load_coordinates_def coordinates_at_def)
next
  case None
  have b: "budget_ok (ac_limits cx) (ad_budget ad)" using ok by (simp add: admission_ok_def)
  have rows: "stored_rows G i Incoming (Some ''contains_entry'')
      = rows_after Incoming None (stored_rows G i Incoming (Some ''contains_entry''))" by (simp add: rows_after_def)
  obtain r where r: "coordinate_pages cx i None [] (ad_budget ad) = Some r"
    and result: "\<forall>out b'. r = Inr (out, b') \<longrightarrow> budget_ok (ac_limits cx) b'
      \<and> (case out of None \<Rightarrow> rb_stop b' \<noteq> None
         | Some cs' \<Rightarrow> rb_stop b' = rb_stop (ad_budget ad) \<and> cs' = stored_coordinates (ac_about cx) G i)
      \<and> unat (rb_scanned (ad_budget ad)) \<le> unat (rb_scanned b')"
    using coordinate_pages_stored [OF store rows b, of "[]"] unfolding append_Nil stored_coordinates_def [symmetric] by blast
  show ?thesis
  proof (cases r)
    case (Inl e)
    with None r show ?thesis by (simp add: load_coordinates_def)
  next
    case (Inr ob)
    obtain out b' where ob: "ob = (out, b')" by fastforce
    show ?thesis
    proof (cases out)
      case o': None
      with None r Inr ob result ok show ?thesis by (simp add: load_coordinates_def admission_ok_def charged_def)
    next
      case (Some cs)
      with None r Inr ob result ok show ?thesis
        by (auto simp: load_coordinates_def admission_ok_def charged_def coordinates_at_def bmap_get_insert)
    qed
  qed
qed

lemma admits_ok:
  assumes store: "snapshot_of (ac_reader cx) nodes G" and ok: "admission_ok cx nodes G ad"
  shows "\<exists>r. admits cx i ad = Some r \<and> (\<forall>a ad'. r = Inr (a, ad') \<longrightarrow>
      admission_ok cx nodes G ad' \<and> charged ad ad'
      \<and> (a \<longrightarrow> admissible cx nodes G (ad_resolved_as_of ad) i)
      \<and> (rb_stop (ad_budget ad') = None \<longrightarrow> a = admissible cx nodes G (ad_resolved_as_of ad) i
           \<and> rb_stop (ad_budget ad) = None))"
proof (cases "bmap_get (ad_admitted ad) i")
  case (Some a)
  with ok show ?thesis by (auto simp: admits_def admission_ok_def)
next
  case None
  show ?thesis
  proof (cases "is_owned cx i ad")
    case (Inl e)
    with None show ?thesis by (simp add: admits_def)
  next
    case (Inr oa)
    obtain owned ad1 where oa: "oa = (owned, ad1)" by fastforce
    note own = is_owned_ok [OF store ok Inr [unfolded oa]]
    show ?thesis
    proof (cases owned)
      case False
      with None Inr oa own show ?thesis by (auto simp: admits_def admissible_def)
    next
      case True
      show ?thesis
      proof (cases "is_frontier (ac_temporal cx) \<and> \<not> reads_coordinates (ac_dimensions cx)")
        case f: True
        with None Inr oa own True show ?thesis by (simp add: admits_def admissible_def)
      next
        case f: False
        obtain r where r: "load_coordinates cx i ad1 = Some r" and load: "\<forall>loaded ad'. r = Inr (loaded, ad') \<longrightarrow>
            admission_ok cx nodes G ad' \<and> charged ad1 ad' \<and> ad_admitted ad' = ad_admitted ad1
            \<and> (if loaded then coordinates_at ad' i = Some (stored_coordinates (ac_about cx) G i)
                 \<and> rb_stop (ad_budget ad') = rb_stop (ad_budget ad1)
               else rb_stop (ad_budget ad') \<noteq> None)"
          using load_coordinates_ok [OF store, of ad1 i] own by blast
        show ?thesis
        proof (cases r)
          case (Inl e)
          with None Inr oa True f r show ?thesis by (auto simp: admits_def)
        next
          case l: (Inr la)
          obtain loaded ad2 where la: "la = (loaded, ad2)" by fastforce
          show ?thesis
          proof (cases loaded)
            case nl: False
            with None Inr oa True f r l la load own charged_trans show ?thesis by (auto simp: admits_def)
          next
            case ld: True
            define cs where "cs = window_coordinates cx G (ad_resolved_as_of ad) i"
            have at: "ad_resolved_as_of ad2 = ad_resolved_as_of ad" "ad_resolved_as_of ad1 = ad_resolved_as_of ad"
              using own load l la by (auto simp: charged_def)
            have cs: "filter (window_admits_coordinate (window_of cx ad2)) (stored_coordinates (ac_about cx) G i) = cs"
              by (simp add: cs_def window_coordinates_def window_of_def at)
            define ad' where "ad' = ad2\<lparr>ad_routing := count_admission cx cs (ad_routing ad2),
                ad_preferred := bmap_insert i (preferred_ok cx cs) (ad_preferred ad2),
                ad_admitted := bmap_insert i (temporal_ok cx cs \<and> dimensional_ok cx cs) (ad_admitted ad2)\<rparr>"
            have result: "admits cx i ad = Some (Inr (temporal_ok cx cs \<and> dimensional_ok cx cs, ad'))"
              using None Inr oa True f r l la load ld by (auto simp: admits_def cs Let_def ad'_def)
            have adm: "admissible cx nodes G (ad_resolved_as_of ad) i = (temporal_ok cx cs \<and> dimensional_ok cx cs)"
              using own True f by (auto simp: admissible_def cs_def)
            have ok2: "admission_ok cx nodes G ad2" "charged ad1 ad2" "rb_stop (ad_budget ad2) = rb_stop (ad_budget ad1)"
              using load [rule_format, of True ad2] l la ld by simp_all
            have "admission_ok cx nodes G ad'"
              using ok2(1) adm at by (auto simp: ad'_def admission_ok_def bmap_get_insert)
            moreover have "charged ad2 ad'" by (simp add: ad'_def charged_def)
            moreover have "ad_budget ad' = ad_budget ad2" by (simp add: ad'_def)
            ultimately show ?thesis
              using result adm own ok2 charged_trans [of ad ad1 ad2] charged_trans [of ad ad2 ad'] by simp
          qed
        qed
      qed
    qed
  qed
qed

text \<open>The cut is resolved before anything is admitted.\<close>

lemma cut_admission_ok:
  "admission_ok cx nodes G ad \<Longrightarrow> ad_admitted ad = [] \<Longrightarrow> admission_ok cx nodes G (ad\<lparr>ad_resolved_as_of := at\<rparr>)"
  by (simp add: admission_ok_def bmap_get_def)

lemma resolve_cut_ok:
  assumes store: "snapshot_of (ac_reader cx) nodes G" and ok: "admission_ok cx nodes G ad" and none: "ad_admitted ad = []"
  shows "\<exists>r. resolve_cut cx ad = Some r \<and> (\<forall>resolved ad'. r = Inr (resolved, ad') \<longrightarrow>
      admission_ok cx nodes G ad' \<and> ad_admitted ad' = []
      \<and> (rb_stop (ad_budget ad') = None \<longrightarrow> resolved))"
proof (cases "\<exists>reference. selection_cursor (ac_temporal cx) = Some (CursorRef reference)")
  case False
  then show ?thesis using ok none cut_admission_ok [OF ok none]
    by (auto simp: resolve_cut_def split: option.splits temporal_cursor.splits)
next
  case True
  then obtain reference where c: "selection_cursor (ac_temporal cx) = Some (CursorRef reference)" by blast
  show ?thesis
  proof (cases "is_owned cx reference ad")
    case (Inl e)
    with c show ?thesis by (simp add: resolve_cut_def)
  next
    case (Inr oa)
    obtain owned ad1 where oa: "oa = (owned, ad1)" by fastforce
    note own = is_owned_ok [OF store ok Inr [unfolded oa]]
    show ?thesis
    proof (cases owned)
      case False
      with c Inr oa own none show ?thesis by (simp add: resolve_cut_def)
    next
      case o': True
      obtain r where r: "load_coordinates cx reference ad1 = Some r" and load: "\<forall>loaded ad'. r = Inr (loaded, ad') \<longrightarrow>
          admission_ok cx nodes G ad' \<and> charged ad1 ad' \<and> ad_admitted ad' = ad_admitted ad1
          \<and> (if loaded then coordinates_at ad' reference = Some (stored_coordinates (ac_about cx) G reference)
               \<and> rb_stop (ad_budget ad') = rb_stop (ad_budget ad1)
             else rb_stop (ad_budget ad') \<noteq> None)"
        using load_coordinates_ok [OF store, of ad1 reference] own by blast
      show ?thesis
      proof (cases r)
        case (Inl e)
        with c Inr oa o' r show ?thesis by (simp add: resolve_cut_def)
      next
        case l: (Inr la)
        obtain loaded ad2 where la: "la = (loaded, ad2)" by fastforce
        note ld = load [rule_format, OF l [unfolded la]]
        have ok2: "admission_ok cx nodes G ad2" "ad_admitted ad2 = []" using ld own none by simp_all
        show ?thesis
        proof (cases loaded)
          case False
          with c Inr oa o' r l la ld ok2 show ?thesis by (simp add: resolve_cut_def)
        next
          case True
          with c Inr oa o' r l la ld ok2 cut_admission_ok [OF ok2] show ?thesis
            by (cases "cut_of (axis_or_default (ac_temporal cx)) (stored_coordinates (ac_about cx) G reference)")
              (simp_all add: resolve_cut_def)
        qed
      qed
    qed
  qed
qed

end
