(* ===== verification/TraceRoutes.thy ===== *)
theory TraceRoutes
  imports TraceFrontier
begin

text \<open>
  The invariant of a trace frontier and the routes read back from it. Every path state is
  linked to its parent by an edge that was admitted, no path visits a node twice, a state in
  the queue exists, and the states found at a destination stand there, within its quota. A
  frontier with that invariant reads back, without a panic, routes that walk from the source to
  their destination over a table of distinct relations.
\<close>

subsection \<open>The invariant\<close>

definition index_ok :: "trace_frontier \<Rightarrow> bool" where
  "index_ok fr \<longleftrightarrow> bmap_ok (fr_edge_index fr) \<and> distinct (map edge_key (fr_edges fr))
     \<and> (\<forall>k i. bmap_get (fr_edge_index fr) k = Some i \<longleftrightarrow> i < length (fr_edges fr) \<and> edge_key (fr_edges fr ! i) = k)"

definition queue_ok :: "trace_search_request \<Rightarrow> trace_frontier \<Rightarrow> bool" where
  "queue_ok request fr \<longleftrightarrow> pending_ok (dp_preferred (sq_policy request) \<noteq> None) (fr_queue fr)
     \<and> set_mset (waiting (fr_queue fr)) \<subseteq> {..<length (fr_states fr)}
     \<and> (\<forall>i. count (waiting (fr_queue fr)) i \<le> 1)"

definition found_ok :: "trace_search_request \<Rightarrow> trace_frontier \<Rightarrow> bool" where
  "found_ok request fr \<longleftrightarrow> bmap_ok (fr_found fr)
     \<and> (\<forall>t ps. bmap_get (fr_found fr) t = Some ps \<longrightarrow>
          t \<in> set (sq_targets request) \<and> ps \<noteq> [] \<and> distinct ps \<and> length ps \<le> quota request t
          \<and> (\<forall>i \<in> set ps. i < length (fr_states fr) \<and> node_at (fr_states fr) i = t))
     \<and> (\<forall>i < length (fr_states fr). node_at (fr_states fr) i \<in> set (sq_targets request) \<longrightarrow>
          (\<exists>ps. bmap_get (fr_found fr) (node_at (fr_states fr) i) = Some ps
             \<and> (i \<in> set ps \<or> length ps = quota request (node_at (fr_states fr) i))))"

definition paths_ok :: "(string \<Rightarrow> string \<Rightarrow> bool) \<Rightarrow> trace_search_request \<Rightarrow> trace_frontier \<Rightarrow> bool" where
  "paths_ok L request fr \<longleftrightarrow> tree_ok (sq_from request) (fr_edges fr) (fr_states fr)
     \<and> (\<forall>i < length (fr_states fr). distinct (map (node_at (fr_states fr)) (trail (fr_states fr) i))
          \<and> successively L (map (node_at (fr_states fr)) (trail (fr_states fr) i)))
     \<and> (sq_paths_per_target request = 1 \<longrightarrow> distinct (map px_node (fr_states fr))
          \<and> set (fr_visited fr) = node_at (fr_states fr) ` {..<length (fr_states fr)})"

definition counts_ok :: "trace_search_request \<Rightarrow> trace_frontier \<Rightarrow> bool" where
  "counts_ok request fr \<longleftrightarrow> length (fr_states fr) \<le> fr_considered fr
     \<and> fr_considered fr \<le> unat (tl_states (sq_limits request))"

definition admitted_ok :: "(node_relation_projection \<Rightarrow> bool) \<Rightarrow> (string \<Rightarrow> bool) \<Rightarrow> trace_search_request
    \<Rightarrow> trace_frontier \<Rightarrow> bool" where
  "admitted_ok Q A request fr \<longleftrightarrow> (\<forall>e \<in> set (fr_edges fr). Q e)
     \<and> (\<forall>i < length (fr_states fr). A (node_at (fr_states fr) i)
          \<and> px_depth (fr_states fr ! i) \<le> unat (tl_depth (sq_limits request)))"

definition frontier_ok :: "(node_relation_projection \<Rightarrow> bool) \<Rightarrow> (string \<Rightarrow> string \<Rightarrow> bool) \<Rightarrow> (string \<Rightarrow> bool) \<Rightarrow> trace_search_request
    \<Rightarrow> trace_frontier \<Rightarrow> bool" where
  "frontier_ok Q L A request fr \<longleftrightarrow> index_ok fr \<and> queue_ok request fr \<and> found_ok request fr
     \<and> paths_ok L request fr \<and> counts_ok request fr \<and> admitted_ok Q A request fr"

text \<open>What a validated request gives the frontier.\<close>

definition request_bounds :: "trace_search_request \<Rightarrow> bool" where
  "request_bounds request \<longleftrightarrow> 1 \<le> unat (sq_paths_per_target request) \<and> unat (sq_paths_per_target request) \<le> 8
     \<and> 1 \<le> unat (tl_states (sq_limits request)) \<and> 1 \<le> unat (tl_depth (sq_limits request))
     \<and> sq_targets request \<noteq> [] \<and> length (sq_targets request) \<le> 8"

lemma quota_pos: "request_bounds request \<Longrightarrow> 1 \<le> quota request t \<and> quota request t \<le> 8"
  by (auto simp: request_bounds_def quota_def)

subsection \<open>States that are linked alike\<close>

definition links_of :: "path_state \<Rightarrow> string \<times> nat \<times> nat option \<times> nat option" where
  "links_of s = (px_node s, px_depth s, px_parent s, px_edge s)"

lemma same_links:
  assumes "map links_of ss = map links_of ss'"
  shows "length ss = length ss'"
    and "i < length ss \<Longrightarrow> px_node (ss ! i) = px_node (ss' ! i) \<and> px_depth (ss ! i) = px_depth (ss' ! i)
      \<and> px_parent (ss ! i) = px_parent (ss' ! i) \<and> px_edge (ss ! i) = px_edge (ss' ! i)"
proof -
  show len: "length ss = length ss'" using assms by (metis length_map)
  assume i: "i < length ss"
  have "links_of (ss ! i) = links_of (ss' ! i)"
    using arg_cong [OF assms, of "\<lambda>l. l ! i"] i len by simp
  then show "px_node (ss ! i) = px_node (ss' ! i) \<and> px_depth (ss ! i) = px_depth (ss' ! i)
      \<and> px_parent (ss ! i) = px_parent (ss' ! i) \<and> px_edge (ss ! i) = px_edge (ss' ! i)"
    by (simp add: links_of_def)
qed

lemma trail_cong:
  "(\<And>j. j \<le> i \<Longrightarrow> px_parent (ss ! j) = px_parent (ss' ! j)) \<Longrightarrow> trail ss i = trail ss' i"
proof (induction i rule: less_induct)
  case (less i)
  have "trail ss p = trail ss' p" if "p < i" for p using less that by simp
  with less.prems [of i] show ?case
    by (subst trail.simps, subst (2) trail.simps) (auto split: option.splits)
qed

lemma paths_ok_links:
  assumes "paths_ok L request fr" and "map links_of ss = map links_of (fr_states fr)"
  shows "paths_ok L request (fr\<lparr>fr_states := ss\<rparr>)"
proof -
  note l = same_links [OF assms(2)]
  have t: "trail ss i = trail (fr_states fr) i" if "i < length ss" for i
    using that l by (intro trail_cong) auto
  have "tree_ok (sq_from request) (fr_edges fr) ss"
    unfolding tree_ok_def
  proof (intro allI impI)
    fix i assume i: "i < length ss"
    then have "linked_state (sq_from request) (fr_edges fr) (fr_states fr) i"
      using assms(1) l(1) by (simp add: paths_ok_def tree_ok_def)
    then show "linked_state (sq_from request) (fr_edges fr) ss i"
      using l(2) [OF i] l(2) i by (auto simp: linked_state_def split: option.splits)
  qed
  moreover have "map (node_at ss) (trail ss i) = map (node_at (fr_states fr)) (trail (fr_states fr) i)" if "i < length ss" for i
  proof -
    have "node_at ss j = node_at (fr_states fr) j" if "j \<in> set (trail (fr_states fr) i)" for j
      using trail_le [OF that] \<open>i < length ss\<close> l(2) [of j] by simp
    then show ?thesis by (simp add: t [OF that])
  qed
  moreover have "node_at ss ` {..<length ss} = node_at (fr_states fr) ` {..<length (fr_states fr)}"
    using l by (auto simp: image_iff)
  moreover have "map px_node ss = map px_node (fr_states fr)"
    using l by (intro nth_equalityI) simp_all
  ultimately show ?thesis using assms(1) l(1) by (simp add: paths_ok_def)
qed

lemma frontier_ok_links:
  assumes ok: "frontier_ok Q L A request fr" and links: "map links_of ss = map links_of (fr_states fr)"
  shows "frontier_ok Q L A request (fr\<lparr>fr_states := ss\<rparr>)"
proof -
  note l = same_links [OF links]
  have "found_ok request (fr\<lparr>fr_states := ss\<rparr>)"
    using ok l unfolding frontier_ok_def found_ok_def by simp
  moreover have "admitted_ok Q A request (fr\<lparr>fr_states := ss\<rparr>)"
    using ok l unfolding frontier_ok_def admitted_ok_def by simp
  moreover have "paths_ok L request (fr\<lparr>fr_states := ss\<rparr>)"
    using ok by (intro paths_ok_links [OF _ links]) (simp add: frontier_ok_def)
  ultimately show ?thesis using ok l(1)
    by (simp add: frontier_ok_def index_ok_def queue_ok_def counts_ok_def)
qed

subsection \<open>The small steps\<close>

lemma begin_expansion_ok:
  assumes "frontier_ok Q L A request fr" and "index < length (fr_states fr)"
  shows "\<exists>fr'. begin_expansion index fr =
      Some (px_adjacency_offset (fr_states fr ! index), px_expansion_started (fr_states fr ! index), fr')
    \<and> frontier_ok Q L A request fr' \<and> map links_of (fr_states fr') = map links_of (fr_states fr)
    \<and> fr_queue fr' = fr_queue fr \<and> fr_considered fr' = fr_considered fr \<and> fr_stop fr' = fr_stop fr"
proof -
  let ?ss = "(fr_states fr)[index := (fr_states fr ! index)\<lparr>px_expansion_started := True\<rparr>]"
  have l: "map links_of ?ss = map links_of (fr_states fr)"
    using assms(2) by (simp add: map_update links_of_def) (metis links_of_def list_update_id map_update)
  from frontier_ok_links [OF assms(1) l] l assms(2) show ?thesis
    by (simp add: begin_expansion_def Let_def)
qed

lemma resume_ok:
  assumes "frontier_ok Q L A request fr" and "index < length (fr_states fr)" and "index \<notin># waiting (fr_queue fr)"
  shows "\<exists>fr'. resume index offset preferred fr = Some fr' \<and> frontier_ok Q L A request fr'
    \<and> map links_of (fr_states fr') = map links_of (fr_states fr)
    \<and> waiting (fr_queue fr') = add_mset index (waiting (fr_queue fr))
    \<and> fr_considered fr' = fr_considered fr \<and> fr_stop fr' = fr_stop fr"
proof -
  let ?ss = "(fr_states fr)[index := (fr_states fr ! index)\<lparr>px_adjacency_offset := offset\<rparr>]"
  have l: "map links_of ?ss = map links_of (fr_states fr)"
    using assms(2) by (simp add: map_update links_of_def) (metis links_of_def list_update_id map_update)
  note ok = frontier_ok_links [OF assms(1) l]
  have q: "pending_ok (dp_preferred (sq_policy request) \<noteq> None) (fr_queue fr)"
    using assms(1) by (simp add: frontier_ok_def queue_ok_def)
  let ?q = "pending_push index (px_depth (fr_states fr ! index) + 1) preferred (fr_queue fr)"
  have w: "waiting ?q = add_mset index (waiting (fr_queue fr))" by (rule waiting_push [OF assms(3)])
  have "frontier_ok Q L A request (fr\<lparr>fr_states := ?ss, fr_queue := ?q\<rparr>)"
    using ok w assms(2) assms(3) [unfolded not_in_iff] pending_push_ok [OF q]
    by (simp add: frontier_ok_def index_ok_def queue_ok_def found_ok_def paths_ok_def counts_ok_def admitted_ok_def)
  with l w assms(2) show ?thesis by (simp add: resume_def Let_def)
qed

lemma frontier_pop_ok:
  assumes "frontier_ok Q L A request fr"
  shows "\<exists>r fr'. frontier_pop fr = Some (r, fr') \<and> frontier_ok Q L A request fr'
    \<and> fr_states fr' = fr_states fr \<and> fr_edges fr' = fr_edges fr \<and> fr_found fr' = fr_found fr
    \<and> fr_considered fr' = fr_considered fr \<and> fr_stop fr' = fr_stop fr
    \<and> (case r of None \<Rightarrow> waiting (fr_queue fr) = {#} \<and> waiting (fr_queue fr') = {#}
       | Some (index, node, depth) \<Rightarrow> index < length (fr_states fr) \<and> node = node_at (fr_states fr) index
           \<and> depth = px_depth (fr_states fr ! index)
           \<and> waiting (fr_queue fr) = add_mset index (waiting (fr_queue fr')))"
proof -
  obtain r q where pop: "pending_pop (fr_queue fr) = (r, q)" by fastforce
  have q: "pending_ok (dp_preferred (sq_policy request) \<noteq> None) (fr_queue fr)"
    "set_mset (waiting (fr_queue fr)) \<subseteq> {..<length (fr_states fr)}" "\<forall>i. count (waiting (fr_queue fr)) i \<le> 1"
    using assms by (simp_all add: frontier_ok_def queue_ok_def)
  note w = pending_pop_waiting [OF q(1) pop]
  have "frontier_ok Q L A request (fr\<lparr>fr_queue := q\<rparr>)" if "set_mset (waiting q) \<subseteq> {..<length (fr_states fr)}"
    "\<forall>i. count (waiting q) i \<le> 1"
    using assms that w
    by (simp add: frontier_ok_def index_ok_def queue_ok_def found_ok_def paths_ok_def counts_ok_def admitted_ok_def)
  moreover have "\<forall>i. count (waiting q) i \<le> 1" if "waiting (fr_queue fr) = add_mset j (waiting q)" for j
  proof
    fix i show "count (waiting q) i \<le> 1" using q(3) [rule_format, of i] by (simp add: that split: if_splits)
  qed
  ultimately show ?thesis
    using pop w q(2,3) by (cases r) (auto simp: frontier_pop_def)
qed

subsection \<open>A new state\<close>

lemma index_okD:
  "index_ok fr \<Longrightarrow> bmap_get (fr_edge_index fr) k = Some i \<longleftrightarrow> i < length (fr_edges fr) \<and> edge_key (fr_edges fr ! i) = k"
  by (simp add: index_ok_def del: split_paired_All)

lemma intern_edge_ok:
  assumes "index_ok fr" and "intern_edge edge fr = (e, fr')"
  shows "index_ok fr' \<and> e < length (fr_edges fr') \<and> edge_key (fr_edges fr' ! e) = edge_key edge
    \<and> (\<exists>es. fr_edges fr' = fr_edges fr @ es \<and> set es \<subseteq> {edge})
    \<and> fr' = fr\<lparr>fr_edges := fr_edges fr', fr_edge_index := fr_edge_index fr'\<rparr>"
proof (cases "bmap_get (fr_edge_index fr) (edge_key edge)")
  case (Some i)
  then have "e = i" "fr' = fr" using assms(2) by (simp_all add: intern_edge_def)
  with Some assms(1) index_okD [OF assms(1)] show ?thesis by simp
next
  case None
  have new: "edge_key edge \<notin> set (map edge_key (fr_edges fr))"
  proof
    assume "edge_key edge \<in> set (map edge_key (fr_edges fr))"
    then obtain i where "i < length (fr_edges fr)" "edge_key (fr_edges fr ! i) = edge_key edge"
      by (auto simp: in_set_conv_nth)
    with None index_okD [OF assms(1), of "edge_key edge" i] show False by simp
  qed
  have "bmap_get (bmap_insert (edge_key edge) (length (fr_edges fr)) (fr_edge_index fr)) k = Some i \<longleftrightarrow>
      i < length (fr_edges fr @ [edge]) \<and> edge_key ((fr_edges fr @ [edge]) ! i) = k" for k i
  proof -
    have "bmap_ok (fr_edge_index fr)" using assms(1) by (simp add: index_ok_def)
    moreover have "edge_key (fr_edges fr ! i) \<noteq> edge_key edge" if "i < length (fr_edges fr)" for i
      using new nth_mem [OF that] by (metis image_eqI set_map)
    ultimately show ?thesis
      using index_okD [OF assms(1), of k i] by (auto simp: bmap_get_insert nth_append less_Suc_eq)
  qed
  moreover have "fr' = fr\<lparr>fr_edges := fr_edges fr @ [edge],
      fr_edge_index := bmap_insert (edge_key edge) (length (fr_edges fr)) (fr_edge_index fr)\<rparr>" "e = length (fr_edges fr)"
    using None assms(2) by (auto simp: intern_edge_def)
  ultimately show ?thesis using assms(1) new by (simp add: index_ok_def del: split_paired_All)
qed

lemma edge_key_incident:
  "edge_key e = edge_key f \<Longrightarrow> incident e n = incident f n \<and> neighbor_of e n = neighbor_of f n"
  by (simp add: edge_key_def incident_def neighbor_of_def)

lemma trail_append:
  "i < length ss \<Longrightarrow> trail (ss @ xs) i = trail ss i"
  by (rule trail_cong) (simp add: nth_append)

lemma linked_state_append:
  assumes "linked_state root edges states i" and "i < length states"
  shows "linked_state root (edges @ es) (states @ ss) i"
proof (cases "px_parent (states ! i)")
  case None
  with assms show ?thesis by (simp add: linked_state_def nth_append)
next
  case (Some p)
  then obtain e where "p < i" "e < length edges" "px_edge (states ! i) = Some e"
    "px_depth (states ! i) = Suc (px_depth (states ! p))" "incident (edges ! e) (node_at states p)"
    "node_at states i = neighbor_of (edges ! e) (node_at states p)"
    using assms(1) by (auto simp: linked_state_def)
  with Some assms(2) show ?thesis by (simp add: linked_state_def nth_append)
qed

definition child_state :: "string \<Rightarrow> path_state \<Rightarrow> bool \<Rightarrow> nat \<Rightarrow> nat \<Rightarrow> path_state" where
  "child_state node parent_state preferred parent e = \<lparr>px_node = node,
     px_preferred_nodes = px_preferred_nodes parent_state + of_bool preferred,
     px_adjacency_offset = 0, px_expansion_started = False, px_depth = px_depth parent_state + 1,
     px_parent = Some parent, px_edge = Some e\<rparr>"

text \<open>Appending a child keeps the tree, and no path visits a node twice.\<close>

lemma append_child_paths:
  fixes preferred :: bool
  assumes tree: "tree_ok root edges states" and p: "p < length states" and e: "e < length edges"
    and inc: "incident (edges ! e) (node_at states p)" and node: "node = neighbor_of (edges ! e) (node_at states p)"
    and simple: "\<forall>i < length states. distinct (map (node_at states) (trail states i))
      \<and> successively L (map (node_at states) (trail states i))"
    and new: "node \<notin> node_at states ` set (trail states p)" and link: "L (node_at states p) node"
  defines "states' \<equiv> states @ [child_state node (states ! p) preferred p e]"
  shows "tree_ok root edges states'"
    and "i < length states' \<Longrightarrow> distinct (map (node_at states') (trail states' i))
      \<and> successively L (map (node_at states') (trail states' i))"
proof -
  let ?n = "length states"
  have last: "linked_state root edges states' ?n"
    using p e inc node by (simp add: states'_def linked_state_def nth_append child_state_def)
  have old: "linked_state root edges states' i" if "i < ?n" for i
    using tree that linked_state_append [of root edges states i "[]"] by (simp add: tree_ok_def states'_def)
  show "tree_ok root edges states'"
    using old last by (auto simp: tree_ok_def states'_def less_Suc_eq)
  have at: "map (node_at states') (trail states' i) = map (node_at states) (trail states i)" if "i < ?n" for i
    using that trail_le by (fastforce simp: states'_def trail_append nth_append)
  have "px_parent (states' ! ?n) = Some p" by (simp add: states'_def child_state_def)
  then have t: "trail states' ?n = trail states' p @ [?n]" by (rule trail_step [OF last])
  assume i: "i < length states'"
  show "distinct (map (node_at states') (trail states' i)) \<and> successively L (map (node_at states') (trail states' i))"
  proof (cases "i = ?n")
    case True
    have n: "node_at states' ?n = node" by (simp add: states'_def child_state_def)
    have "set (map (node_at states') (trail states' p)) = node_at states ` set (trail states p)"
      using at [OF p] by (metis set_map)
    moreover have "distinct (map (node_at states') (trail states' p))" "successively L (map (node_at states') (trail states' p))"
      using simple p at [OF p] by simp_all
    moreover have "last (map (node_at states') (trail states' p)) = node_at states p" by (subst at [OF p]) (simp add: last_map)
    ultimately show ?thesis using new n True link unfolding True t map_append by (simp add: successively_append_iff)
  next
    case False
    then show ?thesis using i at [of i] simple by (simp add: states'_def)
  qed
qed

lemma record_target_sel [simp]:
  "fr_states (record_target request i fr) = fr_states fr" "fr_queue (record_target request i fr) = fr_queue fr"
  "fr_visited (record_target request i fr) = fr_visited fr" "fr_edges (record_target request i fr) = fr_edges fr"
  "fr_edge_index (record_target request i fr) = fr_edge_index fr"
  "fr_considered (record_target request i fr) = fr_considered fr"
  by (simp_all add: record_target_def Let_def)

lemma record_target_stop:
  "fr_stop (record_target request i fr) = fr_stop fr
   \<or> fr_stop (record_target request i fr) = Some TargetsReached \<and> all_found request (fr_found (record_target request i fr))"
  by (simp add: record_target_def Let_def)

lemma record_target_found:
  assumes ok: "found_ok request (fr\<lparr>fr_states := ss\<rparr>)" and states: "fr_states fr = ss @ [x]"
    and bounds: "request_bounds request"
  shows "found_ok request (record_target request (length ss) fr)"
proof (cases "px_node x \<in> set (sq_targets request)")
  case False
  then have "record_target request (length ss) fr = fr" by (simp add: record_target_def states)
  with ok False show ?thesis by (fastforce simp: found_ok_def states nth_append less_Suc_eq)
next
  case True
  let ?f = "push_path (quota request (px_node x)) (length ss)"
  have found: "fr_found (record_target request (length ss) fr) = bmap_update (px_node x) ?f (fr_found fr)"
    using True by (simp add: record_target_def states Let_def)
  have map_ok: "bmap_ok (fr_found fr)" using ok by (simp add: found_ok_def)
  have old: "t \<in> set (sq_targets request) \<and> ps \<noteq> [] \<and> distinct ps \<and> length ps \<le> quota request t
      \<and> (\<forall>i \<in> set ps. i < length ss \<and> node_at ss i = t)" if "bmap_get (fr_found fr) t = Some ps" for t ps
    using ok that by (simp add: found_ok_def)
  have q: "1 \<le> quota request (px_node x)" using quota_pos [OF bounds] by simp
  have new: "px_node x \<in> set (sq_targets request) \<and> ?f v \<noteq> [] \<and> distinct (?f v) \<and> length (?f v) \<le> quota request (px_node x)
      \<and> (\<forall>i \<in> set (?f v). i < length (ss @ [x]) \<and> node_at (ss @ [x]) i = px_node x)
      \<and> (length ss \<in> set (?f v) \<or> length (?f v) = quota request (px_node x))
      \<and> (\<forall>ps. v = Some ps \<longrightarrow> set ps \<subseteq> set (?f v) \<and> (length ps = quota request (px_node x) \<longrightarrow> ?f v = ps))"
    if v: "v = bmap_get (fr_found fr) (px_node x)" for v
  proof (cases v)
    case None
    with True q show ?thesis by (auto simp: push_path_def)
  next
    case (Some ps)
    from old [of "px_node x" ps] v Some have o': "ps \<noteq> []" "distinct ps" "length ps \<le> quota request (px_node x)"
      "\<forall>i \<in> set ps. i < length ss \<and> node_at ss i = px_node x" by auto
    then have "length ss \<notin> set ps" by auto
    with o' Some True show ?thesis by (auto simp: push_path_def nth_append)
  qed
  define v where "v = bmap_get (fr_found fr) (px_node x)"
  note n = new [OF v_def]
  have get: "bmap_get (bmap_update (px_node x) ?f (fr_found fr)) t = (if t = px_node x then Some (?f v) else bmap_get (fr_found fr) t)" for t
    by (simp add: bmap_get_update [OF map_ok] v_def)
  show ?thesis
    unfolding found_ok_def record_target_sel found states get
  proof (intro conjI allI impI)
    show "bmap_ok (bmap_update (px_node x) ?f (fr_found fr))" using map_ok by simp
  next
    fix t ps assume g: "(if t = px_node x then Some (?f v) else bmap_get (fr_found fr) t) = Some ps"
    have "t \<in> set (sq_targets request) \<and> ps \<noteq> [] \<and> distinct ps \<and> length ps \<le> quota request t
       \<and> (\<forall>i \<in> set ps. i < length (ss @ [x]) \<and> node_at (ss @ [x]) i = t)"
    proof (cases "t = px_node x")
      case True
      then have ps: "ps = ?f v" using g by simp
      from n show ?thesis unfolding ps True by (elim conjE) (intro conjI; assumption)
    next
      case False
      with g old [of t ps] show ?thesis by (auto simp: nth_append)
    qed
    then show "t \<in> set (sq_targets request)" "ps \<noteq> []" "distinct ps" "length ps \<le> quota request t"
      "\<forall>i \<in> set ps. i < length (ss @ [x]) \<and> node_at (ss @ [x]) i = t" by blast+
  next
    fix i assume i: "i < length (ss @ [x])" and t: "node_at (ss @ [x]) i \<in> set (sq_targets request)"
    show "\<exists>ps. (if node_at (ss @ [x]) i = px_node x then Some (?f v) else bmap_get (fr_found fr) (node_at (ss @ [x]) i)) = Some ps
        \<and> (i \<in> set ps \<or> length ps = quota request (node_at (ss @ [x]) i))"
    proof (cases "i = length ss")
      case True
      then show ?thesis using n by simp
    next
      case False
      then have i': "i < length ss" "node_at (ss @ [x]) i = node_at ss i" using i by (simp_all add: nth_append)
      have "\<forall>i < length ss. node_at ss i \<in> set (sq_targets request) \<longrightarrow>
          (\<exists>ps. bmap_get (fr_found fr) (node_at ss i) = Some ps \<and> (i \<in> set ps \<or> length ps = quota request (node_at ss i)))"
        using ok by (simp add: found_ok_def)
      then obtain ps where ps: "bmap_get (fr_found fr) (node_at ss i) = Some ps"
        "i \<in> set ps \<or> length ps = quota request (node_at ss i)"
        using i' t by metis
      show ?thesis
      proof (cases "node_at ss i = px_node x")
        case True
        then have "v = Some ps" using ps(1) by (simp add: v_def)
        moreover have "\<forall>ps. v = Some ps \<longrightarrow> set ps \<subseteq> set (?f v)
            \<and> (length ps = quota request (px_node x) \<longrightarrow> ?f v = ps)" using n by (elim conjE)
        ultimately have "i \<in> set (?f v) \<or> length (?f v) = quota request (px_node x)" using ps(2) True by auto
        then show ?thesis using True i'(2) by simp
      qed (use ps i'(2) in simp)
    qed
  qed
qed

lemma add_state_ok:
  assumes ok: "frontier_ok Q L A request fr" and bounds: "request_bounds request"
    and room: "length (fr_states fr) < fr_considered fr" "fr_considered fr \<le> unat (tl_states (sq_limits request))"
    and p: "p < length (fr_states fr)" "px_depth (fr_states fr ! p) < unat (tl_depth (sq_limits request))"
    and edge: "Q edge" "A neighbor" "incident edge (node_at (fr_states fr) p)" "neighbor = neighbor_of edge (node_at (fr_states fr) p)"
    and link: "L (node_at (fr_states fr) p) neighbor" and running: "fr_stop fr = None"
    and new: "neighbor \<notin> node_at (fr_states fr) ` set (trail (fr_states fr) p)"
    and visited: "sq_paths_per_target request = 1 \<Longrightarrow> set visited = insert neighbor (set (fr_visited fr)) \<and> neighbor \<notin> set (fr_visited fr)"
  shows "\<exists>fr'. add_state request p neighbor edge preferred (fr\<lparr>fr_visited := visited\<rparr>) = Some (fr_stop fr' = None, fr')
    \<and> frontier_ok Q L A request fr'
    \<and> (\<exists>x. fr_states fr' = fr_states fr @ [x] \<and> px_node x = neighbor \<and> px_adjacency_offset x = 0)
    \<and> fr_considered fr' = fr_considered fr
    \<and> waiting (fr_queue fr') = add_mset (length (fr_states fr)) (waiting (fr_queue fr))
    \<and> (fr_stop fr' = None \<or> fr_stop fr' = Some TargetsReached \<and> all_found request (fr_found fr'))"
proof -
  let ?n = "length (fr_states fr)" and ?fr0 = "fr\<lparr>fr_visited := visited\<rparr>"
  obtain e fr1 where i: "intern_edge edge ?fr0 = (e, fr1)" by fastforce
  have "index_ok ?fr0" using ok by (simp add: frontier_ok_def index_ok_def)
  from intern_edge_ok [OF this i] obtain es where fr1: "index_ok fr1" "e < length (fr_edges fr1)"
    "edge_key (fr_edges fr1 ! e) = edge_key edge" "fr_edges fr1 = fr_edges fr @ es" "set es \<subseteq> {edge}"
    "fr1 = ?fr0\<lparr>fr_edges := fr_edges fr1, fr_edge_index := fr_edge_index fr1\<rparr>" by auto
  have same: "fr_states fr1 = fr_states fr" "fr_queue fr1 = fr_queue fr" "fr_visited fr1 = visited"
    "fr_found fr1 = fr_found fr" "fr_considered fr1 = fr_considered fr" "fr_stop fr1 = fr_stop fr"
    by (subst fr1(6), simp)+
  define x where "x = child_state neighbor (fr_states fr ! p) preferred p e"
  define fr2 where "fr2 = fr1\<lparr>fr_states := fr_states fr @ [x],
     fr_queue := pending_push ?n (px_depth (fr_states fr ! p) + 1) preferred (fr_queue fr)\<rparr>"
  define fr' where "fr' = record_target request ?n fr2"
  have result: "add_state request p neighbor edge preferred ?fr0 = Some (fr_stop fr' = None, fr')"
    using i p(1) by (simp add: add_state_def same Let_def x_def child_state_def fr'_def fr2_def)
  have tree: "tree_ok (sq_from request) (fr_edges fr1) (fr_states fr)"
    using ok fr1(4) linked_state_append [of "sq_from request" "fr_edges fr" "fr_states fr" _ es "[]"]
    by (simp add: frontier_ok_def paths_ok_def tree_ok_def)
  have inc: "incident (fr_edges fr1 ! e) (node_at (fr_states fr) p)"
    "neighbor = neighbor_of (fr_edges fr1 ! e) (node_at (fr_states fr) p)"
    using edge(3,4) edge_key_incident [OF fr1(3)] by simp_all
  have simple: "\<forall>i < ?n. distinct (map (node_at (fr_states fr)) (trail (fr_states fr) i))
      \<and> successively L (map (node_at (fr_states fr)) (trail (fr_states fr) i))"
    using ok by (simp add: frontier_ok_def paths_ok_def)
  note child = append_child_paths [OF tree p(1) fr1(2) inc simple new link, where preferred = preferred, folded x_def]
  have nodes: "node_at (fr_states fr @ [x]) ` {..<Suc ?n} = insert neighbor (node_at (fr_states fr) ` {..<?n})"
    by (auto simp: nth_append x_def child_state_def lessThan_Suc image_iff)
  have distinct: "distinct (map px_node (fr_states fr @ [x]))" if "sq_paths_per_target request = 1"
  proof -
    have "distinct (map px_node (fr_states fr))" "set (fr_visited fr) = node_at (fr_states fr) ` {..<?n}"
      using ok that by (simp_all add: frontier_ok_def paths_ok_def)
    moreover have "px_node ` set (fr_states fr) = node_at (fr_states fr) ` {..<?n}"
      by (force simp: in_set_conv_nth image_iff)
    ultimately show ?thesis using visited [OF that] by (simp add: x_def child_state_def)
  qed
  have paths: "paths_ok L request fr'"
    using child ok visited nodes distinct by (simp add: paths_ok_def fr'_def fr2_def same frontier_ok_def)
  have w: "waiting (fr_queue fr') = add_mset ?n (waiting (fr_queue fr))"
    using ok by (auto simp: fr'_def fr2_def frontier_ok_def queue_ok_def intro!: waiting_push)
  have queue: "queue_ok request fr'"
  proof -
    have "set_mset (waiting (fr_queue fr')) \<subseteq> {..<length (fr_states fr')}"
      using ok unfolding w by (auto simp: fr'_def fr2_def frontier_ok_def queue_ok_def)
    moreover have "?n \<notin># waiting (fr_queue fr)" "\<forall>i. count (waiting (fr_queue fr)) i \<le> 1"
      using ok by (auto simp: frontier_ok_def queue_ok_def)
    then have "\<forall>i. count (waiting (fr_queue fr')) i \<le> 1" unfolding w by (simp add: not_in_iff)
    ultimately show ?thesis
      using ok by (simp add: queue_ok_def fr'_def fr2_def pending_push_ok frontier_ok_def)
  qed
  have "found_ok request (fr2\<lparr>fr_states := fr_states fr\<rparr>)"
    using ok by (simp add: frontier_ok_def found_ok_def fr2_def same)
  from record_target_found [OF this _ bounds, of x] have found: "found_ok request fr'"
    by (simp add: fr2_def fr'_def)
  have admits: "admitted_ok Q A request fr'"
    using ok edge(1,2) p fr1(4,5)
    by (auto simp: frontier_ok_def admitted_ok_def fr'_def fr2_def nth_append x_def child_state_def less_Suc_eq)
  have "frontier_ok Q L A request fr'"
    using paths queue found admits fr1(1) room
    by (simp add: frontier_ok_def index_ok_def counts_ok_def fr'_def fr2_def same)
  then show ?thesis
    using result w record_target_stop [of request ?n fr2] running
    by (intro exI [of _ fr']) (auto simp: fr'_def fr2_def same x_def child_state_def)
qed

subsection \<open>Extending a path\<close>

lemma frontier_considered:
  assumes "frontier_ok Q L A request fr" and "n = Suc (fr_considered fr)" and "n \<le> unat (tl_states (sq_limits request))"
  shows "frontier_ok Q L A request (fr\<lparr>fr_considered := n\<rparr>)"
  using assms by (simp add: frontier_ok_def index_ok_def queue_ok_def found_ok_def paths_ok_def counts_ok_def admitted_ok_def)

lemma frontier_stop [simp]:
  "frontier_ok Q L A request (fr\<lparr>fr_stop := s\<rparr>) = frontier_ok Q L A request fr"
  by (simp add: frontier_ok_def index_ok_def queue_ok_def found_ok_def paths_ok_def counts_ok_def admitted_ok_def)

lemma trail_in_states:
  "i < length states \<Longrightarrow> node_at states ` set (trail states i) \<subseteq> node_at states ` {..<length states}"
  using trail_le by fastforce

definition stop_ok :: "trace_search_request \<Rightarrow> trace_frontier \<Rightarrow> bool" where
  "stop_ok request fr \<longleftrightarrow> fr_stop fr \<in> {None, Some StateBudget}
     \<or> fr_stop fr = Some TargetsReached \<and> all_found request (fr_found fr)"

lemma extend_ok:
  assumes ok: "frontier_ok Q L A request fr" and bounds: "request_bounds request"
    and p: "p < length (fr_states fr)" "px_depth (fr_states fr ! p) < unat (tl_depth (sq_limits request))"
    and edge: "Q edge" "A neighbor" "incident edge (node_at (fr_states fr) p)" "neighbor = neighbor_of edge (node_at (fr_states fr) p)"
    and link: "L (node_at (fr_states fr) p) neighbor" and running: "fr_stop fr = None"
  shows "\<exists>go fr'. frontier_extend request p neighbor edge preferred fr = Some (go, fr') \<and> frontier_ok Q L A request fr'
    \<and> (\<exists>xs. fr_states fr' = fr_states fr @ xs \<and> (\<forall>x \<in> set xs. px_adjacency_offset x = 0)
         \<and> waiting (fr_queue fr') = waiting (fr_queue fr) + mset [length (fr_states fr)..<length (fr_states fr @ xs)]
         \<and> fr_considered fr + length xs \<le> fr_considered fr')
    \<and> go = (fr_stop fr' = None) \<and> stop_ok request fr'
    \<and> (go \<longrightarrow> fr_considered fr' = Suc (fr_considered fr)
         \<and> (\<exists>i < length (fr_states fr'). node_at (fr_states fr') i = neighbor))"
proof (cases "fr_considered fr = unat (tl_states (sq_limits request))")
  case True
  then have "frontier_extend request p neighbor edge preferred fr = Some (False, fr\<lparr>fr_stop := Some StateBudget\<rparr>)"
    by (simp add: frontier_extend_def)
  with ok show ?thesis
    by (intro exI [of _ False] exI [of _ "fr\<lparr>fr_stop := Some StateBudget\<rparr>"]) (simp add: stop_ok_def)
next
  case False
  let ?fr = "fr\<lparr>fr_considered := fr_considered fr + 1\<rparr>"
  have room: "Suc (fr_considered fr) \<le> unat (tl_states (sq_limits request))"
    using ok False by (simp add: frontier_ok_def counts_ok_def)
  have ok1: "frontier_ok Q L A request ?fr" using frontier_considered [OF ok _ room] by simp
  have len: "length (fr_states ?fr) < fr_considered ?fr" using ok by (simp add: frontier_ok_def counts_ok_def)
  have paths: "paths_ok L request fr" using ok by (simp add: frontier_ok_def)
  note add = add_state_ok [OF ok1 bounds len, simplified, OF room p edge(1,2) edge(3,4) [simplified] link running, where preferred = preferred]
  have added: ?thesis
    if new: "neighbor \<notin> node_at (fr_states fr) ` set (trail (fr_states fr) p)"
      and visited: "sq_paths_per_target request = 1 \<Longrightarrow> set v = insert neighbor (set (fr_visited fr)) \<and> neighbor \<notin> set (fr_visited fr)"
      and ext: "frontier_extend request p neighbor edge preferred fr = add_state request p neighbor edge preferred (?fr\<lparr>fr_visited := v\<rparr>)" for v
  proof -
    from add [OF new visited] obtain fr' x where r: "add_state request p neighbor edge preferred (?fr\<lparr>fr_visited := v\<rparr>) = Some (fr_stop fr' = None, fr')"
      "frontier_ok Q L A request fr'" "fr_states fr' = fr_states fr @ [x]" "px_node x = neighbor" "px_adjacency_offset x = 0"
      "fr_stop fr' = None \<or> fr_stop fr' = Some TargetsReached \<and> all_found request (fr_found fr')"
      "fr_considered fr' = Suc (fr_considered fr)" "waiting (fr_queue fr') = add_mset (length (fr_states fr)) (waiting (fr_queue fr))"
      by auto
    then show ?thesis
      unfolding ext
      by (intro exI [of _ "fr_stop fr' = None"] exI [of _ fr'])
        (auto simp: stop_ok_def intro!: exI [of _ "[x]"] exI [of _ "length (fr_states fr)"])
  qed
  have skipped: ?thesis
    if "frontier_extend request p neighbor edge preferred fr = Some (True, ?fr)"
      and "\<exists>i < length (fr_states fr). node_at (fr_states fr) i = neighbor"
    using that ok1 running by (intro exI [of _ True] exI [of _ ?fr]) (auto simp: stop_ok_def)
  show ?thesis
  proof (cases "sq_paths_per_target request = 1")
    case one: True
    then have vis: "set (fr_visited fr) = node_at (fr_states fr) ` {..<length (fr_states fr)}"
      using paths by (simp add: paths_ok_def)
    show ?thesis
    proof (cases "neighbor \<in> set (fr_visited fr)")
      case True
      with one False have "frontier_extend request p neighbor edge preferred fr = Some (True, ?fr)" by (simp add: frontier_extend_def)
      then show ?thesis using skipped True vis by auto
    next
      case new: False
      have "neighbor \<notin> node_at (fr_states fr) ` set (trail (fr_states fr) p)"
        using new vis trail_in_states [OF p(1)] by auto
      then show ?thesis using added [of "bset_insert neighbor (fr_visited fr)"] one new False
        by (simp add: frontier_extend_def)
    qed
  next
    case many: False
    have anc: "is_ancestor (fr_states fr) neighbor p = Some (neighbor \<in> node_at (fr_states fr) ` set (trail (fr_states fr) p))"
      using paths p(1) by (intro is_ancestor_trail) (auto simp: paths_ok_def)
    show ?thesis
    proof (cases "neighbor \<in> node_at (fr_states fr) ` set (trail (fr_states fr) p)")
      case True
      with anc many False have "frontier_extend request p neighbor edge preferred fr = Some (True, ?fr)" by (simp add: frontier_extend_def)
      moreover have "\<exists>i < length (fr_states fr). node_at (fr_states fr) i = neighbor"
        using subsetD [OF trail_in_states [OF p(1)] True] by (auto simp: image_iff)
      ultimately show ?thesis by (rule skipped)
    next
      case new: False
      then show ?thesis using added [of "fr_visited fr"] anc many False by (simp add: frontier_extend_def)
    qed
  qed
qed

subsection \<open>Reading the routes back\<close>

definition table_ok :: "node_relation_projection list \<Rightarrow> route_table \<Rightarrow> bool" where
  "table_ok edges t \<longleftrightarrow> bmap_ok (tb_selected t)
     \<and> (\<exists>es. distinct es \<and> set es \<subseteq> {..<length edges} \<and> tb_relations t = map ((!) edges) es
        \<and> (\<forall>e i. bmap_get (tb_selected t) e = Some i \<longleftrightarrow> i < length es \<and> es ! i = e))"

lemma place_edge_ok:
  assumes ok: "table_ok edges t" and e: "e < length edges"
  shows "\<exists>i t'. place_edge edges e t = Some (i, t') \<and> table_ok edges t' \<and> i < length (tb_relations t')
    \<and> tb_relations t' ! i = edges ! e \<and> (\<exists>xs. tb_relations t' = tb_relations t @ xs)
    \<and> tb_routes t' = tb_routes t \<and> tb_preferred t' = tb_preferred t"
proof -
  obtain es where es: "distinct es" "set es \<subseteq> {..<length edges}" "tb_relations t = map ((!) edges) es"
    "\<And>e i. bmap_get (tb_selected t) e = Some i \<longleftrightarrow> i < length es \<and> es ! i = e"
    and m: "bmap_ok (tb_selected t)" using ok unfolding table_ok_def by blast
  show ?thesis
  proof (cases "bmap_get (tb_selected t) e")
    case (Some i)
    then have p: "place_edge edges e t = Some (i, t)" by (simp add: place_edge_def)
    have "i < length es" "es ! i = e" using Some es(4) by auto
    with p ok es(3) show ?thesis by auto
  next
    case None
    have new: "e \<notin> set es"
    proof
      assume "e \<in> set es"
      then obtain i where "i < length es" "es ! i = e" by (auto simp: in_set_conv_nth)
      with es(4) [of e i] None show False by simp
    qed
    let ?t = "t\<lparr>tb_selected := bmap_insert e (length (tb_relations t)) (tb_selected t), tb_relations := tb_relations t @ [edges ! e]\<rparr>"
    have get: "bmap_get (tb_selected ?t) f = Some i \<longleftrightarrow> i < length (es @ [e]) \<and> (es @ [e]) ! i = f" for f i
    proof -
      have "es ! i \<noteq> e" if "i < length es" using new nth_mem [OF that] by metis
      then show ?thesis using es(3,4) by (auto simp: bmap_get_insert [OF m] nth_append less_Suc_eq)
    qed
    have "table_ok edges ?t"
      unfolding table_ok_def using get es new e m by (intro conjI exI [of _ "es @ [e]"]) auto
    then show ?thesis using None e by (simp add: place_edge_def)
  qed
qed

definition placed_as :: "node_relation_projection list \<Rightarrow> node_relation_projection list \<Rightarrow> nat \<Rightarrow> nat \<Rightarrow> bool" where
  "placed_as relations edges i e \<longleftrightarrow> i < length relations \<and> e < length edges \<and> relations ! i = edges ! e"

lemma placed_as_append: "placed_as relations edges i e \<Longrightarrow> placed_as (relations @ xs) edges i e"
  by (simp add: placed_as_def nth_append)

lemma place_edges_ok:
  assumes "table_ok edges t" and "\<forall>e \<in> set es. e < length edges"
  shows "\<exists>ixs t'. place_edges edges es t = Some (ixs, t') \<and> table_ok edges t'
    \<and> list_all2 (placed_as (tb_relations t') edges) ixs es \<and> (\<exists>xs. tb_relations t' = tb_relations t @ xs)
    \<and> tb_routes t' = tb_routes t \<and> tb_preferred t' = tb_preferred t"
  using assms
proof (induction es arbitrary: t)
  case (Cons e es)
  obtain i t1 where t1: "place_edge edges e t = Some (i, t1)" "table_ok edges t1" "i < length (tb_relations t1)"
    "tb_relations t1 ! i = edges ! e" "\<exists>xs. tb_relations t1 = tb_relations t @ xs"
    "tb_routes t1 = tb_routes t" "tb_preferred t1 = tb_preferred t"
    using place_edge_ok [OF Cons.prems(1), of e] Cons.prems(2) by auto
  obtain ixs t2 where t2: "place_edges edges es t1 = Some (ixs, t2)" "table_ok edges t2"
    "list_all2 (placed_as (tb_relations t2) edges) ixs es" "\<exists>xs. tb_relations t2 = tb_relations t1 @ xs"
    "tb_routes t2 = tb_routes t1" "tb_preferred t2 = tb_preferred t1"
    using Cons.IH [OF t1(2)] Cons.prems(2) by auto
  have "placed_as (tb_relations t2) edges i e"
    using t1(3,4) t2(4) Cons.prems(2) by (auto simp: placed_as_def nth_append)
  then show ?case using t1 t2 by auto
qed simp

lemma walk_nodes_placed:
  "list_all2 (placed_as relations edges) ixs es \<Longrightarrow> walk_nodes relations a ixs = walk_nodes edges a es"
  by (induction arbitrary: a rule: list_all2_induct) (auto simp: placed_as_def)

lemma walk_nodes_append:
  "walk_nodes relations a es = Some ns \<Longrightarrow> walk_nodes (relations @ xs) a es = Some ns"
  by (induction relations a es arbitrary: ns rule: walk_nodes.induct) (auto simp: nth_append split: if_splits)

text \<open>A route that stands for a state of the frontier.\<close>

definition reads_state :: "trace_search_request \<Rightarrow> trace_frontier \<Rightarrow> node_relation_projection list \<Rightarrow> string \<times> nat
    \<Rightarrow> trace_route \<Rightarrow> bool" where
  "reads_state request fr relations found route \<longleftrightarrow> ro_target route = fst found
     \<and> walk_nodes relations (sq_from request) (ro_edge_indexes route)
         = Some (map (node_at (fr_states fr)) (trail (fr_states fr) (snd found)))
     \<and> length (ro_edge_indexes route) = px_depth (fr_states fr ! snd found)"

lemma add_route_ok:
  assumes tree: "tree_ok (sq_from request) (fr_edges fr) (fr_states fr)" and tip: "tip < length (fr_states fr)"
    and t: "table_ok (fr_edges fr) t"
  shows "\<exists>t' route. add_route fr target tip t = Some t' \<and> table_ok (fr_edges fr) t'
    \<and> (\<exists>xs. tb_relations t' = tb_relations t @ xs) \<and> tb_routes t' = tb_routes t @ [route]
    \<and> tb_preferred t' = tb_preferred t @ [px_preferred_nodes (fr_states fr ! tip)]
    \<and> reads_state request fr (tb_relations t') (target, tip) route"
proof -
  let ?es = "trail_edges (fr_states fr) tip"
  have walk: "walk_nodes (fr_edges fr) (sq_from request) ?es = Some (map (node_at (fr_states fr)) (trail (fr_states fr) tip))"
    by (rule trail_walk [OF tree tip])
  have bound: "\<forall>e \<in> set es. e < length relations" if "walk_nodes relations a es = Some ns" for relations a es ns
    using that by (induction relations a es arbitrary: ns rule: walk_nodes.induct) (auto split: if_splits)
  obtain ixs t1 where t1: "place_edges (fr_edges fr) ?es t = Some (ixs, t1)" "table_ok (fr_edges fr) t1"
    "list_all2 (placed_as (tb_relations t1) (fr_edges fr)) ixs ?es" "\<exists>xs. tb_relations t1 = tb_relations t @ xs"
    "tb_routes t1 = tb_routes t" "tb_preferred t1 = tb_preferred t"
    using place_edges_ok [OF t bound [OF walk]] by auto
  have "reads_state request fr (tb_relations t1) (target, tip) \<lparr>ro_target = target, ro_edge_indexes = ixs\<rparr>"
    using walk walk_nodes_placed [OF t1(3)] list_all2_lengthD [OF t1(3)] trail_depth [OF tree tip]
    by (simp add: reads_state_def)
  moreover have "add_route fr target tip t =
      Some (t1\<lparr>tb_preferred := tb_preferred t1 @ [px_preferred_nodes (fr_states fr ! tip)],
        tb_routes := tb_routes t1 @ [\<lparr>ro_target = target, ro_edge_indexes = ixs\<rparr>]\<rparr>)"
    using edges_back_trail [OF tree tip, of "[]"] t1(1) by (simp add: add_route_def)
  ultimately show ?thesis using t1 by (auto simp: table_ok_def)
qed

lemma reads_state_append:
  "reads_state request fr relations found route \<Longrightarrow> reads_state request fr (relations @ xs) found route"
  by (simp add: reads_state_def walk_nodes_append)

lemma add_routes_ok:
  assumes tree: "tree_ok (sq_from request) (fr_edges fr) (fr_states fr)"
    and "\<forall>(target, tip) \<in> set found. tip < length (fr_states fr)" and "table_ok (fr_edges fr) t"
  shows "\<exists>t' routes. add_routes fr found t = Some t' \<and> table_ok (fr_edges fr) t'
    \<and> (\<exists>xs. tb_relations t' = tb_relations t @ xs) \<and> tb_routes t' = tb_routes t @ routes
    \<and> list_all2 (reads_state request fr (tb_relations t')) found routes"
  using assms(2,3)
proof (induction found arbitrary: t)
  case (Cons f found)
  obtain target tip where f: "f = (target, tip)" by fastforce
  then obtain t1 route where t1: "add_route fr target tip t = Some t1" "table_ok (fr_edges fr) t1"
    "\<exists>xs. tb_relations t1 = tb_relations t @ xs" "tb_routes t1 = tb_routes t @ [route]"
    "reads_state request fr (tb_relations t1) (target, tip) route"
    using add_route_ok [OF tree _ Cons.prems(2), of tip target] Cons.prems(1) by auto
  obtain t2 routes where t2: "add_routes fr found t1 = Some t2" "table_ok (fr_edges fr) t2"
    "\<exists>xs. tb_relations t2 = tb_relations t1 @ xs" "tb_routes t2 = tb_routes t1 @ routes"
    "list_all2 (reads_state request fr (tb_relations t2)) found routes"
    using Cons.IH [OF _ t1(2)] Cons.prems(1) by auto
  have "reads_state request fr (tb_relations t2) (target, tip) route"
    using t1(5) t2(3) reads_state_append by auto
  then show ?case using f t1 t2 by (intro exI [of _ t2] exI [of _ "route # routes"]) auto
qed simp

lemma found_states_iff:
  "bmap_ok (fr_found fr) \<Longrightarrow> (t, i) \<in> set (found_states fr) \<longleftrightarrow> (\<exists>ps. bmap_get (fr_found fr) t = Some ps \<and> i \<in> set ps)"
  by (force simp: found_states_def bmap_entry_get [symmetric])

text \<open>The answer of a frontier that keeps its invariant.\<close>

lemma frontier_routes_ok:
  assumes "frontier_ok Q L A request fr"
  shows "\<exists>t. frontier_routes fr = Some t \<and> distinct (map edge_key (tb_relations t))
    \<and> set (tb_relations t) \<subseteq> set (fr_edges fr)
    \<and> list_all2 (reads_state request fr (tb_relations t)) (found_states fr) (tb_routes t)"
proof -
  have tree: "tree_ok (sq_from request) (fr_edges fr) (fr_states fr)" and found: "found_ok request fr" and index: "index_ok fr"
    using assms by (simp_all add: frontier_ok_def paths_ok_def)
  have "table_ok (fr_edges fr) \<lparr>tb_selected = [], tb_relations = [], tb_routes = [], tb_preferred = []\<rparr>"
    by (simp add: table_ok_def bmap_get_def)
  moreover have "\<forall>(target, tip) \<in> set (found_states fr). tip < length (fr_states fr)"
    using found found_states_iff [of fr] by (fastforce simp: found_ok_def)
  ultimately obtain t where t: "frontier_routes fr = Some t" "table_ok (fr_edges fr) t"
    "list_all2 (reads_state request fr (tb_relations t)) (found_states fr) (tb_routes t)"
    using add_routes_ok [OF tree] unfolding frontier_routes_def by (metis append_Nil route_table.select_convs(3))
  obtain es where es: "distinct es" "set es \<subseteq> {..<length (fr_edges fr)}" "tb_relations t = map ((!) (fr_edges fr)) es"
    using t(2) unfolding table_ok_def by blast
  have "inj_on (\<lambda>i. edge_key (fr_edges fr ! i)) (set es)"
  proof (rule inj_onI)
    fix i j assume ij: "i \<in> set es" "j \<in> set es" "edge_key (fr_edges fr ! i) = edge_key (fr_edges fr ! j)"
    then have "i < length (fr_edges fr)" "j < length (fr_edges fr)" using es(2) by auto
    with ij(3) index show "i = j"
      using nth_eq_iff_index_eq [of "map edge_key (fr_edges fr)" i j] by (simp add: index_ok_def)
  qed
  then have "distinct (map edge_key (tb_relations t))" using es by (simp add: distinct_map o_def)
  then show ?thesis using t es by auto
qed

end
