(* ===== verification/TraceVisit.thy ===== *)
theory TraceVisit
  imports TraceSearch TraceStore TraceRoutes
begin

text \<open>
  One visit of a path state in a bounded trace search over a stored graph: the adjacency stream
  of a node reads every row of its moves once, every turn reads a row or ends a move, so that
  a visit ends, and it keeps the frontier's invariant while it offers the eligible links to
  admissible entries.
\<close>

subsection \<open>The stream of a node\<close>

definition move_rows :: "node_relation_projection list \<Rightarrow> string \<Rightarrow> trace_move \<Rightarrow> node_relation_projection list" where
  "move_rows G node m = stored_rows G node (fst m) (snd m)"

definition all_rows :: "node_relation_projection list \<Rightarrow> trace_move list \<Rightarrow> string \<Rightarrow> node_relation_projection list" where
  "all_rows G moves node = concat (map (move_rows G node) moves)"

definition rest_rows :: "node_relation_projection list \<Rightarrow> trace_move list \<Rightarrow> string \<Rightarrow> node_expansion
    \<Rightarrow> node_relation_projection list" where
  "rest_rows G moves node ex =
     (case drop (ne_move_index ex) moves of
        [] \<Rightarrow> []
      | m # ms \<Rightarrow> rows_after (fst m) (ne_after ex) (move_rows G node m) @ all_rows G ms node)"

definition expansion_ok :: "trace_move list \<Rightarrow> node_expansion \<Rightarrow> bool" where
  "expansion_ok moves ex \<longleftrightarrow> ne_move_index ex \<le> length moves \<and> (ne_complete ex \<longleftrightarrow> ne_move_index ex = length moves)
     \<and> (ne_complete ex \<longrightarrow> ne_after ex = None)"

text \<open>The type of a relation step is one the constructor of relation types gives.\<close>

definition typed_request :: "trace_search_request \<Rightarrow> bool" where
  "typed_request request \<longleftrightarrow> (\<forall>s \<in> set (sq_follow request). \<exists>v. relation_type_new v = Inr (rs_relation s))"

definition typed_move :: "trace_move \<Rightarrow> bool" where
  "typed_move m \<longleftrightarrow> (\<forall>kind. snd m = Some kind \<longrightarrow> (\<exists>r. relation_type_new kind = Inr r \<and> rt_canonical r = kind))"

lemma search_moves_typed: "typed_request request \<Longrightarrow> m \<in> set (search_moves request) \<Longrightarrow> typed_move m"
  using relation_type_new_canonical
  by (fastforce simp: search_moves_def typed_request_def typed_move_def Let_def split: if_splits)

lemma search_moves_not_Nil [simp]: "search_moves request \<noteq> []"
  by (simp add: search_moves_def Let_def)

lemma expansion_default_ok [simp]: "moves \<noteq> [] \<Longrightarrow> expansion_ok moves expansion_default"
  by (simp add: expansion_ok_def expansion_default_def)

lemma rest_rows_default [simp]: "rest_rows G moves node expansion_default = all_rows G moves node"
  by (cases moves) (simp_all add: rest_rows_def expansion_default_def all_rows_def rows_after_def)

lemma rest_rows_complete: "expansion_ok moves ex \<Longrightarrow> ne_complete ex \<Longrightarrow> rest_rows G moves node ex = []"
  by (simp add: expansion_ok_def rest_rows_def)

lemma move_rows_iff:
  "e \<in> set (move_rows G node m) \<longleftrightarrow>
     e \<in> set G \<and> row_start (fst m) e = node \<and> (snd m = None \<or> snd m = Some (nr_relation_type e))"
  by (simp add: move_rows_def stored_rows_iff)

lemma move_row_incident:
  "row_start direction e = node \<Longrightarrow> incident e node"
  by (cases direction) (auto simp: row_start_def incident_def)

lemma all_rows_incident: "e \<in> set (all_rows G moves node) \<Longrightarrow> e \<in> set G \<and> incident e node"
  by (auto simp: all_rows_def move_rows_iff intro: move_row_incident)

definition moves_left :: "trace_move list \<Rightarrow> node_expansion \<Rightarrow> nat" where
  "moves_left moves ex = length moves - ne_move_index ex"

text \<open>One page of the stream.\<close>

definition page_ok :: "node_relation_projection list \<Rightarrow> trace_search_limits \<Rightarrow> trace_move list \<Rightarrow> string \<Rightarrow> node_expansion
    \<Rightarrow> read_budget \<Rightarrow> node_relation_projection list option \<Rightarrow> node_expansion \<Rightarrow> read_budget \<Rightarrow> bool" where
  "page_ok G limits moves node ex b edges ex' b' \<longleftrightarrow> budget_ok limits b' \<and> ne_eligible ex' = ne_eligible ex
     \<and> (case edges of
          None \<Rightarrow> rb_stop b' \<noteq> None \<and> rb_scanned b' = rb_scanned b
        | Some es \<Rightarrow> expansion_ok moves ex' \<and> rest_rows G moves node ex = es @ rest_rows G moves node ex'
            \<and> rb_stop b' = rb_stop b \<and> unat (rb_scanned b') = unat (rb_scanned b) + length es
            \<and> ne_has_eligible ex' = ne_has_eligible ex
            \<and> moves_left moves ex' \<le> moves_left moves ex
            \<and> (es = [] \<longrightarrow> moves_left moves ex' < moves_left moves ex))"

lemma expansion_page_ok:
  assumes store: "snapshot_of reader nodes G" and typed: "\<forall>m \<in> set moves. typed_move m"
    and ok: "expansion_ok moves ex" "\<not> ne_complete ex" and budget: "budget_ok limits b" and rows: "0 < rows"
  shows "\<exists>r. expansion_page reader limits node moves rows ex b = Some r
    \<and> (\<forall>edges ex' b'. r = Inr (edges, ex', b') \<longrightarrow> page_ok G limits moves node ex b edges ex' b')"
proof -
  let ?i = "ne_move_index ex"
  have i: "?i < length moves" using ok by (simp add: expansion_ok_def)
  obtain direction relation_type where m: "moves ! ?i = (direction, relation_type)" by fastforce
  have d: "drop ?i moves = (direction, relation_type) # drop (Suc ?i) moves" using i m by (metis Cons_nth_drop_Suc)
  have typed_m: "typed_move (direction, relation_type)" using typed m i by (metis nth_mem)
  show ?thesis
  proof (cases "page_limited reader limits node direction (ne_after ex) relation_type rows b")
    case (Inl e)
    with i m show ?thesis by (simp add: expansion_page_def)
  next
    case (Inr pb)
    obtain p b1 where pb: "pb = (p, b1)" by fastforce
    show ?thesis
    proof (cases p)
      case None
      obtain s where s: "s \<in> {NodeBudget, EdgeBudget}" "b1 = b\<lparr>rb_stop := Some s\<rparr>"
        using page_limited_None [OF Inr [unfolded pb None]] by (elim exE conjE)
      have "budget_ok limits b1" using budget_stop_ok [OF budget s(1)] s(2) by simp
      with Inr pb None i m s(2) show ?thesis by (simp add: expansion_page_def page_ok_def)
    next
      case (Some page)
      note g = Inr [unfolded pb Some]
      note granted = page_limited_Some [OF g budget snapshot_rows_bounded [OF store]]
      obtain r where r: "\<forall>kind. relation_type = Some kind \<longrightarrow> relation_type_new kind = Inr r \<and> rt_canonical r = kind"
        using typed_m by (cases relation_type) (auto simp: typed_move_def)
      note stored = page_limited_stored [OF store budget g r rows]
      have rest: "rest_rows G moves node ex = rows_after direction (ne_after ex) (stored_rows G node direction relation_type)
          @ all_rows G (drop (Suc ?i) moves) node"
        by (simp add: rest_rows_def d move_rows_def)
      show ?thesis
      proof (cases "ap_exhausted page")
        case True
        let ?ex = "ex\<lparr>ne_after := None, ne_move_index := ?i + 1, ne_complete := ?i + 1 = length moves\<rparr>"
        have "rest_rows G moves node ?ex = all_rows G (drop (Suc ?i) moves) node"
          by (cases "drop (Suc ?i) moves") (simp_all add: rest_rows_def rows_after_def all_rows_def)
        moreover have "moves_left moves ?ex < moves_left moves ex" using i by (simp add: moves_left_def)
        moreover have "expansion_ok moves ?ex" using i by (simp add: expansion_ok_def)
        ultimately have "page_ok G limits moves node ex b (Some (ap_edges page)) ?ex b1"
          using True granted stored rest by (simp add: page_ok_def)
        moreover have "expansion_page reader limits node moves rows ex b = Some (Inr (Some (ap_edges page), ?ex, b1))"
          using g True i m by (simp add: expansion_page_def)
        ultimately show ?thesis by simp
      next
        case False
        let ?ex = "ex\<lparr>ne_after := ap_next page\<rparr>"
        obtain q where q: "ap_edges page \<noteq> []" "ap_next page = Some q"
          "rows_after direction (ne_after ex) (stored_rows G node direction relation_type)
             = ap_edges page @ rows_after direction (Some q) (stored_rows G node direction relation_type)"
          using stored False by auto
        have "rest_rows G moves node ?ex = rows_after direction (Some q) (stored_rows G node direction relation_type)
          @ all_rows G (drop (Suc ?i) moves) node"
          by (simp add: rest_rows_def d move_rows_def q(2))
        moreover have "expansion_ok moves ?ex" "moves_left moves ?ex = moves_left moves ex"
          using ok by (simp_all add: expansion_ok_def moves_left_def)
        ultimately have "page_ok G limits moves node ex b (Some (ap_edges page)) ?ex b1"
          using granted rest q by (simp add: page_ok_def)
        moreover have "expansion_page reader limits node moves rows ex b = Some (Inr (Some (ap_edges page), ?ex, b1))"
          using g False i m by (simp add: expansion_page_def)
        ultimately show ?thesis by simp
      qed
    qed
  qed
qed

subsection \<open>The steps a search may take\<close>

definition edge_at :: "node_relation_projection list \<Rightarrow> trace_search_request \<Rightarrow> string option \<Rightarrow> node_relation_projection \<Rightarrow> bool" where
  "edge_at G request at e \<longleftrightarrow> e \<in> set G \<and> rex_semantic_class (nr_explanation e) \<noteq> Structural
     \<and> (\<exists>why. rex_rationale (nr_explanation e) = Some why \<and> trim why \<noteq> [])
     \<and> (\<exists>evidence. rex_evidence (nr_explanation e) = Some evidence \<and> trim evidence \<noteq> [])
     \<and> admits_dependency_relation (read_window_new (sq_temporal request) at) (nr_explanation e)
     \<and> (sq_relations request \<noteq> [] \<longrightarrow> nr_relation_type e \<in> set (sq_relations request))"

lemma edge_at_iff: "edge_at G request at e \<longleftrightarrow> e \<in> set G \<and> eligible_edge request (read_window_new (sq_temporal request) at) e"
  by (cases "rex_rationale (nr_explanation e)"; cases "rex_evidence (nr_explanation e)") (auto simp: edge_at_def eligible_edge_def blank_def is_none_or_def)

definition entry_at :: "snapshot_reader \<Rightarrow> (string \<Rightarrow> node_projection option) \<Rightarrow> node_relation_projection list
    \<Rightarrow> trace_search_request \<Rightarrow> string option \<Rightarrow> string \<Rightarrow> bool" where
  "entry_at reader nodes G request at i \<longleftrightarrow> admissible (context_of reader request) nodes G at i"

text \<open>A row of a node that may be followed, and the step it is.\<close>

definition step_at :: "snapshot_reader \<Rightarrow> (string \<Rightarrow> node_projection option) \<Rightarrow> node_relation_projection list
    \<Rightarrow> trace_search_request \<Rightarrow> string option \<Rightarrow> string \<Rightarrow> node_relation_projection \<Rightarrow> bool" where
  "step_at reader nodes G request at node e \<longleftrightarrow> e \<in> set (all_rows G (search_moves request) node)
     \<and> edge_at G request at e \<and> entry_at reader nodes G request at (neighbor_of e node)"

definition link_at :: "snapshot_reader \<Rightarrow> (string \<Rightarrow> node_projection option) \<Rightarrow> node_relation_projection list
    \<Rightarrow> trace_search_request \<Rightarrow> string option \<Rightarrow> string \<Rightarrow> string \<Rightarrow> bool" where
  "link_at reader nodes G request at a b \<longleftrightarrow>
     (\<exists>e \<in> set (all_rows G (search_moves request) a). step_at reader nodes G request at a e \<and> b = neighbor_of e a)"

lemma step_at_link:
  "step_at reader nodes G request at node e \<Longrightarrow> link_at reader nodes G request at node (neighbor_of e node)"
  unfolding link_at_def step_at_def by blast

lemma step_at_incident: "step_at reader nodes G request at node e \<Longrightarrow> incident e node"
  by (auto simp: step_at_def dest: all_rows_incident)

abbreviation at_ok where
  "at_ok reader nodes G request at \<equiv>
     frontier_ok (edge_at G request at) (link_at reader nodes G request at) (entry_at reader nodes G request at) request"

definition grown :: "trace_frontier \<Rightarrow> trace_frontier \<Rightarrow> bool" where
  "grown fr fr' \<longleftrightarrow> (\<exists>xs. fr_states fr' = fr_states fr @ xs \<and> (\<forall>x \<in> set xs. px_adjacency_offset x = 0)
     \<and> waiting (fr_queue fr') = waiting (fr_queue fr) + mset [length (fr_states fr)..<length (fr_states fr @ xs)]
     \<and> fr_considered fr + length xs \<le> fr_considered fr')"

lemma grown_refl [simp]: "grown fr fr"
  by (simp add: grown_def)

lemma frontier_grown_trans:
  assumes "grown a b" and "grown b c"
  shows "grown a c"
proof -
  obtain xs where xs: "fr_states b = fr_states a @ xs" "\<forall>x \<in> set xs. px_adjacency_offset x = 0"
    "waiting (fr_queue b) = waiting (fr_queue a) + mset [length (fr_states a)..<length (fr_states a @ xs)]"
    "fr_considered a + length xs \<le> fr_considered b"
    using assms(1) unfolding grown_def by blast
  obtain ys where ys: "fr_states c = fr_states b @ ys" "\<forall>x \<in> set ys. px_adjacency_offset x = 0"
    "waiting (fr_queue c) = waiting (fr_queue b) + mset [length (fr_states b)..<length (fr_states b @ ys)]"
    "fr_considered b + length ys \<le> fr_considered c"
    using assms(2) unfolding grown_def by blast
  have "[length (fr_states a)..<length (fr_states a @ xs)] @ [length (fr_states a @ xs)..<length (fr_states a @ xs @ ys)]
      = [length (fr_states a)..<length (fr_states a @ xs @ ys)]"
    using upt_add_eq_append [of "length (fr_states a)" "length (fr_states a @ xs)" "length ys"] by (simp add: add.assoc)
  then have "mset [length (fr_states a)..<length (fr_states a @ xs)] + mset [length (fr_states a @ xs)..<length (fr_states a @ xs @ ys)]
      = mset [length (fr_states a)..<length (fr_states a @ xs @ ys)]"
    by (metis mset_append)
  then have "waiting (fr_queue c) = waiting (fr_queue a) + mset [length (fr_states a)..<length (fr_states a @ xs @ ys)]"
    using xs(1,3) ys(1,3) by (simp add: add.assoc)
  moreover have "fr_considered a + length (xs @ ys) \<le> fr_considered c" using xs(4) ys(4) by simp
  ultimately show ?thesis using xs ys unfolding grown_def by (intro conjI exI [of _ "xs @ ys"]) auto
qed

definition reached :: "trace_frontier \<Rightarrow> string \<Rightarrow> bool" where
  "reached fr i \<longleftrightarrow> (\<exists>j < length (fr_states fr). node_at (fr_states fr) j = i)"

lemma grown_states:
  assumes "grown fr fr'" and "i < length (fr_states fr)"
  shows "i < length (fr_states fr')" "fr_states fr' ! i = fr_states fr ! i"
    "i \<in># waiting (fr_queue fr') \<longleftrightarrow> i \<in># waiting (fr_queue fr)"
  using assms by (auto simp: grown_def nth_append)

lemma grown_reached: "grown fr fr' \<Longrightarrow> reached fr i \<Longrightarrow> reached fr' i"
  using grown_states unfolding reached_def by metis

definition handled :: "snapshot_reader \<Rightarrow> (string \<Rightarrow> node_projection option) \<Rightarrow> node_relation_projection list
    \<Rightarrow> trace_search_request \<Rightarrow> string option \<Rightarrow> trace_frontier \<Rightarrow> string \<Rightarrow> node_relation_projection \<Rightarrow> bool" where
  "handled reader nodes G request at fr node e \<longleftrightarrow>
     (step_at reader nodes G request at node e \<longrightarrow> reached fr (neighbor_of e node))"

lemma grown_handled: "grown fr fr' \<Longrightarrow> handled reader nodes G request at fr node e \<Longrightarrow> handled reader nodes G request at fr' node e"
  using grown_reached by (simp add: handled_def)

text \<open>A state being visited stays where it is while the frontier grows.\<close>

definition visiting :: "trace_search_request \<Rightarrow> nat \<Rightarrow> string \<Rightarrow> trace_frontier \<Rightarrow> bool" where
  "visiting request state node fr \<longleftrightarrow> state < length (fr_states fr) \<and> node_at (fr_states fr) state = node
     \<and> px_depth (fr_states fr ! state) < unat (tl_depth (sq_limits request)) \<and> state \<notin># waiting (fr_queue fr)"

lemma grown_visiting: "grown fr fr' \<Longrightarrow> visiting request state node fr \<Longrightarrow> visiting request state node fr'"
  using grown_states [of fr fr' state] by (auto simp: visiting_def)

lemma extend_step:
  assumes "at_ok reader nodes G request at fr" and "request_bounds request" and "visiting request state node fr"
    and "step_at reader nodes G request at node e" and "fr_stop fr = None"
  shows "\<exists>go fr'. frontier_extend request state (neighbor_of e node) e preferred fr = Some (go, fr')
    \<and> at_ok reader nodes G request at fr' \<and> grown fr fr' \<and> go = (fr_stop fr' = None) \<and> stop_ok request fr'
    \<and> (go \<longrightarrow> fr_considered fr' = Suc (fr_considered fr) \<and> reached fr' (neighbor_of e node))"
proof -
  have "edge_at G request at e" "entry_at reader nodes G request at (neighbor_of e node)"
    using assms(4) by (simp_all add: step_at_def)
  moreover have "link_at reader nodes G request at (node_at (fr_states fr) state) (neighbor_of e node)"
    using step_at_link [OF assms(4)] assms(3) by (simp add: visiting_def)
  moreover have "incident e (node_at (fr_states fr) state)" using step_at_incident [OF assms(4)] assms(3) by (simp add: visiting_def)
  ultimately obtain go fr' where r: "frontier_extend request state (neighbor_of e node) e preferred fr = Some (go, fr')"
    and ok: "at_ok reader nodes G request at fr'"
    and xs: "\<exists>xs. fr_states fr' = fr_states fr @ xs \<and> (\<forall>x \<in> set xs. px_adjacency_offset x = 0)
         \<and> waiting (fr_queue fr') = waiting (fr_queue fr) + mset [length (fr_states fr)..<length (fr_states fr @ xs)]
         \<and> fr_considered fr + length xs \<le> fr_considered fr'"
    and rest: "go = (fr_stop fr' = None)" "stop_ok request fr'"
      "go \<longrightarrow> fr_considered fr' = Suc (fr_considered fr) \<and> (\<exists>i < length (fr_states fr'). node_at (fr_states fr') i = neighbor_of e node)"
    using extend_ok [OF assms(1,2), of state e "neighbor_of e node" preferred] assms(3,5) unfolding visiting_def by metis
  then show ?thesis by (intro exI [of _ go] exI [of _ fr']) (simp add: grown_def reached_def)
qed

lemma offer_edges_ok:
  assumes "at_ok reader nodes G request at fr" and "request_bounds request" and "visiting request state node fr"
    and "\<forall>e \<in> set edges. step_at reader nodes G request at node e" and "fr_stop fr = None"
  shows "\<exists>go fr'. offer_edges request ad state node edges fr = Some (go, fr')
    \<and> at_ok reader nodes G request at fr' \<and> grown fr fr' \<and> go = (fr_stop fr' = None) \<and> stop_ok request fr'
    \<and> (go \<longrightarrow> fr_considered fr' = fr_considered fr + length edges)"
  using assms
proof (induction edges arbitrary: fr)
  case (Cons e edges)
  obtain go fr1 where e: "frontier_extend request state (neighbor_of e node) e (preferred_at ad (neighbor_of e node)) fr = Some (go, fr1)"
    "at_ok reader nodes G request at fr1" "grown fr fr1" "go = (fr_stop fr1 = None)" "stop_ok request fr1"
    "go \<longrightarrow> fr_considered fr1 = Suc (fr_considered fr)"
    using extend_step [OF Cons.prems(1,2,3) _ Cons.prems(5), of e] Cons.prems(4) by fastforce
  show ?case
  proof (cases go)
    case False
    then have "fr_stop fr1 \<noteq> None" using e(4) by simp
    with e show ?thesis by auto
  next
    case True
    then have stop: "fr_stop fr1 = None" using e(4) by simp
    obtain go' fr' where r: "offer_edges request ad state node edges fr1 = Some (go', fr')"
      "at_ok reader nodes G request at fr'" "grown fr1 fr'" "go' = (fr_stop fr' = None)" "stop_ok request fr'"
      "go' \<longrightarrow> fr_considered fr' = fr_considered fr1 + length edges"
      using Cons.IH [OF e(2) Cons.prems(2) grown_visiting [OF e(3) Cons.prems(3)] _ stop] Cons.prems(4) by fastforce
    then show ?thesis using e True frontier_grown_trans [OF e(3) r(3)] by simp
  qed
qed (auto simp: stop_ok_def intro: exI [of _ True])

subsection \<open>Reading a page\<close>

definition core_ok :: "snapshot_reader \<Rightarrow> (string \<Rightarrow> node_projection option) \<Rightarrow> node_relation_projection list
    \<Rightarrow> trace_search_request \<Rightarrow> string option \<Rightarrow> visit \<Rightarrow> bool" where
  "core_ok reader nodes G request at v \<longleftrightarrow> admission_ok (context_of reader request) nodes G (vi_admission v)
     \<and> ad_resolved_as_of (vi_admission v) = at \<and> at_ok reader nodes G request at (vi_frontier v)
     \<and> stop_ok request (vi_frontier v)"

definition stopped :: "visit \<Rightarrow> bool" where
  "stopped v \<longleftrightarrow> fr_stop (vi_frontier v) \<noteq> None \<or> rb_stop (ad_budget (vi_admission v)) \<noteq> None"

definition later :: "visit \<Rightarrow> visit \<Rightarrow> bool" where
  "later v v' \<longleftrightarrow> grown (vi_frontier v) (vi_frontier v')
     \<and> unat (rb_scanned (ad_budget (vi_admission v))) \<le> unat (rb_scanned (ad_budget (vi_admission v')))
     \<and> length (ne_eligible (vi_expansion v)) \<le> length (ne_eligible (vi_expansion v'))"

lemma visit_later_refl [simp]: "later v v"
  by (simp add: later_def)

lemma visit_later_trans: "later a b \<Longrightarrow> later b c \<Longrightarrow> later a c"
  using frontier_grown_trans by (fastforce simp: later_def)

text \<open>What reading the rows of a page adds to a visit.\<close>

definition read_from :: "trace_search_request \<Rightarrow> visit \<Rightarrow> visit \<Rightarrow> bool" where
  "read_from request v v' \<longleftrightarrow> later v v' \<and> vi_leaves v' = vi_leaves v
     \<and> ne_move_index (vi_expansion v') = ne_move_index (vi_expansion v)
     \<and> ne_after (vi_expansion v') = ne_after (vi_expansion v) \<and> ne_complete (vi_expansion v') = ne_complete (vi_expansion v)
     \<and> (\<exists>ys. ne_eligible (vi_expansion v') = ne_eligible (vi_expansion v) @ ys \<and> vi_offset v' = vi_offset v + length ys
          \<and> (\<not> alternatives request \<longrightarrow> ys = [])
          \<and> fr_considered (vi_frontier v) + length ys \<le> fr_considered (vi_frontier v'))"

lemma read_from_refl [simp]: "read_from request v v"
  by (simp add: read_from_def)

lemma read_from_trans:
  assumes "read_from request a b" and "read_from request b c"
  shows "read_from request a c"
proof -
  obtain xs where xs: "ne_eligible (vi_expansion b) = ne_eligible (vi_expansion a) @ xs" "vi_offset b = vi_offset a + length xs"
    "\<not> alternatives request \<longrightarrow> xs = []" "fr_considered (vi_frontier a) + length xs \<le> fr_considered (vi_frontier b)"
    using assms(1) unfolding read_from_def by blast
  obtain ys where ys: "ne_eligible (vi_expansion c) = ne_eligible (vi_expansion b) @ ys" "vi_offset c = vi_offset b + length ys"
    "\<not> alternatives request \<longrightarrow> ys = []" "fr_considered (vi_frontier b) + length ys \<le> fr_considered (vi_frontier c)"
    using assms(2) unfolding read_from_def by blast
  have "later a c" using assms visit_later_trans by (simp add: read_from_def) blast
  with assms xs ys show ?thesis
    unfolding read_from_def by (intro conjI exI [of _ "xs @ ys"]) auto
qed

definition eligible_ok :: "snapshot_reader \<Rightarrow> (string \<Rightarrow> node_projection option) \<Rightarrow> node_relation_projection list
    \<Rightarrow> trace_search_request \<Rightarrow> string option \<Rightarrow> string \<Rightarrow> node_expansion \<Rightarrow> bool" where
  "eligible_ok reader nodes G request at node ex \<longleftrightarrow>
     (\<forall>e \<in> set (ne_eligible ex). step_at reader nodes G request at node e)
     \<and> (\<not> alternatives request \<longrightarrow> ne_eligible ex = [])"

lemma context_of_sel [simp]:
  "ac_reader (context_of reader request) = reader" "ac_about (context_of reader request) = sq_about request"
  "ac_temporal (context_of reader request) = sq_temporal request" "ac_dimensions (context_of reader request) = sq_policy request"
  "ac_limits (context_of reader request) = sq_limits request"
  by (simp_all add: context_of_def)

definition visit_ok :: "snapshot_reader \<Rightarrow> (string \<Rightarrow> node_projection option) \<Rightarrow> node_relation_projection list
    \<Rightarrow> trace_search_request \<Rightarrow> string option \<Rightarrow> nat \<Rightarrow> string \<Rightarrow> visit \<Rightarrow> bool" where
  "visit_ok reader nodes G request at state node v \<longleftrightarrow> core_ok reader nodes G request at v
     \<and> fr_stop (vi_frontier v) = None \<and> visiting request state node (vi_frontier v)
     \<and> eligible_ok reader nodes G request at node (vi_expansion v)"

text \<open>One row.\<close>

lemma take_edge_ok:
  assumes store: "snapshot_of reader nodes G" and bounds: "request_bounds request"
    and ok: "visit_ok reader nodes G request at state node v" and e: "e \<in> set (all_rows G (search_moves request) node)"
  shows "\<exists>r. take_edges request (context_of reader request) state node [e] v = Some r
    \<and> (\<forall>rest. take_edges request (context_of reader request) state node (e # rest) v =
         (case r of Inl x \<Rightarrow> Some (Inl x) | Inr (go, v') \<Rightarrow>
            if go then take_edges request (context_of reader request) state node rest v' else Some (Inr (False, v'))))
    \<and> (\<forall>go v'. r = Inr (go, v') \<longrightarrow> read_from request v v' \<and>
        (if go then visit_ok reader nodes G request at state node v' \<and> handled reader nodes G request at (vi_frontier v') node e
         else core_ok reader nodes G request at v' \<and> stopped v'))"
proof -
  let ?cx = "context_of reader request" and ?next = "neighbor_of e node"
  have core: "admission_ok ?cx nodes G (vi_admission v)" "ad_resolved_as_of (vi_admission v) = at"
    "at_ok reader nodes G request at (vi_frontier v)" "fr_stop (vi_frontier v) = None"
    "visiting request state node (vi_frontier v)" "eligible_ok reader nodes G request at node (vi_expansion v)"
    using ok by (simp_all add: visit_ok_def core_ok_def)
  have w: "window_of ?cx (vi_admission v) = read_window_new (sq_temporal request) at"
    by (simp add: window_of_def core(2))
  show ?thesis
  proof (cases "eligible_edge request (read_window_new (sq_temporal request) at) e")
    case False
    then show ?thesis using ok w by (simp add: handled_def step_at_def edge_at_iff)
  next
    case True
    obtain r where r: "admits ?cx ?next (vi_admission v) = Some r" and adm: "\<forall>a ad'. r = Inr (a, ad') \<longrightarrow>
        admission_ok ?cx nodes G ad' \<and> charged (vi_admission v) ad'
        \<and> (a \<longrightarrow> admissible ?cx nodes G at ?next)
        \<and> (rb_stop (ad_budget ad') = None \<longrightarrow> a = admissible ?cx nodes G at ?next
             \<and> rb_stop (ad_budget (vi_admission v)) = None)"
      using admits_ok [of ?cx nodes G "vi_admission v" ?next] store core(1,2) by auto
    show ?thesis
    proof (cases r)
      case (Inl x)
      with True w r show ?thesis by simp
    next
      case (Inr p)
      obtain a ad where p: "p = (a, ad)" by fastforce
      note adm' = adm [rule_format, OF Inr [unfolded p]]
      have at: "ad_resolved_as_of ad = at" using adm' core(2) by (simp add: charged_def)
      have scanned: "unat (rb_scanned (ad_budget (vi_admission v))) \<le> unat (rb_scanned (ad_budget ad))"
        using adm' by (simp add: charged_def)
      let ?v = "v\<lparr>vi_admission := ad\<rparr>"
      have v: "visit_ok reader nodes G request at state node ?v" "read_from request v ?v"
        using ok adm' at scanned by (simp_all add: visit_ok_def core_ok_def read_from_def later_def)
      show ?thesis
      proof (cases a)
        case False
        have "handled reader nodes G request at (vi_frontier ?v) node e" if "rb_stop (ad_budget ad) = None"
          using that adm' False by (simp add: handled_def step_at_def entry_at_def)
        with False True w r Inr p v show ?thesis
          by (cases "rb_stop (ad_budget ad)") (simp_all add: stopped_def visit_ok_def Let_def)
      next
        case a: True
        have step: "step_at reader nodes G request at node e"
          using e True adm' a all_rows_incident [OF e] by (simp add: step_at_def edge_at_iff entry_at_def)
        obtain go fr where x: "frontier_extend request state ?next e (preferred_at ad ?next) (vi_frontier v) = Some (go, fr)"
          "at_ok reader nodes G request at fr" "grown (vi_frontier v) fr" "go = (fr_stop fr = None)" "stop_ok request fr"
          "go \<longrightarrow> fr_considered fr = Suc (fr_considered (vi_frontier v)) \<and> reached fr ?next"
          using extend_step [OF core(3) bounds core(5) step core(4), of "preferred_at ad ?next"] by (elim exE conjE)
        define v1 where "v1 = v\<lparr>vi_admission := ad, vi_frontier := fr, vi_expansion := (vi_expansion v)\<lparr>ne_has_eligible := True\<rparr>\<rparr>"
        define v2 where "v2 = (if go \<and> alternatives request
          then v1\<lparr>vi_expansion := (vi_expansion v1)\<lparr>ne_eligible := ne_eligible (vi_expansion v1) @ [e]\<rparr>, vi_offset := vi_offset v1 + 1\<rparr>
          else v1)"
        have "take_edges request ?cx state node (e # rest) v =
            (if go then take_edges request ?cx state node rest v2 else Some (Inr (False, v2)))" for rest
          using True w r Inr p a x(1) by (simp add: v1_def v2_def Let_def)
        moreover have core2: "core_ok reader nodes G request at v2"
          using adm' at x by (simp add: core_ok_def v2_def v1_def)
        moreover have "read_from request v v2"
          using scanned x(3,6) by (auto simp: read_from_def later_def v2_def v1_def grown_def)
        moreover have "visit_ok reader nodes G request at state node v2 \<and> handled reader nodes G request at (vi_frontier v2) node e" if go
          using that core2 x core(5,6) step grown_visiting [OF x(3) core(5)]
          by (auto simp: visit_ok_def v2_def v1_def eligible_ok_def handled_def)
        moreover have "stopped v2" if "\<not> go" using that x(4) by (auto simp: stopped_def v2_def v1_def)
        ultimately show ?thesis by (intro exI [of _ "Inr (go, v2)"]) simp
      qed
    qed
  qed
qed

lemma take_edges_ok:
  assumes store: "snapshot_of reader nodes G" and bounds: "request_bounds request"
    and "visit_ok reader nodes G request at state node v" and "set edges \<subseteq> set (all_rows G (search_moves request) node)"
  shows "\<exists>r. take_edges request (context_of reader request) state node edges v = Some r
    \<and> (\<forall>go v'. r = Inr (go, v') \<longrightarrow> read_from request v v' \<and>
        (if go then visit_ok reader nodes G request at state node v'
           \<and> (\<forall>e \<in> set edges. handled reader nodes G request at (vi_frontier v') node e)
         else core_ok reader nodes G request at v' \<and> stopped v'))"
  using assms(3,4)
proof (induction edges arbitrary: v)
  case (Cons e edges)
  let ?take = "take_edges request (context_of reader request) state node"
  obtain r where r: "?take (e # edges) v = (case r of Inl x \<Rightarrow> Some (Inl x) | Inr (go, v') \<Rightarrow>
      if go then ?take edges v' else Some (Inr (False, v')))"
    and one: "\<forall>go v'. r = Inr (go, v') \<longrightarrow> read_from request v v' \<and>
        (if go then visit_ok reader nodes G request at state node v' \<and> handled reader nodes G request at (vi_frontier v') node e
         else core_ok reader nodes G request at v' \<and> stopped v')"
    using take_edge_ok [OF store bounds Cons.prems(1), of e] Cons.prems(2) by auto
  show ?case
  proof (cases r)
    case (Inl x)
    with r show ?thesis by simp
  next
    case (Inr p)
    obtain go v1 where p: "p = (go, v1)" by fastforce
    note one' = one [rule_format, OF Inr [unfolded p]]
    show ?thesis
    proof (cases go)
      case False
      with r one' Inr p show ?thesis by simp
    next
      case True
      then have v1: "visit_ok reader nodes G request at state node v1" "read_from request v v1"
        "handled reader nodes G request at (vi_frontier v1) node e" using one' by simp_all
      obtain r2 where r2: "?take edges v1 = Some r2" and rest: "\<forall>go v'. r2 = Inr (go, v') \<longrightarrow> read_from request v1 v' \<and>
        (if go then visit_ok reader nodes G request at state node v'
           \<and> (\<forall>e \<in> set edges. handled reader nodes G request at (vi_frontier v') node e)
         else core_ok reader nodes G request at v' \<and> stopped v')"
        using Cons.IH [OF v1(1)] Cons.prems(2) by auto
      have "\<forall>go v'. r2 = Inr (go, v') \<longrightarrow> read_from request v v' \<and>
        (if go then visit_ok reader nodes G request at state node v'
           \<and> (\<forall>e \<in> set (e # edges). handled reader nodes G request at (vi_frontier v') node e)
         else core_ok reader nodes G request at v' \<and> stopped v')"
      proof (intro allI impI)
        fix go v' assume g: "r2 = Inr (go, v')"
        note rest' = rest [rule_format, OF g]
        have "grown (vi_frontier v1) (vi_frontier v')" using rest' by (simp add: read_from_def later_def)
        from grown_handled [OF this v1(3)] rest' read_from_trans [OF v1(2)]
        show "read_from request v v' \<and> (if go then visit_ok reader nodes G request at state node v'
           \<and> (\<forall>e \<in> set (e # edges). handled reader nodes G request at (vi_frontier v') node e)
         else core_ok reader nodes G request at v' \<and> stopped v')"
          by (simp split: if_splits)
      qed
      then show ?thesis using r r2 Inr p True by simp
    qed
  qed
qed simp

subsection \<open>A turn\<close>

definition stream_ok :: "snapshot_reader \<Rightarrow> (string \<Rightarrow> node_projection option) \<Rightarrow> node_relation_projection list
    \<Rightarrow> trace_search_request \<Rightarrow> string option \<Rightarrow> trace_frontier \<Rightarrow> string \<Rightarrow> node_expansion \<Rightarrow> bool" where
  "stream_ok reader nodes G request at fr node ex \<longleftrightarrow>
     (\<exists>read. all_rows G (search_moves request) node = read @ rest_rows G (search_moves request) node ex
        \<and> (\<forall>e \<in> set read. handled reader nodes G request at fr node e))"

lemma grown_stream:
  "grown fr fr' \<Longrightarrow> stream_ok reader nodes G request at fr node ex \<Longrightarrow> stream_ok reader nodes G request at fr' node ex"
  using grown_handled unfolding stream_ok_def by blast

lemma stream_default [simp]: "stream_ok reader nodes G request at fr node expansion_default"
  by (simp add: stream_ok_def)

lemma stream_complete:
  assumes "stream_ok reader nodes G request at fr node ex" and "expansion_ok (search_moves request) ex" and "ne_complete ex"
    and "e \<in> set (all_rows G (search_moves request) node)"
  shows "handled reader nodes G request at fr node e"
  using assms rest_rows_complete [OF assms(2,3)] by (auto simp: stream_ok_def)

definition full_ok :: "snapshot_reader \<Rightarrow> (string \<Rightarrow> node_projection option) \<Rightarrow> node_relation_projection list
    \<Rightarrow> trace_search_request \<Rightarrow> string option \<Rightarrow> nat \<Rightarrow> string \<Rightarrow> visit \<Rightarrow> bool" where
  "full_ok reader nodes G request at state node v \<longleftrightarrow> visit_ok reader nodes G request at state node v
     \<and> expansion_ok (search_moves request) (vi_expansion v)
     \<and> stream_ok reader nodes G request at (vi_frontier v) node (vi_expansion v)
     \<and> vi_offset v \<le> length (ne_eligible (vi_expansion v))"

text \<open>Progress: a state considered, else a row read, else a move ended.\<close>

definition further :: "trace_search_request \<Rightarrow> visit \<Rightarrow> visit \<Rightarrow> bool" where
  "further request v v' \<longleftrightarrow> fr_considered (vi_frontier v) < fr_considered (vi_frontier v')
     \<or> unat (rb_scanned (ad_budget (vi_admission v))) < unat (rb_scanned (ad_budget (vi_admission v')))
     \<or> moves_left (search_moves request) (vi_expansion v') < moves_left (search_moves request) (vi_expansion v)"

text \<open>How a turn may leave a visit.\<close>

definition turn_ok :: "snapshot_reader \<Rightarrow> (string \<Rightarrow> node_projection option) \<Rightarrow> node_relation_projection list
    \<Rightarrow> trace_search_request \<Rightarrow> string option \<Rightarrow> nat \<Rightarrow> string \<Rightarrow> visit \<Rightarrow> flow \<Rightarrow> visit \<Rightarrow> bool" where
  "turn_ok reader nodes G request at state node v flow v' \<longleftrightarrow> later v v'
     \<and> (if flow = StopSearch then core_ok reader nodes G request at v' \<and> stopped v'
        else full_ok reader nodes G request at state node v'
          \<and> moves_left (search_moves request) (vi_expansion v') \<le> moves_left (search_moves request) (vi_expansion v)
          \<and> (further request v v' \<or> flow = LeaveVisit \<and> ne_complete (vi_expansion v')
               \<and> vi_offset v' = length (ne_eligible (vi_expansion v'))))"

lemma page_rows_pos: "0 < page_rows request" "0 < unat (page_rows request)"
  by (simp_all add: page_rows_def)

lemma page_turn_ok:
  assumes store: "snapshot_of reader nodes G" and bounds: "request_bounds request" and typed: "typed_request request"
    and ok: "full_ok reader nodes G request at state node v" and more: "\<not> ne_complete (vi_expansion v)"
  shows "\<exists>r. page_turn request (context_of reader request) (search_moves request) state node v = Some r
    \<and> (\<forall>flow v'. r = Inr (flow, v') \<longrightarrow> turn_ok reader nodes G request at state node v flow v')"
proof -
  let ?cx = "context_of reader request" and ?b = "ad_budget (vi_admission v)" and ?moves = "search_moves request"
  have ex: "expansion_ok ?moves (vi_expansion v)" and visit: "visit_ok reader nodes G request at state node v"
    and stream: "stream_ok reader nodes G request at (vi_frontier v) node (vi_expansion v)"
    and offset: "vi_offset v \<le> length (ne_eligible (vi_expansion v))"
    using ok by (simp_all add: full_ok_def)
  have adm: "admission_ok ?cx nodes G (vi_admission v)" using visit by (simp add: visit_ok_def core_ok_def)
  then have budget: "budget_ok (sq_limits request) ?b" by (simp add: admission_ok_def)
  have typed': "\<forall>m \<in> set ?moves. typed_move m" using search_moves_typed [OF typed] by blast
  obtain r where r: "expansion_page reader (sq_limits request) node ?moves (page_rows request) (vi_expansion v) ?b = Some r"
    and page: "\<forall>edges ex' b'. r = Inr (edges, ex', b') \<longrightarrow> page_ok G (sq_limits request) ?moves node (vi_expansion v) ?b edges ex' b'"
    using expansion_page_ok [OF store typed' ex more budget page_rows_pos(1)] by blast
  show ?thesis
  proof (cases r)
    case (Inl e)
    with r show ?thesis by (simp add: page_turn_def)
  next
    case (Inr p)
    obtain edges ex' b' where p: "p = (edges, ex', b')" by (cases p) auto
    note page' = page [rule_format, OF Inr [unfolded p], unfolded page_ok_def]
    let ?v = "v\<lparr>vi_admission := (vi_admission v)\<lparr>ad_budget := b'\<rparr>, vi_expansion := ex'\<rparr>"
    have adm': "admission_ok ?cx nodes G ((vi_admission v)\<lparr>ad_budget := b'\<rparr>)"
      using adm page' by (simp add: admission_ok_def)
    show ?thesis
    proof (cases edges)
      case None
      then have "turn_ok reader nodes G request at state node v StopSearch ?v"
        using visit adm' page' by (simp add: turn_ok_def visit_ok_def core_ok_def stopped_def later_def)
      then show ?thesis using r Inr p None by (simp add: page_turn_def Let_def)
    next
      case (Some es)
      have visit': "visit_ok reader nodes G request at state node ?v"
        using visit adm' page' Some by (simp add: visit_ok_def core_ok_def eligible_ok_def)
      have rows: "rest_rows G ?moves node (vi_expansion v) = es @ rest_rows G ?moves node ex'" using page' Some by simp
      obtain done' where d: "all_rows G ?moves node = done' @ es @ rest_rows G ?moves node ex'"
        "\<forall>e \<in> set done'. handled reader nodes G request at (vi_frontier v) node e"
        using stream unfolding stream_ok_def rows by blast
      have "set es \<subseteq> set (all_rows G ?moves node)" by (auto simp: d(1))
      from take_edges_ok [OF store bounds visit' this]
      obtain r2 where r2: "take_edges request ?cx state node es ?v = Some r2"
        and took: "\<forall>go v'. r2 = Inr (go, v') \<longrightarrow> read_from request ?v v' \<and>
          (if go then visit_ok reader nodes G request at state node v'
             \<and> (\<forall>e \<in> set es. handled reader nodes G request at (vi_frontier v') node e)
           else core_ok reader nodes G request at v' \<and> stopped v')" by (elim exE conjE)
      show ?thesis
      proof (cases r2)
        case (Inl e)
        with r Inr p Some r2 show ?thesis by (simp add: page_turn_def Let_def)
      next
        case i2: (Inr q)
        obtain go v2 where q: "q = (go, v2)" by fastforce
        note took' = took [rule_format, OF i2 [unfolded q]]
        have read: "read_from request ?v v2" using took' by simp
        then have later: "later v v2" using page' Some by (simp add: read_from_def later_def)
        define v3 where "v3 = v2\<lparr>vi_leaves := vi_leaves v2 + of_bool (ne_complete (vi_expansion v2) \<and> \<not> ne_has_eligible (vi_expansion v2))\<rparr>"
        define flow where "flow = (if \<not> go then StopSearch else if focused request \<or> ne_complete (vi_expansion v2) then LeaveVisit else TurnAgain)"
        define v' where "v' = (if go then v3 else v2)"
        have result: "page_turn request ?cx ?moves state node v = Some (Inr (flow, v'))"
          using r Inr p Some r2 i2 q by (simp add: page_turn_def Let_def flow_def v'_def v3_def)
        have "turn_ok reader nodes G request at state node v flow v'"
        proof (cases go)
          case False
          then show ?thesis using took' later by (simp add: turn_ok_def flow_def v'_def)
        next
          case True
          have visit2: "visit_ok reader nodes G request at state node v2"
            and handled: "\<forall>e \<in> set es. handled reader nodes G request at (vi_frontier v2) node e"
            using took' True by simp_all
          have grown: "grown (vi_frontier v) (vi_frontier v2)" using later by (simp add: later_def)
          have same: "ne_move_index (vi_expansion v2) = ne_move_index ex'" "ne_after (vi_expansion v2) = ne_after ex'"
            "ne_complete (vi_expansion v2) = ne_complete ex'" using read by (simp_all add: read_from_def)
          have "rest_rows G ?moves node (vi_expansion v2) = rest_rows G ?moves node ex'" by (simp only: rest_rows_def same)
          then have "stream_ok reader nodes G request at (vi_frontier v2) node (vi_expansion v2)"
            unfolding stream_ok_def using d handled grown_handled [OF grown]
            by (intro exI [of _ "done' @ es"]) auto
          moreover have "expansion_ok ?moves (vi_expansion v2)"
            using page' Some by (simp add: expansion_ok_def same)
          moreover have "vi_offset v2 \<le> length (ne_eligible (vi_expansion v2))"
            using read offset page' Some by (auto simp: read_from_def)
          ultimately have "full_ok reader nodes G request at state node v3"
            using visit2 by (simp add: full_ok_def visit_ok_def core_ok_def v3_def)
          moreover have left: "moves_left ?moves (vi_expansion v3) = moves_left ?moves ex'"
            by (simp add: moves_left_def v3_def same)
          moreover have "further request v v3"
          proof (cases "es = []")
            case True
            then show ?thesis using page' Some left by (simp add: further_def)
          next
            case False
            then have "unat (rb_scanned ?b) < unat (rb_scanned b')" using page' Some by simp
            moreover have "unat (rb_scanned b') \<le> unat (rb_scanned (ad_budget (vi_admission v2)))"
              using read by (simp add: read_from_def later_def)
            ultimately show ?thesis by (simp add: further_def v3_def)
          qed
          ultimately show ?thesis
            using True later page' Some by (simp add: turn_ok_def flow_def v'_def later_def v3_def)
        qed
        with result show ?thesis by simp
      qed
    qed
  qed
qed

lemma later_considered: "later v v' \<Longrightarrow> fr_considered (vi_frontier v) \<le> fr_considered (vi_frontier v')"
  by (auto simp: later_def grown_def)

lemma replay_end_bounds:
  assumes "vi_offset v \<le> length (ne_eligible (vi_expansion v))"
  shows "vi_offset v \<le> replay_end request v" "replay_end request v \<le> length (ne_eligible (vi_expansion v))"
    "replay_end request v = vi_offset v \<or> \<not> focused request \<Longrightarrow> replay_end request v = length (ne_eligible (vi_expansion v))"
  using assms page_rows_pos(2) [of request] by (auto simp: replay_end_def Let_def min_def split: if_splits)

lemma visit_turn_ok:
  assumes store: "snapshot_of reader nodes G" and bounds: "request_bounds request" and typed: "typed_request request"
    and ok: "full_ok reader nodes G request at state node v"
  shows "\<exists>r. visit_turn request (context_of reader request) (search_moves request) state node v = Some r
    \<and> (\<forall>flow v'. r = Inr (flow, v') \<longrightarrow> turn_ok reader nodes G request at state node v flow v')"
proof -
  let ?cx = "context_of reader request" and ?moves = "search_moves request" and ?upto = "replay_end request v"
  have visit: "visit_ok reader nodes G request at state node v" using ok by (simp add: full_ok_def)
  have core: "at_ok reader nodes G request at (vi_frontier v)" "visiting request state node (vi_frontier v)"
    "fr_stop (vi_frontier v) = None" using visit by (simp_all add: visit_ok_def core_ok_def)
  have offset: "vi_offset v \<le> length (ne_eligible (vi_expansion v))" using ok by (simp add: full_ok_def)
  note bound = replay_end_bounds [OF offset, of request]
  let ?es = "take (?upto - vi_offset v) (drop (vi_offset v) (ne_eligible (vi_expansion v)))"
  have len: "length ?es = ?upto - vi_offset v" using bound(2) by simp
  have "\<forall>e \<in> set ?es. step_at reader nodes G request at node e"
    using visit by (auto simp: visit_ok_def eligible_ok_def dest!: in_set_takeD in_set_dropD)
  from offer_edges_ok [OF core(1) bounds core(2) this core(3), of "vi_admission v"]
  obtain go fr where r: "offer_edges request (vi_admission v) state node ?es (vi_frontier v) = Some (go, fr)"
    and fr: "at_ok reader nodes G request at fr" "grown (vi_frontier v) fr" "go = (fr_stop fr = None)" "stop_ok request fr"
      "go \<longrightarrow> fr_considered fr = fr_considered (vi_frontier v) + length ?es" by (elim exE conjE)
  show ?thesis
  proof (cases go)
    case False
    let ?v = "v\<lparr>vi_frontier := fr\<rparr>"
    have "fr_stop fr \<noteq> None" using False fr(3) by simp
    then have "turn_ok reader nodes G request at state node v StopSearch ?v"
      using visit fr by (simp add: turn_ok_def later_def core_ok_def visit_ok_def stopped_def)
    moreover have "visit_turn request ?cx ?moves state node v = Some (Inr (StopSearch, ?v))"
      using r False bound(1) by (simp add: visit_turn_def Let_def)
    ultimately show ?thesis by simp
  next
    case True
    let ?v = "v\<lparr>vi_frontier := fr, vi_offset := ?upto\<rparr>"
    have v1: "full_ok reader nodes G request at state node ?v"
      using ok fr True bound(2) grown_visiting [OF fr(2)] grown_stream [OF fr(2)]
      by (simp add: full_ok_def visit_ok_def core_ok_def)
    have later: "later v ?v" using fr(2) by (simp add: later_def)
    show ?thesis
    proof (cases "focused request \<and> vi_offset v < ?upto \<or> ne_complete (vi_expansion v)")
      case leave: True
      have "further request v ?v" if "vi_offset v < ?upto" using that fr(5) True len by (simp add: further_def)
      moreover have "ne_complete (vi_expansion v) \<and> ?upto = length (ne_eligible (vi_expansion v))" if "\<not> vi_offset v < ?upto"
        using that leave bound(1) bound(3) by simp
      ultimately have "turn_ok reader nodes G request at state node v LeaveVisit ?v"
        using v1 later by (auto simp: turn_ok_def)
      moreover have "visit_turn request ?cx ?moves state node v = Some (Inr (LeaveVisit, ?v))"
        using r True leave bound(1) by (auto simp: visit_turn_def Let_def)
      ultimately show ?thesis by simp
    next
      case False
      then have "\<not> ne_complete (vi_expansion ?v)" by simp
      from page_turn_ok [OF store bounds typed v1 this] obtain r2
        where r2: "page_turn request ?cx ?moves state node ?v = Some r2"
          and turn: "\<forall>flow v'. r2 = Inr (flow, v') \<longrightarrow> turn_ok reader nodes G request at state node ?v flow v'" by (elim exE conjE)
      have "further request v v'" if "further request ?v v'" for v'
        using that later_considered [OF later] by (auto simp: further_def)
      then have "turn_ok reader nodes G request at state node v flow v'" if "turn_ok reader nodes G request at state node ?v flow v'" for flow v'
        using that visit_later_trans [OF later] by (auto simp: turn_ok_def split: if_splits)
      moreover have "visit_turn request ?cx ?moves state node v = page_turn request ?cx ?moves state node ?v"
        using r True False bound(1) by (auto simp: visit_turn_def Let_def)
      ultimately show ?thesis using r2 turn by simp
    qed
  qed
qed

subsection \<open>A visit ends\<close>

definition work :: "trace_search_request \<Rightarrow> visit \<Rightarrow> nat" where
  "work request v = (unat (tl_states (sq_limits request)) - fr_considered (vi_frontier v))
     + (unat (tl_edges (sq_limits request)) - unat (rb_scanned (ad_budget (vi_admission v))))
     + moves_left (search_moves request) (vi_expansion v)"

lemma core_bounds:
  assumes "core_ok reader nodes G request at v"
  shows "fr_considered (vi_frontier v) \<le> unat (tl_states (sq_limits request))"
    and "unat (rb_scanned (ad_budget (vi_admission v))) \<le> unat (tl_edges (sq_limits request))"
  using assms by (simp_all add: core_ok_def frontier_ok_def counts_ok_def admission_ok_def budget_ok_def word_le_nat_alt)

lemma further_work:
  assumes "core_ok reader nodes G request at v'" and "later v v'" and "further request v v'"
    and "moves_left (search_moves request) (vi_expansion v') \<le> moves_left (search_moves request) (vi_expansion v)"
  shows "work request v' < work request v"
  using core_bounds [OF assms(1)] later_considered [OF assms(2)] assms(2-4)
  unfolding further_def work_def later_def by linarith

text \<open>A visit that ends leaves the stream further, or has nothing left to offer.\<close>

definition visited_ok :: "snapshot_reader \<Rightarrow> (string \<Rightarrow> node_projection option) \<Rightarrow> node_relation_projection list
    \<Rightarrow> trace_search_request \<Rightarrow> string option \<Rightarrow> nat \<Rightarrow> string \<Rightarrow> visit \<Rightarrow> bool \<Rightarrow> visit \<Rightarrow> bool" where
  "visited_ok reader nodes G request at state node v go v' \<longleftrightarrow> later v v'
     \<and> (if go then full_ok reader nodes G request at state node v'
          \<and> moves_left (search_moves request) (vi_expansion v') \<le> moves_left (search_moves request) (vi_expansion v)
          \<and> (further request v v'
             \<or> ne_complete (vi_expansion v') \<and> vi_offset v' = length (ne_eligible (vi_expansion v')))
        else core_ok reader nodes G request at v' \<and> stopped v')"

lemma further_trans:
  assumes "later v v1" and "later v1 v'"
    and "moves_left (search_moves request) (vi_expansion v1) \<le> moves_left (search_moves request) (vi_expansion v)"
    and "moves_left (search_moves request) (vi_expansion v') \<le> moves_left (search_moves request) (vi_expansion v1)"
    and "further request v v1"
  shows "further request v v'"
  using later_considered [OF assms(2)] assms(2-5) unfolding further_def later_def by linarith

lemma visit_loop_ok:
  assumes store: "snapshot_of reader nodes G" and bounds: "request_bounds request" and typed: "typed_request request"
    and "full_ok reader nodes G request at state node v"
  shows "\<exists>r. visit_loop request (context_of reader request) (search_moves request) state node v = Some r
    \<and> (\<forall>go v'. r = Inr (go, v') \<longrightarrow> visited_ok reader nodes G request at state node v go v')"
  using assms(4)
proof (induction "work request v" arbitrary: v rule: less_induct)
  case less
  let ?loop = "visit_loop request (context_of reader request) (search_moves request) state node"
  obtain r where r: "visit_turn request (context_of reader request) (search_moves request) state node v = Some r"
    and turn: "\<forall>flow v'. r = Inr (flow, v') \<longrightarrow> turn_ok reader nodes G request at state node v flow v'"
    using visit_turn_ok [OF store bounds typed less.prems] by blast
  show ?case
  proof (cases r)
    case (Inl e)
    with r show ?thesis by (subst visit_loop.simps) simp
  next
    case (Inr p)
    obtain flow v1 where p: "p = (flow, v1)" by fastforce
    note t = turn [rule_format, OF Inr [unfolded p]]
    show ?thesis
    proof (cases flow)
      case StopSearch
      with r Inr p t show ?thesis by (subst visit_loop.simps) (simp add: turn_ok_def visited_ok_def)
    next
      case LeaveVisit
      with r Inr p t show ?thesis by (subst visit_loop.simps) (simp add: turn_ok_def visited_ok_def)
    next
      case TurnAgain
      then have v1: "full_ok reader nodes G request at state node v1" "later v v1" "further request v v1"
        "moves_left (search_moves request) (vi_expansion v1) \<le> moves_left (search_moves request) (vi_expansion v)"
        using t by (simp_all add: turn_ok_def)
      then have "core_ok reader nodes G request at v1" by (simp add: full_ok_def visit_ok_def)
      from less.hyps [OF further_work [OF this v1(2-4)] v1(1)] obtain r2 where r2: "?loop v1 = Some r2"
        and rest: "\<forall>go v'. r2 = Inr (go, v') \<longrightarrow> visited_ok reader nodes G request at state node v1 go v'" by blast
      have "visited_ok reader nodes G request at state node v go v'" if "visited_ok reader nodes G request at state node v1 go v'" for go v'
        using that visit_later_trans [OF v1(2)] further_trans [OF v1(2) _ v1(4) _ v1(3), of v'] v1(4)
        by (simp add: visited_ok_def split: if_splits)
      moreover have "?loop v = ?loop v1" using r Inr p TurnAgain by (subst visit_loop.simps) simp
      ultimately show ?thesis using r2 rest by simp
    qed
  qed
qed

end
