(* ===== verification/TraceSearchGuarantees.thy ===== *)
theory TraceSearchGuarantees
  imports TraceVisit
begin

text \<open>
  What a bounded trace search promises over a snapshot of a stored graph. It returns, without a
  panic. Its routes walk, from the source to a destination and without a repeated entry, along
  stored, evidenced links of the read's window between admissible entries; each destination has
  a route or is reported unreached; an exhausted frontier proves that the unreached ones are not
  reachable by such links; and the work stays inside the limits.
\<close>

subsection \<open>The start\<close>

lemma search_validate_bounds:
  assumes "search_validate request = Inr ()"
  shows "request_bounds request"
proof -
  have l: "limits_validate (sq_limits request) = Inr ()" and p: "1 \<le> sq_paths_per_target request" "sq_paths_per_target request \<le> 8"
    and t: "sq_targets request \<noteq> []" "length (sq_targets request) \<le> 8"
    using assms by (auto simp: search_validate_def try_bind_Inr_iff split: if_splits)
  have "1 \<le> unat (tl_states (sq_limits request))" "1 \<le> unat (tl_depth (sq_limits request))"
    using l by (auto simp: limits_validate_def word_le_nat_alt split: if_splits)
  moreover have "1 \<le> unat (sq_paths_per_target request)" "unat (sq_paths_per_target request) \<le> 8"
    using p by (simp_all add: word_le_nat_alt)
  ultimately show ?thesis using t by (simp add: request_bounds_def)
qed

lemma frontier_empty_ok: "frontier_ok Q L A request (frontier_empty request)"
  by (simp add: frontier_ok_def frontier_empty_def index_ok_def queue_ok_def found_ok_def paths_ok_def counts_ok_def
      admitted_ok_def tree_ok_def bmap_get_def)

lemma root_trail [simp]: "trail [root_state request preferred] 0 = [0]"
  by (subst trail.simps) (simp add: root_state_def)

lemma root_node [simp]: "px_node (root_state request preferred) = sq_from request"
  by (simp add: root_state_def)

lemma frontier_new_admitted:
  assumes bounds: "request_bounds request" and root: "A (sq_from request)"
  shows "frontier_ok Q L A request (frontier_new request True preferred)"
    and "fr_states (frontier_new request True preferred) = [root_state request preferred]"
    and "waiting (fr_queue (frontier_new request True preferred)) = {#0#}"
    and "stop_ok request (frontier_new request True preferred)"
proof -
  let ?fr0 = "frontier_empty request" and ?x = "root_state request preferred"
  define fr1 where "fr1 = ?fr0\<lparr>fr_states := [?x], fr_queue := pending_push 0 0 preferred (fr_queue ?fr0),
             fr_visited := bset_insert (sq_from request) (fr_visited ?fr0), fr_considered := 1\<rparr>"
  have new: "frontier_new request True preferred = record_target request 0 fr1"
    by (simp add: frontier_new_def fr1_def Let_def)
  have q0: "pending_ok (dp_preferred (sq_policy request) \<noteq> None) (fr_queue ?fr0)" "waiting (fr_queue ?fr0) = {#}"
    by (simp_all add: frontier_empty_def)
  show states: "fr_states (frontier_new request True preferred) = [?x]" by (simp add: new fr1_def)
  show w: "waiting (fr_queue (frontier_new request True preferred)) = {#0#}"
    using waiting_push [of 0 "fr_queue ?fr0" 0 preferred] q0(2) by (simp add: new fr1_def)
  have "found_ok request (fr1\<lparr>fr_states := []\<rparr>)"
    by (simp add: found_ok_def fr1_def frontier_empty_def bmap_get_def)
  from record_target_found [OF this _ bounds, of ?x] have "found_ok request (frontier_new request True preferred)"
    by (simp add: new fr1_def)
  moreover have "queue_ok request (frontier_new request True preferred)"
    using pending_push_ok [OF q0(1)] w states by (simp add: queue_ok_def new fr1_def)
  moreover have "tree_ok (sq_from request) [] [?x]"
    by (simp add: tree_ok_def linked_state_def root_state_def)
  then have "paths_ok L request (frontier_new request True preferred)"
    by (auto simp: paths_ok_def new fr1_def frontier_empty_def lessThan_Suc)
  ultimately show "frontier_ok Q L A request (frontier_new request True preferred)"
    using bounds root
    by (simp add: frontier_ok_def index_ok_def counts_ok_def admitted_ok_def new fr1_def frontier_empty_def root_state_def
        bmap_get_def request_bounds_def)
  show "stop_ok request (frontier_new request True preferred)"
    using record_target_stop [of request 0 fr1] by (auto simp: stop_ok_def new fr1_def frontier_empty_def)
qed

subsection \<open>The invariant of the search\<close>

definition expansion_of :: "search \<Rightarrow> string \<Rightarrow> node_expansion" where
  "expansion_of s node = (case bmap_get (se_cache s) node of None \<Rightarrow> expansion_default | Some ex \<Rightarrow> ex)"

definition frame_ok :: "snapshot_reader \<Rightarrow> (string \<Rightarrow> node_projection option) \<Rightarrow> node_relation_projection list
    \<Rightarrow> trace_search_request \<Rightarrow> string option \<Rightarrow> search \<Rightarrow> bool" where
  "frame_ok reader nodes G request at s \<longleftrightarrow> admission_ok (context_of reader request) nodes G (se_admission s)
     \<and> ad_resolved_as_of (se_admission s) = at \<and> at_ok reader nodes G request at (se_frontier s)
     \<and> stop_ok request (se_frontier s)"

definition streams_ok :: "snapshot_reader \<Rightarrow> (string \<Rightarrow> node_projection option) \<Rightarrow> node_relation_projection list
    \<Rightarrow> trace_search_request \<Rightarrow> string option \<Rightarrow> search \<Rightarrow> bool" where
  "streams_ok reader nodes G request at s \<longleftrightarrow> bmap_ok (se_cache s)
     \<and> (\<forall>node. expansion_ok (search_moves request) (expansion_of s node)
          \<and> eligible_ok reader nodes G request at node (expansion_of s node)
          \<and> stream_ok reader nodes G request at (se_frontier s) node (expansion_of s node))"

definition offsets_ok :: "search \<Rightarrow> bool" where
  "offsets_ok s \<longleftrightarrow> (\<forall>i < length (fr_states (se_frontier s)).
     px_adjacency_offset (fr_states (se_frontier s) ! i)
       \<le> length (ne_eligible (expansion_of s (node_at (fr_states (se_frontier s)) i))))"

text \<open>A state that does not wait stands at the depth limit, or all its rows were handled.\<close>

definition settled :: "snapshot_reader \<Rightarrow> (string \<Rightarrow> node_projection option) \<Rightarrow> node_relation_projection list
    \<Rightarrow> trace_search_request \<Rightarrow> string option \<Rightarrow> search \<Rightarrow> nat \<Rightarrow> bool" where
  "settled reader nodes G request at s i \<longleftrightarrow> i \<in># waiting (fr_queue (se_frontier s)) \<or> se_depth_cut s
     \<or> (\<forall>e \<in> set (all_rows G (search_moves request) (node_at (fr_states (se_frontier s)) i)).
          handled reader nodes G request at (se_frontier s) (node_at (fr_states (se_frontier s)) i) e)"

definition search_ok :: "snapshot_reader \<Rightarrow> (string \<Rightarrow> node_projection option) \<Rightarrow> node_relation_projection list
    \<Rightarrow> trace_search_request \<Rightarrow> string option \<Rightarrow> search \<Rightarrow> bool" where
  "search_ok reader nodes G request at s \<longleftrightarrow> frame_ok reader nodes G request at s
     \<and> streams_ok reader nodes G request at s \<and> offsets_ok s
     \<and> (\<forall>i < length (fr_states (se_frontier s)). settled reader nodes G request at s i)"

definition load :: "trace_search_request \<Rightarrow> search \<Rightarrow> nat" where
  "load request s = (\<Sum>i \<in># waiting (fr_queue (se_frontier s)).
     Suc (moves_left (search_moves request) (expansion_of s (node_at (fr_states (se_frontier s)) i))))"

definition considered_left :: "trace_search_request \<Rightarrow> search \<Rightarrow> nat" where
  "considered_left request s = unat (tl_states (sq_limits request)) - fr_considered (se_frontier s)"

definition rows_left :: "trace_search_request \<Rightarrow> search \<Rightarrow> nat" where
  "rows_left request s = unat (tl_edges (sq_limits request)) - unat (rb_scanned (ad_budget (se_admission s)))"

definition search_less :: "trace_search_request \<Rightarrow> search \<Rightarrow> search \<Rightarrow> bool" where
  "search_less request s' s \<longleftrightarrow>
     ((considered_left request s', rows_left request s', load request s'),
      (considered_left request s, rows_left request s, load request s)) \<in> less_than <*lex*> less_than <*lex*> less_than"

text \<open>What one state was at stays reached.\<close>

definition extends :: "search \<Rightarrow> search \<Rightarrow> bool" where
  "extends s s' \<longleftrightarrow> (\<forall>i. reached (se_frontier s) i \<longrightarrow> reached (se_frontier s') i) \<and> se_stop s' = se_stop s"

lemma wf_search_less: "wf {(s', s). search_less request s' s}"
proof -
  have "{(s', s). search_less request s' s} = inv_image (less_than <*lex*> less_than <*lex*> less_than)
      (\<lambda>s. (considered_left request s, rows_left request s, load request s))"
    by (simp add: inv_image_def search_less_def)
  then show ?thesis by (simp add: wf_lex_prod)
qed

lemma frame_bounds:
  assumes "frame_ok reader nodes G request at s"
  shows "fr_considered (se_frontier s) \<le> unat (tl_states (sq_limits request))"
    and "unat (rb_scanned (ad_budget (se_admission s))) \<le> unat (tl_edges (sq_limits request))"
  using assms by (simp_all add: frame_ok_def frontier_ok_def counts_ok_def admission_ok_def budget_ok_def word_le_nat_alt)

lemma expansion_default_eligible [simp]: "ne_eligible expansion_default = []"
  by (simp add: expansion_default_def)

lemma expansion_of_start [simp]: "expansion_of (trace_start request admitted ad) node = expansion_default"
  by (simp add: expansion_of_def trace_start_def bmap_get_def)

lemma streams_start: "streams_ok reader nodes G request at (trace_start request admitted ad)"
  by (simp add: streams_ok_def eligible_ok_def) (simp add: trace_start_def)

subsection \<open>What a state reaches\<close>

lemma reached_links:
  assumes "map links_of (fr_states fr') = map links_of (fr_states fr)"
  shows "reached fr' i = reached fr i"
proof -
  note l = same_links [OF assms]
  then show ?thesis unfolding reached_def by metis
qed

lemma reached_handled:
  "(\<And>i. reached fr i \<Longrightarrow> reached fr' i) \<Longrightarrow> handled reader nodes G request at fr node e \<Longrightarrow>
     handled reader nodes G request at fr' node e"
  by (simp add: handled_def)

lemma reached_stream:
  "(\<And>i. reached fr i \<Longrightarrow> reached fr' i) \<Longrightarrow> stream_ok reader nodes G request at fr node ex \<Longrightarrow>
     stream_ok reader nodes G request at fr' node ex"
  unfolding stream_ok_def using reached_handled [of fr fr'] by blast

lemma begin_expansion_offsets:
  "begin_expansion i fr = Some (offset, resumed, fr') \<Longrightarrow> j < length (fr_states fr) \<Longrightarrow>
     px_adjacency_offset (fr_states fr' ! j) = px_adjacency_offset (fr_states fr ! j)"
  by (auto simp: begin_expansion_def Let_def nth_list_update split: if_splits)

lemma begin_visit_sel [simp]:
  "vi_frontier (begin_visit s fr node offset resumed) = fr" "vi_offset (begin_visit s fr node offset resumed) = offset"
  "vi_expansion (begin_visit s fr node offset resumed) = expansion_of s node"
  "vi_leaves (begin_visit s fr node offset resumed) = se_leaves s"
  "ad_budget (vi_admission (begin_visit s fr node offset resumed)) = ad_budget (se_admission s)"
  "ad_resolved_as_of (vi_admission (begin_visit s fr node offset resumed)) = ad_resolved_as_of (se_admission s)"
  by (simp_all add: begin_visit_def expansion_of_def Let_def)

lemma begin_visit_admission:
  "admission_ok cx nodes G (vi_admission (begin_visit s fr node offset resumed)) = admission_ok cx nodes G (se_admission s)"
  by (simp add: begin_visit_def admission_ok_def Let_def)

lemma expansion_of_frontier [simp]: "expansion_of (s\<lparr>se_frontier := fr\<rparr>) = expansion_of s"
  by (simp add: expansion_of_def fun_eq_iff)

text \<open>A popped state is visited from a state that keeps every invariant.\<close>

lemma begin_visit_ok:
  assumes ok: "search_ok reader nodes G request at s" and runs: "fr_stop (se_frontier s) = None"
    and pop: "frontier_pop (se_frontier s) = Some (Some (i, node, depth), fr0)"
    and depth: "depth \<noteq> unat (tl_depth (sq_limits request))"
  shows "\<exists>offset resumed fr1. begin_expansion i fr0 = Some (offset, resumed, fr1)
    \<and> full_ok reader nodes G request at i node (begin_visit (s\<lparr>se_frontier := fr0\<rparr>) fr1 node offset resumed)
    \<and> map links_of (fr_states fr1) = map links_of (fr_states (se_frontier s))
    \<and> (\<forall>j < length (fr_states (se_frontier s)).
         px_adjacency_offset (fr_states fr1 ! j) = px_adjacency_offset (fr_states (se_frontier s) ! j))
    \<and> waiting (fr_queue (se_frontier s)) = add_mset i (waiting (fr_queue fr1))
    \<and> fr_considered fr1 = fr_considered (se_frontier s)
    \<and> i < length (fr_states (se_frontier s)) \<and> node = node_at (fr_states (se_frontier s)) i"
proof -
  let ?fr = "se_frontier s"
  have frame: "admission_ok (context_of reader request) nodes G (se_admission s)" "ad_resolved_as_of (se_admission s) = at"
    "at_ok reader nodes G request at ?fr"
    using ok by (simp_all add: search_ok_def frame_ok_def)
  from frontier_pop_ok [OF frame(3)] pop have fr0: "at_ok reader nodes G request at fr0" "fr_states fr0 = fr_states ?fr"
    "fr_considered fr0 = fr_considered ?fr" "fr_stop fr0 = fr_stop ?fr" "i < length (fr_states ?fr)" "node = node_at (fr_states ?fr) i"
    "depth = px_depth (fr_states ?fr ! i)" "waiting (fr_queue ?fr) = add_mset i (waiting (fr_queue fr0))" by auto
  have i0: "i < length (fr_states fr0)" using fr0(2,5) by simp
  from begin_expansion_ok [OF fr0(1) i0] obtain fr1 where
    b: "begin_expansion i fr0 = Some (px_adjacency_offset (fr_states fr0 ! i), px_expansion_started (fr_states fr0 ! i), fr1)"
    and fr1: "at_ok reader nodes G request at fr1" "map links_of (fr_states fr1) = map links_of (fr_states fr0)"
      "fr_queue fr1 = fr_queue fr0" "fr_considered fr1 = fr_considered fr0" "fr_stop fr1 = fr_stop fr0" by auto
  let ?v = "begin_visit (s\<lparr>se_frontier := fr0\<rparr>) fr1 node (px_adjacency_offset (fr_states fr0 ! i)) (px_expansion_started (fr_states fr0 ! i))"
  have links: "map links_of (fr_states fr1) = map links_of (fr_states ?fr)" using fr1(2) fr0(2) by simp
  note l = same_links [OF links]
  have i1: "i < length (fr_states fr1)" using l(1) fr0(5) by simp
  have at_i: "px_node (fr_states fr1 ! i) = node" "px_depth (fr_states fr1 ! i) = depth"
    using l(2) [OF i1] fr0(6,7) by simp_all
  have "depth \<le> unat (tl_depth (sq_limits request))"
    using frame(3) fr0(5,7) by (simp add: frontier_ok_def admitted_ok_def)
  then have deep: "depth < unat (tl_depth (sq_limits request))" using depth by simp
  have "count (waiting (fr_queue ?fr)) i \<le> 1" using frame(3) by (simp add: frontier_ok_def queue_ok_def)
  then have "i \<notin># waiting (fr_queue fr1)" using fr0(8) fr1(3) by (simp add: not_in_iff)
  then have visiting: "visiting request i node fr1" using i1 at_i deep by (simp add: visiting_def)
  have streams: "expansion_ok (search_moves request) (expansion_of s node)"
    "eligible_ok reader nodes G request at node (expansion_of s node)"
    "stream_ok reader nodes G request at ?fr node (expansion_of s node)"
    using ok by (simp_all add: search_ok_def streams_ok_def)
  have "stream_ok reader nodes G request at fr1 node (expansion_of s node)"
    using reached_links [OF links] by (intro reached_stream [OF _ streams(3)]) simp
  moreover have "px_adjacency_offset (fr_states fr0 ! i) \<le> length (ne_eligible (expansion_of s node))"
    using ok fr0(2,5,6) by (simp add: search_ok_def offsets_ok_def)
  moreover have "stop_ok request fr1" using fr1(5) fr0(4) runs by (simp add: stop_ok_def)
  ultimately have "full_ok reader nodes G request at i node ?v"
    using frame(1,2) fr1(1,5) fr0(4) runs visiting streams
    by (simp add: full_ok_def visit_ok_def core_ok_def begin_visit_admission)
  moreover have "\<forall>j < length (fr_states ?fr). px_adjacency_offset (fr_states fr1 ! j) = px_adjacency_offset (fr_states ?fr ! j)"
    using begin_expansion_offsets [OF b] fr0(2) by simp
  ultimately show ?thesis using b links fr0 fr1 by simp
qed

text \<open>The end of a visit.\<close>

lemma resume_offsets:
  "resume i offset preferred fr = Some fr' \<Longrightarrow> j < length (fr_states fr) \<Longrightarrow>
     px_adjacency_offset (fr_states fr' ! j) = (if j = i then offset else px_adjacency_offset (fr_states fr ! j))"
  by (auto simp: resume_def Let_def nth_list_update split: if_splits)

definition resumes :: "visit \<Rightarrow> bool" where
  "resumes v \<longleftrightarrow> \<not> ne_complete (vi_expansion v) \<or> vi_offset v < length (ne_eligible (vi_expansion v))"

definition keeps :: "trace_search_request \<Rightarrow> visit \<Rightarrow> bool" where
  "keeps request v \<longleftrightarrow> alternatives request \<or> \<not> ne_complete (vi_expansion v)"

lemma end_visit_ok:
  assumes full: "full_ok reader nodes G request at i node v" and cache: "bmap_ok (se_cache s)"
  shows "\<exists>s'. end_visit request i node s v = Some s' \<and> bmap_ok (se_cache s')
    \<and> (\<forall>n. expansion_of s' n = (if n = node then if keeps request v then vi_expansion v else expansion_default else expansion_of s n))
    \<and> se_admission s' = vi_admission v \<and> se_stop s' = se_stop s \<and> se_depth_cut s' = se_depth_cut s
    \<and> at_ok reader nodes G request at (se_frontier s') \<and> fr_stop (se_frontier s') = None
    \<and> map links_of (fr_states (se_frontier s')) = map links_of (fr_states (vi_frontier v))
    \<and> (\<forall>j < length (fr_states (vi_frontier v)). px_adjacency_offset (fr_states (se_frontier s') ! j)
         = (if resumes v \<and> j = i then vi_offset v else px_adjacency_offset (fr_states (vi_frontier v) ! j)))
    \<and> waiting (fr_queue (se_frontier s')) = (if resumes v then add_mset i (waiting (fr_queue (vi_frontier v))) else waiting (fr_queue (vi_frontier v)))
    \<and> fr_considered (se_frontier s') = fr_considered (vi_frontier v)"
proof -
  let ?ex = "vi_expansion v" and ?fr = "vi_frontier v"
  define m where "m = (if keeps request v then bmap_insert node ?ex (bmap_remove node (se_cache s)) else bmap_remove node (se_cache s))"
  define s1 where "s1 = s\<lparr>se_admission := vi_admission v, se_leaves := vi_leaves v, se_cache := m\<rparr>"
  have fr: "at_ok reader nodes G request at ?fr" "fr_stop ?fr = None" "visiting request i node ?fr"
    using full by (simp_all add: full_ok_def visit_ok_def core_ok_def)
  have m_ok: "bmap_ok m" using cache by (simp add: m_def)
  have get: "bmap_get m n = (if n = node then if keeps request v then Some ?ex else None else bmap_get (se_cache s) n)" for n
    using cache by (simp add: m_def bmap_get_insert bmap_get_remove)
  have exp: "expansion_of (s1\<lparr>se_frontier := f\<rparr>) n = (if n = node then if keeps request v then ?ex else expansion_default else expansion_of s n)" for f n
    by (simp add: expansion_of_def s1_def get)
  have e: "end_visit request i node s v = (if resumes v
      then map_option (\<lambda>f. s1\<lparr>se_frontier := f\<rparr>) (resume i (vi_offset v) (preferred_at (vi_admission v) node) ?fr)
      else Some (s1\<lparr>se_frontier := ?fr\<rparr>))"
    by (simp add: end_visit_def Let_def resumes_def keeps_def s1_def m_def map_option_case)
  show ?thesis
  proof (cases "resumes v")
    case False
    then show ?thesis using e m_ok exp fr by (simp add: s1_def)
  next
    case True
    from resume_ok [OF fr(1), of i "vi_offset v" "preferred_at (vi_admission v) node"] fr(3) obtain f
      where f: "resume i (vi_offset v) (preferred_at (vi_admission v) node) ?fr = Some f" "at_ok reader nodes G request at f"
        "map links_of (fr_states f) = map links_of (fr_states ?fr)" "waiting (fr_queue f) = add_mset i (waiting (fr_queue ?fr))"
        "fr_considered f = fr_considered ?fr" "fr_stop f = fr_stop ?fr" unfolding visiting_def by blast
    with True show ?thesis using e m_ok exp fr resume_offsets [OF f(1)] by (simp add: s1_def)
  qed
qed

text \<open>A visit that ended well leaves a state of the search that keeps every invariant.\<close>

definition visit_end :: "trace_search_request \<Rightarrow> nat \<Rightarrow> string \<Rightarrow> search \<Rightarrow> visit \<Rightarrow> search \<Rightarrow> bool" where
  "visit_end request i node s v s' \<longleftrightarrow> bmap_ok (se_cache s')
     \<and> (\<forall>n. expansion_of s' n = (if n = node then if keeps request v then vi_expansion v else expansion_default else expansion_of s n))
     \<and> se_admission s' = vi_admission v \<and> se_stop s' = se_stop s \<and> se_depth_cut s' = se_depth_cut s
     \<and> map links_of (fr_states (se_frontier s')) = map links_of (fr_states (vi_frontier v))
     \<and> (\<forall>j < length (fr_states (vi_frontier v)). px_adjacency_offset (fr_states (se_frontier s') ! j)
          = (if resumes v \<and> j = i then vi_offset v else px_adjacency_offset (fr_states (vi_frontier v) ! j)))
     \<and> waiting (fr_queue (se_frontier s')) = (if resumes v then add_mset i (waiting (fr_queue (vi_frontier v))) else waiting (fr_queue (vi_frontier v)))
     \<and> fr_considered (se_frontier s') = fr_considered (vi_frontier v)"

definition visit_start :: "nat \<Rightarrow> string \<Rightarrow> search \<Rightarrow> visit \<Rightarrow> bool" where
  "visit_start i node s v \<longleftrightarrow> vi_expansion v = expansion_of s node
     \<and> map links_of (fr_states (vi_frontier v)) = map links_of (fr_states (se_frontier s))
     \<and> (\<forall>j < length (fr_states (se_frontier s)).
         px_adjacency_offset (fr_states (vi_frontier v) ! j) = px_adjacency_offset (fr_states (se_frontier s) ! j))
     \<and> waiting (fr_queue (se_frontier s)) = add_mset i (waiting (fr_queue (vi_frontier v)))
     \<and> fr_considered (vi_frontier v) = fr_considered (se_frontier s)
     \<and> ad_budget (vi_admission v) = ad_budget (se_admission s)
     \<and> i < length (fr_states (se_frontier s)) \<and> node = node_at (fr_states (se_frontier s)) i"

lemma later_grown: "later v v' \<Longrightarrow> grown (vi_frontier v) (vi_frontier v')"
  by (simp add: later_def)

lemma visit_start_reached: "visit_start i node s v \<Longrightarrow> reached (vi_frontier v) n = reached (se_frontier s) n"
  by (rule reached_links) (simp add: visit_start_def)

lemma visit_end_reached: "visit_end request i node s v s' \<Longrightarrow> reached (se_frontier s') n = reached (vi_frontier v) n"
  by (rule reached_links) (simp add: visit_end_def)

lemma visit_reached:
  assumes "visit_start i node s v0" and "later v0 v" and "visit_end request i node s v s'" and "reached (se_frontier s) n"
  shows "reached (se_frontier s') n"
proof -
  have "reached (vi_frontier v0) n" using assms(4) visit_start_reached [OF assms(1)] by simp
  then have "reached (vi_frontier v) n" by (rule grown_reached [OF later_grown [OF assms(2)]])
  then show ?thesis using visit_end_reached [OF assms(3)] by simp
qed

lemma visit_states:
  assumes start: "visit_start i node s v0" and later: "later v0 v" and fin: "visit_end request i node s v s'"
    and j: "j < length (fr_states (se_frontier s))"
  shows "j < length (fr_states (se_frontier s'))" "node_at (fr_states (se_frontier s')) j = node_at (fr_states (se_frontier s)) j"
    "px_adjacency_offset (fr_states (vi_frontier v) ! j) = px_adjacency_offset (fr_states (se_frontier s) ! j)"
proof -
  have l0: "map links_of (fr_states (vi_frontier v0)) = map links_of (fr_states (se_frontier s))"
    and l1: "map links_of (fr_states (se_frontier s')) = map links_of (fr_states (vi_frontier v))"
    and o0: "px_adjacency_offset (fr_states (vi_frontier v0) ! j) = px_adjacency_offset (fr_states (se_frontier s) ! j)"
    using start fin j by (simp_all add: visit_start_def visit_end_def)
  have g: "grown (vi_frontier v0) (vi_frontier v)" using later by (simp add: later_def)
  have j0: "j < length (fr_states (vi_frontier v0))" using same_links(1) [OF l0] j by simp
  note gs = grown_states [OF g j0]
  show j': "j < length (fr_states (se_frontier s'))" using gs(1) same_links(1) [OF l1] by simp
  show "node_at (fr_states (se_frontier s')) j = node_at (fr_states (se_frontier s)) j"
    using same_links(2) [OF l1 j'] same_links(2) [OF l0 j0] gs(2) by simp
  show "px_adjacency_offset (fr_states (vi_frontier v) ! j) = px_adjacency_offset (fr_states (se_frontier s) ! j)"
    using gs(2) o0 by simp
qed

lemma visit_new_states:
  assumes start: "visit_start i node s v0" and later: "later v0 v" and fin: "visit_end request i node s v s'"
    and j: "j < length (fr_states (se_frontier s'))" "\<not> j < length (fr_states (se_frontier s))"
  shows "j \<in># waiting (fr_queue (se_frontier s'))" "px_adjacency_offset (fr_states (vi_frontier v) ! j) = 0"
    "j < length (fr_states (vi_frontier v))"
proof -
  obtain xs where xs: "fr_states (vi_frontier v) = fr_states (vi_frontier v0) @ xs" "\<forall>x \<in> set xs. px_adjacency_offset x = 0"
    "waiting (fr_queue (vi_frontier v)) = waiting (fr_queue (vi_frontier v0))
       + mset [length (fr_states (vi_frontier v0))..<length (fr_states (vi_frontier v0) @ xs)]"
    using later unfolding later_def grown_def by blast
  have len0: "length (fr_states (vi_frontier v0)) = length (fr_states (se_frontier s))"
    using start by (intro same_links(1)) (simp add: visit_start_def)
  have len1: "length (fr_states (se_frontier s')) = length (fr_states (vi_frontier v))"
    using fin by (intro same_links(1)) (simp add: visit_end_def)
  have "j \<in># waiting (fr_queue (vi_frontier v))" using j xs len0 len1 by simp
  then show "j \<in># waiting (fr_queue (se_frontier s'))" using fin by (simp add: visit_end_def)
  show "j < length (fr_states (vi_frontier v))" using j len1 by simp
  show "px_adjacency_offset (fr_states (vi_frontier v) ! j) = 0"
    using j xs len0 len1 by (simp add: nth_append)
qed

lemma kept_when_resumed:
  assumes "full_ok reader nodes G request at i node v" and "resumes v"
  shows "keeps request v"
  using assms by (auto simp: full_ok_def visit_ok_def eligible_ok_def resumes_def keeps_def)

lemma visit_offsets:
  assumes ok: "search_ok reader nodes G request at s" and start: "visit_start i node s v0" and later: "later v0 v"
    and fin: "visit_end request i node s v s'" and full: "full_ok reader nodes G request at i node v"
  shows "offsets_ok s'"
  unfolding offsets_ok_def
proof (intro allI impI)
  fix j assume j: "j < length (fr_states (se_frontier s'))"
  have exp: "expansion_of s' n = (if n = node then if keeps request v then vi_expansion v else expansion_default else expansion_of s n)" for n
    using fin by (simp add: visit_end_def)
  have lenv: "length (fr_states (se_frontier s')) = length (fr_states (vi_frontier v))"
    using fin by (intro same_links(1)) (simp add: visit_end_def)
  have off: "px_adjacency_offset (fr_states (se_frontier s') ! j)
      = (if resumes v \<and> j = i then vi_offset v else px_adjacency_offset (fr_states (vi_frontier v) ! j))"
    using fin j lenv by (simp add: visit_end_def)
  show "px_adjacency_offset (fr_states (se_frontier s') ! j)
      \<le> length (ne_eligible (expansion_of s' (node_at (fr_states (se_frontier s')) j)))"
  proof (cases "j < length (fr_states (se_frontier s))")
    case False
    have "j \<noteq> i" using False start by (auto simp: visit_start_def)
    then show ?thesis using off visit_new_states(2) [OF start later fin j False] by simp
  next
    case True
    note st = visit_states [OF start later fin True]
    show ?thesis
    proof (cases "resumes v \<and> j = i")
      case r: True
      then have "node_at (fr_states (se_frontier s')) j = node" using st(2) start by (simp add: visit_start_def)
      then show ?thesis using off r exp kept_when_resumed [OF full] full by (simp add: full_ok_def)
    next
      case False
      have "px_adjacency_offset (fr_states (se_frontier s') ! j) = px_adjacency_offset (fr_states (se_frontier s) ! j)"
        using off False st(3) by simp
      moreover have "px_adjacency_offset (fr_states (se_frontier s) ! j)
          \<le> length (ne_eligible (expansion_of s (node_at (fr_states (se_frontier s)) j)))"
        using ok True by (simp add: search_ok_def offsets_ok_def)
      moreover have "length (ne_eligible (expansion_of s node)) \<le> length (ne_eligible (expansion_of s' node))"
      proof (cases "keeps request v")
        case True
        then show ?thesis using later start exp by (simp add: later_def visit_start_def)
      next
        case False
        then have "eligible_ok reader nodes G request at node (expansion_of s node)" "\<not> alternatives request"
          using ok by (simp_all add: search_ok_def streams_ok_def keeps_def)
        then show ?thesis by (simp add: eligible_ok_def)
      qed
      ultimately show ?thesis using st(2) exp by (cases "node_at (fr_states (se_frontier s)) j = node") auto
    qed
  qed
qed

lemma visit_settled:
  assumes ok: "search_ok reader nodes G request at s" and start: "visit_start i node s v0" and later: "later v0 v"
    and fin: "visit_end request i node s v s'" and full: "full_ok reader nodes G request at i node v"
    and j: "j < length (fr_states (se_frontier s'))"
  shows "settled reader nodes G request at s' j"
proof (cases "j < length (fr_states (se_frontier s))")
  case False
  then show ?thesis using visit_new_states(1) [OF start later fin j] by (simp add: settled_def)
next
  case True
  note st = visit_states [OF start later fin True]
  have more: "handled reader nodes G request at (se_frontier s') n e" if "handled reader nodes G request at (se_frontier s) n e" for n e
    using reached_handled [OF visit_reached [OF start later fin] that] .
  have old: "settled reader nodes G request at s j" using ok True by (simp add: search_ok_def)
  show ?thesis
  proof (cases "j = i")
    case True
    then have node: "node_at (fr_states (se_frontier s')) j = node" using st(2) start by (simp add: visit_start_def)
    show ?thesis
    proof (cases "resumes v")
      case True
      then show ?thesis using fin \<open>j = i\<close> by (simp add: settled_def visit_end_def)
    next
      case False
      then have complete: "ne_complete (vi_expansion v)" by (simp add: resumes_def)
      have "handled reader nodes G request at (se_frontier s') node e" if "e \<in> set (all_rows G (search_moves request) node)" for e
      proof (rule reached_handled)
        show "handled reader nodes G request at (vi_frontier v) node e"
          using full stream_complete [OF _ _ complete that] by (simp add: full_ok_def)
        show "reached (se_frontier s') n" if "reached (vi_frontier v) n" for n
          using that visit_end_reached [OF fin] by simp
      qed
      then show ?thesis by (simp add: settled_def node)
    qed
  next
    case False
    have "j \<in># waiting (fr_queue (se_frontier s'))" if "j \<in># waiting (fr_queue (se_frontier s))"
    proof -
      have "j \<in># waiting (fr_queue (vi_frontier v0))" using that False start by (simp add: visit_start_def)
      moreover have "j < length (fr_states (vi_frontier v0))"
        using \<open>j < length (fr_states (se_frontier s))\<close> same_links(1) [of "fr_states (vi_frontier v0)" "fr_states (se_frontier s)"] start
        by (simp add: visit_start_def)
      ultimately have "j \<in># waiting (fr_queue (vi_frontier v))" using grown_states(3) [OF later_grown [OF later]] by blast
      then show ?thesis using fin by (simp add: visit_end_def)
    qed
    then show ?thesis using old more fin unfolding settled_def st(2) by (auto simp: visit_end_def)
  qed
qed

lemma visit_streams:
  assumes ok: "search_ok reader nodes G request at s" and start: "visit_start i node s v0" and later: "later v0 v"
    and fin: "visit_end request i node s v s'" and full: "full_ok reader nodes G request at i node v"
  shows "streams_ok reader nodes G request at s'"
proof -
  have exp: "expansion_of s' n = (if n = node then if keeps request v then vi_expansion v else expansion_default else expansion_of s n)" for n
    using fin by (simp add: visit_end_def)
  have v: "expansion_ok (search_moves request) (vi_expansion v)" "eligible_ok reader nodes G request at node (vi_expansion v)"
    using full by (simp_all add: full_ok_def visit_ok_def)
  have "stream_ok reader nodes G request at (vi_frontier v) node (vi_expansion v)" using full by (simp add: full_ok_def)
  then have sv: "stream_ok reader nodes G request at (se_frontier s') node (vi_expansion v)"
    by (rule reached_stream [rotated]) (simp add: visit_end_reached [OF fin])
  have old: "stream_ok reader nodes G request at (se_frontier s) n (expansion_of s n)" for n
    using ok unfolding search_ok_def streams_ok_def by blast
  have "stream_ok reader nodes G request at (se_frontier s') n (expansion_of s n)" for n
    by (rule reached_stream [OF visit_reached [OF start later fin] old])
  with v sv ok fin show ?thesis
    by (simp add: streams_ok_def exp search_ok_def visit_end_def eligible_ok_def [of _ _ _ _ _ _ expansion_default])
qed

text \<open>A visit makes the search smaller: a state considered, a row read, or a move or a state less
  to wait for.\<close>

lemma sum_mset_le: "(\<And>i. i \<in># W \<Longrightarrow> (f i :: nat) \<le> g i) \<Longrightarrow> (\<Sum>i \<in># W. f i) \<le> (\<Sum>i \<in># W. g i)"
  by (induction W) (auto intro: add_mono)

lemma visit_load:
  assumes ok: "search_ok reader nodes G request at s" and bounds: "request_bounds request" and start: "visit_start i node s v0"
    and visited: "visited_ok reader nodes G request at i node v0 True v" and fin: "visit_end request i node s v s'"
    and same: "fr_considered (vi_frontier v) = fr_considered (vi_frontier v0)"
      "unat (rb_scanned (ad_budget (vi_admission v))) = unat (rb_scanned (ad_budget (vi_admission v0)))"
  shows "load request s' < load request s"
proof -
  let ?left = "\<lambda>s i. Suc (moves_left (search_moves request) (expansion_of s (node_at (fr_states (se_frontier s)) i)))"
  let ?W = "waiting (fr_queue (vi_frontier v0))"
  have later: "later v0 v" and full: "full_ok reader nodes G request at i node v"
    and left: "moves_left (search_moves request) (vi_expansion v) \<le> moves_left (search_moves request) (vi_expansion v0)"
    and prog: "further request v0 v \<or> ne_complete (vi_expansion v) \<and> vi_offset v = length (ne_eligible (vi_expansion v))"
    using visited by (simp_all add: visited_ok_def)
  obtain xs where xs: "waiting (fr_queue (vi_frontier v)) = ?W + mset [length (fr_states (vi_frontier v0))..<length (fr_states (vi_frontier v0) @ xs)]"
    "fr_considered (vi_frontier v0) + length xs \<le> fr_considered (vi_frontier v)"
    using later unfolding later_def grown_def by blast
  have Wv: "waiting (fr_queue (vi_frontier v)) = ?W" using xs same(1) by simp
  have W: "waiting (fr_queue (se_frontier s)) = add_mset i ?W" using start by (simp add: visit_start_def)
  have frame: "at_ok reader nodes G request at (se_frontier s)" using ok by (simp add: search_ok_def frame_ok_def)
  have Wlen: "j < length (fr_states (se_frontier s))" and Wi: "j \<noteq> i" if "j \<in># ?W" for j
  proof -
    have once: "\<forall>i. count (waiting (fr_queue (se_frontier s))) i \<le> 1"
      and inside: "set_mset (waiting (fr_queue (se_frontier s))) \<subseteq> {..<length (fr_states (se_frontier s))}"
      using frame by (simp_all add: frontier_ok_def queue_ok_def)
    have "count ?W i = 0" using once [rule_format, of i] W by simp
    then show "j \<noteq> i" using that by (auto simp: count_eq_zero_iff)
    show "j < length (fr_states (se_frontier s))" using inside that W by auto
  qed
  have exp: "expansion_of s' n = (if n = node then if keeps request v then vi_expansion v else expansion_default else expansion_of s n)" for n
    using fin by (simp add: visit_end_def)
  have at_i: "node_at (fr_states (se_frontier s)) i = node" "i < length (fr_states (se_frontier s))"
    and ex0: "vi_expansion v0 = expansion_of s node" using start by (simp_all add: visit_start_def)
  have le: "?left s' j \<le> ?left s j" if j: "j \<in># ?W" for j
  proof -
    have n: "node_at (fr_states (se_frontier s')) j = node_at (fr_states (se_frontier s)) j"
      by (rule visit_states(2) [OF start later fin Wlen [OF j]])
    have "keeps request v" if "node_at (fr_states (se_frontier s)) j = node"
    proof (rule ccontr)
      assume "\<not> keeps request v"
      then have "\<not> 1 < sq_paths_per_target request" by (simp add: keeps_def alternatives_def)
      then have "sq_paths_per_target request = 1" using bounds
        by (simp add: request_bounds_def word_less_nat_alt word_unat_eq_iff)
      then have "distinct (map px_node (fr_states (se_frontier s)))" using frame by (simp add: frontier_ok_def paths_ok_def)
      then have "j = i" using Wlen [OF j] at_i that by (simp add: distinct_conv_nth) metis
      then show False using Wi [OF j] by simp
    qed
    then show ?thesis using n left ex0 exp by auto
  qed
  have sum: "(\<Sum>j \<in># ?W. ?left s' j) \<le> (\<Sum>j \<in># ?W. ?left s j)" by (rule sum_mset_le [OF le])
  have load: "load request s = ?left s i + (\<Sum>j \<in># ?W. ?left s j)" by (simp add: load_def W)
  show ?thesis
  proof (cases "resumes v")
    case True
    then have W': "waiting (fr_queue (se_frontier s')) = add_mset i ?W" using fin Wv by (simp add: visit_end_def)
    have "further request v0 v" using prog True by (auto simp: resumes_def)
    then have "moves_left (search_moves request) (vi_expansion v) < moves_left (search_moves request) (vi_expansion v0)"
      using same by (simp add: further_def)
    then have "?left s' i < ?left s i"
      using exp kept_when_resumed [OF full True] visit_states(2) [OF start later fin at_i(2)] at_i(1) ex0 by simp
    then show ?thesis using sum load by (simp add: load_def W')
  next
    case False
    then have "waiting (fr_queue (se_frontier s')) = ?W" using fin Wv by (simp add: visit_end_def)
    then show ?thesis using sum load by (simp add: load_def)
  qed
qed

lemma visit_less:
  assumes ok: "search_ok reader nodes G request at s" and bounds: "request_bounds request" and start: "visit_start i node s v0"
    and visited: "visited_ok reader nodes G request at i node v0 True v" and fin: "visit_end request i node s v s'"
  shows "search_less request s' s"
proof -
  have later: "later v0 v" and core: "core_ok reader nodes G request at v"
    using visited by (simp_all add: visited_ok_def full_ok_def visit_ok_def)
  have c: "fr_considered (se_frontier s') = fr_considered (vi_frontier v)" "se_admission s' = vi_admission v"
    using fin by (simp_all add: visit_end_def)
  have c0: "fr_considered (vi_frontier v0) = fr_considered (se_frontier s)" "ad_budget (vi_admission v0) = ad_budget (se_admission s)"
    using start by (simp_all add: visit_start_def)
  have mono: "fr_considered (vi_frontier v0) \<le> fr_considered (vi_frontier v)"
    "unat (rb_scanned (ad_budget (vi_admission v0))) \<le> unat (rb_scanned (ad_budget (vi_admission v)))"
    using later_considered [OF later] later by (simp_all add: later_def)
  show ?thesis
    using visit_load [OF ok bounds start visited fin] core_bounds [OF core] mono c c0
    by (auto simp: search_less_def considered_left_def rows_left_def)
qed

subsection \<open>The loop\<close>

definition ended :: "snapshot_reader \<Rightarrow> (string \<Rightarrow> node_projection option) \<Rightarrow> node_relation_projection list
    \<Rightarrow> trace_search_request \<Rightarrow> string option \<Rightarrow> search \<Rightarrow> search \<Rightarrow> bool" where
  "ended reader nodes G request at s s' \<longleftrightarrow> frame_ok reader nodes G request at s'
     \<and> (\<forall>i. reached (se_frontier s) i \<longrightarrow> reached (se_frontier s') i)
     \<and> (\<not> search_runs s' \<or> search_ok reader nodes G request at s' \<and> waiting (fr_queue (se_frontier s')) = {#}
          \<and> se_stop s' = (if se_depth_cut s' then DepthBudget else se_stop s))"

lemma ended_extends: "extends s s1 \<Longrightarrow> ended reader nodes G request at s1 s' \<Longrightarrow> ended reader nodes G request at s s'"
  by (simp add: ended_def extends_def)

definition stepped :: "snapshot_reader \<Rightarrow> (string \<Rightarrow> node_projection option) \<Rightarrow> node_relation_projection list
    \<Rightarrow> trace_search_request \<Rightarrow> string option \<Rightarrow> search \<Rightarrow> bool \<Rightarrow> search \<Rightarrow> bool" where
  "stepped reader nodes G request at s go s' \<longleftrightarrow>
     (if go then search_ok reader nodes G request at s' \<and> search_less request s' s \<and> extends s s'
      else ended reader nodes G request at s s')"

lemma visit_state_ok:
  assumes store: "snapshot_of reader nodes G" and bounds: "request_bounds request" and typed: "typed_request request"
    and ok: "search_ok reader nodes G request at s" and runs: "search_runs s"
    and pop: "frontier_pop (se_frontier s) = Some (Some (i, node, depth), fr0)"
    and depth: "depth \<noteq> unat (tl_depth (sq_limits request))"
  shows "\<exists>r. visit_state request (context_of reader request) (search_moves request) i node (s\<lparr>se_frontier := fr0\<rparr>) = Some r
    \<and> (\<forall>go s'. r = Inr (go, s') \<longrightarrow> stepped reader nodes G request at s go s')"
proof -
  let ?cx = "context_of reader request" and ?moves = "search_moves request" and ?s0 = "s\<lparr>se_frontier := fr0\<rparr>"
  have stop: "fr_stop (se_frontier s) = None" using runs by (simp add: search_runs_def)
  from begin_visit_ok [OF ok stop pop depth] obtain offset resumed fr1
    where b: "begin_expansion i fr0 = Some (offset, resumed, fr1)"
      and v0_ok: "full_ok reader nodes G request at i node (begin_visit ?s0 fr1 node offset resumed)"
      and st: "map links_of (fr_states fr1) = map links_of (fr_states (se_frontier s))
        \<and> (\<forall>j < length (fr_states (se_frontier s)).
             px_adjacency_offset (fr_states fr1 ! j) = px_adjacency_offset (fr_states (se_frontier s) ! j))
        \<and> waiting (fr_queue (se_frontier s)) = add_mset i (waiting (fr_queue fr1))
        \<and> fr_considered fr1 = fr_considered (se_frontier s)
        \<and> i < length (fr_states (se_frontier s)) \<and> node = node_at (fr_states (se_frontier s)) i" by (elim exE conjE) simp
  define v0 where "v0 = begin_visit ?s0 fr1 node offset resumed"
  have start: "visit_start i node s v0" using st by (simp add: visit_start_def v0_def)
  from visit_loop_ok [OF store bounds typed v0_ok, folded v0_def] obtain r
    where r: "visit_loop request ?cx ?moves i node v0 = Some r"
      and visited: "\<forall>go v'. r = Inr (go, v') \<longrightarrow> visited_ok reader nodes G request at i node v0 go v'" by (elim exE conjE)
  show ?thesis
  proof (cases r)
    case (Inl e)
    with b r show ?thesis by (simp add: visit_state_def v0_def Let_def)
  next
    case (Inr p)
    obtain go v where p: "p = (go, v)" by fastforce
    note vis = visited [rule_format, OF Inr [unfolded p]]
    have later: "later v0 v" using vis by (simp add: visited_ok_def)
    define e where "e = se_expanded s + of_bool (bmap_get (se_cache s) node = None)"
    show ?thesis
    proof (cases go)
      case False
      let ?s' = "?s0\<lparr>se_expanded := e, se_admission := vi_admission v, se_frontier := vi_frontier v, se_leaves := vi_leaves v\<rparr>"
      have core: "core_ok reader nodes G request at v" "stopped v" using vis False by (simp_all add: visited_ok_def)
      have reach: "reached (vi_frontier v) n" if "reached (se_frontier s) n" for n
        using that visit_start_reached [OF start] grown_reached [OF later_grown [OF later]] by simp
      have "frame_ok reader nodes G request at ?s'" using core by (simp add: core_ok_def frame_ok_def)
      moreover have "\<not> search_runs ?s'" using core(2) by (auto simp: stopped_def search_runs_def)
      ultimately have "ended reader nodes G request at s ?s'" using reach by (simp add: ended_def)
      moreover have "visit_state request ?cx ?moves i node ?s0 = Some (Inr (False, ?s'))"
        using b r Inr p False by (simp add: visit_state_def v0_def [symmetric] e_def Let_def)
      ultimately show ?thesis by (simp add: stepped_def)
    next
      case True
      let ?s1 = "?s0\<lparr>se_expanded := e\<rparr>"
      have full: "full_ok reader nodes G request at i node v" using vis True by (simp add: visited_ok_def)
      have cache: "bmap_ok (se_cache ?s1)" using ok by (simp add: search_ok_def streams_ok_def)
      have exp1: "expansion_of ?s1 n = expansion_of s n" for n by (simp add: expansion_of_def)
      from end_visit_ok [OF full cache] obtain s' where e': "end_visit request i node ?s1 v = Some s'"
        and fr': "at_ok reader nodes G request at (se_frontier s')" "fr_stop (se_frontier s') = None"
        and rest: "bmap_ok (se_cache s')
          \<and> (\<forall>n. expansion_of s' n = (if n = node then if keeps request v then vi_expansion v else expansion_default else expansion_of ?s1 n))
          \<and> se_admission s' = vi_admission v \<and> se_stop s' = se_stop ?s1 \<and> se_depth_cut s' = se_depth_cut ?s1
          \<and> map links_of (fr_states (se_frontier s')) = map links_of (fr_states (vi_frontier v))
          \<and> (\<forall>j < length (fr_states (vi_frontier v)). px_adjacency_offset (fr_states (se_frontier s') ! j)
               = (if resumes v \<and> j = i then vi_offset v else px_adjacency_offset (fr_states (vi_frontier v) ! j)))
          \<and> waiting (fr_queue (se_frontier s')) = (if resumes v then add_mset i (waiting (fr_queue (vi_frontier v))) else waiting (fr_queue (vi_frontier v)))
          \<and> fr_considered (se_frontier s') = fr_considered (vi_frontier v)" by (elim exE conjE) simp
      have fin: "visit_end request i node s v s'" using rest by (simp add: visit_end_def exp1)
      have "frame_ok reader nodes G request at s'"
        using full fr' fin by (simp add: frame_ok_def full_ok_def visit_ok_def core_ok_def visit_end_def stop_ok_def)
      then have "search_ok reader nodes G request at s'"
        using visit_streams [OF ok start later fin full] visit_offsets [OF ok start later fin full]
          visit_settled [OF ok start later fin full] by (simp add: search_ok_def)
      moreover have "search_less request s' s" using visit_less [OF ok bounds start _ fin] vis True by simp
      moreover have "extends s s'" using visit_reached [OF start later fin] fin by (simp add: extends_def visit_end_def)
      moreover have "visit_state request ?cx ?moves i node ?s0 = Some (Inr (True, s'))"
        using b r Inr p True e' by (simp add: visit_state_def v0_def [symmetric] e_def Let_def)
      ultimately show ?thesis by (simp add: stepped_def)
    qed
  qed
qed

lemma search_step_ok:
  assumes store: "snapshot_of reader nodes G" and bounds: "request_bounds request" and typed: "typed_request request"
    and ok: "search_ok reader nodes G request at s" and runs: "search_runs s"
  shows "\<exists>r. search_step request (context_of reader request) (search_moves request) s = Some r
    \<and> (\<forall>go s'. r = Inr (go, s') \<longrightarrow> stepped reader nodes G request at s go s')"
proof -
  have frame: "at_ok reader nodes G request at (se_frontier s)" "frame_ok reader nodes G request at s"
    using ok by (simp_all add: search_ok_def frame_ok_def)
  obtain p fr0 where pop: "frontier_pop (se_frontier s) = Some (p, fr0)"
    and fr0: "at_ok reader nodes G request at fr0" "fr_states fr0 = fr_states (se_frontier s)"
      "fr_found fr0 = fr_found (se_frontier s)"
      "fr_considered fr0 = fr_considered (se_frontier s)" "fr_stop fr0 = fr_stop (se_frontier s)"
    and p: "case p of None \<Rightarrow> waiting (fr_queue (se_frontier s)) = {#} \<and> waiting (fr_queue fr0) = {#}
       | Some (index, node, depth) \<Rightarrow> index < length (fr_states (se_frontier s)) \<and> node = node_at (fr_states (se_frontier s)) index
           \<and> depth = px_depth (fr_states (se_frontier s) ! index)
           \<and> waiting (fr_queue (se_frontier s)) = add_mset index (waiting (fr_queue fr0))"
    using frontier_pop_ok [OF frame(1)] by blast
  have same: "reached fr0 = reached (se_frontier s)" by (simp add: reached_def fun_eq_iff fr0(2))
  have frame0: "frame_ok reader nodes G request at (s\<lparr>se_frontier := fr0, se_stop := x, se_depth_cut := c\<rparr>)" for x c
    using frame(2) fr0 by (simp add: frame_ok_def stop_ok_def)
  have handled: "handled reader nodes G request at fr0 = handled reader nodes G request at (se_frontier s)"
    by (simp add: handled_def fun_eq_iff same)
  have rest: "streams_ok reader nodes G request at (s\<lparr>se_frontier := fr0, se_stop := x, se_depth_cut := c\<rparr>)
      \<and> offsets_ok (s\<lparr>se_frontier := fr0, se_stop := x, se_depth_cut := c\<rparr>)" for x c
    using ok fr0(2) by (simp add: search_ok_def streams_ok_def offsets_ok_def stream_ok_def handled expansion_of_def)
  show ?thesis
  proof (cases p)
    case None
    let ?s' = "s\<lparr>se_frontier := fr0, se_stop := if se_depth_cut s then DepthBudget else se_stop s\<rparr>"
    have s': "?s' = s\<lparr>se_frontier := fr0, se_stop := if se_depth_cut s then DepthBudget else se_stop s, se_depth_cut := se_depth_cut s\<rparr>"
      by simp
    have "settled reader nodes G request at ?s' i" if "i < length (fr_states fr0)" for i
      using ok that fr0(2) p None by (simp add: search_ok_def settled_def handled)
    then have "ended reader nodes G request at s ?s'"
      using frame0 [of "se_depth_cut s" "if se_depth_cut s then DepthBudget else se_stop s"]
        rest [of "se_depth_cut s" "if se_depth_cut s then DepthBudget else se_stop s"] p None
      unfolding s' [symmetric] by (simp add: ended_def search_ok_def same)
    then show ?thesis using pop None by (simp add: search_step_def stepped_def)
  next
    case (Some q)
    obtain i node depth where q: "q = (i, node, depth)" by (cases q) auto
    note p' = p [unfolded Some q, simplified]
    show ?thesis
    proof (cases "depth = unat (tl_depth (sq_limits request))")
      case False
      from visit_state_ok [OF store bounds typed ok runs pop [unfolded Some q] False] pop Some q False show ?thesis
        by (simp add: search_step_def)
    next
      case True
      let ?s' = "s\<lparr>se_frontier := fr0, se_depth_cut := True\<rparr>"
      have s': "?s' = s\<lparr>se_frontier := fr0, se_stop := se_stop s, se_depth_cut := True\<rparr>" by simp
      have "search_ok reader nodes G request at ?s'"
        using frame0 [of True "se_stop s"] rest [of True "se_stop s"] unfolding s' [symmetric]
        by (simp add: search_ok_def settled_def)
      moreover have "load request ?s' < load request s"
        using p' fr0(2) by (simp add: load_def expansion_of_def)
      then have "search_less request ?s' s"
        using fr0(4) by (simp add: search_less_def considered_left_def rows_left_def)
      moreover have "extends s ?s'" by (simp add: extends_def same)
      moreover have "search_step request (context_of reader request) (search_moves request) s = Some (Inr (True, ?s'))"
        using pop Some q True by (simp add: search_step_def)
      ultimately show ?thesis by (simp add: stepped_def)
    qed
  qed
qed

lemma trace_loop_ok:
  assumes store: "snapshot_of reader nodes G" and bounds: "request_bounds request" and typed: "typed_request request"
    and "search_ok reader nodes G request at s"
  shows "\<exists>r. trace_loop request (context_of reader request) (search_moves request) s = Some r
    \<and> (\<forall>s'. r = Inr s' \<longrightarrow> ended reader nodes G request at s s')"
  using assms(4)
proof (induction s rule: wf_induct_rule [OF wf_search_less [of request]])
  case (1 s)
  let ?loop = "trace_loop request (context_of reader request) (search_moves request)"
  show ?case
  proof (cases "search_runs s")
    case False
    with "1.prems" show ?thesis by (subst trace_loop.simps) (simp add: ended_def search_ok_def)
  next
    case True
    obtain r where r: "search_step request (context_of reader request) (search_moves request) s = Some r"
      and step: "\<forall>go s'. r = Inr (go, s') \<longrightarrow> stepped reader nodes G request at s go s'"
      using search_step_ok [OF store bounds typed "1.prems" True] by (elim exE conjE)
    show ?thesis
    proof (cases r)
      case (Inl e)
      with r True show ?thesis by (subst trace_loop.simps) simp
    next
      case (Inr p)
      obtain go s1 where p: "p = (go, s1)" by fastforce
      note st = step [rule_format, OF Inr [unfolded p]]
      show ?thesis
      proof (cases go)
        case False
        with r Inr p True st show ?thesis by (subst trace_loop.simps) (simp add: stepped_def)
      next
        case go: True
        then have s1: "search_ok reader nodes G request at s1" "search_less request s1 s" "extends s s1"
          using st by (simp_all add: stepped_def)
        have "(s1, s) \<in> {(s', s). search_less request s' s}" using s1(2) by simp
        from "1.IH" [OF this s1(1)] obtain r2 where r2: "?loop s1 = Some r2"
          "\<forall>s'. r2 = Inr s' \<longrightarrow> ended reader nodes G request at s1 s'" by (elim exE conjE)
        moreover have "?loop s = ?loop s1" using r Inr p True go by (subst trace_loop.simps) simp
        ultimately show ?thesis using ended_extends [OF s1(3)] by simp
      qed
    qed
  qed
qed

end
