(* ===== verification/TraceAnswers.thy ===== *)
theory TraceAnswers
  imports TraceSearchGuarantees
begin

text \<open>
  The answers of a bounded trace search over a snapshot of a stored graph: it returns without a
  panic; its routes walk from the source to a destination, without a repeated entry, along
  stored, evidenced links of the read's window between admissible entries; each destination
  has a route or is reported unreached; an exhausted frontier proves that the unreached ones
  cannot be reached by such links; and the work stays inside the limits.
\<close>

subsection \<open>From the root to the answer\<close>

lemma search_root_ok:
  assumes store: "snapshot_of reader nodes G"
  shows "\<exists>r. search_root request (context_of reader request) = Some r
    \<and> (\<forall>resolved admitted ad. r = Inr (resolved, admitted, ad) \<longrightarrow>
         admission_ok (context_of reader request) nodes G ad
         \<and> (admitted \<longrightarrow> entry_at reader nodes G request (ad_resolved_as_of ad) (sq_from request)))"
proof -
  let ?cx = "context_of reader request"
  have store': "snapshot_of (ac_reader ?cx) nodes G" using store by simp
  show ?thesis
  proof (cases "is_owned ?cx (sq_from request) (admission_new ?cx)")
    case (Inl e)
    then show ?thesis by (simp add: search_root_def)
  next
    case (Inr p)
    obtain owned ad1 where p: "p = (owned, ad1)" by fastforce
    note own = is_owned_ok [OF store' admission_new_ok Inr [unfolded p]]
    show ?thesis
    proof (cases owned)
      case False
      with Inr p show ?thesis by (simp add: search_root_def)
    next
      case o': True
      have "ad_admitted ad1 = []" using own by (simp add: admission_new_def)
      from resolve_cut_ok [OF store' _ this] own obtain r2 where r2: "resolve_cut ?cx ad1 = Some r2"
        and cut: "\<forall>resolved ad'. r2 = Inr (resolved, ad') \<longrightarrow> admission_ok ?cx nodes G ad' \<and> ad_admitted ad' = []
          \<and> (rb_stop (ad_budget ad') = None \<longrightarrow> resolved)" by blast
      show ?thesis
      proof (cases r2)
        case (Inl e)
        with Inr p o' r2 show ?thesis by (simp add: search_root_def)
      next
        case i2: (Inr q)
        obtain resolved ad2 where q: "q = (resolved, ad2)" by fastforce
        note cut' = cut [rule_format, OF i2 [unfolded q]]
        show ?thesis
        proof (cases resolved)
          case False
          with Inr p o' r2 i2 q cut' show ?thesis by (simp add: search_root_def)
        next
          case True
          obtain r3 where r3: "admits ?cx (sq_from request) ad2 = Some r3"
            and adm: "\<forall>a ad'. r3 = Inr (a, ad') \<longrightarrow> admission_ok ?cx nodes G ad' \<and> charged ad2 ad'
              \<and> (a \<longrightarrow> admissible ?cx nodes G (ad_resolved_as_of ad2) (sq_from request))
              \<and> (rb_stop (ad_budget ad') = None \<longrightarrow> a = admissible ?cx nodes G (ad_resolved_as_of ad2) (sq_from request)
                   \<and> rb_stop (ad_budget ad2) = None)"
            using admits_ok [OF store', of ad2 "sq_from request"] cut' by blast
          have "search_root request ?cx = Some (map_sum id (\<lambda>(admitted, ad). (True, admitted, ad)) r3)"
            using Inr p o' r2 i2 q True r3 by (simp add: search_root_def)
          with adm show ?thesis by (cases r3) (auto simp: entry_at_def charged_def)
        qed
      qed
    qed
  qed
qed

lemma trace_start_ok:
  assumes bounds: "request_bounds request" and ok: "admission_ok (context_of reader request) nodes G ad"
    and root: "admitted \<longrightarrow> entry_at reader nodes G request (ad_resolved_as_of ad) (sq_from request)"
  shows "search_ok reader nodes G request (ad_resolved_as_of ad) (trace_start request admitted ad)"
    and "admitted \<Longrightarrow> reached (se_frontier (trace_start request admitted ad)) (sq_from request)"
    and "\<not> admitted \<Longrightarrow> waiting (fr_queue (se_frontier (trace_start request admitted ad))) = {#}"
proof -
  let ?at = "ad_resolved_as_of ad" and ?s = "trace_start request admitted ad"
  have fr: "se_frontier ?s = frontier_new request admitted (preferred_at ad (sq_from request))" "se_admission ?s = ad"
    by (simp_all add: trace_start_def)
  have new: "at_ok reader nodes G request ?at (se_frontier ?s) \<and> stop_ok request (se_frontier ?s)
    \<and> (\<forall>i < length (fr_states (se_frontier ?s)). px_adjacency_offset (fr_states (se_frontier ?s) ! i) = 0
         \<and> i \<in># waiting (fr_queue (se_frontier ?s)))"
  proof (cases admitted)
    case True
    show ?thesis
      unfolding fr
      using frontier_new_admitted [OF bounds, where A = "entry_at reader nodes G request ?at"] root True by (simp add: root_state_def [of request "preferred_at ad (sq_from request)"])
  next
    case False
    then show ?thesis unfolding fr
      by (simp add: frontier_new_def frontier_empty_ok Let_def) (simp add: frontier_empty_def stop_ok_def)
  qed
  then show "search_ok reader nodes G request ?at ?s"
    using ok streams_start fr(2) by (simp add: search_ok_def frame_ok_def offsets_ok_def settled_def)
  show "reached (se_frontier ?s) (sq_from request)" if admitted
    using frontier_new_admitted(2) [OF bounds, where A = "entry_at reader nodes G request ?at"
        and preferred = "preferred_at ad (sq_from request)"] root that
    unfolding reached_def fr by simp
  show "waiting (fr_queue (se_frontier ?s)) = {#}" if "\<not> admitted"
    unfolding fr using that by (simp add: frontier_new_def frontier_empty_def Let_def)
qed

text \<open>Everything an answer comes from.\<close>

lemma trace_answer:
  assumes store: "snapshot_of reader nodes G" and typed: "typed_request request"
  shows "\<exists>r. trace_candidates reader request = Some r
    \<and> (\<forall>result. r = Inr result \<longrightarrow> request_bounds request
        \<and> (\<exists>admitted ad s t resolved. search_ok reader nodes G request (tr_resolved_as_of result) (trace_start request admitted ad)
             \<and> (admitted \<longrightarrow> reached (se_frontier (trace_start request admitted ad)) (sq_from request))
             \<and> ended reader nodes G request (tr_resolved_as_of result) (trace_start request admitted ad) s
             \<and> frontier_routes (se_frontier s) = Some t
             \<and> search_result request (context_of reader request) resolved s = Some result))"
proof (cases "search_validate request")
  case (Inl e)
  then show ?thesis by (simp add: trace_candidates_def)
next
  case (Inr u)
  then have bounds: "request_bounds request" by (intro search_validate_bounds) simp
  let ?cx = "context_of reader request"
  obtain r1 where r1: "search_root request ?cx = Some r1"
    and root: "\<forall>resolved admitted ad. r1 = Inr (resolved, admitted, ad) \<longrightarrow> admission_ok ?cx nodes G ad
         \<and> (admitted \<longrightarrow> entry_at reader nodes G request (ad_resolved_as_of ad) (sq_from request))"
    using search_root_ok [OF store, of request] by (elim exE conjE)
  show ?thesis
  proof (cases r1)
    case (Inl e)
    with Inr r1 show ?thesis by (simp add: trace_candidates_def Let_def)
  next
    case i1: (Inr p)
    obtain resolved admitted ad where p: "p = (resolved, admitted, ad)" by (cases p) auto
    note root' = root [rule_format, OF i1 [unfolded p]]
    have ad: "admission_ok ?cx nodes G ad"
      and entry: "admitted \<longrightarrow> entry_at reader nodes G request (ad_resolved_as_of ad) (sq_from request)"
      using root' by blast+
    note start = trace_start_ok [OF bounds ad entry]
    obtain r2 where r2: "trace_loop request ?cx (search_moves request) (trace_start request admitted ad) = Some r2"
      and loop: "\<forall>s'. r2 = Inr s' \<longrightarrow> ended reader nodes G request (ad_resolved_as_of ad) (trace_start request admitted ad) s'"
      using trace_loop_ok [OF store bounds typed start(1)] by (elim exE conjE)
    show ?thesis
    proof (cases r2)
      case (Inl e)
      with Inr r1 i1 p r2 show ?thesis by (simp add: trace_candidates_def Let_def)
    next
      case i2: (Inr s)
      have e: "ended reader nodes G request (ad_resolved_as_of ad) (trace_start request admitted ad) s"
        using loop i2 by simp
      then have fr: "at_ok reader nodes G request (ad_resolved_as_of ad) (se_frontier s)"
        and at: "ad_resolved_as_of (se_admission s) = ad_resolved_as_of ad" by (simp_all add: ended_def frame_ok_def)
      from frontier_routes_ok [OF fr] obtain t where t: "frontier_routes (se_frontier s) = Some t" by blast
      obtain result where res: "search_result request ?cx resolved s = Some result"
        using t by (simp add: search_result_def Let_def)
      then have "tr_resolved_as_of result = ad_resolved_as_of ad" using t at by (auto simp: search_result_def Let_def)
      then show ?thesis
        using Inr r1 i1 p r2 i2 bounds start e t res
        by (simp add: trace_candidates_def Let_def) blast
    qed
  qed
qed

subsection \<open>What an answer holds\<close>

lemma search_result_sel:
  assumes "search_result request cx resolved s = Some result" and "frontier_routes (se_frontier s) = Some t"
  shows "tr_routes result = tb_routes t" "tr_relations result = tb_relations t"
    "tr_unreached result = unreached_targets request (se_frontier s)"
    "tr_incomplete_targets result = incomplete_targets request (se_frontier s)"
    "tr_stop result = final_stop s" "tr_considered_states result = fr_considered (se_frontier s)"
    "tr_discovered_nodes result = length (rb_refs (ad_budget (se_admission s)))"
    "tr_scanned_edges result = rb_scanned (ad_budget (se_admission s))"
  using assms by (auto simp: search_result_def Let_def)

text \<open>The facts every property of an answer starts from.\<close>

lemma trace_answer_state:
  assumes "snapshot_of reader nodes G" and "typed_request request"
    and "trace_candidates reader request = Some (Inr result)"
  obtains admitted ad s t where "request_bounds request"
    and "ended reader nodes G request (tr_resolved_as_of result) (trace_start request admitted ad) s"
    and "admitted \<longrightarrow> reached (se_frontier (trace_start request admitted ad)) (sq_from request)"
    and "at_ok reader nodes G request (tr_resolved_as_of result) (se_frontier s)"
    and "frontier_routes (se_frontier s) = Some t"
    and "set (tb_relations t) \<subseteq> set (fr_edges (se_frontier s))" and "distinct (map edge_key (tb_relations t))"
    and "list_all2 (reads_state request (se_frontier s) (tb_relations t)) (found_states (se_frontier s)) (tb_routes t)"
    and "tr_routes result = tb_routes t" and "tr_relations result = tb_relations t"
    and "tr_unreached result = unreached_targets request (se_frontier s)"
    and "tr_incomplete_targets result = incomplete_targets request (se_frontier s)"
    and "tr_stop result = final_stop s" and "tr_considered_states result = fr_considered (se_frontier s)"
    and "tr_discovered_nodes result = length (rb_refs (ad_budget (se_admission s)))"
    and "tr_scanned_edges result = rb_scanned (ad_budget (se_admission s))"
proof -
  obtain r where r: "trace_candidates reader request = Some r"
    and all: "\<forall>result. r = Inr result \<longrightarrow> request_bounds request
        \<and> (\<exists>admitted ad s t resolved. search_ok reader nodes G request (tr_resolved_as_of result) (trace_start request admitted ad)
             \<and> (admitted \<longrightarrow> reached (se_frontier (trace_start request admitted ad)) (sq_from request))
             \<and> ended reader nodes G request (tr_resolved_as_of result) (trace_start request admitted ad) s
             \<and> frontier_routes (se_frontier s) = Some t
             \<and> search_result request (context_of reader request) resolved s = Some result)"
    using trace_answer [OF assms(1,2)] by (elim exE conjE)
  have "r = Inr result" using r assms(3) by simp
  from all [rule_format, OF this] obtain admitted ad s t resolved where a: "request_bounds request"
    "admitted \<longrightarrow> reached (se_frontier (trace_start request admitted ad)) (sq_from request)"
    "ended reader nodes G request (tr_resolved_as_of result) (trace_start request admitted ad) s"
    "frontier_routes (se_frontier s) = Some t" "search_result request (context_of reader request) resolved s = Some result"
    by (elim exE conjE)
  have fr: "at_ok reader nodes G request (tr_resolved_as_of result) (se_frontier s)"
    using a(3) by (simp add: ended_def frame_ok_def)
  from frontier_routes_ok [OF fr] a(4) have routes: "set (tb_relations t) \<subseteq> set (fr_edges (se_frontier s))"
    "distinct (map edge_key (tb_relations t))"
    "list_all2 (reads_state request (se_frontier s) (tb_relations t)) (found_states (se_frontier s)) (tb_routes t)" by auto
  show thesis by (rule that [OF a(1,3,2) fr a(4) routes search_result_sel [OF a(5,4)]])
qed

text \<open>The route of an answer stands for a state found at its destination.\<close>

lemma route_state:
  assumes "list_all2 (reads_state request fr relations) found routes" and "route \<in> set routes"
  obtains t i where "(t, i) \<in> set found" and "reads_state request fr relations (t, i) route"
  using assms by (auto simp: list_all2_conv_all_nth in_set_conv_nth) (metis nth_mem surj_pair)

lemma found_state_ok:
  assumes "frontier_ok Q L A request fr" and "(t, i) \<in> set (found_states fr)"
  shows "i < length (fr_states fr)" "node_at (fr_states fr) i = t" "t \<in> set (sq_targets request)"
proof -
  have f: "found_ok request fr" using assms(1) by (simp add: frontier_ok_def)
  then obtain ps where ps: "bmap_get (fr_found fr) t = Some ps" "i \<in> set ps"
    using assms(2) found_states_iff [of fr t i] by (auto simp: found_ok_def)
  then show "i < length (fr_states fr)" "node_at (fr_states fr) i = t" "t \<in> set (sq_targets request)"
    using f unfolding found_ok_def by blast+
qed

text \<open>C8. Over a snapshot of a stored graph a bounded trace search returns: no index is out of
  range, and every loop ends.\<close>

theorem trace_search_returns:
  assumes "snapshot_of reader nodes G" and "typed_request request"
  shows "\<exists>r. trace_candidates reader request = Some r"
  using trace_answer [OF assms] by (elim exE conjE) simp

text \<open>What a route of an answer is.\<close>

lemma answer_route:
  assumes "snapshot_of reader nodes G" and "typed_request request"
    and "trace_candidates reader request = Some (Inr result)" and "route \<in> set (tr_routes result)"
  shows "\<exists>ns. walk_nodes (tr_relations result) (sq_from request) (ro_edge_indexes route) = Some ns
    \<and> last ns = ro_target route \<and> distinct ns
    \<and> successively (link_at reader nodes G request (tr_resolved_as_of result)) ns"
    and "ro_target route \<in> set (sq_targets request)"
proof -
  obtain s :: search and t where t: "frontier_routes (se_frontier s) = Some t" and a: "at_ok reader nodes G request (tr_resolved_as_of result) (se_frontier s)"
    "list_all2 (reads_state request (se_frontier s) (tb_relations t)) (found_states (se_frontier s)) (tb_routes t)"
    "tr_routes result = tb_routes t" "tr_relations result = tb_relations t"
    using assms(1-3) by (rule trace_answer_state) blast
  obtain target i where i: "(target, i) \<in> set (found_states (se_frontier s))"
    "reads_state request (se_frontier s) (tb_relations t) (target, i) route"
    using route_state [OF a(2)] assms(4) a(3) by metis
  note f = found_state_ok [OF a(1) i(1)]
  have "last (map (node_at (fr_states (se_frontier s))) (trail (fr_states (se_frontier s)) i)) = target"
    by (simp add: last_map f(2))
  moreover have "distinct (map (node_at (fr_states (se_frontier s))) (trail (fr_states (se_frontier s)) i))"
    "successively (link_at reader nodes G request (tr_resolved_as_of result)) (map (node_at (fr_states (se_frontier s))) (trail (fr_states (se_frontier s)) i))"
    using a(1) f(1) by (simp_all add: frontier_ok_def paths_ok_def)
  ultimately show "\<exists>ns. walk_nodes (tr_relations result) (sq_from request) (ro_edge_indexes route) = Some ns
    \<and> last ns = ro_target route \<and> distinct ns
    \<and> successively (link_at reader nodes G request (tr_resolved_as_of result)) ns" using i(2) a(4) by (simp add: reads_state_def)
  show "ro_target route \<in> set (sq_targets request)" using i(2) f(3) by (simp add: reads_state_def)
qed

text \<open>C1. Every route of an answer walks, over the relations of the answer, from the source to its
  destination without visiting an entry twice, and each of its steps follows a stored, evidenced
  link of the read's window, in a direction the request follows, to an admissible entry.\<close>

theorem trace_routes_sound:
  assumes "snapshot_of reader nodes G" and "typed_request request"
    and "trace_candidates reader request = Some (Inr result)" and "route \<in> set (tr_routes result)"
  shows "\<exists>ns. walk_nodes (tr_relations result) (sq_from request) (ro_edge_indexes route) = Some ns
    \<and> last ns = ro_target route \<and> distinct ns
    \<and> successively (link_at reader nodes G request (tr_resolved_as_of result)) ns"
  by (rule answer_route(1) [OF assms])

text \<open>C28. The work of a search stays inside its limits: the states considered, the references
  read and the rows scanned.\<close>

theorem trace_work_bounded:
  assumes "snapshot_of reader nodes G" and "typed_request request"
    and "trace_candidates reader request = Some (Inr result)"
  shows "tr_considered_states result \<le> unat (tl_states (sq_limits request))
    \<and> tr_discovered_nodes result \<le> unat (tl_nodes (sq_limits request))
    \<and> tr_scanned_edges result \<le> tl_edges (sq_limits request)"
proof -
  obtain admitted ad s t where e: "ended reader nodes G request (tr_resolved_as_of result) (trace_start request admitted ad) s"
    and r: "tr_considered_states result = fr_considered (se_frontier s)"
    "tr_discovered_nodes result = length (rb_refs (ad_budget (se_admission s)))"
    "tr_scanned_edges result = rb_scanned (ad_budget (se_admission s))"
    using assms by (rule trace_answer_state) blast
  then show ?thesis
    by (simp add: ended_def frame_ok_def frontier_ok_def counts_ok_def admission_ok_def budget_ok_def)
qed

text \<open>C2. A search that ends because its frontier is exhausted proves absence: no destination it
  reports unreached can be reached from the source by such links.\<close>

theorem trace_exhausted_proves_absence:
  assumes "snapshot_of reader nodes G" and "typed_request request"
    and "trace_candidates reader request = Some (Inr result)"
    and "tr_stop result = FrontierExhausted" and "target \<in> set (tr_unreached result)"
  shows "(sq_from request, target) \<notin> {(a, b). link_at reader nodes G request (tr_resolved_as_of result) a b}\<^sup>*"
proof
  let ?link = "link_at reader nodes G request (tr_resolved_as_of result)"
  assume reach: "(sq_from request, target) \<in> {(a, b). ?link a b}\<^sup>*"
  obtain admitted ad s t where e: "ended reader nodes G request (tr_resolved_as_of result) (trace_start request admitted ad) s"
    and root: "admitted \<longrightarrow> reached (se_frontier (trace_start request admitted ad)) (sq_from request)"
    and fr: "at_ok reader nodes G request (tr_resolved_as_of result) (se_frontier s)"
    and stop: "tr_stop result = final_stop s" and un: "tr_unreached result = unreached_targets request (se_frontier s)"
    using assms(1-3) by (rule trace_answer_state) blast
  have frame: "stop_ok request (se_frontier s)" "budget_ok (sq_limits request) (ad_budget (se_admission s))"
    using e by (simp_all add: ended_def frame_ok_def admission_ok_def)
  have runs: "search_runs s"
    using assms(4) frame unfolding stop final_stop_def stop_ok_def budget_ok_def search_runs_def
    by (auto split: option.splits)
  then have ok: "search_ok reader nodes G request (tr_resolved_as_of result) s" and w: "waiting (fr_queue (se_frontier s)) = {#}"
    and st: "se_stop s = (if se_depth_cut s then DepthBudget else se_stop (trace_start request admitted ad))"
    using e by (simp_all add: ended_def)
  have "se_stop s = FrontierExhausted" using assms(4) runs by (simp add: stop final_stop_def search_runs_def)
  then have uncut: "\<not> se_depth_cut s" and "admitted"
    using st by (simp_all add: trace_start_def split: if_splits)
  then have source: "reached (se_frontier s) (sq_from request)" using e root by (simp add: ended_def)
  have closed: "reached (se_frontier s) b" if ra: "reached (se_frontier s) a" and ab: "?link a b" for a b
  proof -
    obtain i where i: "i < length (fr_states (se_frontier s))" "node_at (fr_states (se_frontier s)) i = a"
      using ra by (auto simp: reached_def)
    have "settled reader nodes G request (tr_resolved_as_of result) s i" using ok i(1) by (simp add: search_ok_def)
    then have "\<forall>e \<in> set (all_rows G (search_moves request) a). handled reader nodes G request (tr_resolved_as_of result) (se_frontier s) a e"
      using w uncut i(2) by (simp add: settled_def)
    with ab show ?thesis by (auto simp: link_at_def handled_def)
  qed
  have "reached (se_frontier s) target"
    using reach by (induction rule: rtrancl_induct) (use source closed in auto)
  then obtain i where i: "i < length (fr_states (se_frontier s))" "node_at (fr_states (se_frontier s)) i = target"
    by (auto simp: reached_def)
  have "target \<in> set (sq_targets request)" "bmap_get (fr_found (se_frontier s)) target = None"
    using assms(5) by (simp_all add: un unreached_targets_def)
  moreover have "found_ok request (se_frontier s)" using fr by (simp add: frontier_ok_def)
  ultimately show False using i unfolding found_ok_def by fastforce
qed

text \<open>The relations of an answer are distinct stored links, each an evidenced link of the read's
  window that the request's relations name.\<close>

theorem trace_relations_stored:
  assumes "snapshot_of reader nodes G" and "typed_request request"
    and "trace_candidates reader request = Some (Inr result)"
  shows "distinct (map edge_key (tr_relations result))
    \<and> set (tr_relations result) \<subseteq> {e. edge_at G request (tr_resolved_as_of result) e}"
proof -
  obtain s :: search and t where t: "frontier_routes (se_frontier s) = Some t"
    and a: "at_ok reader nodes G request (tr_resolved_as_of result) (se_frontier s)"
    "set (tb_relations t) \<subseteq> set (fr_edges (se_frontier s))" "distinct (map edge_key (tb_relations t))"
    "tr_relations result = tb_relations t"
    using assms by (rule trace_answer_state) blast
  then show ?thesis by (auto simp: frontier_ok_def admitted_ok_def)
qed

lemma length_found_states:
  "distinct (map fst m) \<Longrightarrow> length (filter (\<lambda>f. fst f = t) (concat (map (\<lambda>(target, states). map (\<lambda>tip. (target, tip)) states) m)))
     = (case map_of m t of None \<Rightarrow> 0 | Some ps \<Rightarrow> length ps)"
proof (induction m)
  case (Cons e m)
  obtain k ps where e: "e = (k, ps)" by fastforce
  have "map_of m t = None" if "k = t" using Cons.prems e that by (simp add: map_of_eq_None_iff)
  then show ?case using Cons e by (auto simp: filter_map o_def)
qed simp

lemma routes_targets:
  assumes "list_all2 (reads_state request fr relations) found routes"
  shows "map ro_target routes = map fst found"
  using assms by (induction rule: list_all2_induct) (simp_all add: reads_state_def)

lemma routes_found:
  assumes fr: "frontier_ok Q L A request fr"
    and routes: "list_all2 (reads_state request fr relations) (found_states fr) routes"
  shows "length (filter (\<lambda>r. ro_target r = t) routes) = (case bmap_get (fr_found fr) t of None \<Rightarrow> 0 | Some ps \<Rightarrow> length ps)"
proof -
  have "length (filter (\<lambda>r. ro_target r = t) routes) = length (filter (\<lambda>x. x = t) (map ro_target routes))"
    by (simp add: filter_map o_def)
  also have "\<dots> = length (filter (\<lambda>f. fst f = t) (found_states fr))"
    by (simp add: routes_targets [OF routes] filter_map o_def)
  also have "\<dots> = (case bmap_get (fr_found fr) t of None \<Rightarrow> 0 | Some ps \<Rightarrow> length ps)"
    using fr unfolding found_states_def bmap_get_def
    by (intro length_found_states) (simp add: frontier_ok_def found_ok_def bmap_ok_def)
  finally show ?thesis .
qed

text \<open>The routes of an answer, by destination.\<close>

lemma answer_targets:
  assumes "snapshot_of reader nodes G" and "typed_request request"
    and "trace_candidates reader request = Some (Inr result)" and "target \<in> set (sq_targets request)"
    and "found = length (filter (\<lambda>route. ro_target route = target) (tr_routes result))"
  shows "found \<le> quota request target \<and> (target \<in> set (tr_unreached result) \<longleftrightarrow> found = 0)
    \<and> (target \<in> set (tr_incomplete_targets result) \<longleftrightarrow> found < quota request target)"
proof -
  obtain s :: search and t where t: "frontier_routes (se_frontier s) = Some t"
    and a: "at_ok reader nodes G request (tr_resolved_as_of result) (se_frontier s)"
    "list_all2 (reads_state request (se_frontier s) (tb_relations t)) (found_states (se_frontier s)) (tb_routes t)"
    "tr_routes result = tb_routes t" "tr_unreached result = unreached_targets request (se_frontier s)"
    "tr_incomplete_targets result = incomplete_targets request (se_frontier s)"
    using assms(1-3) by (rule trace_answer_state) blast
  let ?paths = "bmap_get (fr_found (se_frontier s)) target"
  have n: "found = (case ?paths of None \<Rightarrow> 0 | Some ps \<Rightarrow> length ps)"
    using routes_found [OF a(1,2)] a(3) assms(5) by simp
  have "found_ok request (se_frontier s)" using a(1) by (simp add: frontier_ok_def)
  then have "ps \<noteq> [] \<and> length ps \<le> quota request target" if "?paths = Some ps" for ps
    using that by (simp add: found_ok_def)
  then show ?thesis using assms(4) n a(4,5) by (cases ?paths) (auto simp: unreached_targets_def incomplete_targets_def)
qed

lemma length_classes:
  "finite T \<Longrightarrow> \<forall>x \<in> set xs. f x \<in> T \<Longrightarrow> length xs = (\<Sum>t \<in> T. length (filter (\<lambda>x. f x = t) xs))"
proof (induction xs)
  case (Cons x xs)
  have "(\<Sum>t \<in> T. length (filter (\<lambda>y. f y = t) (x # xs)))
      = (\<Sum>t \<in> T. (if f x = t then 1 else 0) + length (filter (\<lambda>y. f y = t) xs))" by (intro sum.cong) simp_all
  also have "\<dots> = 1 + length xs" using Cons by (simp add: sum.distrib)
  finally show ?case by simp
qed simp

text \<open>An answer holds at most eight routes for each of at most eight destinations.\<close>

lemma answer_at_most_64:
  assumes "snapshot_of reader nodes G" and "typed_request request" and "trace_candidates reader request = Some (Inr result)"
  shows "length (tr_routes result) \<le> 64"
proof -
  let ?T = "set (sq_targets request)"
  have b: "request_bounds request" using assms by (rule trace_answer_state) blast
  have in_T: "\<forall>route \<in> set (tr_routes result). ro_target route \<in> ?T" using answer_route(2) [OF assms] by blast
  have "length (filter (\<lambda>r. ro_target r = t) (tr_routes result)) \<le> 8" if "t \<in> ?T" for t
    using answer_targets [OF assms that refl] quota_pos [OF b, of t] by linarith
  then have "(\<Sum>t \<in> ?T. length (filter (\<lambda>r. ro_target r = t) (tr_routes result))) \<le> (\<Sum>t \<in> ?T. 8)" by (intro sum_mono)
  then have "length (tr_routes result) \<le> card ?T * 8" using length_classes [OF _ in_T] by simp
  moreover have "card ?T \<le> 8" using b card_length [of "sq_targets request"] by (simp add: request_bounds_def)
  ultimately show ?thesis by linarith
qed

text \<open>C17. Every destination is accounted for: it has a route, never more than the request asks for,
  or it is reported unreached; and it is reported incomplete when it has fewer.\<close>

theorem trace_targets_accounted:
  assumes "snapshot_of reader nodes G" and "typed_request request"
    and "trace_candidates reader request = Some (Inr result)" and "target \<in> set (sq_targets request)"
    and "found = length (filter (\<lambda>route. ro_target route = target) (tr_routes result))"
  shows "found \<le> quota request target \<and> (target \<in> set (tr_unreached result) \<longleftrightarrow> found = 0)
    \<and> (target \<in> set (tr_incomplete_targets result) \<longleftrightarrow> found < quota request target)"
  by (rule answer_targets [OF assms])

text \<open>A search that stops because its targets are reached leaves no destination incomplete.\<close>

theorem trace_targets_reached:
  assumes "snapshot_of reader nodes G" and "typed_request request"
    and "trace_candidates reader request = Some (Inr result)" and "tr_stop result = TargetsReached"
  shows "tr_incomplete_targets result = []"
proof -
  obtain admitted ad s where e: "ended reader nodes G request (tr_resolved_as_of result) (trace_start request admitted ad) s"
    and stop: "tr_stop result = final_stop s" and inc: "tr_incomplete_targets result = incomplete_targets request (se_frontier s)"
    using assms(1-3) by (rule trace_answer_state) blast
  have frame: "stop_ok request (se_frontier s)" "budget_ok (sq_limits request) (ad_budget (se_admission s))"
    using e by (simp_all add: ended_def frame_ok_def admission_ok_def)
  have "se_stop s \<noteq> TargetsReached" if "search_runs s"
    using e that by (auto simp: ended_def trace_start_def split: if_splits)
  then have "fr_stop (se_frontier s) = Some TargetsReached"
    using assms(4) frame(2) unfolding stop final_stop_def budget_ok_def search_runs_def
    by (auto split: option.splits)
  then have "all_found request (fr_found (se_frontier s))" using frame(1) by (auto simp: stop_ok_def)
  then show ?thesis
    unfolding inc incomplete_targets_def
    by (auto simp: all_found_def list_all_iff filter_empty_conv split: option.splits)
qed

subsection \<open>A stored graph and its answers\<close>

definition graph_reader :: "(string \<Rightarrow> node_projection option) \<Rightarrow> node_relation_projection list \<Rightarrow> snapshot_reader" where
  "graph_reader nodes G = \<lparr>sr_node = (\<lambda>i. Inr (nodes i)), sr_adjacency = (\<lambda>q. Inr (stored_page G q))\<rparr>"

lemma graph_reader_snapshot: "distinct (map edge_key G) \<Longrightarrow> snapshot_of (graph_reader nodes G) nodes G"
  by (simp add: snapshot_of_def graph_reader_def)

definition sample_link :: "string \<Rightarrow> string \<Rightarrow> node_relation_projection" where
  "sample_link a b = \<lparr>nr_source_node_id = a, nr_target_node_id = b, nr_relation_type = ''supports'',
     nr_explanation = (rex_new Evidential)\<lparr>rex_rationale := Some ''why'', rex_evidence := Some ''e''\<rparr>\<rparr>"

definition sample_graph :: "node_relation_projection list" where
  "sample_graph = [sample_link ''a'' ''b'', sample_link ''b'' ''c'', sample_link ''c'' ''a'', sample_link ''d'' ''c'']"

definition sample_entry :: "string \<Rightarrow> node_projection option" where
  "sample_entry i = (if i \<in> {''a'', ''b'', ''c'', ''d''} then
     Some \<lparr>np_node_id = i, np_node_kind = ''entry'', np_title = [], np_summary = [], np_status = [],
       np_labels = [''entry''], np_properties = [(''memory_about'', ''dev'')], np_provenance = None\<rparr> else None)"

definition sample_request :: trace_search_request where
  "sample_request = \<lparr>sq_proof = False, sq_about = ''dev'', sq_from = ''a'', sq_targets = [''c'', ''d''],
     sq_direction = Outgoing, sq_relations = [], sq_follow = [], sq_paths_per_target = 1,
     sq_policy = \<lparr>dp_required = None, dp_preferred = None\<rparr>, sq_select = None,
     sq_limits = \<lparr>tl_nodes = 16, tl_edges = 32, tl_depth = 4, tl_states = 16\<rparr>,
     sq_temporal = Frontier, sq_body = body_options_default\<rparr>"

definition sample_answer :: "trace_search_result port_result option" where
  "sample_answer = trace_candidates (graph_reader sample_entry sample_graph) sample_request"

lemma sample_store: "snapshot_of (graph_reader sample_entry sample_graph) sample_entry sample_graph"
  by (rule graph_reader_snapshot) code_simp

lemma sample_typed: "typed_request sample_request"
  by (simp add: typed_request_def sample_request_def)

lemma sample_answer_shape:
  "map_option (map_sum id (\<lambda>r. (tr_routes r, tr_unreached r, tr_stop r))) sample_answer
     = Some (Inr ([\<lparr>ro_target = ''c'', ro_edge_indexes = [0, 1]\<rparr>], [''d''], FrontierExhausted))"
  by code_simp

lemma answer_shape: "map_option (map_sum id f) x = Some (Inr y) \<Longrightarrow> \<exists>r. x = Some (Inr r) \<and> f r = y"
  by (cases x; cases "the x") simp_all

lemma sample_request_sel [simp]:
  "sq_from sample_request = ''a''" "sq_targets sample_request = [''c'', ''d'']"
  "tl_states (sq_limits sample_request) = 16" "tl_nodes (sq_limits sample_request) = 16" "tl_edges (sq_limits sample_request) = 32"
  by (simp_all add: sample_request_def)

lemma sample_result:
  obtains result where "trace_candidates (graph_reader sample_entry sample_graph) sample_request = Some (Inr result)"
    and "tr_routes result = [\<lparr>ro_target = ''c'', ro_edge_indexes = [0, 1]\<rparr>]" and "tr_unreached result = [''d'']"
    and "tr_stop result = FrontierExhausted"
proof -
  from answer_shape [OF sample_answer_shape] obtain result where "sample_answer = Some (Inr result)"
    "(tr_routes result, tr_unreached result, tr_stop result)
       = ([\<lparr>ro_target = ''c'', ro_edge_indexes = [0, 1]\<rparr>], [''d''], FrontierExhausted)"
    by blast
  then show thesis using that by (simp add: sample_answer_def)
qed

theorem trace_search_returns_witness:
  "\<exists>r. trace_candidates (graph_reader sample_entry sample_graph) sample_request = Some r"
  by (rule trace_search_returns [OF sample_store sample_typed])

theorem trace_routes_sound_witness:
  "\<exists>result ns. trace_candidates (graph_reader sample_entry sample_graph) sample_request = Some (Inr result)
     \<and> walk_nodes (tr_relations result) ''a'' [0, 1] = Some ns \<and> last ns = ''c'' \<and> distinct ns"
proof -
  obtain result where r: "trace_candidates (graph_reader sample_entry sample_graph) sample_request = Some (Inr result)"
    "tr_routes result = [\<lparr>ro_target = ''c'', ro_edge_indexes = [0, 1]\<rparr>]" by (rule sample_result)
  then have "\<lparr>ro_target = ''c'', ro_edge_indexes = [0, 1]\<rparr> \<in> set (tr_routes result)" by simp
  from trace_routes_sound [OF sample_store sample_typed r(1) this] r(1)
  show ?thesis unfolding sample_request_sel trace_route.select_convs by blast
qed

theorem trace_work_bounded_witness:
  "\<exists>result. trace_candidates (graph_reader sample_entry sample_graph) sample_request = Some (Inr result)
     \<and> tr_considered_states result \<le> 16 \<and> tr_discovered_nodes result \<le> 16 \<and> tr_scanned_edges result \<le> 32"
proof -
  obtain result where r: "trace_candidates (graph_reader sample_entry sample_graph) sample_request = Some (Inr result)"
    by (rule sample_result)
  from trace_work_bounded [OF sample_store sample_typed r] r show ?thesis by simp
qed

theorem trace_exhausted_proves_absence_witness:
  "\<exists>result. trace_candidates (graph_reader sample_entry sample_graph) sample_request = Some (Inr result)
     \<and> (''a'', ''d'') \<notin> {(a, b). link_at (graph_reader sample_entry sample_graph) sample_entry sample_graph
            sample_request (tr_resolved_as_of result) a b}\<^sup>*"
proof -
  obtain result where r: "trace_candidates (graph_reader sample_entry sample_graph) sample_request = Some (Inr result)"
    "tr_unreached result = [''d'']" "tr_stop result = FrontierExhausted" by (rule sample_result)
  from trace_exhausted_proves_absence [OF sample_store sample_typed r(1,3), of "''d''"] r
  show ?thesis by auto
qed

theorem trace_relations_stored_witness:
  "\<exists>result. trace_candidates (graph_reader sample_entry sample_graph) sample_request = Some (Inr result)
     \<and> distinct (map edge_key (tr_relations result)) \<and> set (tr_relations result) \<subseteq> set sample_graph"
proof -
  obtain result where r: "trace_candidates (graph_reader sample_entry sample_graph) sample_request = Some (Inr result)"
    by (rule sample_result)
  from trace_relations_stored [OF sample_store sample_typed r] r show ?thesis by (auto simp: edge_at_def)
qed

theorem trace_targets_accounted_witness:
  "\<exists>result. trace_candidates (graph_reader sample_entry sample_graph) sample_request = Some (Inr result)
     \<and> ''d'' \<in> set (tr_unreached result) \<and> ''d'' \<in> set (tr_incomplete_targets result)"
proof -
  obtain result where r: "trace_candidates (graph_reader sample_entry sample_graph) sample_request = Some (Inr result)"
    "tr_routes result = [\<lparr>ro_target = ''c'', ro_edge_indexes = [0, 1]\<rparr>]" by (rule sample_result)
  have "''d'' \<in> set (sq_targets sample_request)" "quota sample_request ''d'' = 1"
    by (simp_all add: quota_def) (simp add: sample_request_def)
  with trace_targets_accounted [OF sample_store sample_typed r(1), of "''d''" 0] r show ?thesis by simp
qed

definition reaching_request :: trace_search_request where
  "reaching_request = sample_request\<lparr>sq_targets := [''c'']\<rparr>"

lemma reaching_answer_shape:
  "map_option (map_sum id tr_stop) (trace_candidates (graph_reader sample_entry sample_graph) reaching_request)
     = Some (Inr TargetsReached)"
  by code_simp

theorem trace_targets_reached_witness:
  "\<exists>result. trace_candidates (graph_reader sample_entry sample_graph) reaching_request = Some (Inr result)
     \<and> tr_incomplete_targets result = []"
proof -
  from answer_shape [OF reaching_answer_shape] obtain result
    where r: "trace_candidates (graph_reader sample_entry sample_graph) reaching_request = Some (Inr result)"
      "tr_stop result = TargetsReached"
    by blast
  have "typed_request reaching_request" by (simp add: typed_request_def reaching_request_def sample_request_def)
  from trace_targets_reached [OF sample_store this r] r show ?thesis by blast
qed

end
