(* ===== verification/MaterialGuarantees.thy ===== *)
theory MaterialGuarantees
  imports TraceMaterial TraceAnswers
begin

text \<open>
  What the material of a trace search promises. The words of a catalogue stand for sets of
  entries; the chosen routes stay within the bounds of the policy, the score is that of the
  entries they visit together, no route that fits alone scores more, and the answers of a
  bounded trace search are always accepted.
\<close>

subsection \<open>Entries and their positions\<close>

definition route_entries :: "trace_search_result \<Rightarrow> nat \<Rightarrow> string set" where
  "route_entries result i =
     (case walk_nodes (tr_relations result) (tr_from result) (ro_edge_indexes (tr_routes result ! i)) of
        None \<Rightarrow> {} | Some ns \<Rightarrow> set ns)"

definition covers :: "string set \<Rightarrow> trace_proof_requirement \<Rightarrow> bool" where
  "covers R g \<longleftrightarrow> (\<exists>a \<in> set (rq_alternatives g). set a \<subseteq> R)"

definition benefit_of :: "string set \<Rightarrow> trace_proof_requirement list \<Rightarrow> nat" where
  "benefit_of R groups = sum_list (map (\<lambda>g. unat (rq_weight g)) (filter (covers R) groups))"

definition positions :: "string list \<Rightarrow> string set \<Rightarrow> nat set" where
  "positions names R = {j. j < length names \<and> names ! j \<in> R}"

lemma positions_subset: "R \<subseteq> set names \<Longrightarrow> positions names R \<subseteq> positions names S \<longleftrightarrow> R \<subseteq> S"
  by (auto simp: positions_def in_set_conv_nth subset_iff)

lemma positions_Un: "positions names (\<Union>x \<in> X. f x) = (\<Union>x \<in> X. positions names (f x))"
  by (auto simp: positions_def)

lemma card_positions: "distinct names \<Longrightarrow> R \<subseteq> set names \<Longrightarrow> card (positions names R) = card R"
proof -
  assume d: "distinct names" and R: "R \<subseteq> set names"
  have "inj_on ((!) names) (positions names R)" using d by (auto simp: positions_def inj_on_def nth_eq_iff_index_eq)
  moreover have "(!) names ` positions names R = R"
    using R by (auto simp: positions_def image_iff in_set_conv_nth subset_iff)
  ultimately show ?thesis using card_image by fastforce
qed

definition holds_refs :: "string list \<Rightarrow> material_set \<Rightarrow> string set \<Rightarrow> bool" where
  "holds_refs names m R \<longleftrightarrow> set_ok (length names) m \<and> members m = positions names R"

subsection \<open>The routes of a catalogue\<close>

lemma extend_names_set: "set (extend_names names refs) = set names \<union> set refs \<and> (bset_ok names \<longrightarrow> bset_ok (extend_names names refs))"
  unfolding extend_names_def by (induction refs arbitrary: names) auto

lemma walk_route_entries:
  "walk_route relations current nodes indexes = Inr (c, nodes') \<Longrightarrow> current \<in> set nodes \<Longrightarrow>
     \<exists>ns. walk_nodes relations current indexes = Some ns \<and> c = last ns \<and> set nodes' = set nodes \<union> set ns"
proof (induction relations current nodes indexes rule: walk_route.induct)
  case (2 relations current nodes i indexes)
  let ?edge = "relations ! i" and ?next = "neighbor_of (relations ! i) current"
  have step: "i < length relations" "incident ?edge current" "?next \<notin> set nodes"
    "walk_route relations ?next (bset_insert ?next nodes) indexes = Inr (c, nodes')"
    using "2.prems"(1) by (auto simp: Let_def incident_def neighbor_of_def split: if_splits)
  have "\<exists>ns. walk_nodes relations ?next indexes = Some ns \<and> c = last ns \<and> set nodes' = set (bset_insert ?next nodes) \<union> set ns"
    using "2.IH" "2.prems"(1) step by (auto simp: Let_def incident_def neighbor_of_def split: if_splits)
  then obtain ns where ns: "walk_nodes relations ?next indexes = Some ns" "c = last ns"
    "set nodes' = insert ?next (set nodes) \<union> set ns" by auto
  have "?next \<in> set ns" using ns(1) by (cases indexes) (auto split: if_splits)
  then show ?case using ns step "2.prems"(2) walk_nodes_not_Nil [OF ns(1)] by auto
qed auto

lemma walk_route_simple:
  "walk_nodes relations current indexes = Some ns \<Longrightarrow> distinct ns \<Longrightarrow> set (tl ns) \<inter> set nodes = {} \<Longrightarrow>
     \<exists>nodes'. walk_route relations current nodes indexes = Inr (last ns, nodes')"
proof (induction relations current nodes indexes arbitrary: ns rule: walk_route.induct)
  case (2 relations current nodes i indexes)
  let ?next = "neighbor_of (relations ! i) current"
  obtain ms where ms: "i < length relations" "incident (relations ! i) current" "ns = current # ms"
    "walk_nodes relations ?next indexes = Some ms" using "2.prems"(1) by (auto split: if_splits)
  have hd: "ms = ?next # tl ms" using ms(4) by (cases indexes) (auto split: if_splits)
  have "?next \<in> set ms" using hd by (metis list.set_intros(1))
  then have fresh: "?next \<notin> set nodes" using "2.prems"(3) ms(3) by auto
  have tl: "set (tl ms) \<inter> set (bset_insert ?next nodes) = {}"
  proof -
    have "set (tl ms) \<subseteq> set ms" "?next \<notin> set (tl ms)" using hd "2.prems"(2) ms(3)
      by (metis list.set_sel(2) set_empty2 subsetI tl_Nil, metis distinct.simps(2))
    then show ?thesis using "2.prems"(3) ms(3) by auto
  qed
  have "\<exists>nodes'. walk_route relations ?next (bset_insert ?next nodes) indexes = Inr (last ms, nodes')"
    using "2.IH" ms fresh tl "2.prems"(2) by (auto simp: incident_def neighbor_of_def split: if_splits)
  moreover have "ms \<noteq> []" by (rule walk_nodes_not_Nil [OF ms(4)])
  ultimately show ?case using ms fresh by (auto simp: Let_def incident_def neighbor_of_def split: if_splits)
qed auto

lemma collect_routes_entries:
  "collect_routes relations source routes names = Inr (names', sets) \<Longrightarrow>
     list_all2 (\<lambda>nodes route. \<exists>ns. walk_nodes relations source (ro_edge_indexes route) = Some ns \<and> set nodes = set ns) sets routes
     \<and> set names' = set names \<union> \<Union> (set ` set sets) \<and> (bset_ok names \<longrightarrow> bset_ok names')"
proof (induction relations source routes names arbitrary: names' sets rule: collect_routes.induct)
  case (2 relations source route routes names)
  obtain current nodes sets' where w: "walk_route relations source [source] (ro_edge_indexes route) = Inr (current, nodes)"
    and c: "collect_routes relations source routes (extend_names names nodes) = Inr (names', sets')" "sets = nodes # sets'"
    "current = ro_target route"
    using "2.prems" by (auto simp: try_bind_Inr_iff split: if_splits)
  have IH: "list_all2 (\<lambda>nodes route. \<exists>ns. walk_nodes relations source (ro_edge_indexes route) = Some ns \<and> set nodes = set ns) sets' routes
     \<and> set names' = set (extend_names names nodes) \<union> \<Union> (set ` set sets') \<and> (bset_ok (extend_names names nodes) \<longrightarrow> bset_ok names')"
    using "2.IH" w c by auto
  obtain ns where ns: "walk_nodes relations source (ro_edge_indexes route) = Some ns" "set nodes = insert source (set ns)"
    using walk_route_entries [OF w] by auto
  have "source \<in> set ns" using ns(1) by (cases "ro_edge_indexes route") (auto split: if_splits)
  then have "set nodes = set ns" using ns(2) by auto
  then show ?case using IH ns(1) c(2) extend_names_set [of names nodes] by auto
qed auto

lemma collect_routes_simple:
  assumes "\<forall>route \<in> set routes. \<exists>ns. walk_nodes relations source (ro_edge_indexes route) = Some ns \<and> distinct ns \<and> last ns = ro_target route"
  shows "\<exists>r. collect_routes relations source routes names = Inr r"
  using assms
proof (induction routes arbitrary: names)
  case (Cons route routes)
  obtain ns where ns: "walk_nodes relations source (ro_edge_indexes route) = Some ns" "distinct ns" "last ns = ro_target route"
    using Cons.prems by auto
  have "hd ns = source" "ns \<noteq> []" using ns(1) by (cases "ro_edge_indexes route"; auto split: if_splits)+
  then have "set (tl ns) \<inter> set [source] = {}" using ns(2) by (cases ns) auto
  from walk_route_simple [OF ns(1,2) this] obtain nodes where
    w: "walk_route relations source [source] (ro_edge_indexes route) = Inr (last ns, nodes)" by blast
  obtain p where "collect_routes relations source routes (extend_names names nodes) = Inr p"
    using Cons.IH [of "extend_names names nodes"] Cons.prems by auto
  then show ?case using w ns(3) by (cases p) auto
qed simp

subsection \<open>The words of a catalogue\<close>

lemma those_map: "those (map f xs) = Some ys \<longleftrightarrow> list_all2 (\<lambda>y x. f x = Some y) ys xs"
proof (induction xs arbitrary: ys)
  case (Cons x xs)
  then show ?case by (cases ys) (auto split: option.splits)
qed auto

lemma those_total: "\<forall>x \<in> set xs. \<exists>y. f x = Some y \<and> P y x \<Longrightarrow> \<exists>ys. those (map f xs) = Some ys \<and> list_all2 P ys xs"
  by (induction xs) (auto split: option.splits)

lemma bmap_collect_get:
  "distinct (map fst xs) \<Longrightarrow> bmap_ok m \<Longrightarrow> \<forall>k \<in> fst ` set xs. bmap_get m k = None \<Longrightarrow>
     bmap_get (foldl (\<lambda>m (k, v). bmap_insert k v m) m xs) k = (case map_of xs k of None \<Rightarrow> bmap_get m k | Some v \<Rightarrow> Some v)"
proof (induction xs arbitrary: m)
  case (Cons x xs)
  obtain j v where x: "x = (j, v)" by fastforce
  have "\<forall>k \<in> fst ` set xs. bmap_get (bmap_insert j v m) k = None"
    using Cons.prems x by (auto simp: bmap_get_insert)
  moreover have "map_of xs j = None" using Cons.prems(1) x by (simp add: map_of_eq_None_iff)
  ultimately show ?case using Cons.IH [of "bmap_insert j v m"] Cons.prems(1,2) x
    by (auto simp: bmap_get_insert split: option.splits)
qed simp

lemma option_same: "(case v of None \<Rightarrow> None | Some x \<Rightarrow> Some x) = v"
  by (cases v) simp_all

lemma name_positions_get:
  assumes "distinct names"
  shows "bmap_get (name_positions names) x = Some i \<longleftrightarrow> i < length names \<and> names ! i = x"
proof -
  have "bmap_get (name_positions names) x
      = (case map_of (zip names [0..<length names]) x of None \<Rightarrow> bmap_get [] x | Some v \<Rightarrow> Some v)"
    unfolding name_positions_def using assms by (intro bmap_collect_get) (simp_all add: bmap_get_def)
  then have "bmap_get (name_positions names) x = map_of (zip names [0..<length names]) x"
    by (simp only: bmap_get_def map_of.simps option_same)
  then show ?thesis using assms by (auto simp: map_of_zip_is_Some in_set_zip map_of_eq_Some_iff)
qed

lemma mask_holds:
  assumes "distinct names" and "set refs \<subseteq> set names" and "set_ok (length names) s"
  shows "\<exists>s'. mask (name_positions names) refs s = Some s' \<and> set_ok (length names) s'
    \<and> members s' = members s \<union> positions names (set refs)"
  using assms(2,3)
proof (induction refs arbitrary: s)
  case (Cons r refs)
  obtain i where i: "i < length names" "names ! i = r" using Cons.prems(1) by (auto simp: in_set_conv_nth)
  then have get: "bmap_get (name_positions names) r = Some i" using name_positions_get [OF assms(1)] by blast
  obtain s1 where s1: "set_add i s = Some s1" "set_ok (length names) s1" "members s1 = insert i (members s)"
    using material.add_ok [OF Cons.prems(2) i(1)] by blast
  obtain s' where "mask (name_positions names) refs s1 = Some s'" "set_ok (length names) s'"
    "members s' = members s1 \<union> positions names (set refs)" using Cons.IH [OF _ s1(2)] Cons.prems(1) by auto
  moreover have "positions names (set (r # refs)) = insert i (positions names (set refs))"
    using i assms(1) by (auto simp: positions_def nth_eq_iff_index_eq)
  ultimately show ?case using get s1 by auto
qed (simp add: positions_def)

lemma catalogue_masks_hold:
  assumes "distinct names" and "\<forall>r \<in> set refs. set r \<subseteq> set names"
  shows "\<exists>ms. catalogue_masks names refs = Some ms \<and> list_all2 (\<lambda>m r. holds_refs names m (set r)) ms refs"
  unfolding catalogue_masks_def
proof (rule those_total, rule ballI)
  fix r assume "r \<in> set refs"
  then show "\<exists>m. mask (name_positions names) r (set_empty (length names)) = Some m \<and> holds_refs names m (set r)"
    using mask_holds [OF assms(1) _ material.ok_empty, of r] assms(2) material.members_empty by (auto simp: holds_refs_def)
qed

definition catalogue_ok :: "material_catalogue \<Rightarrow> string set list \<Rightarrow> trace_proof_requirement list \<Rightarrow> bool" where
  "catalogue_ok cat sets groups \<longleftrightarrow> distinct (mc_names cat)
     \<and> list_all2 (holds_refs (mc_names cat)) (mc_paths cat) sets \<and> (\<forall>R \<in> set sets. R \<subseteq> set (mc_names cat))
     \<and> list_all2 (\<lambda>wm g. fst wm = unat (rq_weight g)
          \<and> list_all2 (\<lambda>m r. holds_refs (mc_names cat) m (set r)) (snd wm) (rq_alternatives g)) (mc_groups cat) groups
     \<and> (\<forall>g \<in> set groups. \<forall>a \<in> set (rq_alternatives g). set a \<subseteq> set (mc_names cat))"

lemma catalogue_new_ok:
  assumes "collect_routes (tr_relations result) (tr_from result) (tr_routes result) [tr_from result] = Inr (found, sets)"
  shows "\<exists>cat. catalogue_new result groups = Some (Inr cat)
    \<and> catalogue_ok cat (map (route_entries result) [0..<length (tr_routes result)]) groups"
proof -
  note c = collect_routes_entries [OF assms]
  define names where "names = extend_names found (requirement_names groups)"
  have "bset_ok [tr_from result]" by (simp add: bset_ok_def)
  then have "bset_ok names" using c extend_names_set [of found] by (simp add: names_def)
  then have d: "distinct names" by (simp add: bset_ok_def)
  have names: "set names = set found \<union> set (requirement_names groups)" by (simp add: names_def extend_names_set)
  have sub: "\<forall>r \<in> set sets. set r \<subseteq> set names" using c names by auto
  obtain paths where paths: "catalogue_masks names sets = Some paths" "list_all2 (\<lambda>m r. holds_refs names m (set r)) paths sets"
    using catalogue_masks_hold [OF d sub] by blast
  have alts: "\<forall>g \<in> set groups. \<forall>a \<in> set (rq_alternatives g). set a \<subseteq> set names"
    using names by (auto simp: requirement_names_def)
  then have "\<forall>g \<in> set groups. \<exists>ms. catalogue_masks names (rq_alternatives g) = Some ms
      \<and> list_all2 (\<lambda>m r. holds_refs names m (set r)) ms (rq_alternatives g)"
    using catalogue_masks_hold [OF d] by blast
  from those_total [OF this] obtain masks where masks: "those (map (\<lambda>g. catalogue_masks names (rq_alternatives g)) groups) = Some masks"
    "list_all2 (\<lambda>ms g. list_all2 (\<lambda>m r. holds_refs names m (set r)) ms (rq_alternatives g)) masks groups" by blast
  let ?cat = "\<lparr>mc_names = names, mc_paths = paths, mc_groups = zip (map (\<lambda>g. unat (rq_weight g)) groups) masks\<rparr>"
  have "catalogue_new result groups = Some (Inr ?cat)"
    using assms paths masks by (simp add: catalogue_new_def names_def [symmetric] Let_def)
  moreover have "map set sets = map (route_entries result) [0..<length (tr_routes result)]"
  proof (rule nth_equalityI)
    show len: "length (map set sets) = length (map (route_entries result) [0..<length (tr_routes result)])"
      using c list_all2_lengthD by fastforce
    fix i assume "i < length (map set sets)"
    then show "map set sets ! i = map (route_entries result) [0..<length (tr_routes result)] ! i"
      using c len by (auto simp: list_all2_conv_all_nth route_entries_def)
  qed
  moreover have "catalogue_ok ?cat (map set sets) groups"
    using d paths(2) sub alts masks(2)
    by (auto simp: catalogue_ok_def list_all2_conv_all_nth)
  ultimately show ?thesis by metis
qed

subsection \<open>The score\<close>

lemma covered_mask:
  assumes "distinct names" and "holds_refs names m R" and "holds_refs names a A" and "A \<subseteq> set names"
  shows "intersection_count m a = set_count a \<longleftrightarrow> A \<subseteq> R"
  using assms material.shared_all [of "length names" m a] positions_subset [OF assms(4), of R] by (simp add: holds_refs_def)

lemma score_groups_meaning:
  assumes "distinct names" and "holds_refs names m R"
    and "list_all2 (\<lambda>wm g. fst wm = unat (rq_weight g)
      \<and> list_all2 (\<lambda>m r. holds_refs names m (set r)) (snd wm) (rq_alternatives g)) groups reqs"
    and "\<forall>g \<in> set reqs. \<forall>a \<in> set (rq_alternatives g). set a \<subseteq> set names"
  shows "fst (score_groups m i groups) = benefit_of R reqs
    \<and> snd (snd (score_groups m i groups)) = map fst (filter (\<lambda>(j, g). covers R g) (List.enumerate i reqs))"
  using assms(3,4)
proof (induction groups reqs arbitrary: i rule: list_all2_induct)
  case (Cons wm groups g reqs)
  obtain w alts where wm: "wm = (w, alts)" by fastforce
  have masks: "list_all2 (\<lambda>m r. holds_refs names m (set r)) alts (rq_alternatives g)" "w = unat (rq_weight g)"
    using Cons.hyps(1) wm by simp_all
  have "list_ex (\<lambda>a. intersection_count m a = set_count a) alts \<longleftrightarrow> covers R g"
  proof -
    have "list_all2 (\<lambda>a r. intersection_count m a = set_count a \<longleftrightarrow> set r \<subseteq> R) alts (rq_alternatives g)"
      unfolding list_all2_conv_all_nth
    proof (intro conjI allI impI)
      show len: "length alts = length (rq_alternatives g)" using masks(1) by (rule list_all2_lengthD)
      fix j assume j: "j < length alts"
      have "holds_refs names (alts ! j) (set (rq_alternatives g ! j))" using list_all2_nthD [OF masks(1) j] .
      moreover have "set (rq_alternatives g ! j) \<subseteq> set names" using Cons.prems j len by (simp add: nth_mem)
      ultimately show "intersection_count m (alts ! j) = set_count (alts ! j) \<longleftrightarrow> set (rq_alternatives g ! j) \<subseteq> R"
        by (rule covered_mask [OF assms(1,2)])
    qed
    then have "list_ex (\<lambda>a. intersection_count m a = set_count a) alts \<longleftrightarrow> list_ex (\<lambda>r. set r \<subseteq> R) (rq_alternatives g)"
      by (induction rule: list_all2_induct) simp_all
    then show ?thesis by (auto simp: list_ex_iff covers_def)
  qed
  moreover obtain b q c where sc: "score_groups m (Suc i) groups = (b, q, c)" by (cases "score_groups m (Suc i) groups") auto
  moreover have "b = benefit_of R reqs \<and> c = map fst (filter (\<lambda>(j, g). covers R g) (List.enumerate (Suc i) reqs))"
    using Cons.IH [of "Suc i"] Cons.prems sc by simp
  ultimately show ?case using wm masks(2) by (simp add: benefit_of_def)
qed (simp add: benefit_of_def)

definition covered_by :: "string set \<Rightarrow> trace_proof_requirement list \<Rightarrow> nat list" where
  "covered_by R groups = filter (\<lambda>i. covers R (groups ! i)) [0..<length groups]"

lemma covered_by_enumerate: "map fst (filter (\<lambda>(j, g). covers R g) (List.enumerate 0 reqs)) = covered_by R reqs"
proof (induction reqs rule: rev_induct)
  case (snoc g reqs)
  have "filter (\<lambda>i. covers R ((reqs @ [g]) ! i)) [0..<length reqs] = filter (\<lambda>i. covers R (reqs ! i)) [0..<length reqs]"
    by (rule filter_cong) (simp_all add: nth_append)
  with snoc show ?case by (simp add: covered_by_def enumerate_append_eq)
qed (simp add: covered_by_def)

text \<open>The entries of a set of routes, and the state a beam keeps for it.\<close>

definition entries_of :: "string set list \<Rightarrow> nat list \<Rightarrow> string set" where
  "entries_of sets indexes = (\<Union>i \<in> set indexes. sets ! i)"

lemma union_of_holds:
  assumes ok: "catalogue_ok cat sets groups" and i: "set indexes \<subseteq> {..<length sets}"
  shows "holds_refs (mc_names cat) (union_of cat indexes) (entries_of sets indexes)"
proof -
  let ?n = "length (mc_names cat)" and ?ms = "map ((!) (mc_paths cat)) indexes"
  have paths: "\<forall>i < length sets. holds_refs (mc_names cat) (mc_paths cat ! i) (sets ! i)"
    using ok by (simp add: catalogue_ok_def list_all2_conv_all_nth)
  have "\<forall>t \<in> set ?ms. set_ok ?n t" using paths i by (auto simp: holds_refs_def)
  from material.join_all [OF material.ok_empty this]
  have "set_ok ?n (union_of cat indexes)" "members (union_of cat indexes) = \<Union> (members ` set ?ms)"
    by (simp_all add: union_of_def material.members_empty)
  moreover have "\<Union> (members ` set ?ms) = positions (mc_names cat) (entries_of sets indexes)"
    using paths i by (auto simp: entries_of_def positions_Un holds_refs_def)
  ultimately show ?thesis by (simp add: holds_refs_def)
qed

lemma entries_in_names:
  assumes "catalogue_ok cat sets groups" and "set indexes \<subseteq> {..<length sets}"
  shows "entries_of sets indexes \<subseteq> set (mc_names cat)"
  using assms by (auto simp: catalogue_ok_def entries_of_def) (meson lessThan_iff nth_mem subsetD)

lemma union_of_count:
  assumes "catalogue_ok cat sets groups" and "set indexes \<subseteq> {..<length sets}"
  shows "set_count (union_of cat indexes) = card (entries_of sets indexes)"
  using union_of_holds [OF assms] card_positions [OF _ entries_in_names [OF assms]] assms(1)
  by (simp add: holds_refs_def set_count_card catalogue_ok_def)

lemma catalogue_score_meaning:
  assumes ok: "catalogue_ok cat sets groups" and i: "set indexes \<subseteq> {..<length sets}"
  shows "fst (catalogue_score cat (union_of cat indexes)) = benefit_of (entries_of sets indexes) groups
    \<and> snd (snd (catalogue_score cat (union_of cat indexes))) = covered_by (entries_of sets indexes) groups"
proof -
  have "fst (score_groups (union_of cat indexes) 0 (mc_groups cat)) = benefit_of (entries_of sets indexes) groups
    \<and> snd (snd (score_groups (union_of cat indexes) 0 (mc_groups cat)))
        = map fst (filter (\<lambda>(j, g). covers (entries_of sets indexes) g) (List.enumerate 0 groups))"
    by (rule score_groups_meaning [OF _ union_of_holds [OF ok i]]) (use ok in \<open>simp_all add: catalogue_ok_def\<close>)
  then show ?thesis
    by (cases "score_groups (union_of cat indexes) 0 (mc_groups cat)") (simp add: catalogue_score_def covered_by_enumerate)
qed

lemma state_of_sel:
  "mt_indexes (state_of cat indexes) = indexes" "mt_material (state_of cat indexes) = union_of cat indexes"
  "mt_benefit (state_of cat indexes) = fst (catalogue_score cat (union_of cat indexes))"
  by (simp_all add: state_of_def split: prod.splits)

subsection \<open>The beam\<close>

lemma generate_inner:
  "set (foldl (\<lambda>g i. if i \<in> set c then g else bset_insert (sort (c @ [i])) g) g xs)
     = set g \<union> {sort (c @ [i]) | i. i \<in> set xs \<and> i \<notin> set c}"
  by (induction xs arbitrary: g) auto

lemma generate_set: "set (generate n frontier) = {sort (c @ [i]) | c i. c \<in> set frontier \<and> i < n \<and> i \<notin> set c}"
proof -
  have "set (foldl (\<lambda>g c. foldl (\<lambda>g i. if i \<in> set c then g else bset_insert (sort (c @ [i])) g) g [0..<n]) g frontier)
      = set g \<union> {sort (c @ [i]) | c i. c \<in> set frontier \<and> i < n \<and> i \<notin> set c}" for g
  proof (induction frontier arbitrary: g)
    case (Cons c frontier)
    show ?case unfolding foldl.simps Cons generate_inner by auto
  qed simp
  then show ?thesis by (simp add: generate_def)
qed

text \<open>Sets of routes a beam may hold.\<close>

definition picks :: "nat \<Rightarrow> nat \<Rightarrow> nat list \<Rightarrow> bool" where
  "picks n k indexes \<longleftrightarrow> sorted indexes \<and> distinct indexes \<and> set indexes \<subseteq> {..<n} \<and> length indexes = k"

lemma generate_picks:
  assumes "\<forall>c \<in> set frontier. picks n k c" and "indexes \<in> set (generate n frontier)"
  shows "picks n (Suc k) indexes"
proof -
  obtain c i where c: "c \<in> set frontier" "i < n" "i \<notin> set c" "indexes = sort (c @ [i])" using assms(2) by (auto simp: generate_set)
  have "picks n k c" using assms(1) c(1) by blast
  then show ?thesis using c by (simp add: picks_def)
qed

lemma evaluate_feasible:
  "snd (evaluate cat mx gen inc feas) = feas @ map (state_of cat) (filter (\<lambda>ix. set_count (union_of cat ix) \<le> mx) gen)"
  by (induction gen arbitrary: inc feas) (simp_all add: Let_def not_less)

lemma evaluate_incumbent:
  "fst (evaluate cat mx gen inc feas) = inc
     \<or> (\<exists>ix \<in> set gen. set_count (union_of cat ix) \<le> mx \<and> fst (evaluate cat mx gen inc feas) = state_of cat ix)"
proof (induction gen arbitrary: inc feas)
  case (Cons jx gen)
  show ?case
  proof (cases "mx < set_count (union_of cat jx)")
    case True
    then show ?thesis using Cons.IH [of inc feas] by auto
  next
    case False
    let ?s = "state_of cat jx"
    show ?thesis
      using False Cons.IH [of "if actual_key ?s < actual_key inc then ?s else inc" "feas @ [?s]"] by (auto simp: Let_def split: if_splits)
  qed
qed simp

lemma evaluate_least:
  "actual_key (fst (evaluate cat mx gen inc feas)) \<le> actual_key inc
     \<and> (\<forall>ix \<in> set gen. set_count (union_of cat ix) \<le> mx \<longrightarrow>
          actual_key (fst (evaluate cat mx gen inc feas)) \<le> actual_key (state_of cat ix))"
proof (induction gen arbitrary: inc feas)
  case (Cons jx gen)
  show ?case
  proof (cases "mx < set_count (union_of cat jx)")
    case True
    then show ?thesis using Cons.IH [of inc feas] by auto
  next
    case False
    let ?s = "state_of cat jx"
    let ?inc = "if actual_key ?s < actual_key inc then ?s else inc"
    have "actual_key ?inc \<le> actual_key inc" "actual_key ?inc \<le> actual_key ?s" by (auto simp: not_less)
    moreover have "evaluate cat mx (jx # gen) inc feas = evaluate cat mx gen ?inc (feas @ [?s])" using False by (simp add: Let_def)
    moreover define r where "r = actual_key (fst (evaluate cat mx gen ?inc (feas @ [?s])))"
    moreover have "r \<le> actual_key ?inc" and rest: "\<forall>ix \<in> set gen. set_count (union_of cat ix) \<le> mx \<longrightarrow> r \<le> actual_key (state_of cat ix)"
      unfolding r_def using Cons.IH [of ?inc "feas @ [?s]"] by blast+
    ultimately have "r \<le> actual_key inc" "r \<le> actual_key ?s" "actual_key (fst (evaluate cat mx (jx # gen) inc feas)) = r"
      using order.trans by metis+
    with rest show ?thesis by (simp only: list.set) blast
  qed
qed simp

lemma evaluate_meaning:
  assumes "evaluate cat mx gen inc feas = (inc', feas')"
  shows "feas' = feas @ map (state_of cat) (filter (\<lambda>ix. set_count (union_of cat ix) \<le> mx) gen)"
    and "inc' = inc \<or> (\<exists>ix \<in> set gen. set_count (union_of cat ix) \<le> mx \<and> inc' = state_of cat ix)"
    and "actual_key inc' \<le> actual_key inc"
    and "ix \<in> set gen \<Longrightarrow> set_count (union_of cat ix) \<le> mx \<Longrightarrow> actual_key inc' \<le> actual_key (state_of cat ix)"
  using evaluate_feasible [of cat mx gen inc feas] evaluate_incumbent [of cat mx gen inc feas] evaluate_least [of cat mx gen inc feas]
  by (simp_all add: assms)

lemma actual_key_benefit: "actual_key s \<le> actual_key t \<Longrightarrow> mt_benefit t \<le> mt_benefit s"
  by (auto simp: actual_key_def less_eq_prod_def)

text \<open>An incumbent is the state of a set of routes within the bounds.\<close>

definition incumbent_ok :: "material_catalogue \<Rightarrow> nat \<Rightarrow> nat \<Rightarrow> material_state \<Rightarrow> bool" where
  "incumbent_ok cat max_nodes k s \<longleftrightarrow> (s = empty_state cat \<or> s = state_of cat (mt_indexes s))
     \<and> (\<exists>j \<le> k. picks (length (mc_paths cat)) j (mt_indexes s))
     \<and> mt_material s = union_of cat (mt_indexes s) \<and> set_count (mt_material s) \<le> max_nodes"

lemma empty_incumbent: "incumbent_ok cat max_nodes 0 (empty_state cat)"
  by (simp add: incumbent_ok_def empty_state_def picks_def union_of_def set_count_card material.members_empty)

lemma beam_round_ok:
  assumes "incumbent_ok cat mx k (bm_incumbent b)" and f: "\<forall>c \<in> set (bm_frontier b). picks (length (mc_paths cat)) k c"
  shows "incumbent_ok cat mx (Suc k) (bm_incumbent (beam_round cat mx b))"
    and "\<forall>c \<in> set (bm_frontier (beam_round cat mx b)). picks (length (mc_paths cat)) (Suc k) c"
    and "actual_key (bm_incumbent (beam_round cat mx b)) \<le> actual_key (bm_incumbent b)"
    and "c \<in> set (bm_frontier b) \<Longrightarrow> i < length (mc_paths cat) \<Longrightarrow> i \<notin> set c \<Longrightarrow>
      set_count (union_of cat (sort (c @ [i]))) \<le> mx \<Longrightarrow>
      actual_key (bm_incumbent (beam_round cat mx b)) \<le> actual_key (state_of cat (sort (c @ [i])))"
proof -
  let ?gen = "generate (length (mc_paths cat)) (bm_frontier b)"
  obtain inc feas where e: "evaluate cat mx ?gen (bm_incumbent b) [] = (inc, feas)" by fastforce
  note ev = evaluate_meaning [OF e]
  have b': "bm_incumbent (beam_round cat mx b) = inc" "bm_frontier (beam_round cat mx b) = map mt_indexes (take 4 (sort_key priority_order feas))"
    by (simp_all add: beam_round_def e Let_def)
  note gp = generate_picks [OF f]
  show "incumbent_ok cat mx (Suc k) (bm_incumbent (beam_round cat mx b))"
    unfolding b' using ev(2)
  proof
    assume "inc = bm_incumbent b"
    then show "incumbent_ok cat mx (Suc k) inc" using assms(1) by (auto simp: incumbent_ok_def intro: le_SucI)
  next
    assume "\<exists>ix \<in> set ?gen. set_count (union_of cat ix) \<le> mx \<and> inc = state_of cat ix"
    then show "incumbent_ok cat mx (Suc k) inc" using gp by (auto simp: incumbent_ok_def state_of_sel)
  qed
  have "picks (length (mc_paths cat)) (Suc k) (mt_indexes s)" if "s \<in> set feas" for s
    using that ev(1) gp by (auto simp: state_of_sel)
  then show "\<forall>c \<in> set (bm_frontier (beam_round cat mx b)). picks (length (mc_paths cat)) (Suc k) c"
    unfolding b' by (auto dest!: in_set_takeD)
  show "actual_key (bm_incumbent (beam_round cat mx b)) \<le> actual_key (bm_incumbent b)" unfolding b' by (rule ev(3))
  assume "c \<in> set (bm_frontier b)" "i < length (mc_paths cat)" "i \<notin> set c" "set_count (union_of cat (sort (c @ [i]))) \<le> mx"
  then show "actual_key (bm_incumbent (beam_round cat mx b)) \<le> actual_key (state_of cat (sort (c @ [i])))"
    unfolding b' by (intro ev(4)) (auto simp: generate_set)
qed

lemma beam_rounds_ok:
  "incumbent_ok cat mx k (bm_incumbent b) \<Longrightarrow> \<forall>c \<in> set (bm_frontier b). picks (length (mc_paths cat)) k c \<Longrightarrow>
     incumbent_ok cat mx (k + n) (bm_incumbent (beam_rounds cat mx n b))
     \<and> actual_key (bm_incumbent (beam_rounds cat mx n b)) \<le> actual_key (bm_incumbent b)"
proof (induction n arbitrary: b k)
  case (Suc n)
  note r = beam_round_ok [OF Suc.prems]
  have more: "incumbent_ok cat mx j s" if "incumbent_ok cat mx i s" "i \<le> j" for i j s
    using that order.trans unfolding incumbent_ok_def by blast
  show ?case
  proof (cases "bm_frontier (beam_round cat mx b) = []")
    case True
    then show ?thesis using r(1,3) more [OF r(1)] by (simp add: Let_def)
  next
    case False
    then show ?thesis using Suc.IH [OF r(1,2)] r(3) by (auto simp: Let_def intro: order.trans)
  qed
qed simp

subsection \<open>The selection\<close>

lemma those_held: "set_ok n m \<Longrightarrow> k \<le> n \<Longrightarrow> those (map (set_contains m) [0..<k]) = Some (map (\<lambda>i. i \<in> members m) [0..<k])"
  unfolding those_map using material.holds_members by (auto simp: list_all2_conv_all_nth)

lemma material_names_hold:
  assumes "holds_refs names m R" and "R \<subseteq> set names" and "distinct names"
  shows "\<exists>refs. material_names names m = Some refs \<and> set refs = R \<and> distinct refs"
proof -
  let ?held = "map (\<lambda>i. i \<in> members m) [0..<length names]"
  let ?refs = "map ((!) names) (filter (\<lambda>i. i \<in> members m) [0..<length names])"
  have "zip names ?held = map (\<lambda>i. (names ! i, i \<in> members m)) [0..<length names]"
    by (rule nth_equalityI) simp_all
  then have "map fst (filter snd (zip names ?held)) = ?refs" by (simp add: filter_map o_def)
  then have "material_names names m = Some ?refs"
    using those_held [of "length names" m "length names"] assms(1) by (simp add: material_names_def) (simp add: holds_refs_def)
  moreover have "set ?refs = R" using assms(1,2) by (force simp: holds_refs_def positions_def in_set_conv_nth subset_iff)
  moreover have "distinct ?refs" using assms(3) by (simp add: distinct_map inj_on_def nth_eq_iff_index_eq)
  ultimately show ?thesis by blast
qed

text \<open>The sets of entries of the routes of an answer.\<close>

abbreviation route_sets :: "trace_search_result \<Rightarrow> string set list" where
  "route_sets result \<equiv> map (route_entries result) [0..<length (tr_routes result)]"

lemma entries_of_routes:
  assumes "set indexes \<subseteq> {..<length (tr_routes result)}"
  shows "entries_of (route_sets result) indexes = (\<Union>i \<in> set indexes. route_entries result i)"
proof -
  have "route_sets result ! i = route_entries result i" if "i \<in> set indexes" for i using assms that by auto
  then show ?thesis by (simp add: entries_of_def)
qed

lemma catalogue_new_Inr:
  assumes "catalogue_new result groups = Some (Inr cat)"
  shows "catalogue_ok cat (route_sets result) groups"
proof -
  obtain found sets where "collect_routes (tr_relations result) (tr_from result) (tr_routes result) [tr_from result] = Inr (found, sets)"
    using assms by (auto simp: catalogue_new_def split: sum.splits)
  from catalogue_new_ok [OF this, of groups] assms show ?thesis by auto
qed

lemma catalogue_paths: "catalogue_ok cat (route_sets result) groups \<Longrightarrow> length (mc_paths cat) = length (tr_routes result)"
  by (auto simp: catalogue_ok_def dest!: list_all2_lengthD)

text \<open>The beam of a selection, and its answer.\<close>

lemma select_final:
  assumes "catalogue_ok cat (route_sets result) groups"
    and "b = beam_rounds cat mx n (beam_start cat)"
  shows "incumbent_ok cat mx n (bm_incumbent b)"
    and "\<exists>refs. beam_result cat b = Some \<lparr>mr_selected_candidates = mt_indexes (bm_incumbent b), mr_material_refs = refs,
        mr_covered_groups = covered_by (\<Union>i \<in> set (mt_indexes (bm_incumbent b)). route_entries result i) groups,
        mr_incomplete_groups = filter (\<lambda>g. g \<notin> set (covered_by (\<Union>i \<in> set (mt_indexes (bm_incumbent b)). route_entries result i) groups)) [0..<length groups],
        mr_benefit = mt_benefit (bm_incumbent b), mr_evaluated = bm_evaluated b, mr_pruned_by_width = bm_pruned b\<rparr>
      \<and> set refs = (\<Union>i \<in> set (mt_indexes (bm_incumbent b)). route_entries result i) \<and> distinct refs"
proof -
  let ?s = "bm_incumbent b" and ?sets = "route_sets result"
  show inc: "incumbent_ok cat mx n ?s"
    using beam_rounds_ok [of cat mx 0 "beam_start cat" n] empty_incumbent [of cat mx]
    by (simp add: assms(2) beam_start_def picks_def)
  then obtain j where "picks (length (mc_paths cat)) j (mt_indexes ?s)" by (auto simp: incumbent_ok_def)
  then have i: "set (mt_indexes ?s) \<subseteq> {..<length ?sets}" by (simp add: picks_def catalogue_paths [OF assms(1)])
  have m: "mt_material ?s = union_of cat (mt_indexes ?s)" using inc by (simp add: incumbent_ok_def)
  have "distinct (mc_names cat)" using assms(1) by (simp add: catalogue_ok_def)
  from material_names_hold [OF union_of_holds [OF assms(1) i] entries_in_names [OF assms(1) i] this]
  obtain refs where refs: "material_names (mc_names cat) (mt_material ?s) = Some refs"
    "set refs = entries_of ?sets (mt_indexes ?s)" "distinct refs" unfolding m by blast
  have groups: "length (mc_groups cat) = length groups" using assms(1) by (auto simp: catalogue_ok_def dest!: list_all2_lengthD)
  have "set (mt_indexes ?s) \<subseteq> {..<length (tr_routes result)}" using i by simp
  note e = entries_of_routes [OF this]
  show "\<exists>refs. beam_result cat b = Some \<lparr>mr_selected_candidates = mt_indexes (bm_incumbent b), mr_material_refs = refs,
        mr_covered_groups = covered_by (\<Union>i \<in> set (mt_indexes (bm_incumbent b)). route_entries result i) groups,
        mr_incomplete_groups = filter (\<lambda>g. g \<notin> set (covered_by (\<Union>i \<in> set (mt_indexes (bm_incumbent b)). route_entries result i) groups)) [0..<length groups],
        mr_benefit = mt_benefit (bm_incumbent b), mr_evaluated = bm_evaluated b, mr_pruned_by_width = bm_pruned b\<rparr>
      \<and> set refs = (\<Union>i \<in> set (mt_indexes (bm_incumbent b)). route_entries result i) \<and> distinct refs"
    using catalogue_score_meaning [OF assms(1) i] refs groups
    by (cases "catalogue_score cat (mt_material ?s)") (simp add: beam_result_def m e)
qed

text \<open>A selection that answers: its catalogue, its bounds and its answer.\<close>

lemma select_Inr:
  assumes "select_trace_material candidates targets policy = Some (Inr m)"
  obtains cat b where "material_validate policy targets = Inr ()" and "catalogue_ok cat (route_sets candidates) (requirements policy targets)"
    and "b = beam_rounds cat (unat (ms_max_nodes policy)) (unat (ms_max_paths policy)) (beam_start cat)"
    and "beam_result cat b = Some m"
  using assms catalogue_new_Inr
  by (fastforce simp: select_trace_material_def split: sum.splits if_splits option.splits)

text \<open>C27. The chosen routes are distinct routes of the search, at most as many as the policy
  allows, and the material is exactly the entries they visit, each once, within the bound on
  entries.\<close>

theorem material_within_bounds:
  assumes "select_trace_material candidates targets policy = Some (Inr m)"
  shows "distinct (mr_selected_candidates m) \<and> set (mr_selected_candidates m) \<subseteq> {..<length (tr_routes candidates)}
    \<and> length (mr_selected_candidates m) \<le> unat (ms_max_paths policy)
    \<and> set (mr_material_refs m) = (\<Union>i \<in> set (mr_selected_candidates m). route_entries candidates i)
    \<and> distinct (mr_material_refs m) \<and> length (mr_material_refs m) \<le> unat (ms_max_nodes policy)"
proof -
  obtain cat b where cat: "catalogue_ok cat (route_sets candidates) (requirements policy targets)"
    and b: "b = beam_rounds cat (unat (ms_max_nodes policy)) (unat (ms_max_paths policy)) (beam_start cat)"
    and m: "beam_result cat b = Some m" using assms by (rule select_Inr)
  let ?ix = "mt_indexes (bm_incumbent b)"
  note inc = select_final(1) [OF cat b]
  obtain refs where f: "mr_selected_candidates m = ?ix" "mr_material_refs m = refs"
    "set refs = (\<Union>i \<in> set ?ix. route_entries candidates i)" "distinct refs"
    using select_final(2) [OF cat b] m by auto
  obtain j where j: "j \<le> unat (ms_max_paths policy)" "picks (length (mc_paths cat)) j ?ix" using inc by (auto simp: incumbent_ok_def)
  have ix: "set ?ix \<subseteq> {..<length (tr_routes candidates)}" using j(2) by (simp add: picks_def catalogue_paths [OF cat])
  then have ix': "set ?ix \<subseteq> {..<length (route_sets candidates)}" by simp
  have "length refs = card (entries_of (route_sets candidates) ?ix)"
    using f(3,4) distinct_card [of refs] by (simp add: entries_of_routes [OF ix])
  then have "length refs \<le> unat (ms_max_nodes policy)"
    using inc union_of_count [OF cat ix'] unfolding incumbent_ok_def by metis
  then show ?thesis using j ix f by (simp add: picks_def)
qed

text \<open>Without entries nothing is covered: an accepted requirement has no empty alternative.\<close>

lemma requirements_need_entries: "material_validate policy targets = Inr () \<Longrightarrow> benefit_of {} (requirements policy targets) = 0"
  by (auto simp: material_validate_def requirements_def benefit_of_def covers_def requirement_refused_def list_ex_iff split: if_splits)

text \<open>C9. The score of the chosen material is that of the entries it holds: a requirement is
  reported covered exactly when one of its alternatives lies among them, incomplete otherwise,
  and the benefit is the weight of the covered requirements.\<close>

theorem material_scores_entries:
  assumes "select_trace_material candidates targets policy = Some (Inr m)"
  shows "mr_covered_groups m = covered_by (set (mr_material_refs m)) (requirements policy targets)
    \<and> set (mr_incomplete_groups m) = {..<length (requirements policy targets)} - set (mr_covered_groups m)
    \<and> mr_benefit m = benefit_of (set (mr_material_refs m)) (requirements policy targets)"
proof -
  let ?reqs = "requirements policy targets"
  obtain cat b where valid: "material_validate policy targets = Inr ()" and cat: "catalogue_ok cat (route_sets candidates) ?reqs"
    and b: "b = beam_rounds cat (unat (ms_max_nodes policy)) (unat (ms_max_paths policy)) (beam_start cat)"
    and m: "beam_result cat b = Some m" using assms by (rule select_Inr)
  let ?s = "bm_incumbent b"
  let ?R = "\<Union>i \<in> set (mt_indexes ?s). route_entries candidates i"
  note inc = select_final(1) [OF cat b]
  have f: "set (mr_material_refs m) = ?R" "mr_covered_groups m = covered_by ?R ?reqs"
    "mr_incomplete_groups m = filter (\<lambda>g. g \<notin> set (covered_by ?R ?reqs)) [0..<length ?reqs]" "mr_benefit m = mt_benefit ?s"
    using select_final(2) [OF cat b] m by auto
  obtain j where "picks (length (mc_paths cat)) j (mt_indexes ?s)" using inc by (auto simp: incumbent_ok_def)
  then have ix: "set (mt_indexes ?s) \<subseteq> {..<length (tr_routes candidates)}" by (simp add: picks_def catalogue_paths [OF cat])
  then have ix': "set (mt_indexes ?s) \<subseteq> {..<length (route_sets candidates)}" by simp
  have "mt_benefit ?s = benefit_of ?R ?reqs"
  proof (cases "?s = empty_state cat")
    case True
    then show ?thesis using requirements_need_entries [OF valid] by (simp add: empty_state_def)
  next
    case False
    then have "?s = state_of cat (mt_indexes ?s)" using inc by (auto simp: incumbent_ok_def)
    then have "mt_benefit ?s = fst (catalogue_score cat (union_of cat (mt_indexes ?s)))" by (metis state_of_sel(3))
    then show ?thesis using catalogue_score_meaning [OF cat ix'] by (simp only: entries_of_routes [OF ix])
  qed
  then show ?thesis using f by auto
qed

text \<open>C16. The beam never loses to one route: no route of the search that fits the bound on
  entries by itself covers requirements of more weight than the chosen material.\<close>

theorem material_beats_single_route:
  assumes "select_trace_material candidates targets policy = Some (Inr m)"
    and "i < length (tr_routes candidates)" and "card (route_entries candidates i) \<le> unat (ms_max_nodes policy)"
  shows "benefit_of (route_entries candidates i) (requirements policy targets) \<le> mr_benefit m"
proof -
  let ?reqs = "requirements policy targets" and ?mx = "unat (ms_max_nodes policy)"
  obtain cat b where valid: "material_validate policy targets = Inr ()" and cat: "catalogue_ok cat (route_sets candidates) ?reqs"
    and b: "b = beam_rounds cat ?mx (unat (ms_max_paths policy)) (beam_start cat)"
    and m: "beam_result cat b = Some m" using assms(1) by (rule select_Inr)
  have ix: "set [i] \<subseteq> {..<length (tr_routes candidates)}" and ix': "set [i] \<subseteq> {..<length (route_sets candidates)}"
    using assms(2) by simp_all
  have e: "entries_of (route_sets candidates) [i] = route_entries candidates i" using entries_of_routes [OF ix] by simp
  have "unat (ms_max_paths policy) \<noteq> 0" using valid by (auto simp: material_validate_def unat_eq_zero split: if_splits)
  then obtain n where n: "unat (ms_max_paths policy) = Suc n" using not0_implies_Suc by blast
  let ?first = "beam_round cat ?mx (beam_start cat)"
  have picks: "\<forall>c \<in> set (bm_frontier (beam_start cat)). picks (length (mc_paths cat)) 0 c" by (simp add: beam_start_def picks_def)
  have start: "incumbent_ok cat ?mx 0 (bm_incumbent (beam_start cat))" using empty_incumbent by (simp add: beam_start_def)
  note r = beam_round_ok [OF start picks]
  have "set_count (union_of cat (sort ([] @ [i]))) \<le> ?mx" using union_of_count [OF cat ix'] assms(3) e by simp
  then have "actual_key (bm_incumbent ?first) \<le> actual_key (state_of cat (sort ([] @ [i])))"
    using assms(2) catalogue_paths [OF cat] by (intro r(4)) (simp_all add: beam_start_def)
  moreover have "actual_key (bm_incumbent b) \<le> actual_key (bm_incumbent ?first)"
    using beam_rounds_ok [OF r(1,2), of n] by (simp add: b n Let_def)
  ultimately have "actual_key (bm_incumbent b) \<le> actual_key (state_of cat [i])" by (auto intro: order.trans)
  then have "mt_benefit (state_of cat [i]) \<le> mt_benefit (bm_incumbent b)" by (rule actual_key_benefit)
  moreover have "mt_benefit (state_of cat [i]) = benefit_of (route_entries candidates i) ?reqs"
    using catalogue_score_meaning [OF cat ix'] by (simp add: state_of_sel e)
  moreover have "mr_benefit m = mt_benefit (bm_incumbent b)" using select_final(2) [OF cat b] m by auto
  ultimately show ?thesis by simp
qed

text \<open>The search feeds its selection well-formed routes.\<close>

lemma search_material:
  assumes "snapshot_of reader nodes G" and "typed_request request"
    and "trace_candidates reader request = Some (Inr result)" and "sq_select request = Some policy"
  shows "\<exists>m. trace_with_material reader request = Some (Inr (result, Some m))
    \<and> select_trace_material result (sq_targets request) policy = Some (Inr m)"
proof -
  have "search_validate request = Inr ()" and source: "tr_from result = sq_from request"
    using assms(3)
    by (auto simp: trace_candidates_def search_result_def Let_def port_result_def [of "search_validate request"] split: sum.splits option.splits)
  then have valid: "material_validate policy (sq_targets request) = Inr ()"
    using assms(4) by (auto simp: search_validate_def try_bind_Inr_iff)
  have "\<forall>route \<in> set (tr_routes result).
      \<exists>ns. walk_nodes (tr_relations result) (tr_from result) (ro_edge_indexes route) = Some ns \<and> distinct ns \<and> last ns = ro_target route"
    using answer_route(1) [OF assms(1-3)] source by auto
  from collect_routes_simple [OF this] obtain found sets where
    "collect_routes (tr_relations result) (tr_from result) (tr_routes result) [tr_from result] = Inr (found, sets)" by fastforce
  from catalogue_new_ok [OF this, of "requirements policy (sq_targets request)"] obtain cat where
    new: "catalogue_new result (requirements policy (sq_targets request)) = Some (Inr cat)"
    and cat: "catalogue_ok cat (route_sets result) (requirements policy (sq_targets request))" by blast
  obtain m where "beam_result cat (beam_rounds cat (unat (ms_max_nodes policy)) (unat (ms_max_paths policy)) (beam_start cat)) = Some m"
    using select_final(2) [OF cat refl] by blast
  then have "select_trace_material result (sq_targets request) policy = Some (Inr m)"
    using valid new answer_at_most_64 [OF assms(1-3)] by (simp add: select_trace_material_def)
  then show ?thesis using assms(3,4) by (simp add: trace_with_material_def port_result_def)
qed

text \<open>C29. The material of an answer of the search is always found: the routes of the search are
  connected, simple and few enough, so that a request that was accepted gets its material.\<close>

theorem material_accepts_search:
  assumes "snapshot_of reader nodes G" and "typed_request request"
    and "trace_candidates reader request = Some (Inr result)" and "sq_select request = Some policy"
  shows "\<exists>m. trace_with_material reader request = Some (Inr (result, Some m))
    \<and> select_trace_material result (sq_targets request) policy = Some (Inr m)"
  by (rule search_material [OF assms])

subsection \<open>A sample selection\<close>

definition sample_policy :: trace_material_selection where
  "sample_policy = \<lparr>ms_max_nodes = 8, ms_max_paths = 2,
     ms_groups = [\<lparr>rq_alternatives = [[''c''], [''d'']], rq_weight = 5\<rparr>, \<lparr>rq_alternatives = [[''c'', ''d'']], rq_weight = 7\<rparr>]\<rparr>"

definition select_request :: trace_search_request where
  "select_request = sample_request\<lparr>sq_select := Some sample_policy\<rparr>"

lemma select_answer_shape:
  "map_option (map_sum id (\<lambda>r. (map ro_edge_indexes (tr_routes r), tr_from r, walk_nodes (tr_relations r) ''a'' [0, 1])))
      (trace_candidates (graph_reader sample_entry sample_graph) select_request)
     = Some (Inr ([[0, 1]], ''a'', Some [''a'', ''b'', ''c'']))"
  by code_simp

lemma select_typed: "typed_request select_request"
  by (simp add: typed_request_def select_request_def sample_request_def)

lemma select_sel [simp]: "sq_select select_request = Some sample_policy" "sq_targets select_request = [''c'', ''d'']"
  by (simp_all add: select_request_def)

lemma select_result:
  obtains result m where "trace_candidates (graph_reader sample_entry sample_graph) select_request = Some (Inr result)"
    and "select_trace_material result [''c'', ''d''] sample_policy = Some (Inr m)"
    and "length (tr_routes result) = 1" and "route_entries result 0 = {''a'', ''b'', ''c''}"
proof -
  from answer_shape [OF select_answer_shape] obtain result where
    r: "trace_candidates (graph_reader sample_entry sample_graph) select_request = Some (Inr result)"
    and f: "(map ro_edge_indexes (tr_routes result), tr_from result, walk_nodes (tr_relations result) ''a'' [0, 1])
      = ([[0, 1]], ''a'', Some [''a'', ''b'', ''c''])" by (elim exE conjE)
  obtain m where m: "select_trace_material result [''c'', ''d''] sample_policy = Some (Inr m)"
    using search_material [OF sample_store select_typed r select_sel(1)] by auto
  have "length (map ro_edge_indexes (tr_routes result)) = 1" "map ro_edge_indexes (tr_routes result) ! 0 = [0, 1]" using f by simp_all
  then have "length (tr_routes result) = 1" "ro_edge_indexes (tr_routes result ! 0) = [0, 1]" by (simp_all add: nth_map)
  moreover from this f have "route_entries result 0 = {''a'', ''b'', ''c''}" by (simp add: route_entries_def)
  ultimately show thesis using that r m by blast
qed

theorem material_within_bounds_witness:
  "\<exists>result m. select_trace_material result [''c'', ''d''] sample_policy = Some (Inr m)
     \<and> length (mr_selected_candidates m) \<le> 2 \<and> length (mr_material_refs m) \<le> 8"
proof -
  obtain result m where r: "select_trace_material result [''c'', ''d''] sample_policy = Some (Inr m)" by (rule select_result)
  from material_within_bounds [OF r] r show ?thesis
    by (intro exI [of _ result] exI [of _ m]) (simp add: sample_policy_def)
qed

theorem material_scores_entries_witness:
  "\<exists>result m. select_trace_material result [''c'', ''d''] sample_policy = Some (Inr m)
     \<and> mr_benefit m = benefit_of (set (mr_material_refs m)) (ms_groups sample_policy)"
proof -
  obtain result m where r: "select_trace_material result [''c'', ''d''] sample_policy = Some (Inr m)" by (rule select_result)
  have "requirements sample_policy [''c'', ''d''] = ms_groups sample_policy" by (simp add: requirements_def sample_policy_def)
  with material_scores_entries [OF r] r show ?thesis by (intro exI [of _ result] exI [of _ m]) simp
qed

text \<open>The only route of the sample covers the first requirement, of weight five.\<close>

theorem material_beats_single_route_witness:
  "\<exists>result m. select_trace_material result [''c'', ''d''] sample_policy = Some (Inr m) \<and> 5 \<le> mr_benefit m"
proof -
  obtain result m where r: "select_trace_material result [''c'', ''d''] sample_policy = Some (Inr m)"
    "length (tr_routes result) = 1" "route_entries result 0 = {''a'', ''b'', ''c''}" by (rule select_result)
  have "card (route_entries result 0) \<le> unat (ms_max_nodes sample_policy)" by (simp add: r(3) sample_policy_def)
  from material_beats_single_route [OF r(1) _ this] r(2) have
    "benefit_of {''a'', ''b'', ''c''} (requirements sample_policy [''c'', ''d'']) \<le> mr_benefit m" by (simp add: r(3))
  moreover have "benefit_of {''a'', ''b'', ''c''} (requirements sample_policy [''c'', ''d'']) = 5"
    by (simp add: requirements_def sample_policy_def benefit_of_def covers_def)
  ultimately show ?thesis using r(1) by (intro exI [of _ result] exI [of _ m]) simp
qed

theorem material_accepts_search_witness:
  "\<exists>result m. trace_with_material (graph_reader sample_entry sample_graph) select_request = Some (Inr (result, Some m))
     \<and> trace_candidates (graph_reader sample_entry sample_graph) select_request = Some (Inr result)"
proof -
  obtain result where r: "trace_candidates (graph_reader sample_entry sample_graph) select_request = Some (Inr result)" by (rule select_result)
  from material_accepts_search [OF sample_store select_typed r select_sel(1)] r show ?thesis by blast
qed

end
