(* ===== verification/NodeCards.thy ===== *)
theory NodeCards
  imports TraceAdmission
begin

text \<open>
  Reader-authored cards (\<open>model/node_card_policy.rs\<close>, \<open>author_node_card.rs\<close>,
  \<open>node_card_expectation.rs\<close>, \<open>node_card_rejection.rs\<close>, \<open>value_objects/node_card*.rs\<close>,
  \<open>projection/node_body_descriptor.rs\<close>): which card write lands, and what a compact read may
  show. A card stands for one version of a body, by revision and digest; its own revision is
  the token of a compare and set.
\<close>

subsection \<open>Bodies and cards\<close>

record node_body_descriptor =
  bd_node_id :: string
  bd_revision :: "64 word"
  bd_content_hash :: string
  bd_record_bytes :: "64 word"
  bd_body_bytes :: "64 word"
  bd_record_digest :: string

record node_card =
  nc_node_id :: string
  nc_language :: string
  nc_text :: string
  nc_source_revision :: "64 word"
  nc_source_content_hash :: string
  nc_source_record_digest :: string
  nc_source_body_bytes :: "64 word"
  nc_authored_by :: string
  nc_authored_at :: string
  nc_card_revision :: "64 word"

record node_card_stamp =
  ns_source_revision :: "64 word"
  ns_source_content_hash :: string
  ns_source_record_digest :: string
  ns_source_body_bytes :: "64 word"
  ns_card_revision :: "64 word"
  ns_authored_by :: string
  ns_authored_at :: string
  ns_text_bytes :: "64 word"

definition card_stamp :: "node_card \<Rightarrow> node_card_stamp" where
  "card_stamp c = \<lparr>ns_source_revision = nc_source_revision c, ns_source_content_hash = nc_source_content_hash c,
     ns_source_record_digest = nc_source_record_digest c, ns_source_body_bytes = nc_source_body_bytes c,
     ns_card_revision = nc_card_revision c, ns_authored_by = nc_authored_by c,
     ns_authored_at = nc_authored_at c, ns_text_bytes = of_nat (length (nc_text c))\<rparr>"

datatype node_card_status = CardValid | CardStale | CardIsAbsent | CardAfterCut

fun card_status_as_str :: "node_card_status \<Rightarrow> string" where
  "card_status_as_str CardValid = ''valid''"
| "card_status_as_str CardStale = ''stale''"
| "card_status_as_str CardIsAbsent = ''absent''"
| "card_status_as_str CardAfterCut = ''after_cut''"

record node_card_presentation =
  cp_status :: node_card_status
  cp_text :: "string option"
  cp_stored :: "node_card_stamp option"

definition presentation_absent :: node_card_presentation where
  "presentation_absent = \<lparr>cp_status = CardIsAbsent, cp_text = None, cp_stored = None\<rparr>"

definition text_bytes :: "node_card_presentation \<Rightarrow> 64 word" where
  "text_bytes p = (case cp_text p of None \<Rightarrow> 0 | Some t \<Rightarrow> of_nat (length t))"

subsection \<open>Writes\<close>

datatype node_card_expectation = ExpectAbsent | ExpectRevision "64 word"

record author_node_card =
  an_about :: string
  an_node_id :: string
  an_language :: string
  an_text :: string
  an_source_revision :: "64 word"
  an_source_content_hash :: string
  an_source_record_digest :: string
  an_expect :: node_card_expectation
  an_authored_by :: string
  an_authored_at :: string

datatype node_card_rejection =
    UnknownRef string string
  | NoBody string
  | SourceMoved "64 word" "64 word" string string
  | AuthoredAfterCut string
  | CardTooLarge nat nat
  | CardAlreadyExists "64 word"
  | CardMoved "64 word" "64 word"
  | CardAbsent "64 word"
  | EmptyCard
  | NotCompact nat "64 word"

definition card_is_conflict :: "node_card_rejection \<Rightarrow> bool" where
  "card_is_conflict r = (case r of SourceMoved _ _ _ _ \<Rightarrow> True | CardAlreadyExists _ \<Rightarrow> True | CardMoved _ _ \<Rightarrow> True
     | CardAbsent _ \<Rightarrow> True | _ \<Rightarrow> False)"

definition card_is_not_found :: "node_card_rejection \<Rightarrow> bool" where
  "card_is_not_found r = (case r of UnknownRef _ _ \<Rightarrow> True | NoBody _ \<Rightarrow> True | _ \<Rightarrow> False)"

definition dec_word :: "64 word \<Rightarrow> string" where
  "dec_word w = dec (unat w)"

fun rejection_text :: "node_card_rejection \<Rightarrow> string" where
  "rejection_text (UnknownRef i about) = ''`'' @ i @ ''` is not an entry of about `'' @ about
     @ ''`; a card summarizes one stored entry body inside its own about''"
| "rejection_text (NoBody i) = ''`'' @ i @ ''` has no stored body to summarize; there is nothing for a card to stand for''"
| "rejection_text (SourceMoved declared actual declared_digest actual_digest) =
     ''the body of this entry moved while the card was being written: declared revision '' @ dec_word declared
     @ '' (`'' @ declared_digest @ ''`), stored revision '' @ dec_word actual @ '' (`'' @ actual_digest
     @ ''`). Read the stored revision and author the card against it''"
| "rejection_text (AuthoredAfterCut at) = ''this write stands at a historical cut and would stamp the card at '' @ at
     @ '', after it; author cards at the frontier''"
| "rejection_text (CardTooLarge bytes limit) = ''a card is '' @ dec bytes @ '' bytes and the limit is '' @ dec limit
     @ ''; a compact view reads every card it shows, so an unbounded card is the cost it exists to remove''"
| "rejection_text (CardAlreadyExists actual) = ''a card already exists for this entry and language at card revision ''
     @ dec_word actual @ ''; declare that revision in expect to replace it''"
| "rejection_text (CardMoved declared actual) = ''another reader replaced this card: declared card revision ''
     @ dec_word declared @ '', stored card revision '' @ dec_word actual"
| "rejection_text (CardAbsent declared) = ''no card is stored for this entry and language, but card revision ''
     @ dec_word declared @ '' was declared; declare absent to author the first one''"
| "rejection_text EmptyCard = ''a card needs text; an empty card compresses nothing''"
| "rejection_text (NotCompact bytes body) = ''the card is '' @ dec bytes @ '' bytes and the body it would stand for is ''
     @ dec_word body @ ''; a card that is not shorter than its body cannot make a read cheaper''"

subsection \<open>The policy\<close>

definition MAX_CARD_BYTES :: nat where "MAX_CARD_BYTES = 4096"

definition describes :: "node_card \<Rightarrow> node_body_descriptor \<Rightarrow> bool" where
  "describes c d \<longleftrightarrow> nc_source_revision c = bd_revision d \<and> nc_source_record_digest c = bd_record_digest d"

definition condensable :: "string \<Rightarrow> node_projection \<Rightarrow> bool" where
  "condensable about node \<longleftrightarrow> bmap_get (np_properties node) ''memory_about'' = Some about
     \<and> (''entry'' \<in> set (np_labels node) \<or> np_node_kind node \<in> {''memory_evidence'', ''evidence''})"

text \<open>A clock that cannot be read fails the cut.\<close>

definition after_cut :: "int option \<Rightarrow> string \<Rightarrow> bool" where
  "after_cut limit authored_at \<longleftrightarrow>
     (case limit of None \<Rightarrow> False | Some limit \<Rightarrow> is_none_or (temporal_instant_nanos authored_at) (\<lambda>at. at > limit))"

definition expectation_refused :: "node_card_expectation \<Rightarrow> node_card option \<Rightarrow> node_card_rejection option" where
  "expectation_refused expect existing =
     (case (expect, existing) of
        (ExpectAbsent, Some stored) \<Rightarrow> Some (CardAlreadyExists (nc_card_revision stored))
      | (ExpectRevision declared, None) \<Rightarrow> Some (CardAbsent declared)
      | (ExpectRevision declared, Some stored) \<Rightarrow>
          if declared \<noteq> nc_card_revision stored then Some (CardMoved declared (nc_card_revision stored)) else None
      | (ExpectAbsent, None) \<Rightarrow> None)"

definition card_admit :: "author_node_card \<Rightarrow> node_projection option \<Rightarrow> node_body_descriptor option \<Rightarrow> node_card option
    \<Rightarrow> int option \<Rightarrow> node_card_rejection + node_card" where
  "card_admit command node descriptor existing limit =
     (if \<not> (case node of None \<Rightarrow> False | Some n \<Rightarrow> condensable (an_about command) n)
      then Inl (UnknownRef (an_node_id command) (an_about command))
      else case descriptor of
        None \<Rightarrow> Inl (NoBody (an_node_id command))
      | Some d \<Rightarrow>
          if bd_revision d \<noteq> an_source_revision command \<or> bd_record_digest d \<noteq> an_source_record_digest command
          then Inl (SourceMoved (an_source_revision command) (bd_revision d)
                 (an_source_record_digest command) (bd_record_digest d))
          else if after_cut limit (an_authored_at command) then Inl (AuthoredAfterCut (an_authored_at command))
          else if trim (an_text command) = [] then Inl EmptyCard
          else if MAX_CARD_BYTES < length (an_text command)
          then Inl (CardTooLarge (length (an_text command)) MAX_CARD_BYTES)
          else if bd_body_bytes d \<le> of_nat (length (an_text command))
          then Inl (NotCompact (length (an_text command)) (bd_body_bytes d))
          else case expectation_refused (an_expect command) existing of
            Some r \<Rightarrow> Inl r
          | None \<Rightarrow> Inr \<lparr>nc_node_id = an_node_id command, nc_language = an_language command, nc_text = an_text command,
              nc_source_revision = bd_revision d, nc_source_content_hash = bd_content_hash d,
              nc_source_record_digest = bd_record_digest d, nc_source_body_bytes = bd_body_bytes d,
              nc_authored_by = an_authored_by command, nc_authored_at = an_authored_at command,
              nc_card_revision = (case existing of None \<Rightarrow> 1 | Some stored \<Rightarrow> nc_card_revision stored + 1)\<rparr>)"

definition presentation :: "node_card option \<Rightarrow> node_body_descriptor option \<Rightarrow> int option \<Rightarrow> node_card_presentation" where
  "presentation c descriptor limit =
     (case c of
        None \<Rightarrow> presentation_absent
      | Some c \<Rightarrow>
          if after_cut limit (nc_authored_at c)
          then \<lparr>cp_status = CardAfterCut, cp_text = None, cp_stored = Some (card_stamp c)\<rparr>
          else if (case descriptor of None \<Rightarrow> False | Some d \<Rightarrow> describes c d)
          then \<lparr>cp_status = CardValid, cp_text = Some (nc_text c), cp_stored = Some (card_stamp c)\<rparr>
          else \<lparr>cp_status = CardStale, cp_text = None, cp_stored = Some (card_stamp c)\<rparr>)"

subsection \<open>What a write promises\<close>

lemma card_admit_Inr:
  assumes "card_admit command node descriptor existing limit = Inr c"
  obtains n d where "node = Some n" and "condensable (an_about command) n" and "descriptor = Some d"
    and "bd_revision d = an_source_revision command" and "bd_record_digest d = an_source_record_digest command"
    and "\<not> after_cut limit (an_authored_at command)" and "trim (an_text command) \<noteq> []"
    and "length (an_text command) \<le> MAX_CARD_BYTES" and "length (an_text command) < unat (bd_body_bytes d)"
    and "expectation_refused (an_expect command) existing = None"
    and "c = \<lparr>nc_node_id = an_node_id command, nc_language = an_language command, nc_text = an_text command,
              nc_source_revision = bd_revision d, nc_source_content_hash = bd_content_hash d,
              nc_source_record_digest = bd_record_digest d, nc_source_body_bytes = bd_body_bytes d,
              nc_authored_by = an_authored_by command, nc_authored_at = an_authored_at command,
              nc_card_revision = (case existing of None \<Rightarrow> 1 | Some stored \<Rightarrow> nc_card_revision stored + 1)\<rparr>"
proof -
  have short: "length t < unat w" if "length t \<le> MAX_CARD_BYTES" "\<not> w \<le> of_nat (length t)" for t :: string and w :: "64 word"
  proof -
    have "unat (of_nat (length t) :: 64 word) = length t"
      using that(1) by (simp add: unat_of_nat MAX_CARD_BYTES_def)
    then show ?thesis using that(2) by (simp add: not_le word_less_nat_alt)
  qed
  show thesis
    using assms unfolding card_admit_def
    by (auto split: if_splits option.splits intro!: that short simp: not_less)
qed

text \<open>A card that is admitted is shown with its text by every read of the same body version
  whose cut is not before its authorship: what one reader wrote another reads.\<close>

theorem card_written_is_read:
  assumes "card_admit command node (Some d) existing limit = Inr c"
    and "\<not> after_cut read_cut (an_authored_at command)"
  shows "cp_text (presentation (Some c) (Some d) read_cut) = Some (an_text command)
    \<and> cp_status (presentation (Some c) (Some d) read_cut) = CardValid
    \<and> length (an_text command) < unat (bd_body_bytes d)"
  using assms(1)
proof (rule card_admit_Inr)
qed (use assms(2) in \<open>auto simp: presentation_def describes_def\<close>)


text \<open>C21. No update is lost: of two writers who declare the same stored revision, the one who comes
  second is refused, with a conflict unless the write is refused whatever card is stored.\<close>

theorem card_writes_compare_and_set:
  assumes "card_admit first node descriptor existing limit = Inr c"
    and "an_expect second = an_expect first"
  shows "\<exists>r. card_admit second node' descriptor' (Some c) limit' = Inl r
    \<and> (card_is_conflict r \<or> (\<forall>existing'. card_admit second node' descriptor' existing' limit' = Inl r))"
proof -
  have e: "expectation_refused (an_expect first) existing = None"
    and rev: "nc_card_revision c = (case existing of None \<Rightarrow> 1 | Some stored \<Rightarrow> nc_card_revision stored + 1)"
    using assms(1) by (rule card_admit_Inr, simp)+
  obtain r where r: "expectation_refused (an_expect second) (Some c) = Some r" "card_is_conflict r"
    using e rev assms(2)
    by (auto simp: expectation_refused_def card_is_conflict_def split: option.splits node_card_expectation.splits if_splits)
  then show ?thesis
    by (auto simp: card_admit_def card_is_conflict_def card_is_not_found_def split: option.splits if_splits)
qed

subsection \<open>The stored card\<close>

text \<open>One slot of the store, a node and a language: each admitted write replaces the card read in its
  own transaction by the card the policy returns.\<close>

inductive card_stored :: "node_card option \<Rightarrow> bool" where
  empty_slot: "card_stored None"
| written: "card_stored existing \<Longrightarrow> card_admit command node descriptor existing limit = Inr c \<Longrightarrow> card_stored (Some c)"

text \<open>C25. Whatever is written and in which order, a stored card has text, is at most 4096 bytes long
  and shorter than the body it stands for, so that showing it never costs more than the body.\<close>

theorem stored_card_compact:
  assumes "card_stored (Some c)"
  shows "trim (nc_text c) \<noteq> [] \<and> length (nc_text c) \<le> MAX_CARD_BYTES
    \<and> length (nc_text c) < unat (nc_source_body_bytes c)"
  using assms
proof (cases rule: card_stored.cases)
  case (written existing command node descriptor limit)
  from written(2) show ?thesis by (rule card_admit_Inr) simp
qed

subsection \<open>The event of a write\<close>

text \<open>\<open>value_objects/node_card_event.rs\<close>. The encoder, the decoder and the digest are those of crates
  outside the repository, and a clock reading is opaque.\<close>

record context_event_change =
  ch_operation :: string
  ch_entity_kind :: string
  ch_entity_id :: string
  ch_payload_json :: string
  ch_reason :: "string option"
  ch_scopes :: "string list"

record 't context_updated_event =
  ev_root_node_id :: string
  ev_role :: string
  ev_revision :: "64 word"
  ev_content_hash :: string
  ev_changes :: "context_event_change list"
  ev_idempotency_key :: "string option"
  ev_logical_digest :: "string option"
  ev_requested_by :: "string option"
  ev_occurred_at :: 't

definition CARD_ROLE :: string where "CARD_ROLE = ''node_cards''"

definition CARD_ENTITY_KIND :: string where "CARD_ENTITY_KIND = ''node_card''"

definition card_record :: "(node_card \<Rightarrow> string + string) \<Rightarrow> (string \<Rightarrow> string) \<Rightarrow> string \<Rightarrow> node_card \<Rightarrow> bool \<Rightarrow> 't
    \<Rightarrow> 't context_updated_event port_result" where
  "card_record encode digest about c baseline occurred_at =
     (case encode c of
        Inl e \<Rightarrow> Inl (PortInvalidState (''encode card event: '' @ e))
      | Inr payload \<Rightarrow> Inr \<lparr>ev_root_node_id = about, ev_role = CARD_ROLE, ev_revision = 0,
          ev_content_hash = ''sha256:'' @ digest payload,
          ev_changes = [\<lparr>ch_operation = (if baseline then ''BASELINE'' else ''RECORD''), ch_entity_kind = CARD_ENTITY_KIND,
            ch_entity_id = nc_node_id c, ch_payload_json = payload, ch_reason = None, ch_scopes = []\<rparr>],
          ev_idempotency_key = None, ev_logical_digest = None, ev_requested_by = Some (nc_authored_by c),
          ev_occurred_at = occurred_at\<rparr>)"

definition card_refused :: "'t context_updated_event \<Rightarrow> context_event_change \<Rightarrow> node_card \<Rightarrow> bool" where
  "card_refused event change c \<longleftrightarrow> nc_node_id c \<noteq> ch_entity_id change \<or> nc_card_revision c = 0
     \<or> nc_language c = [] \<or> nc_text c = [] \<or> MAX_CARD_BYTES < length (nc_text c)
     \<or> temporal_instant_nanos (nc_authored_at c) = None \<or> ev_requested_by event \<noteq> Some (nc_authored_by c)"

definition card_of_event :: "(string \<Rightarrow> node_card option) \<Rightarrow> (string \<Rightarrow> string) \<Rightarrow> 't context_updated_event
    \<Rightarrow> node_card option port_result" where
  "card_of_event decode digest event =
     (if ev_role event \<noteq> CARD_ROLE then
        (if list_ex (\<lambda>c. ch_entity_kind c = CARD_ENTITY_KIND) (ev_changes event)
         then Inl (PortInvalidState ''card event has the wrong stream'') else Inr None)
      else
        let invalid = Inl (PortInvalidState ''invalid authored card event'') in
        case ev_changes event of
          [change] \<Rightarrow>
            if ch_entity_kind change \<noteq> CARD_ENTITY_KIND \<or> ch_operation change \<notin> {''RECORD'', ''BASELINE''}
               \<or> ev_root_node_id event = [] \<or> ev_content_hash event \<noteq> ''sha256:'' @ digest (ch_payload_json change)
            then invalid
            else (case decode (ch_payload_json change) of
                None \<Rightarrow> invalid
              | Some c \<Rightarrow> if card_refused event change c then invalid else Inr (Some c))
        | _ \<Rightarrow> invalid)"

text \<open>The event of an admitted card replays to that very card, for a write under a named about in
  a named language with a readable clock, as long as its revision has not wrapped to zero.\<close>

theorem card_event_round_trip:
  assumes "card_admit command node descriptor existing limit = Inr c"
    and "encode c = Inr payload" and "decode payload = Some c"
    and "an_about command \<noteq> []" and "an_language command \<noteq> []"
    and "temporal_instant_nanos (an_authored_at command) \<noteq> None" and "nc_card_revision c \<noteq> 0"
  shows "\<exists>event. card_record encode digest (an_about command) c baseline now = Inr event
    \<and> card_of_event decode digest event = Inr (Some c)"
  using assms(1)
proof (rule card_admit_Inr)
  fix d
  assume short: "length (an_text command) \<le> MAX_CARD_BYTES" "trim (an_text command) \<noteq> []"
    and c: "c = \<lparr>nc_node_id = an_node_id command, nc_language = an_language command, nc_text = an_text command,
              nc_source_revision = bd_revision d, nc_source_content_hash = bd_content_hash d,
              nc_source_record_digest = bd_record_digest d, nc_source_body_bytes = bd_body_bytes d,
              nc_authored_by = an_authored_by command, nc_authored_at = an_authored_at command,
              nc_card_revision = (case existing of None \<Rightarrow> 1 | Some stored \<Rightarrow> nc_card_revision stored + 1)\<rparr>"
  have sel: "nc_node_id c = an_node_id command" "nc_language c = an_language command" "nc_text c = an_text command"
    "nc_authored_at c = an_authored_at command" by (simp_all add: c)
  have "an_text command \<noteq> []" using short(2) by auto
  then show ?thesis
    using assms(2-7) short sel
    by (simp add: card_record_def card_of_event_def card_refused_def Let_def not_less)
qed

subsection \<open>A sample write\<close>

definition card_node :: node_projection where
  "card_node = \<lparr>np_node_id = ''n'', np_node_kind = ''entry'', np_title = [], np_summary = [], np_status = [],
     np_labels = [''entry''], np_properties = [(''memory_about'', ''dev'')], np_provenance = None\<rparr>"

definition card_body :: node_body_descriptor where
  "card_body = \<lparr>bd_node_id = ''n'', bd_revision = 3, bd_content_hash = ''h'', bd_record_bytes = 90,
     bd_body_bytes = 60, bd_record_digest = ''sha256:d''\<rparr>"

definition card_command :: author_node_card where
  "card_command = \<lparr>an_about = ''dev'', an_node_id = ''n'', an_language = ''en'', an_text = ''short'', an_source_revision = 3,
     an_source_content_hash = ''h'', an_source_record_digest = ''sha256:d'', an_expect = ExpectAbsent,
     an_authored_by = ''reader'', an_authored_at = ''2026-01-02T00:00:00Z''\<rparr>"

definition card_sample :: node_card where
  "card_sample = \<lparr>nc_node_id = ''n'', nc_language = ''en'', nc_text = ''short'', nc_source_revision = 3,
     nc_source_content_hash = ''h'', nc_source_record_digest = ''sha256:d'', nc_source_body_bytes = 60,
     nc_authored_by = ''reader'', nc_authored_at = ''2026-01-02T00:00:00Z'', nc_card_revision = 1\<rparr>"

lemma card_sample_admitted: "card_admit card_command (Some card_node) (Some card_body) None None = Inr card_sample"
  by code_simp

theorem card_written_is_read_witness:
  "cp_text (presentation (Some card_sample) (Some card_body) None) = Some ''short''"
proof -
  have "\<not> after_cut None (an_authored_at card_command)" by (simp add: after_cut_def)
  from card_written_is_read [OF card_sample_admitted this] show ?thesis by (simp add: card_command_def)
qed


theorem card_writes_compare_and_set_witness:
  "\<exists>r. card_admit card_command (Some card_node) (Some card_body) (Some card_sample) None = Inl r"
  using card_writes_compare_and_set [OF card_sample_admitted refl, of "Some card_node" "Some card_body" None] by blast

theorem stored_card_compact_witness: "length (nc_text card_sample) < unat (nc_source_body_bytes card_sample)"
  using stored_card_compact [OF card_stored.written [OF card_stored.empty_slot card_sample_admitted]] by blast

theorem card_event_round_trip_witness:
  "\<exists>event :: nat context_updated_event. card_of_event (\<lambda>_. Some card_sample) (\<lambda>p. p) event = Inr (Some card_sample)"
proof -
  have "temporal_instant_nanos (an_authored_at card_command) \<noteq> None" by code_simp
  from card_event_round_trip [OF card_sample_admitted, of "\<lambda>_. Inr ''json''" "''json''" "\<lambda>_. Some card_sample" "\<lambda>p. p" False "0 :: nat"] this
  show ?thesis by (auto simp: card_command_def card_sample_def)
qed

end
