(* ===== verification/TraceBodies.thy ===== *)
theory TraceBodies
  imports NodeCards TraceRequest
begin

text \<open>
  Delivery of canonical bodies (\<open>model/trace_body_admission.rs\<close>,
  \<open>value_objects/trace_body_state.rs\<close>, \<open>trace_body_delivery.rs\<close>, \<open>trace_expansion_plan.rs\<close>, and the
  plan and the counts of \<open>model/materialize_trace_proof.rs\<close>): which bodies of a selected manifest a
  response loads under a ceiling on stored bytes, and what to ask for next. Byte counts are
  \<open>u64\<close>; their sums wrap.
\<close>

subsection \<open>States\<close>

datatype trace_body_state = BodyLoaded | BodyDeferred | BodyNotRequested | BodyCompact | BodyMissing

fun body_state_as_str :: "trace_body_state \<Rightarrow> string" where
  "body_state_as_str BodyLoaded = ''loaded''"
| "body_state_as_str BodyDeferred = ''deferred_budget''"
| "body_state_as_str BodyNotRequested = ''not_requested''"
| "body_state_as_str BodyCompact = ''compact''"
| "body_state_as_str BodyMissing = ''missing''"

definition is_omitted :: "trace_body_state \<Rightarrow> bool" where
  "is_omitted s \<longleftrightarrow> s \<in> {BodyDeferred, BodyNotRequested, BodyCompact}"

subsection \<open>Admission\<close>

record trace_body_admission =
  ta_load :: "string list"
  ta_states :: "(string, trace_body_state) bmap"
  ta_admitted_record_bytes :: "64 word"
  ta_selected_body_bytes :: "64 word"
  ta_next_deferred :: "(string \<times> 64 word) option"

definition body_admission_default :: trace_body_admission where
  "body_admission_default = \<lparr>ta_load = [], ta_states = [], ta_admitted_record_bytes = 0,
     ta_selected_body_bytes = 0, ta_next_deferred = None\<rparr>"

definition next_rerun_record_bytes :: "trace_body_admission \<Rightarrow> 64 word option" where
  "next_rerun_record_bytes a = map_option (\<lambda>(_, bytes). ta_admitted_record_bytes a + bytes) (ta_next_deferred a)"

definition next_named_record_bytes :: "trace_body_admission \<Rightarrow> 64 word option" where
  "next_named_record_bytes a = map_option snd (ta_next_deferred a)"

definition admission_state :: "trace_body_admission \<Rightarrow> string \<Rightarrow> trace_body_state" where
  "admission_state a i = (case bmap_get (ta_states a) i of None \<Rightarrow> BodyMissing | Some s \<Rightarrow> s)"

definition omitted_refs :: "trace_body_admission \<Rightarrow> string list" where
  "omitted_refs a = map fst (filter (\<lambda>(_, s). is_omitted s) (ta_states a))"

definition state_without_body :: "string \<Rightarrow> trace_body_options \<Rightarrow> string bset \<Rightarrow> trace_body_state" where
  "state_without_body i opts reusable =
     (if bo_compact opts \<noteq> None \<and> i \<in> set reusable then BodyCompact else BodyNotRequested)"

definition put_state :: "string \<Rightarrow> trace_body_state \<Rightarrow> trace_body_admission \<Rightarrow> trace_body_admission" where
  "put_state i s a = a\<lparr>ta_states := bmap_insert i s (ta_states a)\<rparr>"

text \<open>Whether the response is asked for the body itself.\<close>

definition wants_body :: "trace_body_options \<Rightarrow> string \<Rightarrow> bool" where
  "wants_body opts i \<longleftrightarrow>
     (case map_option (\<lambda>refs. i \<in> set refs) (bo_refs opts) of Some named \<Rightarrow> named | None \<Rightarrow> bo_compact opts = None)"

definition over_ceiling :: "64 word option \<Rightarrow> bool \<Rightarrow> 64 word \<Rightarrow> bool" where
  "over_ceiling allowed reached bytes \<longleftrightarrow> (case allowed of None \<Rightarrow> False | Some c \<Rightarrow> reached \<or> bytes > c)"

definition admit_body :: "(string, node_body_descriptor) bmap \<Rightarrow> trace_body_options \<Rightarrow> string bset
    \<Rightarrow> bool \<times> trace_body_admission \<Rightarrow> string \<Rightarrow> bool \<times> trace_body_admission" where
  "admit_body descriptors opts reusable p i =
     (case p of (reached, a) \<Rightarrow>
      case bmap_get descriptors i of
        None \<Rightarrow> (reached, put_state i BodyMissing a)
      | Some d \<Rightarrow>
          let a = a\<lparr>ta_selected_body_bytes := ta_selected_body_bytes a + bd_body_bytes d\<rparr> in
          if \<not> wants_body opts i then (reached, put_state i (state_without_body i opts reusable) a)
          else if over_ceiling (bo_max_record_bytes opts) reached (ta_admitted_record_bytes a + bd_record_bytes d)
          then (True, (put_state i BodyDeferred a)\<lparr>ta_next_deferred :=
                 (case ta_next_deferred a of None \<Rightarrow> Some (i, bd_record_bytes d) | Some n \<Rightarrow> Some n)\<rparr>)
          else (reached, (put_state i BodyLoaded a)\<lparr>ta_admitted_record_bytes := ta_admitted_record_bytes a + bd_record_bytes d,
                 ta_load := ta_load a @ [i]\<rparr>))"

definition body_admit :: "string list \<Rightarrow> (string, node_body_descriptor) bmap \<Rightarrow> trace_body_options \<Rightarrow> string bset
    \<Rightarrow> trace_body_admission" where
  "body_admit manifest descriptors opts reusable =
     snd (foldl (admit_body descriptors opts reusable) (False, body_admission_default) manifest)"

subsection \<open>Delivery\<close>

record trace_body_delivery =
  td_loaded :: nat
  td_deferred_budget :: nat
  td_not_requested :: nat
  td_compact :: nat
  td_missing :: nat
  td_admitted_record_bytes :: "64 word"
  td_selected_body_bytes :: "64 word"
  td_next_deferred_ref :: "string option"
  td_rerun_record_bytes :: "64 word option"
  td_named_record_bytes :: "64 word option"

definition count_state :: "trace_body_admission \<Rightarrow> trace_body_state \<Rightarrow> nat" where
  "count_state a wanted = length (filter (\<lambda>(_, s). s = wanted) (ta_states a))"

definition delivery :: "trace_body_admission \<Rightarrow> trace_body_delivery" where
  "delivery a = \<lparr>td_loaded = count_state a BodyLoaded, td_deferred_budget = count_state a BodyDeferred,
     td_not_requested = count_state a BodyNotRequested, td_compact = count_state a BodyCompact,
     td_missing = count_state a BodyMissing, td_admitted_record_bytes = ta_admitted_record_bytes a,
     td_selected_body_bytes = ta_selected_body_bytes a, td_next_deferred_ref = map_option fst (ta_next_deferred a),
     td_rerun_record_bytes = next_rerun_record_bytes a, td_named_record_bytes = next_named_record_bytes a\<rparr>"

definition delivery_is_partial :: "trace_body_delivery \<Rightarrow> bool" where
  "delivery_is_partial d \<longleftrightarrow> 0 < td_deferred_budget d \<or> 0 < td_not_requested d \<or> 0 < td_compact d"

subsection \<open>The next batch\<close>

record trace_expansion_plan =
  te_refs :: "string list"
  te_record_bytes :: "64 word"
  te_oversized :: "(string \<times> 64 word) option"

definition named_refs :: "trace_body_options \<Rightarrow> string bset option" where
  "named_refs opts = (case bo_refs opts of Some refs \<Rightarrow> if refs = [] then None else Some refs | None \<Rightarrow> None)"

definition considered :: "trace_body_options \<Rightarrow> string \<Rightarrow> bool" where
  "considered opts i = (case named_refs opts of None \<Rightarrow> True | Some named \<Rightarrow> i \<in> set named)"

definition plan_frontier :: "string list \<Rightarrow> trace_body_admission \<Rightarrow> trace_body_options \<Rightarrow> nat" where
  "plan_frontier ids a opts =
     (case filter (\<lambda>k. admission_state a (ids ! k) = BodyLoaded \<and> considered opts (ids ! k)) [0..<length ids] of
        [] \<Rightarrow> (if named_refs opts = None then 0
               else case filter (\<lambda>k. considered opts (ids ! k)) [0..<length ids] of [] \<Rightarrow> length ids | k # _ \<Rightarrow> k)
      | ks \<Rightarrow> last ks + 1)"

definition withheld_cost :: "trace_body_admission \<Rightarrow> (string, node_body_descriptor) bmap \<Rightarrow> string \<Rightarrow> 64 word option" where
  "withheld_cost a descriptors i =
     (if is_omitted (admission_state a i) then map_option bd_record_bytes (bmap_get descriptors i) else None)"

fun plan_batch :: "(string \<Rightarrow> 64 word option) \<Rightarrow> 64 word option \<Rightarrow> string list \<Rightarrow> string list \<Rightarrow> 64 word
    \<Rightarrow> string list \<times> 64 word" where
  "plan_batch cost allowed [] refs spent = (refs, spent)"
| "plan_batch cost allowed (i # ids) refs spent =
     (case cost i of
        None \<Rightarrow> plan_batch cost allowed ids refs spent
      | Some bytes \<Rightarrow>
          if length refs = MAX_EXPANSION_REFS then (refs, spent)
          else (case allowed of
              Some c \<Rightarrow>
                if bytes > c then plan_batch cost allowed ids refs spent
                else if spent + bytes > c then (refs, spent)
                else plan_batch cost allowed ids (refs @ [i]) (spent + bytes)
            | None \<Rightarrow> plan_batch cost allowed ids (refs @ [i]) (spent + bytes)))"

fun find_oversized :: "(string \<Rightarrow> 64 word option) \<Rightarrow> 64 word \<Rightarrow> string list \<Rightarrow> (string \<times> 64 word) option" where
  "find_oversized cost allowed [] = None"
| "find_oversized cost allowed (i # ids) =
     (case cost i of
        Some bytes \<Rightarrow> if bytes > allowed then Some (i, bytes) else find_oversized cost allowed ids
      | None \<Rightarrow> find_oversized cost allowed ids)"

definition plan_is_empty :: "trace_expansion_plan \<Rightarrow> bool" where
  "plan_is_empty p \<longleftrightarrow> te_refs p = [] \<and> te_oversized p = None"

definition expansion_plan :: "string list \<Rightarrow> trace_body_admission \<Rightarrow> (string, node_body_descriptor) bmap
    \<Rightarrow> trace_body_options \<Rightarrow> trace_expansion_plan option" where
  "expansion_plan ids a descriptors opts =
     (let suffix = drop (plan_frontier ids a opts) ids; cost = withheld_cost a descriptors in
      case plan_batch cost (bo_max_record_bytes opts) suffix [] 0 of (refs, spent) \<Rightarrow>
        let plan = \<lparr>te_refs = refs,
              te_record_bytes = (case bo_max_record_bytes opts of None \<Rightarrow> spent | Some c \<Rightarrow> c),
              te_oversized = (case bo_max_record_bytes opts of None \<Rightarrow> None | Some c \<Rightarrow> find_oversized cost c suffix)\<rparr>
        in if plan_is_empty plan then None else Some plan)"

subsection \<open>What is loaded\<close>

definition record_size :: "(string, node_body_descriptor) bmap \<Rightarrow> string \<Rightarrow> nat" where
  "record_size descriptors i = (case bmap_get descriptors i of None \<Rightarrow> 0 | Some d \<Rightarrow> unat (bd_record_bytes d))"

definition stored_bytes :: "(string, node_body_descriptor) bmap \<Rightarrow> string list \<Rightarrow> nat" where
  "stored_bytes descriptors ids = sum_list (map (record_size descriptors) ids)"

lemma stored_bytes_simps [simp]:
  "stored_bytes descriptors [] = 0" "stored_bytes descriptors (xs @ ys) = stored_bytes descriptors xs + stored_bytes descriptors ys"
  "stored_bytes descriptors (i # xs) = record_size descriptors i + stored_bytes descriptors xs"
  by (simp_all add: stored_bytes_def)

lemma stored_bytes_filter: "stored_bytes descriptors (filter P ids) \<le> stored_bytes descriptors ids"
  by (induction ids) (auto simp: stored_bytes_def)

lemma wants_body_ceiling [simp]: "wants_body (opts\<lparr>bo_max_record_bytes := m\<rparr>) = wants_body opts"
  by (rule ext) (simp add: wants_body_def split: option.split)

text \<open>The bodies a response is asked for, in manifest order.\<close>

definition asked_bodies :: "(string, node_body_descriptor) bmap \<Rightarrow> trace_body_options \<Rightarrow> string list \<Rightarrow> string list" where
  "asked_bodies descriptors opts ids = filter (\<lambda>i. bmap_get descriptors i \<noteq> None \<and> wants_body opts i) ids"

definition within_ceiling :: "trace_body_options \<Rightarrow> nat \<Rightarrow> bool" where
  "within_ceiling opts n \<longleftrightarrow> (case bo_max_record_bytes opts of None \<Rightarrow> True | Some c \<Rightarrow> n \<le> unat c)"

lemma admit_body_missing: "bmap_get descriptors i = None \<Longrightarrow>
    admit_body descriptors opts reusable (reached, a) i = (reached, put_state i BodyMissing a)"
  by (simp add: admit_body_def)

lemma admit_body_cases:
  assumes "bmap_get descriptors i = Some d" and "b = a\<lparr>ta_selected_body_bytes := ta_selected_body_bytes a + bd_body_bytes d\<rparr>"
  shows "\<not> wants_body opts i \<Longrightarrow>
      admit_body descriptors opts reusable (reached, a) i = (reached, put_state i (state_without_body i opts reusable) b)"
    and "wants_body opts i \<Longrightarrow> over_ceiling (bo_max_record_bytes opts) reached (ta_admitted_record_bytes a + bd_record_bytes d) \<Longrightarrow>
      admit_body descriptors opts reusable (reached, a) i = (True, (put_state i BodyDeferred b)\<lparr>ta_next_deferred :=
                 (case ta_next_deferred a of None \<Rightarrow> Some (i, bd_record_bytes d) | Some n \<Rightarrow> Some n)\<rparr>)"
    and "wants_body opts i \<Longrightarrow> \<not> over_ceiling (bo_max_record_bytes opts) reached (ta_admitted_record_bytes a + bd_record_bytes d) \<Longrightarrow>
      admit_body descriptors opts reusable (reached, a) i =
        (reached, (put_state i BodyLoaded b)\<lparr>ta_admitted_record_bytes := ta_admitted_record_bytes a + bd_record_bytes d,
                 ta_load := ta_load a @ [i]\<rparr>)"
  using assms by (simp_all add: admit_body_def Let_def put_state_def)

lemma admit_body_loop:
  assumes "foldl (admit_body descriptors opts reusable) (reached, a) ids = (reached', a')"
    and "unat (ta_admitted_record_bytes a) + stored_bytes descriptors ids < 2 ^ 64"
    and "reached \<longrightarrow> bo_max_record_bytes opts \<noteq> None"
  shows "\<exists>now rest. asked_bodies descriptors opts ids = now @ rest \<and> ta_load a' = ta_load a @ now
    \<and> unat (ta_admitted_record_bytes a') = unat (ta_admitted_record_bytes a) + stored_bytes descriptors now
    \<and> (reached \<longrightarrow> now = []) \<and> (now \<noteq> [] \<longrightarrow> within_ceiling opts (unat (ta_admitted_record_bytes a')))
    \<and> (rest \<noteq> [] \<longrightarrow> \<not> reached \<longrightarrow> \<not> within_ceiling opts (unat (ta_admitted_record_bytes a') + record_size descriptors (hd rest)))
    \<and> ta_next_deferred a' = (case ta_next_deferred a of Some n \<Rightarrow> Some n
        | None \<Rightarrow> (case rest of [] \<Rightarrow> None | i # _ \<Rightarrow> Some (i, bd_record_bytes (the (bmap_get descriptors i)))))"
  using assms
proof (induction ids arbitrary: reached a)
  case Nil
  then show ?case by (simp add: asked_bodies_def split: option.splits)
next
  case (Cons i ids)
  show ?case
  proof (cases "bmap_get descriptors i")
    case None
    with Cons.prems Cons.IH [of reached "put_state i BodyMissing a"] show ?thesis
      by (simp add: admit_body_missing) (simp add: put_state_def asked_bodies_def)
  next
    case (Some d)
    let ?b = "a\<lparr>ta_selected_body_bytes := ta_selected_body_bytes a + bd_body_bytes d\<rparr>"
    have size: "record_size descriptors i = unat (bd_record_bytes d)" using Some by (simp add: record_size_def)
    have sum: "unat (ta_admitted_record_bytes a + bd_record_bytes d) = unat (ta_admitted_record_bytes a) + unat (bd_record_bytes d)"
      using Cons.prems(2) size by (subst unat_add_lem [THEN iffD1]) simp_all
    consider (skip) "\<not> wants_body opts i"
      | (defer_it) "wants_body opts i" "over_ceiling (bo_max_record_bytes opts) reached (ta_admitted_record_bytes a + bd_record_bytes d)"
      | (load) "wants_body opts i" "\<not> over_ceiling (bo_max_record_bytes opts) reached (ta_admitted_record_bytes a + bd_record_bytes d)" by blast
    then show ?thesis
    proof cases
      case skip
      with Cons.prems Cons.IH [of reached "put_state i (state_without_body i opts reusable) ?b"] Some show ?thesis
        by (simp add: admit_body_cases(1) [OF Some refl]) (simp add: put_state_def asked_bodies_def)
    next
      case defer_it
      let ?a = "(put_state i BodyDeferred ?b)\<lparr>ta_next_deferred :=
                 (case ta_next_deferred a of None \<Rightarrow> Some (i, bd_record_bytes d) | Some n \<Rightarrow> Some n)\<rparr>"
      have step: "foldl (admit_body descriptors opts reusable) (True, ?a) ids = (reached', a')"
        using Cons.prems(1) by (simp add: admit_body_cases(2) [OF Some refl defer_it])
      have "bo_max_record_bytes opts \<noteq> None" using defer_it(2) by (auto simp: over_ceiling_def split: option.splits)
      with Cons.IH [OF step] Cons.prems(2) obtain rest where rest: "asked_bodies descriptors opts ids = rest" "ta_load a' = ta_load a"
        "unat (ta_admitted_record_bytes a') = unat (ta_admitted_record_bytes a)" "ta_next_deferred a' = ta_next_deferred ?a"
        by (auto simp: put_state_def split: option.splits)
      have "\<not> reached \<longrightarrow> \<not> within_ceiling opts (unat (ta_admitted_record_bytes a) + unat (bd_record_bytes d))"
        using defer_it(2) sum by (auto simp: over_ceiling_def within_ceiling_def word_less_nat_alt split: option.splits)
      then show ?thesis
        using rest size Some defer_it(1)
        by (intro exI [of _ "[]"] exI [of _ "i # rest"]) (auto simp: asked_bodies_def split: option.splits)
    next
      case load
      let ?a = "(put_state i BodyLoaded ?b)\<lparr>ta_admitted_record_bytes := ta_admitted_record_bytes a + bd_record_bytes d,
                 ta_load := ta_load a @ [i]\<rparr>"
      have step: "foldl (admit_body descriptors opts reusable) (reached, ?a) ids = (reached', a')"
        using Cons.prems(1) by (simp add: admit_body_cases(3) [OF Some refl load])
      have nr: "\<not> reached" using load(2) Cons.prems(3) by (auto simp: over_ceiling_def split: option.splits)
      have bound: "unat (ta_admitted_record_bytes ?a) + stored_bytes descriptors ids < 2 ^ 64"
        using Cons.prems(2) size sum by simp
      have fit: "within_ceiling opts (unat (ta_admitted_record_bytes ?a))"
        using load(2) sum by (auto simp: over_ceiling_def within_ceiling_def not_less word_le_nat_alt split: option.splits)
      from Cons.IH [OF step bound] Cons.prems(3) obtain now rest where
        IH: "asked_bodies descriptors opts ids = now @ rest" "ta_load a' = ta_load ?a @ now"
        "unat (ta_admitted_record_bytes a') = unat (ta_admitted_record_bytes ?a) + stored_bytes descriptors now"
        "now \<noteq> [] \<longrightarrow> within_ceiling opts (unat (ta_admitted_record_bytes a'))"
        "rest \<noteq> [] \<longrightarrow> \<not> within_ceiling opts (unat (ta_admitted_record_bytes a') + record_size descriptors (hd rest))"
        "ta_next_deferred a' = (case ta_next_deferred ?a of Some n \<Rightarrow> Some n
          | None \<Rightarrow> (case rest of [] \<Rightarrow> None | i # _ \<Rightarrow> Some (i, bd_record_bytes (the (bmap_get descriptors i)))))"
        using nr by blast
      have "within_ceiling opts (unat (ta_admitted_record_bytes a'))"
        using fit IH(3,4) by (cases "now = []") simp_all
      then show ?thesis
        using IH size sum nr Some load(1)
        by (intro exI [of _ "i # now"] exI [of _ rest]) (simp add: asked_bodies_def put_state_def)
    qed
  qed
qed

lemma body_admit_loads:
  assumes "stored_bytes descriptors manifest < 2 ^ 64" and "a = body_admit manifest descriptors opts reusable"
  obtains rest where "asked_bodies descriptors opts manifest = ta_load a @ rest"
    and "unat (ta_admitted_record_bytes a) = stored_bytes descriptors (ta_load a)"
    and "ta_load a \<noteq> [] \<longrightarrow> within_ceiling opts (stored_bytes descriptors (ta_load a))"
    and "rest \<noteq> [] \<longrightarrow> \<not> within_ceiling opts (stored_bytes descriptors (ta_load a) + record_size descriptors (hd rest))"
    and "ta_next_deferred a = (case rest of [] \<Rightarrow> None | i # _ \<Rightarrow> Some (i, bd_record_bytes (the (bmap_get descriptors i))))"
proof -
  obtain reached where f: "foldl (admit_body descriptors opts reusable) (False, body_admission_default) manifest = (reached, a)"
    using assms(2) by (metis body_admit_def prod.collapse)
  have "\<exists>now rest. asked_bodies descriptors opts manifest = now @ rest \<and> ta_load a = now
    \<and> unat (ta_admitted_record_bytes a) = stored_bytes descriptors now
    \<and> (now \<noteq> [] \<longrightarrow> within_ceiling opts (unat (ta_admitted_record_bytes a)))
    \<and> (rest \<noteq> [] \<longrightarrow> \<not> within_ceiling opts (unat (ta_admitted_record_bytes a) + record_size descriptors (hd rest)))
    \<and> ta_next_deferred a = (case rest of [] \<Rightarrow> None | i # _ \<Rightarrow> Some (i, bd_record_bytes (the (bmap_get descriptors i))))"
    using admit_body_loop [OF f] assms(1) by (simp add: body_admission_default_def)
  then show thesis by (elim exE conjE) (rule that, simp_all)
qed

text \<open>C23. Under a ceiling a response loads exactly the longest run of the bodies it is asked for, in
  manifest order, whose stored bytes fit together, and names the first that does not fit.\<close>

theorem body_admission_longest_run:
  assumes "stored_bytes descriptors manifest < 2 ^ 64" and "a = body_admit manifest descriptors opts reusable"
    and "bo_max_record_bytes opts = Some allowed"
  shows "\<exists>rest. asked_bodies descriptors opts manifest = ta_load a @ rest
    \<and> stored_bytes descriptors (ta_load a) \<le> unat allowed \<and> unat (ta_admitted_record_bytes a) = stored_bytes descriptors (ta_load a)
    \<and> (rest \<noteq> [] \<longrightarrow> unat allowed < stored_bytes descriptors (ta_load a @ [hd rest])
         \<and> map_option fst (ta_next_deferred a) = Some (hd rest))
    \<and> (rest = [] \<longrightarrow> ta_next_deferred a = None)"
  using assms(1,2)
proof (rule body_admit_loads)
  fix rest
  assume "asked_bodies descriptors opts manifest = ta_load a @ rest"
    "unat (ta_admitted_record_bytes a) = stored_bytes descriptors (ta_load a)"
    "ta_load a \<noteq> [] \<longrightarrow> within_ceiling opts (stored_bytes descriptors (ta_load a))"
    "rest \<noteq> [] \<longrightarrow> \<not> within_ceiling opts (stored_bytes descriptors (ta_load a) + record_size descriptors (hd rest))"
    "ta_next_deferred a = (case rest of [] \<Rightarrow> None | i # _ \<Rightarrow> Some (i, bd_record_bytes (the (bmap_get descriptors i))))"
  then show ?thesis
    using assms(3) by (intro exI [of _ rest]) (cases "ta_load a"; cases rest; simp add: within_ceiling_def)
qed

text \<open>The two next steps a response reports are exact. Run again from the start with the ceiling
  it names, the query loads what it loaded and the deferred record; with any lower ceiling it
  loads no more than it did. Named alone, the record is loaded with its own size.\<close>

theorem deferred_record_reachable:
  assumes "stored_bytes descriptors manifest < 2 ^ 64" and "a = body_admit manifest descriptors opts reusable"
    and "ta_next_deferred a = Some (i, bytes)" and "distinct manifest"
    and "next_rerun_record_bytes a = Some again" and "next_named_record_bytes a = Some alone"
  shows "(\<exists>more. ta_load (body_admit manifest descriptors (opts\<lparr>bo_max_record_bytes := Some again\<rparr>) reusable) = ta_load a @ i # more)
    \<and> (lower < again \<longrightarrow>
         (\<exists>rest. ta_load a = ta_load (body_admit manifest descriptors (opts\<lparr>bo_max_record_bytes := Some lower\<rparr>) reusable) @ rest))
    \<and> ta_load (body_admit manifest descriptors (opts\<lparr>bo_refs := Some [i], bo_max_record_bytes := Some alone\<rparr>) reusable) = [i]"
proof -
  let ?asked = "asked_bodies descriptors opts manifest"
  obtain rest where r: "?asked = ta_load a @ rest" "unat (ta_admitted_record_bytes a) = stored_bytes descriptors (ta_load a)"
    "ta_next_deferred a = (case rest of [] \<Rightarrow> None | i # _ \<Rightarrow> Some (i, bd_record_bytes (the (bmap_get descriptors i))))"
    using assms(1,2) by (rule body_admit_loads)
  obtain rest' where rest: "rest = i # rest'" "bytes = bd_record_bytes (the (bmap_get descriptors i))"
    using r(3) assms(3) by (auto split: list.splits)
  have i: "i \<in> set manifest" "bmap_get descriptors i \<noteq> None"
  proof -
    have "i \<in> set ?asked" using r(1) rest(1) by simp
    then show "i \<in> set manifest" "bmap_get descriptors i \<noteq> None" unfolding asked_bodies_def by auto
  qed
  then have size: "record_size descriptors i = unat bytes" using rest(2) by (auto simp: record_size_def)
  have "stored_bytes descriptors ?asked \<le> stored_bytes descriptors manifest"
    unfolding asked_bodies_def by (rule stored_bytes_filter)
  then have total: "stored_bytes descriptors (ta_load a) + unat bytes < 2 ^ 64" using assms(1) r(1) rest(1) size by simp
  have again: "unat again = stored_bytes descriptors (ta_load a) + unat bytes"
  proof -
    have "again = ta_admitted_record_bytes a + bytes" using assms(3,5) by (simp add: next_rerun_record_bytes_def)
    then show ?thesis using total r(2) by (simp add: unat_word_ariths)
  qed
  have asked: "asked_bodies descriptors (opts\<lparr>bo_max_record_bytes := m\<rparr>) manifest = ?asked" for m
    by (simp add: asked_bodies_def)
  have rerun: "\<exists>more. ta_load (body_admit manifest descriptors (opts\<lparr>bo_max_record_bytes := Some again\<rparr>) reusable) = ta_load a @ i # more"
    using assms(1) refl
  proof (rule body_admit_loads)
    fix left
    let ?b = "body_admit manifest descriptors (opts\<lparr>bo_max_record_bytes := Some again\<rparr>) reusable"
    assume b: "asked_bodies descriptors (opts\<lparr>bo_max_record_bytes := Some again\<rparr>) manifest = ta_load ?b @ left"
      "left \<noteq> [] \<longrightarrow> \<not> within_ceiling (opts\<lparr>bo_max_record_bytes := Some again\<rparr>) (stored_bytes descriptors (ta_load ?b) + record_size descriptors (hd left))"
    have eq: "ta_load ?b @ left = (ta_load a @ [i]) @ rest'" using b(1) asked r(1) rest(1) by simp
    then obtain us where "ta_load ?b = (ta_load a @ [i]) @ us \<or> ta_load ?b @ us = ta_load a @ [i] \<and> left = us @ rest'"
      using append_eq_append_conv2 [THEN iffD1, OF eq] by blast
    then show ?thesis
    proof
      assume us: "ta_load ?b @ us = ta_load a @ [i] \<and> left = us @ rest'"
      show ?thesis
      proof (cases "us = []")
        case False
        then have "record_size descriptors (hd left) \<le> stored_bytes descriptors us" using us by (cases us) simp_all
        moreover have "stored_bytes descriptors (ta_load ?b) + stored_bytes descriptors us = stored_bytes descriptors (ta_load a @ [i])"
          using us by (metis stored_bytes_simps(2))
        ultimately have "stored_bytes descriptors (ta_load ?b) + record_size descriptors (hd left) \<le> unat again" using again size by simp
        then show ?thesis using b(2) us False by (simp add: within_ceiling_def)
      qed (use us in auto)
    qed auto
  qed
  have low: "\<exists>rest. ta_load a = ta_load (body_admit manifest descriptors (opts\<lparr>bo_max_record_bytes := Some lower\<rparr>) reusable) @ rest"
    if "lower < again"
    using assms(1) refl
  proof (rule body_admit_loads)
    fix left
    let ?b = "body_admit manifest descriptors (opts\<lparr>bo_max_record_bytes := Some lower\<rparr>) reusable"
    assume b: "asked_bodies descriptors (opts\<lparr>bo_max_record_bytes := Some lower\<rparr>) manifest = ta_load ?b @ left"
      "ta_load ?b \<noteq> [] \<longrightarrow> within_ceiling (opts\<lparr>bo_max_record_bytes := Some lower\<rparr>) (stored_bytes descriptors (ta_load ?b))"
    have eq: "ta_load ?b @ left = ta_load a @ i # rest'" using b(1) asked r(1) rest(1) by simp
    then obtain us where "ta_load a = ta_load ?b @ us \<or> (ta_load ?b = ta_load a @ us \<and> us @ left = i # rest')"
      using append_eq_append_conv2 [THEN iffD1, OF eq] by metis
    then show ?thesis
    proof
      assume us: "ta_load ?b = ta_load a @ us \<and> us @ left = i # rest'"
      show ?thesis
      proof (cases us)
        case (Cons u us')
        then have "stored_bytes descriptors (ta_load ?b) \<ge> unat again" using us again size by auto
        then show ?thesis using b(2) us Cons that by (simp add: within_ceiling_def word_less_nat_alt)
      qed (use us in auto)
    qed auto
  qed
  have named: "ta_load (body_admit manifest descriptors (opts\<lparr>bo_refs := Some [i], bo_max_record_bytes := Some alone\<rparr>) reusable) = [i]"
    using assms(1) refl
  proof (rule body_admit_loads)
    fix left
    let ?o = "opts\<lparr>bo_refs := Some [i], bo_max_record_bytes := Some alone\<rparr>"
    let ?b = "body_admit manifest descriptors ?o reusable"
    assume b: "asked_bodies descriptors ?o manifest = ta_load ?b @ left"
      "left \<noteq> [] \<longrightarrow> \<not> within_ceiling ?o (stored_bytes descriptors (ta_load ?b) + record_size descriptors (hd left))"
    have "asked_bodies descriptors ?o manifest = filter (\<lambda>j. j = i) manifest"
      unfolding asked_bodies_def wants_body_def using i(2) by (intro filter_cong) auto
    also have "\<dots> = [i]" using i(1) assms(4) by (induction manifest) (auto simp: filter_empty_conv)
    finally have "ta_load ?b @ left = [i]" using b(1) by simp
    moreover have "alone = bytes" using assms(3,6) by (simp add: next_named_record_bytes_def)
    ultimately show ?thesis using b(2) size by (cases "ta_load ?b") (auto simp: within_ceiling_def)
  qed
  show ?thesis using rerun low named by blast
qed

subsection \<open>What the plan recovers\<close>

lemma plan_batch_picks:
  assumes "plan_batch cost allowed ids refs spent = (refs', spent')"
    and "\<forall>i \<in> set ids. \<forall>b. cost i = Some b \<longrightarrow> record_size descriptors i = unat b"
    and "unat spent + stored_bytes descriptors ids < 2 ^ 64" and "length refs \<le> MAX_EXPANSION_REFS"
  shows "\<exists>picked. refs' = refs @ picked \<and> set picked \<subseteq> set ids \<and> (distinct ids \<longrightarrow> filter (\<lambda>i. i \<in> set picked) ids = picked)
    \<and> (\<forall>i \<in> set picked. cost i \<noteq> None) \<and> unat spent' = unat spent + stored_bytes descriptors picked
    \<and> (\<forall>c. allowed = Some c \<longrightarrow> spent \<le> c \<longrightarrow> spent' \<le> c) \<and> length refs' \<le> MAX_EXPANSION_REFS
    \<and> (refs' = [] \<longrightarrow> spent = 0 \<longrightarrow> (\<forall>i \<in> set ids. \<forall>b. cost i = Some b \<longrightarrow> (\<exists>c. allowed = Some c \<and> c < b)))"
  using assms
proof (induction ids arbitrary: refs spent)
  case (Cons i ids)
  have tail: "\<forall>i \<in> set ids. \<forall>b. cost i = Some b \<longrightarrow> record_size descriptors i = unat b" using Cons.prems(2) by simp
  have skip: ?case if "plan_batch cost allowed ids refs spent = (refs', spent')" "\<forall>b. cost i = Some b \<longrightarrow> (\<exists>c. allowed = Some c \<and> c < b)"
  proof -
    have "unat spent + stored_bytes descriptors ids < 2 ^ 64" using Cons.prems(3) by simp
    from Cons.IH [OF that(1) tail this Cons.prems(4)] obtain picked where IH: "refs' = refs @ picked" "set picked \<subseteq> set ids"
      "distinct ids \<longrightarrow> filter (\<lambda>i. i \<in> set picked) ids = picked" "\<forall>i \<in> set picked. cost i \<noteq> None"
      "unat spent' = unat spent + stored_bytes descriptors picked" "\<forall>c. allowed = Some c \<longrightarrow> spent \<le> c \<longrightarrow> spent' \<le> c"
      "length refs' \<le> MAX_EXPANSION_REFS"
      "refs' = [] \<longrightarrow> spent = 0 \<longrightarrow> (\<forall>i \<in> set ids. \<forall>b. cost i = Some b \<longrightarrow> (\<exists>c. allowed = Some c \<and> c < b))" by blast
    then show ?thesis using that(2) by (intro exI [of _ picked]) auto
  qed
  have stop: ?case if "refs' = refs" "spent' = spent" "refs = [] \<longrightarrow> spent = 0 \<longrightarrow> False"
    using that Cons.prems(4) by (intro exI [of _ "[]"]) simp
  show ?case
  proof (cases "cost i")
    case None
    then show ?thesis using Cons.prems(1) by (intro skip) simp_all
  next
    case (Some b)
    consider (full) "length refs = MAX_EXPANSION_REFS"
      | (large) c where "length refs \<noteq> MAX_EXPANSION_REFS" "allowed = Some c" "b > c"
      | (spent) c where "length refs \<noteq> MAX_EXPANSION_REFS" "allowed = Some c" "\<not> b > c" "spent + b > c"
      | (pick) "length refs \<noteq> MAX_EXPANSION_REFS" "\<forall>c. allowed = Some c \<longrightarrow> \<not> b > c \<and> \<not> spent + b > c"
      by (cases allowed) auto
    then show ?thesis
    proof cases
      case full
      then show ?thesis using Cons.prems(1) Some by (intro stop) (auto simp: MAX_EXPANSION_REFS_def)
    next
      case large
      then show ?thesis using Cons.prems(1) Some by (intro skip) simp_all
    next
      case spent
      then show ?thesis using Cons.prems(1) Some by (intro stop) auto
    next
      case pick
      have size: "record_size descriptors i = unat b" using Cons.prems(2) Some by simp
      have sum: "unat (spent + b) = unat spent + unat b" using Cons.prems(3) size by (subst unat_add_lem [THEN iffD1]) simp_all
      have step: "plan_batch cost allowed ids (refs @ [i]) (spent + b) = (refs', spent')"
        using Cons.prems(1) Some pick by (cases allowed) simp_all
      have "unat (spent + b) + stored_bytes descriptors ids < 2 ^ 64" "length (refs @ [i]) \<le> MAX_EXPANSION_REFS"
        using Cons.prems(3,4) size sum pick(1) by simp_all
      from Cons.IH [OF step tail this] obtain picked where IH: "refs' = (refs @ [i]) @ picked" "set picked \<subseteq> set ids"
        "distinct ids \<longrightarrow> filter (\<lambda>i. i \<in> set picked) ids = picked" "\<forall>i \<in> set picked. cost i \<noteq> None"
        "unat spent' = unat (spent + b) + stored_bytes descriptors picked" "\<forall>c. allowed = Some c \<longrightarrow> spent + b \<le> c \<longrightarrow> spent' \<le> c"
        "length refs' \<le> MAX_EXPANSION_REFS" by blast
      have "filter (\<lambda>j. j \<in> set (i # picked)) (i # ids) = i # picked" if "distinct (i # ids)"
      proof -
        have "filter (\<lambda>j. j \<in> set (i # picked)) ids = filter (\<lambda>j. j \<in> set picked) ids" using that by (intro filter_cong) auto
        then show ?thesis using IH(3) that by simp
      qed
      then show ?thesis
        using IH(1,2,4-7) pick(2) sum size Some by (intro exI [of _ "i # picked"]) (auto simp: not_less)
    qed
  qed
qed simp

lemma withheld_cost_size: "withheld_cost a descriptors i = Some b \<Longrightarrow> record_size descriptors i = unat b \<and> bmap_get descriptors i \<noteq> None"
  by (auto simp: withheld_cost_def record_size_def split: if_splits)

lemma stored_bytes_drop: "stored_bytes descriptors (drop k ids) \<le> stored_bytes descriptors ids"
proof -
  have "stored_bytes descriptors ids = stored_bytes descriptors (take k ids @ drop k ids)" by simp
  also have "\<dots> = stored_bytes descriptors (take k ids) + stored_bytes descriptors (drop k ids)" by (rule stored_bytes_simps)
  finally show ?thesis by linarith
qed

lemma find_oversized_Some: "find_oversized cost allowed ids = Some (i, b) \<Longrightarrow> i \<in> set ids \<and> cost i = Some b \<and> b > allowed"
  by (induction ids) (auto split: option.splits if_splits)

lemma find_oversized_None: "find_oversized cost allowed ids = None \<Longrightarrow> i \<in> set ids \<Longrightarrow> cost i = Some b \<Longrightarrow> b \<le> allowed"
  by (induction ids) (auto split: option.splits if_splits)

text \<open>C22. Asking for what a plan names, under the allowance it states, loads all of it and nothing
  else; the batch is within the bound on references, every body of it was withheld, and the
  record it offers apart is withheld and larger than the ceiling.\<close>

theorem expansion_plan_recovers:
  assumes "distinct ids" and "stored_bytes descriptors ids < 2 ^ 64" and "expansion_plan ids a descriptors opts = Some plan"
  shows "ta_load (body_admit ids descriptors
      (opts\<lparr>bo_refs := Some (bset_of (te_refs plan)), bo_max_record_bytes := Some (te_record_bytes plan)\<rparr>) reusable) = te_refs plan
    \<and> length (te_refs plan) \<le> MAX_EXPANSION_REFS \<and> (\<forall>i \<in> set (te_refs plan). is_omitted (admission_state a i))
    \<and> (\<forall>i b. te_oversized plan = Some (i, b) \<longrightarrow> is_omitted (admission_state a i)
         \<and> (\<exists>c. bo_max_record_bytes opts = Some c \<and> c < b))"
proof -
  let ?k = "plan_frontier ids a opts" and ?cost = "withheld_cost a descriptors" and ?max = "bo_max_record_bytes opts"
  obtain refs spent where batch: "plan_batch ?cost ?max (drop ?k ids) [] 0 = (refs, spent)" by fastforce
  have plan: "te_refs plan = refs" "te_record_bytes plan = (case ?max of None \<Rightarrow> spent | Some c \<Rightarrow> c)"
    "te_oversized plan = (case ?max of None \<Rightarrow> None | Some c \<Rightarrow> find_oversized ?cost c (drop ?k ids))"
    using assms(3) batch by (auto simp: expansion_plan_def Let_def split: if_splits)
  have "unat (0 :: 64 word) + stored_bytes descriptors (drop ?k ids) < 2 ^ 64"
    using stored_bytes_drop [of descriptors ?k ids] assms(2) by simp
  from plan_batch_picks [OF batch _ this, of] withheld_cost_size have
    p: "set refs \<subseteq> set (drop ?k ids)" "filter (\<lambda>i. i \<in> set refs) (drop ?k ids) = refs" "\<forall>i \<in> set refs. ?cost i \<noteq> None"
    "unat spent = stored_bytes descriptors refs" "\<forall>c. ?max = Some c \<longrightarrow> spent \<le> c" "length refs \<le> MAX_EXPANSION_REFS"
    using assms(1) by auto
  have omitted: "is_omitted (admission_state a i)" if "?cost i \<noteq> None" for i
    using that by (auto simp: withheld_cost_def split: if_splits)
  have "filter (\<lambda>i. i \<in> set refs) (take ?k ids) = []"
  proof -
    have "distinct (take ?k ids @ drop ?k ids)" using assms(1) by simp
    then have "set (take ?k ids) \<inter> set (drop ?k ids) = {}" by (simp only: distinct_append)
    then show ?thesis using p(1) by (auto simp: filter_empty_conv)
  qed
  then have named: "filter (\<lambda>i. i \<in> set refs) ids = refs"
    using p(2) by (metis append_Nil append_take_drop_id filter_append)
  let ?o = "opts\<lparr>bo_refs := Some (bset_of refs), bo_max_record_bytes := Some (te_record_bytes plan)\<rparr>"
  have asked: "asked_bodies descriptors ?o ids = refs"
  proof -
    have "asked_bodies descriptors ?o ids = filter (\<lambda>i. i \<in> set refs) ids"
      unfolding asked_bodies_def wants_body_def using p(3) withheld_cost_size by (intro filter_cong) fastforce+
    then show ?thesis using named by simp
  qed
  have enough: "stored_bytes descriptors refs \<le> unat (te_record_bytes plan)"
    using p(4,5) plan(2) by (auto simp: word_le_nat_alt split: option.splits)
  have load: "ta_load (body_admit ids descriptors ?o reusable) = refs"
    using assms(2) refl
  proof (rule body_admit_loads)
    fix rest
    let ?b = "body_admit ids descriptors ?o reusable"
    assume b: "asked_bodies descriptors ?o ids = ta_load ?b @ rest"
      "rest \<noteq> [] \<longrightarrow> \<not> within_ceiling ?o (stored_bytes descriptors (ta_load ?b) + record_size descriptors (hd rest))"
    have eq: "refs = ta_load ?b @ rest" using b(1) asked by simp
    then have "rest \<noteq> [] \<longrightarrow> stored_bytes descriptors (ta_load ?b) + record_size descriptors (hd rest) \<le> stored_bytes descriptors refs"
      by (metis add_le_cancel_left le_add1 list.exhaust_sel stored_bytes_simps(2,3))
    then show ?thesis using b(2) enough eq by (cases "rest = []") (auto simp: within_ceiling_def)
  qed
  show ?thesis
    using load p(3,6) omitted plan
    by (auto split: option.splits dest!: find_oversized_Some)
qed

text \<open>Without a plan nothing is left: no body behind the frontier of what was loaded is withheld.\<close>

lemma no_plan_nothing_withheld:
  assumes "stored_bytes descriptors ids < 2 ^ 64" and "expansion_plan ids a descriptors opts = None"
    and "i \<in> set (drop (plan_frontier ids a opts) ids)" and "bmap_get descriptors i = Some d"
  shows "\<not> is_omitted (admission_state a i)"
proof
  assume omitted: "is_omitted (admission_state a i)"
  let ?k = "plan_frontier ids a opts" and ?cost = "withheld_cost a descriptors" and ?max = "bo_max_record_bytes opts"
  obtain refs spent where batch: "plan_batch ?cost ?max (drop ?k ids) [] 0 = (refs, spent)" by fastforce
  have none: "refs = []" "\<forall>c. ?max = Some c \<longrightarrow> find_oversized ?cost c (drop ?k ids) = None"
    using assms(2) batch by (auto simp: expansion_plan_def Let_def plan_is_empty_def split: if_splits option.splits)
  have cost: "?cost i = Some (bd_record_bytes d)" using omitted assms(4) by (simp add: withheld_cost_def)
  have "unat (0 :: 64 word) + stored_bytes descriptors (drop ?k ids) < 2 ^ 64"
    using stored_bytes_drop [of descriptors ?k ids] assms(1) by simp
  from plan_batch_picks [OF batch _ this] withheld_cost_size none(1) cost assms(3) obtain c where
    "?max = Some c" "c < bd_record_bytes d" by fastforce
  then show False using none(2) find_oversized_None [of ?cost c "drop ?k ids" i "bd_record_bytes d"] assms(3) cost by (auto simp: not_le)
qed

subsection \<open>A sample delivery\<close>

definition body_of_size :: "string \<Rightarrow> 64 word \<Rightarrow> string \<times> node_body_descriptor" where
  "body_of_size i n = (i, \<lparr>bd_node_id = i, bd_revision = 1, bd_content_hash = ''h'', bd_record_bytes = n,
     bd_body_bytes = n, bd_record_digest = ''d''\<rparr>)"

definition sample_bodies :: "(string, node_body_descriptor) bmap" where
  "sample_bodies = [body_of_size ''a'' 10, body_of_size ''b'' 20, body_of_size ''c'' 5]"

definition sample_options :: trace_body_options where
  "sample_options = body_options_default\<lparr>bo_max_record_bytes := Some 25\<rparr>"

definition sample_admission :: trace_body_admission where
  "sample_admission = body_admit [''a'', ''b'', ''c'', ''x''] sample_bodies sample_options []"

lemma sample_total: "stored_bytes sample_bodies [''a'', ''b'', ''c'', ''x''] < 2 ^ 64"
  by (simp add: stored_bytes_def record_size_def sample_bodies_def body_of_size_def bmap_get_def)

lemma sample_deferred: "ta_load sample_admission = [''a'']" "ta_next_deferred sample_admission = Some (''b'', 20)"
  "next_rerun_record_bytes sample_admission = Some 30" "next_named_record_bytes sample_admission = Some 20"
  by code_simp+

theorem body_admission_longest_run_witness:
  "\<exists>rest. asked_bodies sample_bodies sample_options [''a'', ''b'', ''c'', ''x''] = [''a''] @ rest
     \<and> (rest \<noteq> [] \<longrightarrow> 25 < stored_bytes sample_bodies [''a'', hd rest])"
proof -
  have "bo_max_record_bytes sample_options = Some 25" by (simp add: sample_options_def)
  from body_admission_longest_run [OF sample_total sample_admission_def this] show ?thesis
    by (auto simp: sample_deferred)
qed

theorem deferred_record_reachable_witness:
  "\<exists>more. ta_load (body_admit [''a'', ''b'', ''c'', ''x''] sample_bodies (sample_options\<lparr>bo_max_record_bytes := Some 30\<rparr>) [])
     = [''a'', ''b''] @ more"
  using deferred_record_reachable [OF sample_total sample_admission_def sample_deferred(2) _ sample_deferred(3,4)]
  by (simp add: sample_deferred(1))

lemma sample_plan: "map_option te_refs (expansion_plan [''a'', ''b'', ''c'', ''x''] sample_admission sample_bodies sample_options)
    = Some [''b'', ''c'']"
  by code_simp

theorem expansion_plan_recovers_witness:
  "\<exists>plan :: trace_expansion_plan. te_refs plan = [''b'', ''c'']
     \<and> ta_load (body_admit [''a'', ''b'', ''c'', ''x''] sample_bodies
         (sample_options\<lparr>bo_refs := Some (bset_of [''b'', ''c'']), bo_max_record_bytes := Some (te_record_bytes plan)\<rparr>) [])
         = [''b'', ''c'']"
proof -
  obtain plan where p: "expansion_plan [''a'', ''b'', ''c'', ''x''] sample_admission sample_bodies sample_options = Some plan"
    "te_refs plan = [''b'', ''c'']" using sample_plan by auto
  have "distinct [''a'', ''b'', ''c'', ''x'']" by simp
  from expansion_plan_recovers [OF this sample_total p(1), of "[]", THEN conjunct1] show ?thesis
    unfolding p(2) using p(2) by blast
qed

end
