(* ===== verification/TraceManifest.thy ===== *)
theory TraceManifest
  imports TraceBodies
begin

text \<open>
  The identity of a selected proof table (\<open>model/trace_manifest.rs\<close>, and \<open>manifest_id\<close> of
  \<open>model/materialize_trace_proof.rs\<close>). The SHA-256 of the \<open>sha2\<close> crate is a parameter, from the
  bytes fed to its lower-case hexadecimal text; a digest in progress is the bytes fed so far.
  Two selections of one identity are the same selection, or the hash has collided.
\<close>

subsection \<open>The digest\<close>

type_synonym manifest_digest = string

text \<open>\<open>u64::to_le_bytes\<close>.\<close>

definition le_bytes :: "64 word \<Rightarrow> string" where
  "le_bytes w = map (\<lambda>k. char_of (unat (drop_bit (8 * k) w) mod 256)) [0..<8]"

definition digest_bytes :: "manifest_digest \<Rightarrow> string \<Rightarrow> manifest_digest" where
  "digest_bytes d bytes = (d @ le_bytes (of_nat (length bytes))) @ bytes"

definition digest_new :: "string \<Rightarrow> manifest_digest" where
  "digest_new tag = digest_bytes [] tag"

definition digest_text :: "manifest_digest \<Rightarrow> string \<Rightarrow> manifest_digest" where
  "digest_text d value = digest_bytes d value"

definition digest_number :: "manifest_digest \<Rightarrow> 64 word \<Rightarrow> manifest_digest" where
  "digest_number d value = d @ le_bytes value"

definition digest_flag :: "manifest_digest \<Rightarrow> bool \<Rightarrow> manifest_digest" where
  "digest_flag d value = d @ [char_of (if value then 1 else 0 :: nat)]"

definition digest_texts :: "manifest_digest \<Rightarrow> string list \<Rightarrow> manifest_digest" where
  "digest_texts d values = foldl digest_text (digest_number d (of_nat (length values))) values"

definition or_default :: "string option \<Rightarrow> string" where
  "or_default s = (case s of None \<Rightarrow> [] | Some s \<Rightarrow> s)"

definition digest_node :: "manifest_digest \<Rightarrow> node_projection \<Rightarrow> manifest_digest" where
  "digest_node d node =
     (let d = digest_text d (np_node_id node); d = digest_text d (np_node_kind node);
          d = digest_text d (np_title node); d = digest_text d (np_summary node); d = digest_text d (np_status node);
          d = digest_texts d (np_labels node);
          d = digest_number d (of_nat (length (np_properties node)));
          d = foldl (\<lambda>d (key, value). digest_text (digest_text d key) value) d (np_properties node)
      in case np_provenance node of
           Some p \<Rightarrow> digest_text (digest_text (digest_text (digest_flag d True)
               (source_kind_as_str (prov_source_kind p))) (or_default (prov_source_agent p))) (or_default (prov_observed_at p))
         | None \<Rightarrow> digest_flag d False)"

definition digest_descriptor :: "manifest_digest \<Rightarrow> node_body_descriptor option \<Rightarrow> manifest_digest" where
  "digest_descriptor d descriptor =
     (case descriptor of
        Some b \<Rightarrow> digest_text (digest_number (digest_number (digest_text (digest_number (digest_flag d True)
            (bd_revision b)) (bd_content_hash b)) (bd_record_bytes b)) (bd_body_bytes b)) (bd_record_digest b)
      | None \<Rightarrow> digest_flag d False)"

definition digest_relation :: "manifest_digest \<Rightarrow> node_relation_projection \<Rightarrow> manifest_digest" where
  "digest_relation d edge =
     (let e = nr_explanation edge;
          d = digest_text (digest_text (digest_text d (nr_source_node_id edge)) (nr_target_node_id edge)) (nr_relation_type edge);
          d = digest_text d (class_as_str (rex_semantic_class e));
          d = digest_text d (or_default (rex_rationale e)); d = digest_text d (or_default (rex_evidence e));
          d = digest_text d (or_default (rex_occurred_at e)); d = digest_text d (or_default (rex_observed_at e));
          d = digest_text d (or_default (rex_ingested_at e)); d = digest_text d (or_default (rex_valid_from e))
      in digest_text d (or_default (rex_valid_until e)))"

definition digest_coordinate :: "manifest_digest \<Rightarrow> temporal_coordinate \<Rightarrow> manifest_digest" where
  "digest_coordinate d c =
     (let d = digest_text (digest_text d (tc_dimension c)) (tc_scope_id c);
          d = digest_text d (or_default (tc_occurred_at c)); d = digest_text d (or_default (tc_observed_at c));
          d = digest_text d (or_default (tc_ingested_at c)); d = digest_text d (or_default (tc_valid_from c));
          d = digest_text d (or_default (tc_valid_until c));
          d = digest_number d (ucast (case tc_sequence c of None \<Rightarrow> 0 | Some n \<Rightarrow> n))
      in digest_number d (ucast (case tc_rank c of None \<Rightarrow> 0 | Some n \<Rightarrow> n)))"

definition digest_coordinates :: "manifest_digest \<Rightarrow> temporal_coordinate list \<Rightarrow> manifest_digest" where
  "digest_coordinates d cs = foldl digest_coordinate (digest_number d (of_nat (length cs))) cs"

definition digest_finish :: "(string \<Rightarrow> string) \<Rightarrow> manifest_digest \<Rightarrow> string" where
  "digest_finish sha d = sha d"

subsection \<open>The manifest\<close>

definition coordinates_of :: "(string, temporal_coordinate list) bmap \<Rightarrow> string \<Rightarrow> temporal_coordinate list" where
  "coordinates_of coordinates i = (case bmap_get coordinates i of None \<Rightarrow> [] | Some cs \<Rightarrow> cs)"

definition digest_selected :: "(string, node_projection) bmap \<Rightarrow> (string, node_body_descriptor) bmap
    \<Rightarrow> (string, temporal_coordinate list) bmap \<Rightarrow> manifest_digest \<Rightarrow> string \<Rightarrow> manifest_digest" where
  "digest_selected nodes descriptors coordinates d i =
     (let d = digest_text d i; d = (case bmap_get nodes i of Some node \<Rightarrow> digest_node d node | None \<Rightarrow> d);
          d = digest_descriptor d (bmap_get descriptors i)
      in digest_coordinates d (coordinates_of coordinates i))"

definition manifest_bytes :: "string \<Rightarrow> string list \<Rightarrow> (string, node_projection) bmap \<Rightarrow> (string, node_body_descriptor) bmap
    \<Rightarrow> (string, temporal_coordinate list) bmap \<Rightarrow> node_relation_projection list \<Rightarrow> string bset \<Rightarrow> manifest_digest" where
  "manifest_bytes seed ids nodes descriptors coordinates supports missing =
     (let d = digest_text (digest_new ''kmp.trace.manifest.v1'') seed;
          d = digest_number d (of_nat (length ids));
          d = foldl (digest_selected nodes descriptors coordinates) d ids;
          d = digest_number d (of_nat (length supports));
          d = foldl digest_relation d supports
      in digest_texts d missing)"

definition manifest_id :: "(string \<Rightarrow> string) \<Rightarrow> string \<Rightarrow> string list \<Rightarrow> (string, node_projection) bmap
    \<Rightarrow> (string, node_body_descriptor) bmap \<Rightarrow> (string, temporal_coordinate list) bmap
    \<Rightarrow> node_relation_projection list \<Rightarrow> string bset \<Rightarrow> string" where
  "manifest_id sha seed ids nodes descriptors coordinates supports missing =
     digest_finish sha (manifest_bytes seed ids nodes descriptors coordinates supports missing)"

subsection \<open>Framing\<close>

text \<open>A feed appends an image of its value; the image is framed when the value, as far as the view
  tells, and what follows it can be read back.\<close>

definition frames :: "'a set \<Rightarrow> ('a \<Rightarrow> 'b) \<Rightarrow> ('a \<Rightarrow> string) \<Rightarrow> bool" where
  "frames A view img \<longleftrightarrow> (\<forall>x \<in> A. \<forall>y \<in> A. \<forall>r s. img x @ r = img y @ s \<longrightarrow> view x = view y \<and> r = s)"

definition framed :: "'a set \<Rightarrow> ('a \<Rightarrow> 'b) \<Rightarrow> (manifest_digest \<Rightarrow> 'a \<Rightarrow> manifest_digest) \<Rightarrow> bool" where
  "framed A view feed \<longleftrightarrow> (\<exists>img. (\<forall>d x. feed d x = d @ img x) \<and> frames A view img)"

lemma framesD: "frames A view img \<Longrightarrow> img x @ r = img y @ s \<Longrightarrow> x \<in> A \<Longrightarrow> y \<in> A \<Longrightarrow> view x = view y \<and> r = s"
  unfolding frames_def by blast

lemma framedI:
  assumes "\<And>d x. feed d x = d @ img x"
    and "\<And>x y r s. x \<in> A \<Longrightarrow> y \<in> A \<Longrightarrow> img x @ r = img y @ s \<Longrightarrow> view x = view y \<and> r = s"
  shows "framed A view feed"
  unfolding framed_def frames_def
proof (intro exI [of _ img] conjI allI ballI impI, goal_cases)
  case (1 d x) show ?case by (rule assms(1))
next
  case (2 x y r s) then show ?case using assms(2) by blast
next
  case (3 x y r s) then show ?case using assms(2) by blast
qed

lemma framedE:
  assumes "framed A view feed"
  obtains img where "feed = (\<lambda>d x. d @ img x)" and "frames A view img"
  using assms unfolding framed_def by blast

lemma framed_then:
  assumes "framed A v f" and "framed B w g"
  shows "framed (A \<inter> B) (\<lambda>x. (v x, w x)) (\<lambda>d x. g (f d x) x)"
proof -
  obtain i where i: "f = (\<lambda>d x. d @ i x)" "frames A v i" using assms(1) by (rule framedE)
  obtain j where j: "g = (\<lambda>d x. d @ j x)" "frames B w j" using assms(2) by (rule framedE)
  show ?thesis
  proof (rule framedI [where img = "\<lambda>x. i x @ j x"])
    fix x y r s assume *: "x \<in> A \<inter> B" "y \<in> A \<inter> B" "(i x @ j x) @ r = (i y @ j y) @ s"
    then have "i x @ (j x @ r) = i y @ (j y @ s)" by simp
    from framesD [OF i(2) this] * have "v x = v y" "j x @ r = j y @ s" by simp_all
    with framesD [OF j(2) this(2)] * show "(v x, w x) = (v y, w y) \<and> r = s" by simp
  qed (simp add: i(1) j(1))
qed

lemma framed_map:
  assumes "framed A v f" shows "framed {x. p x \<in> A} (\<lambda>x. v (p x)) (\<lambda>d x. f d (p x))"
proof -
  obtain i where i: "f = (\<lambda>d x. d @ i x)" "frames A v i" using assms by (rule framedE)
  show ?thesis
  proof (rule framedI [where img = "\<lambda>x. i (p x)"])
    fix x y r s assume *: "x \<in> {x. p x \<in> A}" "y \<in> {x. p x \<in> A}" "i (p x) @ r = i (p y) @ s"
    show "v (p x) = v (p y) \<and> r = s" by (rule framesD [OF i(2) *(3)]) (use *(1,2) in auto)
  qed (simp add: i(1))
qed

lemma framed_mono:
  assumes "framed A v f" and "B \<subseteq> A" and "\<And>x y. x \<in> B \<Longrightarrow> y \<in> B \<Longrightarrow> v x = v y \<Longrightarrow> w x = w y"
  shows "framed B w f"
proof -
  obtain i where i: "f = (\<lambda>d x. d @ i x)" "frames A v i" using assms(1) by (rule framedE)
  show ?thesis
  proof (rule framedI [where img = i])
    fix x y r s assume *: "x \<in> B" "y \<in> B" "i x @ r = i y @ s"
    have "v x = v y \<and> r = s" by (rule framesD [OF i(2) *(3)]) (use *(1,2) assms(2) in auto)
    with assms(3) [OF *(1,2)] show "w x = w y \<and> r = s" by blast
  qed (simp add: i(1))
qed

text \<open>Rust texts and lists are shorter than \<open>usize\<close>.\<close>

definition fits :: "'a list \<Rightarrow> bool" where
  "fits xs \<longleftrightarrow> length xs < 2 ^ 64"

lemma length_le_bytes [simp]: "length (le_bytes w) = 8"
  by (simp add: le_bytes_def)

lemma le_bytes_inject [simp]: "le_bytes v = le_bytes w \<longleftrightarrow> v = w"
proof
  assume eq: "le_bytes v = le_bytes w"
  have digit: "take_bit 8 (unat v div 2 ^ (8 * k)) = take_bit 8 (unat w div 2 ^ (8 * k))" if "k < 8" for k
  proof -
    have "le_bytes v ! k = le_bytes w ! k" using eq by simp
    then have "char_of (unat (drop_bit (8 * k) v) mod 256) = (char_of (unat (drop_bit (8 * k) w) mod 256) :: char)"
      using that by (simp add: le_bytes_def)
    then have "unat (drop_bit (8 * k) v) mod 256 = unat (drop_bit (8 * k) w) mod 256"
      by (metis byte_char_of mod_less_divisor zero_less_numeral)
    then show ?thesis unfolding unat_drop_bit_eq by (simp add: take_bit_eq_mod drop_bit_eq_div)
  qed
  show "v = w"
  proof (rule bit_word_eqI)
    fix n assume n: "n < LENGTH(64)"
    have "bit (take_bit 8 (unat v div 2 ^ (8 * (n div 8)))) (n mod 8) = bit (take_bit 8 (unat w div 2 ^ (8 * (n div 8)))) (n mod 8)"
      using digit [of "n div 8"] n by simp
    then have "bit (unat v) n = bit (unat w) n"
      by (simp add: bit_take_bit_iff drop_bit_eq_div [symmetric] bit_drop_bit_eq)
    then show "bit v n = bit w n" by (simp add: bit_unsigned_iff)
  qed
qed simp

lemma framed_number: "framed UNIV (\<lambda>n. n) digest_number"
  by (rule framedI [where img = le_bytes]) (auto simp: digest_number_def)

lemma framed_flag: "framed UNIV (\<lambda>b. b) digest_flag"
  by (rule framedI [where img = "\<lambda>b. [char_of (if b then 1 else 0 :: nat)]"]) (auto simp: digest_flag_def split: if_splits)

lemma of_nat_length_inject: "fits xs \<Longrightarrow> fits ys \<Longrightarrow> (of_nat (length xs) :: 64 word) = of_nat (length ys) \<longleftrightarrow> length xs = length ys"
  by (auto simp: fits_def word_unat_eq_iff unat_of_nat)

lemma framed_text: "framed {t. fits t} (\<lambda>t. t) digest_text"
proof (rule framedI [where img = "\<lambda>t. le_bytes (of_nat (length t)) @ t"])
  fix x y :: string and r s :: string
  assume "x \<in> {t. fits t}" "y \<in> {t. fits t}"
    "(le_bytes (of_nat (length x)) @ x) @ r = (le_bytes (of_nat (length y)) @ y) @ s"
  then have "length x = length y" "x @ r = y @ s" by (simp_all add: of_nat_length_inject)
  then show "x = y \<and> r = s" by simp
qed (simp add: digest_text_def digest_bytes_def)

text \<open>A list with its length in front.\<close>

lemma framed_list:
  assumes "framed A v f"
  shows "framed {xs. fits xs \<and> set xs \<subseteq> A} (map v) (\<lambda>d xs. foldl f (digest_number d (of_nat (length xs))) xs)"
proof -
  obtain i where i: "f = (\<lambda>d x. d @ i x)" "frames A v i" using assms by (rule framedE)
  have fold: "foldl f d xs = d @ concat (map i xs)" for d xs by (induction xs arbitrary: d) (simp_all add: i(1))
  have body: "map v xs = map v ys \<and> r = s"
    if "length xs = length ys" "set xs \<subseteq> A" "set ys \<subseteq> A" "concat (map i xs) @ r = concat (map i ys) @ s" for xs ys r s
    using that
  proof (induction xs ys rule: list_induct2)
    case (Cons x xs y ys)
    then have "v x = v y \<and> concat (map i xs) @ r = concat (map i ys) @ s"
      using framesD [OF i(2), of x "concat (map i xs) @ r" y "concat (map i ys) @ s"] by simp
    with Cons show ?case by simp
  qed simp
  show ?thesis
  proof (rule framedI [where img = "\<lambda>xs. le_bytes (of_nat (length xs)) @ concat (map i xs)"])
    fix xs ys r s assume *: "xs \<in> {xs. fits xs \<and> set xs \<subseteq> A}" "ys \<in> {xs. fits xs \<and> set xs \<subseteq> A}"
      "(le_bytes (of_nat (length xs)) @ concat (map i xs)) @ r = (le_bytes (of_nat (length ys)) @ concat (map i ys)) @ s"
    then have "length xs = length ys" by (simp add: of_nat_length_inject)
    with * body [of xs ys r s] show "map v xs = map v ys \<and> r = s" by simp
  qed (simp add: fold digest_number_def)
qed

text \<open>A value behind a flag.\<close>

lemma framed_option:
  assumes "framed A v f" and "\<And>d x. g d (Some x) = f (digest_flag d True) x" and "\<And>d. g d None = digest_flag d False"
  shows "framed {z. \<forall>x. z = Some x \<longrightarrow> x \<in> A} (map_option v) g"
proof -
  obtain i where i: "f = (\<lambda>d x. d @ i x)" "frames A v i" using assms(1) by (rule framedE)
  show ?thesis
  proof (rule framedI [where img = "\<lambda>z. case z of None \<Rightarrow> [char_of (0 :: nat)] | Some x \<Rightarrow> char_of (1 :: nat) # i x"])
    fix y z r s assume *: "y \<in> {z. \<forall>x. z = Some x \<longrightarrow> x \<in> A}" "z \<in> {z. \<forall>x. z = Some x \<longrightarrow> x \<in> A}"
      "(case y of None \<Rightarrow> [char_of (0 :: nat)] | Some x \<Rightarrow> char_of (1 :: nat) # i x) @ r
       = (case z of None \<Rightarrow> [char_of (0 :: nat)] | Some x \<Rightarrow> char_of (1 :: nat) # i x) @ s"
    have ne: "char_of (0 :: nat) \<noteq> (char_of (1 :: nat) :: char)" by (simp add: char_of_eq_iff)
    show "map_option v y = map_option v z \<and> r = s"
    proof (cases y)
      case None
      with * ne show ?thesis by (cases z) simp_all
    next
      case (Some a)
      with * ne obtain b where "z = Some b" by (cases z) simp_all
      with Some * framesD [OF i(2), of a r b s] show ?thesis by simp
    qed
  next
    show "g d z = d @ (case z of None \<Rightarrow> [char_of (0 :: nat)] | Some x \<Rightarrow> char_of (1 :: nat) # i x)" for d z
      by (cases z) (simp_all add: assms(2,3) i(1) digest_flag_def)
  qed
qed


subsection \<open>Feeds of several fields\<close>

lemma framed_start: "framed UNIV (\<lambda>x. ()) (\<lambda>d x. d)"
  by (rule framedI [where img = "\<lambda>x. []"]) auto

lemma framed_then_text:
  "framed A v f \<Longrightarrow> framed {x. x \<in> A \<and> fits (p x)} (\<lambda>x. (v x, p x)) (\<lambda>d x. digest_text (f d x) (p x))"
  using framed_then [OF _ framed_map [OF framed_text, of p], of A v f] by (simp add: Int_def)

lemma framed_then_number:
  "framed A v f \<Longrightarrow> framed A (\<lambda>x. (v x, p x)) (\<lambda>d x. digest_number (f d x) (p x))"
  using framed_then [OF _ framed_map [OF framed_number, of p], of A v f] by simp

lemma framed_texts: "framed {ts. fits ts \<and> (\<forall>t \<in> set ts. fits t)} (\<lambda>ts. ts) digest_texts"
proof -
  have "framed {ts. fits ts \<and> set ts \<subseteq> {t. fits t}} (map (\<lambda>t. t)) digest_texts"
    using framed_list [OF framed_text] unfolding digest_texts_def [abs_def] .
  then show ?thesis by (rule framed_mono) auto
qed

lemmas framed_fields = framed_then_text framed_then_number framed_start

subsection \<open>What the identity covers\<close>

definition body_fits :: "node_body_descriptor \<Rightarrow> bool" where
  "body_fits b \<longleftrightarrow> fits (bd_content_hash b) \<and> fits (bd_record_digest b)"

text \<open>A descriptor is hashed under the reference of its slot.\<close>

definition body_view :: "node_body_descriptor \<Rightarrow> node_body_descriptor" where
  "body_view b = b\<lparr>bd_node_id := []\<rparr>"

lemma framed_descriptor: "framed {z. \<forall>b. z = Some b \<longrightarrow> body_fits b} (map_option body_view) digest_descriptor"
proof -
  have "framed {b. body_fits b} body_view (\<lambda>d b. digest_text (digest_number (digest_number (digest_text (digest_number d
            (bd_revision b)) (bd_content_hash b)) (bd_record_bytes b)) (bd_body_bytes b)) (bd_record_digest b))"
    by (rule framed_mono, (rule framed_fields)+) (auto simp: body_fits_def body_view_def)
  then have "framed {z. \<forall>b. z = Some b \<longrightarrow> b \<in> {b. body_fits b}} (map_option body_view) digest_descriptor"
    by (rule framed_option) (simp_all add: digest_descriptor_def)
  then show ?thesis by simp
qed

definition default_fits :: "string option \<Rightarrow> bool" where
  "default_fits s \<longleftrightarrow> fits (or_default s)"

definition provenance_view :: "provenance \<Rightarrow> source_kind \<times> string \<times> string" where
  "provenance_view p = (prov_source_kind p, or_default (prov_source_agent p), or_default (prov_observed_at p))"

definition node_view :: "node_projection \<Rightarrow> node_projection \<times> (source_kind \<times> string \<times> string) option" where
  "node_view n = (n\<lparr>np_provenance := None\<rparr>, map_option provenance_view (np_provenance n))"

definition node_fits :: "node_projection \<Rightarrow> bool" where
  "node_fits n \<longleftrightarrow> fits (np_node_id n) \<and> fits (np_node_kind n) \<and> fits (np_title n) \<and> fits (np_summary n) \<and> fits (np_status n)
     \<and> fits (np_labels n) \<and> (\<forall>l \<in> set (np_labels n). fits l)
     \<and> fits (np_properties n) \<and> (\<forall>(k, v) \<in> set (np_properties n). fits k \<and> fits v)
     \<and> (\<forall>p. np_provenance n = Some p \<longrightarrow> default_fits (prov_source_agent p) \<and> default_fits (prov_observed_at p))"

lemma source_kind_as_str_inject [simp]: "source_kind_as_str k = source_kind_as_str l \<longleftrightarrow> k = l"
  by (cases k; cases l) auto

lemma framed_node: "framed {n. node_fits n} node_view digest_node"
proof -
  have prov: "framed {z. \<forall>p. z = Some p \<longrightarrow> p \<in> {p. default_fits (prov_source_agent p) \<and> default_fits (prov_observed_at p)}}
      (map_option provenance_view) (\<lambda>d z. case z of
           Some p \<Rightarrow> digest_text (digest_text (digest_text (digest_flag d True)
               (source_kind_as_str (prov_source_kind p))) (or_default (prov_source_agent p))) (or_default (prov_observed_at p))
         | None \<Rightarrow> digest_flag d False)"
  proof (rule framed_option)
    show "framed {p. default_fits (prov_source_agent p) \<and> default_fits (prov_observed_at p)} provenance_view
        (\<lambda>d p. digest_text (digest_text (digest_text d (source_kind_as_str (prov_source_kind p)))
          (or_default (prov_source_agent p))) (or_default (prov_observed_at p)))"
    proof (rule framed_mono, (rule framed_fields)+)
      have "fits (source_kind_as_str k)" for k by (cases k) (simp_all add: fits_def)
      then show "{p. default_fits (prov_source_agent p) \<and> default_fits (prov_observed_at p)} \<subseteq>
          {x. x \<in> {x. x \<in> {x. x \<in> UNIV \<and> fits (source_kind_as_str (prov_source_kind x))} \<and> fits (or_default (prov_source_agent x))}
            \<and> fits (or_default (prov_observed_at x))}"
        by (auto simp: default_fits_def)
    qed (auto simp: provenance_view_def)
  qed simp_all
  have props: "framed {m. fits m \<and> set m \<subseteq> {e. fits (fst e) \<and> fits (snd e)}} (\<lambda>m. m)
      (\<lambda>d m. foldl (\<lambda>d (key, value). digest_text (digest_text d key) value) (digest_number d (of_nat (length m))) m)"
  proof -
    have "framed {e. fits (fst e) \<and> fits (snd e)} (\<lambda>e. e) (\<lambda>d e. digest_text (digest_text d (fst e)) (snd e))"
      by (rule framed_mono, (rule framed_fields)+) (auto simp: prod_eq_iff)
    from framed_list [OF this] show ?thesis
      unfolding case_prod_beta' by (rule framed_mono) auto
  qed
  have "framed ({n. fits (np_node_id n) \<and> fits (np_node_kind n) \<and> fits (np_title n) \<and> fits (np_summary n) \<and> fits (np_status n)})
      (\<lambda>n. (np_node_id n, np_node_kind n, np_title n, np_summary n, np_status n))
      (\<lambda>d n. digest_text (digest_text (digest_text (digest_text (digest_text d (np_node_id n)) (np_node_kind n)) (np_title n))
         (np_summary n)) (np_status n))"
    by (rule framed_mono, (rule framed_fields)+) auto
  from framed_then [OF framed_then [OF framed_then [OF this framed_map [OF framed_texts, of np_labels]]
      framed_map [OF props, of np_properties]] framed_map [OF prov, of np_provenance]]
  show ?thesis
    unfolding digest_node_def [abs_def] Let_def
    by (rule framed_mono) (auto simp: node_fits_def node_view_def)
qed


definition relation_texts :: "node_relation_projection \<Rightarrow> string list" where
  "relation_texts edge =
     (let e = nr_explanation edge in [nr_source_node_id edge, nr_target_node_id edge, nr_relation_type edge,
        or_default (rex_rationale e), or_default (rex_evidence e), or_default (rex_occurred_at e), or_default (rex_observed_at e),
        or_default (rex_ingested_at e), or_default (rex_valid_from e), or_default (rex_valid_until e)])"

definition relation_view :: "node_relation_projection \<Rightarrow> semantic_class \<times> string list" where
  "relation_view edge = (rex_semantic_class (nr_explanation edge), relation_texts edge)"

definition relation_fits :: "node_relation_projection \<Rightarrow> bool" where
  "relation_fits edge \<longleftrightarrow> (\<forall>t \<in> set (relation_texts edge). fits t)"

lemma class_as_str_inject [simp]: "class_as_str k = class_as_str l \<longleftrightarrow> k = l"
  by (cases k; cases l) auto

lemma framed_relation: "framed {e. relation_fits e} relation_view digest_relation"
proof -
  have names: "fits (class_as_str k)" for k by (cases k) (simp_all add: fits_def)
  show ?thesis
    unfolding digest_relation_def [abs_def] Let_def
    by (rule framed_mono, (rule framed_fields)+)
      (auto simp: names relation_fits_def relation_view_def relation_texts_def Let_def)
qed

definition coordinate_texts :: "temporal_coordinate \<Rightarrow> string list" where
  "coordinate_texts c = [tc_dimension c, tc_scope_id c, or_default (tc_occurred_at c), or_default (tc_observed_at c),
     or_default (tc_ingested_at c), or_default (tc_valid_from c), or_default (tc_valid_until c)]"

text \<open>A missing number is hashed as zero.\<close>

definition coordinate_numbers :: "temporal_coordinate \<Rightarrow> 32 word \<times> 32 word" where
  "coordinate_numbers c = (case tc_sequence c of None \<Rightarrow> 0 | Some n \<Rightarrow> n, case tc_rank c of None \<Rightarrow> 0 | Some n \<Rightarrow> n)"

definition coordinate_view :: "temporal_coordinate \<Rightarrow> string list \<times> 32 word \<times> 32 word" where
  "coordinate_view c = (coordinate_texts c, coordinate_numbers c)"

definition coordinate_fits :: "temporal_coordinate \<Rightarrow> bool" where
  "coordinate_fits c \<longleftrightarrow> (\<forall>t \<in> set (coordinate_texts c). fits t)"

lemma framed_coordinates:
  "framed {cs. fits cs \<and> (\<forall>c \<in> set cs. coordinate_fits c)} (map coordinate_view) digest_coordinates"
proof -
  have wide: "(ucast (v :: 32 word) :: 64 word) = ucast w \<longleftrightarrow> v = w" for v w
  proof
    assume "(ucast v :: 64 word) = ucast w"
    then have "(ucast (ucast v :: 64 word) :: 32 word) = ucast (ucast w :: 64 word)" by simp
    then show "v = w" by (simp add: ucast_up_ucast_id is_up)
  qed simp
  have "framed {c. coordinate_fits c} coordinate_view digest_coordinate"
    unfolding digest_coordinate_def [abs_def] Let_def
    by (rule framed_mono, (rule framed_fields)+)
      (auto simp: coordinate_fits_def coordinate_view_def coordinate_texts_def coordinate_numbers_def wide)
  from framed_list [OF this] show ?thesis
    unfolding digest_coordinates_def [abs_def] by (rule framed_mono) auto
qed

text \<open>One slot of the selection: the reference, its node, its body and its clocks.\<close>

type_synonym manifest_slot = "string \<times> node_projection option \<times> node_body_descriptor option \<times> temporal_coordinate list"

definition manifest_slot :: "(string, node_projection) bmap \<Rightarrow> (string, node_body_descriptor) bmap
    \<Rightarrow> (string, temporal_coordinate list) bmap \<Rightarrow> string \<Rightarrow> manifest_slot" where
  "manifest_slot nodes descriptors coordinates i =
     (i, bmap_get nodes i, bmap_get descriptors i, coordinates_of coordinates i)"

definition slot_fits :: "manifest_slot \<Rightarrow> bool" where
  "slot_fits = (\<lambda>(i, node, body, cs). fits i \<and> (\<exists>n. node = Some n \<and> node_fits n)
     \<and> (\<forall>b. body = Some b \<longrightarrow> body_fits b) \<and> fits cs \<and> (\<forall>c \<in> set cs. coordinate_fits c))"

definition slot_view where
  "slot_view = (\<lambda>(i, node, body, cs). (i, map_option node_view node, map_option body_view body, map coordinate_view cs))"

definition digest_slot :: "manifest_digest \<Rightarrow> manifest_slot \<Rightarrow> manifest_digest" where
  "digest_slot d = (\<lambda>(i, node, body, cs).
     digest_coordinates (digest_descriptor (case node of Some n \<Rightarrow> digest_node (digest_text d i) n | None \<Rightarrow> digest_text d i) body) cs)"

lemma digest_selected_slots:
  "foldl (digest_selected nodes descriptors coordinates) d ids
     = foldl digest_slot d (map (manifest_slot nodes descriptors coordinates) ids)"
  by (induction ids arbitrary: d) (simp_all add: digest_selected_def digest_slot_def manifest_slot_def Let_def)

lemma framed_slot: "framed {z. slot_fits z} slot_view digest_slot"
proof -
  have node: "framed {z. \<exists>n. z = Some n \<and> node_fits n} (map_option node_view) (\<lambda>d z. case z of Some n \<Rightarrow> digest_node d n | None \<Rightarrow> d)"
  proof -
    obtain i where i: "digest_node = (\<lambda>d n. d @ i n)" "frames {n. node_fits n} node_view i" using framed_node by (rule framedE)
    show ?thesis
    proof (rule framedI [where img = "\<lambda>z. case z of Some n \<Rightarrow> i n | None \<Rightarrow> []"])
      fix y z r s assume "y \<in> {z. \<exists>n. z = Some n \<and> node_fits n}" "z \<in> {z. \<exists>n. z = Some n \<and> node_fits n}"
        and eq: "(case y of Some n \<Rightarrow> i n | None \<Rightarrow> []) @ r = (case z of Some n \<Rightarrow> i n | None \<Rightarrow> []) @ s"
      then obtain m n where mn: "y = Some m" "z = Some n" "node_fits m" "node_fits n" by blast
      with eq framesD [OF i(2), of m r n s] show "map_option node_view y = map_option node_view z \<and> r = s" by simp
    qed (simp add: i(1) split: option.splits)
  qed
  have slot: "digest_slot = (\<lambda>d z. digest_coordinates (digest_descriptor
      (case fst (snd z) of Some n \<Rightarrow> digest_node (digest_text d (fst z)) n | None \<Rightarrow> digest_text d (fst z))
      (fst (snd (snd z)))) (snd (snd (snd z))))"
    by (simp add: digest_slot_def fun_eq_iff split_beta)
  from framed_then [OF framed_then [OF framed_then [OF framed_map [OF framed_text, of fst]
      framed_map [OF node, of "\<lambda>z. fst (snd z)"]] framed_map [OF framed_descriptor, of "\<lambda>z. fst (snd (snd z))"]]
      framed_map [OF framed_coordinates, of "\<lambda>z. snd (snd (snd z))"]]
  show ?thesis unfolding slot by (rule framed_mono) (auto simp: slot_fits_def slot_view_def)
qed

subsection \<open>The identity\<close>

text \<open>A selection whose texts and lists are as long as Rust can hold, every reference read.\<close>

definition selection_fits :: "string \<Rightarrow> string list \<Rightarrow> (string, node_projection) bmap \<Rightarrow> (string, node_body_descriptor) bmap
    \<Rightarrow> (string, temporal_coordinate list) bmap \<Rightarrow> node_relation_projection list \<Rightarrow> string bset \<Rightarrow> bool" where
  "selection_fits seed ids nodes descriptors coordinates supports missing \<longleftrightarrow> fits seed \<and> fits ids
     \<and> (\<forall>i \<in> set ids. slot_fits (manifest_slot nodes descriptors coordinates i))
     \<and> fits supports \<and> (\<forall>e \<in> set supports. relation_fits e) \<and> fits missing \<and> (\<forall>i \<in> set missing. fits i)"

lemma fits_map [simp]: "fits (map f xs) \<longleftrightarrow> fits xs"
  by (simp add: fits_def)

lemma manifest_bytes_inject:
  assumes "manifest_bytes seed ids nodes descriptors coordinates supports missing
      = manifest_bytes seed' ids' nodes' descriptors' coordinates' supports' missing'"
    and "selection_fits seed ids nodes descriptors coordinates supports missing"
    and "selection_fits seed' ids' nodes' descriptors' coordinates' supports' missing'"
  shows "seed = seed' \<and> map (\<lambda>i. slot_view (manifest_slot nodes descriptors coordinates i)) ids
      = map (\<lambda>i. slot_view (manifest_slot nodes' descriptors' coordinates' i)) ids'
    \<and> map relation_view supports = map relation_view supports' \<and> missing = missing'"
proof -
  note whole = framed_then [OF framed_then [OF framed_then [OF framed_map [OF framed_text, of fst]
      framed_map [OF framed_list [OF framed_slot], of "\<lambda>z. fst (snd z)"]]
      framed_map [OF framed_list [OF framed_relation], of "\<lambda>z. fst (snd (snd z))"]]
      framed_map [OF framed_texts, of "\<lambda>z. snd (snd (snd z))"]]
  obtain i where i: "(\<lambda>d z. digest_texts (foldl digest_relation (digest_number (foldl digest_slot (digest_number (digest_text d (fst z))
        (of_nat (length (fst (snd z))))) (fst (snd z))) (of_nat (length (fst (snd (snd z)))))) (fst (snd (snd z)))) (snd (snd (snd z))))
      = (\<lambda>d z. d @ i z)"
    and f: "frames ({z. fst z \<in> {t. fits t}} \<inter> {z. fst (snd z) \<in> {xs. fits xs \<and> set xs \<subseteq> {z. slot_fits z}}}
        \<inter> {z. fst (snd (snd z)) \<in> {xs. fits xs \<and> set xs \<subseteq> {e. relation_fits e}}}
        \<inter> {z. snd (snd (snd z)) \<in> {ts. fits ts \<and> (\<forall>t \<in> set ts. fits t)}})
      (\<lambda>z. (((fst z, map slot_view (fst (snd z))), map relation_view (fst (snd (snd z)))), snd (snd (snd z)))) i"
    using whole by (rule framedE)
  have bytes: "manifest_bytes seed ids nodes descriptors coordinates supports missing = digest_new ''kmp.trace.manifest.v1''
      @ i (seed, map (manifest_slot nodes descriptors coordinates) ids, supports, missing)"
    for seed ids nodes descriptors coordinates supports missing
    using fun_cong [OF fun_cong [OF i, of "digest_new ''kmp.trace.manifest.v1''"],
        of "(seed, map (manifest_slot nodes descriptors coordinates) ids, supports, missing)"]
    by (simp add: manifest_bytes_def Let_def digest_selected_slots)
  have same: "i (seed, map (manifest_slot nodes descriptors coordinates) ids, supports, missing) @ []
      = i (seed', map (manifest_slot nodes' descriptors' coordinates') ids', supports', missing') @ []"
    using assms(1) unfolding bytes by simp
  have sub: "set es \<subseteq> Collect P \<longleftrightarrow> (\<forall>e \<in> set es. P e)" for es and P :: "node_relation_projection \<Rightarrow> bool" by auto
  show ?thesis
    using framesD [OF f same] assms(2,3) by (simp add: selection_fits_def image_subset_iff sub o_def)
qed

text \<open>C0. Two selections of one identity are the same selection, unless the hash collides: the same
  bound query, the same references in the same order with the same metadata, body versions and
  clocks, the same support declarations and the same unresolved references.\<close>

theorem manifest_identifies_selection:
  assumes "selection_fits seed ids nodes descriptors coordinates supports missing"
    and "selection_fits seed' ids' nodes' descriptors' coordinates' supports' missing'"
    and "manifest_id sha seed ids nodes descriptors coordinates supports missing
      = manifest_id sha seed' ids' nodes' descriptors' coordinates' supports' missing'"
  shows "(\<exists>p q. p \<noteq> q \<and> sha p = sha q)
    \<or> seed = seed' \<and> ids = ids' \<and> missing = missing' \<and> map relation_view supports = map relation_view supports'
      \<and> (\<forall>i \<in> set ids. map_option node_view (bmap_get nodes i) = map_option node_view (bmap_get nodes' i)
           \<and> map_option body_view (bmap_get descriptors i) = map_option body_view (bmap_get descriptors' i)
           \<and> map coordinate_view (coordinates_of coordinates i) = map coordinate_view (coordinates_of coordinates' i))"
proof (cases "manifest_bytes seed ids nodes descriptors coordinates supports missing
      = manifest_bytes seed' ids' nodes' descriptors' coordinates' supports' missing'")
  case True
  note same = manifest_bytes_inject [OF this assms(1,2)]
  then have slots: "map (\<lambda>i. slot_view (manifest_slot nodes descriptors coordinates i)) ids
      = map (\<lambda>i. slot_view (manifest_slot nodes' descriptors' coordinates' i)) ids'" by blast
  have ids: "map fst (map (\<lambda>i. slot_view (manifest_slot nodes descriptors coordinates i)) ids) = ids"
    for nodes descriptors coordinates ids
    by (simp add: slot_view_def manifest_slot_def o_def)
  have "ids = ids'" using arg_cong [OF slots, of "map fst"] unfolding ids .
  with slots same show ?thesis by (auto simp: slot_view_def manifest_slot_def)
next
  case False
  with assms(3) show ?thesis by (auto simp: manifest_id_def digest_finish_def)
qed

subsection \<open>A sample selection\<close>

definition sample_table :: "(string, node_projection) bmap" where
  "sample_table = [(''n'', card_node)]"

definition sample_clock :: "32 word option \<Rightarrow> temporal_coordinate" where
  "sample_clock n = \<lparr>tc_dimension = ''task'', tc_scope_id = ''t'', tc_sequence = n, tc_rank = None, tc_occurred_at = None,
     tc_observed_at = None, tc_ingested_at = None, tc_valid_from = None, tc_valid_until = None, tc_origin = origin_default\<rparr>"

lemma sample_selection_fits:
  "selection_fits ''q'' [''n''] sample_table [(''n'', card_body)] [(''n'', [sample_clock n])] [] []"
  by (simp add: selection_fits_def slot_fits_def manifest_slot_def sample_table_def coordinates_of_def bmap_get_def fits_def
      node_fits_def card_node_def body_fits_def card_body_def coordinate_fits_def coordinate_texts_def sample_clock_def or_default_def)

text \<open>An absent sequence and the sequence zero have one identity.\<close>

theorem manifest_identifies_selection_witness:
  "sample_clock None \<noteq> sample_clock (Some 0) \<and> coordinate_view (sample_clock None) = coordinate_view (sample_clock (Some 0))"
proof -
  have "manifest_id (\<lambda>d. d) ''q'' [''n''] sample_table [(''n'', card_body)] [(''n'', [sample_clock None])] [] []
      = manifest_id (\<lambda>d. d) ''q'' [''n''] sample_table [(''n'', card_body)] [(''n'', [sample_clock (Some 0)])] [] []"
    by (simp add: manifest_id_def manifest_bytes_def digest_selected_def coordinates_of_def bmap_get_def
        digest_coordinates_def digest_coordinate_def sample_clock_def)
  from manifest_identifies_selection [OF sample_selection_fits sample_selection_fits this]
  show ?thesis by (simp add: coordinates_of_def bmap_get_def sample_clock_def)
qed

end
