(* ===== verification/ProofTable.thy ===== *)
theory ProofTable
  imports TraceManifest TraceMaterial TraceStore
begin

text \<open>
  The declared proof of a trace, first half (\<open>fetch\<close> of \<open>model/materialize_trace_proof.rs\<close>, with
  \<open>model/trace_proof_object.rs\<close>, \<open>trace_proof_result.rs\<close>): the entries of the selected routes, their
  coordinates, the support relations into them and the evidence those name, read under the
  budget the search has left. Paging that does not end is \<open>None\<close>. The about of the read is the
  one its admission was made for, as both callers have it.
\<close>

subsection \<open>The table under construction\<close>

record gathering =
  ga_nodes :: "(string, node_projection) bmap"
  ga_missing :: "string bset"
  ga_incomplete :: "string bset"
  ga_unknown :: "string bset"
  ga_sources :: "(string, bool) bmap"
  ga_coordinates :: "(string, temporal_coordinate list) bmap"
  ga_supports :: "node_relation_projection list"
  ga_admission :: admission

definition gathering_new :: "admission \<Rightarrow> gathering" where
  "gathering_new ad = \<lparr>ga_nodes = [], ga_missing = [], ga_incomplete = [], ga_unknown = [], ga_sources = [],
     ga_coordinates = [], ga_supports = [], ga_admission = ad\<rparr>"

definition ga_budget :: "gathering \<Rightarrow> read_budget" where
  "ga_budget g = ad_budget (ga_admission g)"

definition put_budget :: "read_budget \<Rightarrow> gathering \<Rightarrow> gathering" where
  "put_budget b g = g\<lparr>ga_admission := (ga_admission g)\<lparr>ad_budget := b\<rparr>\<rparr>"

definition note_incomplete :: "string \<Rightarrow> gathering \<Rightarrow> gathering" where
  "note_incomplete i g = g\<lparr>ga_incomplete := bset_insert i (ga_incomplete g)\<rparr>"

definition note_missing :: "string \<Rightarrow> gathering \<Rightarrow> gathering" where
  "note_missing i g = (if rb_stop (ga_budget g) = None then g\<lparr>ga_missing := bset_insert i (ga_missing g)\<rparr> else g)"

definition put_node :: "string \<Rightarrow> node_projection \<Rightarrow> gathering \<Rightarrow> gathering" where
  "put_node i node g = g\<lparr>ga_nodes := bmap_insert i node (ga_nodes g)\<rparr>"

subsection \<open>The supports of an entry\<close>

definition in_about :: "string \<Rightarrow> node_projection \<Rightarrow> bool" where
  "in_about about node \<longleftrightarrow> bmap_get (np_properties node) ''memory_about'' = Some about"

definition evidence_kind :: "node_projection \<Rightarrow> bool" where
  "evidence_kind node \<longleftrightarrow> np_node_kind node \<in> {''memory_evidence'', ''evidence''}"

text \<open>The source of a support, read once.\<close>

definition read_source :: "admission_context \<Rightarrow> string \<Rightarrow> gathering \<Rightarrow> gathering port_result" where
  "read_source cx reference g =
     (if bmap_get (ga_sources g) reference \<noteq> None \<or> reference \<in> set (ga_missing g) then Inr g
      else try_bind (budget_node (ac_reader cx) (ac_limits cx) reference (ga_budget g)) (\<lambda>(node, b).
        let g = put_budget b g in
        Inr (case node of
            None \<Rightarrow> note_missing reference g
          | Some n \<Rightarrow>
              if in_about (ac_about cx) n \<and> evidence_kind n
              then put_node reference n (g\<lparr>ga_sources := bmap_insert reference True (ga_sources g)\<rparr>)
              else if \<not> in_about (ac_about cx) n
              then g\<lparr>ga_sources := bmap_insert reference False (ga_sources g),
                     ga_missing := bset_insert reference (ga_missing g)\<rparr>
              else note_missing reference g)))"

definition put_support :: "node_relation_projection \<Rightarrow> gathering \<Rightarrow> gathering" where
  "put_support edge g = g\<lparr>ga_supports := ga_supports g @ [edge]\<rparr>"

definition support_edge :: "admission_context \<Rightarrow> string \<Rightarrow> bool \<times> gathering \<Rightarrow> node_relation_projection
    \<Rightarrow> (bool \<times> gathering) port_result" where
  "support_edge cx entry st edge =
     (case st of (has_source, g) \<Rightarrow>
      if nr_target_node_id edge \<noteq> entry \<or> nr_relation_type edge \<noteq> ''supports'' then
        Inl (PortInvalidState ''proof support adjacency returned the wrong endpoint or type'')
      else if \<not> admits_dependency_relation (window_of cx (ga_admission g)) (nr_explanation edge) then Inr (has_source, g)
      else try_bind (read_source cx (nr_source_node_id edge) g) (\<lambda>g.
        let source = bmap_get (ga_sources g) (nr_source_node_id edge) in
        if source \<noteq> Some True then
          let g = note_incomplete entry g in
          Inr (has_source, if source = Some False then g else put_support edge g)
        else
          let g = (if \<not> is_frontier (ac_temporal cx) \<and> \<not> relation_clock_known (window_of cx (ga_admission g)) (nr_explanation edge)
                   then g\<lparr>ga_unknown := bset_insert entry (ga_unknown g)\<rparr> else g)
          in Inr (True, put_support edge g)))"

fun support_edges :: "admission_context \<Rightarrow> string \<Rightarrow> bool \<times> gathering \<Rightarrow> node_relation_projection list
    \<Rightarrow> (bool \<times> gathering) port_result" where
  "support_edges cx entry st [] = Inr st"
| "support_edges cx entry st (edge # edges) =
     try_bind (support_edge cx entry st edge) (\<lambda>st. support_edges cx entry st edges)"

partial_function (option) support_pages :: "admission_context \<Rightarrow> string \<Rightarrow> relation_position option \<Rightarrow> bool \<times> gathering
    \<Rightarrow> (bool \<times> gathering) port_result option" where
  "support_pages cx entry after st =
     (case budget_page (ac_reader cx) (ac_limits cx) entry Incoming after (Some ''supports'') (ga_budget (snd st)) of
        Inl e \<Rightarrow> Some (Inl e)
      | Inr (None, b) \<Rightarrow> Some (Inr (fst st, note_incomplete entry (put_budget b (snd st))))
      | Inr (Some page, b) \<Rightarrow>
          (case support_edges cx entry (fst st, put_budget b (snd st)) (ap_edges page) of
             Inl e \<Rightarrow> Some (Inl e)
           | Inr st \<Rightarrow> if ap_exhausted page then Some (Inr st) else support_pages cx entry (ap_next page) st))"

declare support_pages.simps [code]

subsection \<open>The entries\<close>

text \<open>The admitted coordinates of an entry.\<close>

definition read_coordinates :: "admission_context \<Rightarrow> string \<Rightarrow> gathering \<Rightarrow> gathering port_result option" where
  "read_coordinates cx entry g =
     (case proof_coordinates cx entry (ga_admission g) of
        None \<Rightarrow> None
      | Some (Inl e) \<Rightarrow> Some (Inl e)
      | Some (Inr (values, ad)) \<Rightarrow>
          let g = g\<lparr>ga_admission := ad\<rparr> in
          Some (Inr (case values of
              None \<Rightarrow> note_incomplete entry g
            | Some cs \<Rightarrow> g\<lparr>ga_coordinates := bmap_insert entry cs (ga_coordinates g)\<rparr>)))"

definition gather_entry :: "admission_context \<Rightarrow> string \<Rightarrow> gathering \<Rightarrow> gathering port_result option" where
  "gather_entry cx entry g =
     (if rb_stop (ga_budget g) \<noteq> None then Some (Inr (note_incomplete entry g))
      else case budget_node (ac_reader cx) (ac_limits cx) entry (ga_budget g) of
          Inl e \<Rightarrow> Some (Inl e)
        | Inr (node, b) \<Rightarrow>
            let g = put_budget b g in
            if \<not> owned_entry (ac_about cx) node then Some (Inr (note_incomplete entry (note_missing entry g)))
            else
              (case read_coordinates cx entry (case node of None \<Rightarrow> g | Some n \<Rightarrow> put_node entry n g) of
                 None \<Rightarrow> None
               | Some (Inl e) \<Rightarrow> Some (Inl e)
               | Some (Inr g) \<Rightarrow>
                   (case support_pages cx entry None (False, g) of
                      None \<Rightarrow> None
                    | Some (Inl e) \<Rightarrow> Some (Inl e)
                    | Some (Inr (has_source, g)) \<Rightarrow>
                        Some (Inr (if has_source then g else note_incomplete entry g)))))"

fun gather :: "admission_context \<Rightarrow> string list \<Rightarrow> gathering \<Rightarrow> gathering port_result option" where
  "gather cx [] g = Some (Inr g)"
| "gather cx (entry # entries) g =
     (case gather_entry cx entry g of
        None \<Rightarrow> None
      | Some (Inl e) \<Rightarrow> Some (Inl e)
      | Some (Inr g) \<Rightarrow> gather cx entries g)"

end
