(* ===== verification/TraceProof.thy ===== *)
theory TraceProof
  imports ProofTable "HOL-Library.Product_Lexorder"
begin

text \<open>
  The declared proof of a trace, second half (\<open>model/materialize_trace_proof.rs\<close>,
  \<open>model/trace_condense_policy.rs\<close>, the end of \<open>model/bounded_trace_search.rs\<close>): which bodies are
  delivered with the gathered table, when a declared group is complete, which cards to author
  next, and the search with its proof. The reads of bodies, descriptors and cards are
  parameters, like those of nodes and adjacency.
\<close>

subsection \<open>Values\<close>

record node_detail_projection =
  nd_node_id :: string
  nd_detail :: string
  nd_content_hash :: string
  nd_revision :: "64 word"

text \<open>The body half of the trait \<open>TraceSnapshotReader\<close>.\<close>

record body_reader =
  br_bodies :: "string list \<Rightarrow> node_detail_projection option list port_result"
  br_verified_bodies :: "string list \<Rightarrow> node_detail_projection option list port_result"
  br_descriptors :: "string list \<Rightarrow> node_body_descriptor option list port_result"
  br_cards_at :: "string list \<Rightarrow> string \<Rightarrow> int option \<Rightarrow> node_card option list port_result"

record trace_proof_object =
  po_node :: node_projection
  po_descriptor :: "node_body_descriptor option"
  po_body :: "node_detail_projection option"
  po_body_state :: trace_body_state
  po_card :: "node_card_presentation option"
  po_coordinates :: "temporal_coordinate list"

definition required_record_bytes :: "trace_proof_object \<Rightarrow> 64 word option" where
  "required_record_bytes ob = (if po_body ob = None then map_option bd_record_bytes (po_descriptor ob) else None)"

record trace_compact_summary =
  cs_language :: string
  cs_valid :: nat
  cs_stale :: nat
  cs_absent :: nat
  cs_after_cut :: nat
  cs_card_bytes :: "64 word"
  cs_body_bytes_omitted :: "64 word"

datatype trace_expansion_refusal = SelectionChanged string string | UnknownRefs "string list"

definition refusal_code :: "trace_expansion_refusal \<Rightarrow> string" where
  "refusal_code r = (case r of SelectionChanged _ _ \<Rightarrow> ''read_selection_changed'' | UnknownRefs _ \<Rightarrow> ''unknown_expansion_refs'')"

record trace_condense_candidate =
  cc_descriptor :: node_body_descriptor
  cc_card_status :: node_card_status
  cc_shared_by :: nat
  cc_expect :: node_card_expectation

record trace_condense_candidates =
  cl_items :: "trace_condense_candidate list"
  cl_omitted_count :: nat
  cl_below_floor :: nat
  cl_valid :: nat
  cl_after_cut :: nat

record trace_proof_result =
  tp_objects :: "trace_proof_object list"
  tp_supports :: "node_relation_projection list"
  tp_missing_refs :: "string list"
  tp_missing_bodies :: "string list"
  tp_incomplete_entries :: "string list"
  tp_clock_unknown_entries :: "string list"
  tp_complete_groups :: "nat list"
  tp_incomplete_groups :: "nat list"
  tp_stop :: "trace_search_stop option"
  tp_body_bytes :: "64 word"
  tp_manifest_id :: "string option"
  tp_delivery :: "trace_body_delivery option"
  tp_compact :: "trace_compact_summary option"
  tp_condense_candidates :: "trace_condense_candidates option"
  tp_expansion_plan :: "trace_expansion_plan option"
  tp_refusal :: "trace_expansion_refusal option"

definition proof_default :: trace_proof_result where
  "proof_default = \<lparr>tp_objects = [], tp_supports = [], tp_missing_refs = [], tp_missing_bodies = [],
     tp_incomplete_entries = [], tp_clock_unknown_entries = [], tp_complete_groups = [], tp_incomplete_groups = [],
     tp_stop = None, tp_body_bytes = 0, tp_manifest_id = None, tp_delivery = None, tp_compact = None,
     tp_condense_candidates = None, tp_expansion_plan = None, tp_refusal = None\<rparr>"

subsection \<open>Batches\<close>

text \<open>A batch answers the slots asked for, in order.\<close>

definition slots_kept :: "('a \<Rightarrow> string) \<Rightarrow> 'a option list \<Rightarrow> string list \<Rightarrow> bool" where
  "slots_kept name xs ids \<longleftrightarrow> length xs = length ids \<and> (\<forall>(x, i) \<in> set (zip xs ids). \<forall>v. x = Some v \<longrightarrow> name v = i)"

definition check_body_slots :: "node_detail_projection option list \<Rightarrow> string list \<Rightarrow> unit port_result" where
  "check_body_slots bodies ids =
     (if slots_kept nd_node_id bodies ids then Inr ()
      else Inl (PortInvalidState ''trace body batch does not preserve requested slots''))"

definition load_bodies :: "body_reader \<Rightarrow> string list \<Rightarrow> node_detail_projection option list port_result" where
  "load_bodies rd ids =
     (if ids = [] then Inr []
      else try_bind (br_bodies rd ids) (\<lambda>bodies. try_bind (check_body_slots bodies ids) (\<lambda>_. Inr bodies)))"

definition present_entries :: "string list \<Rightarrow> 'a option list \<Rightarrow> (string, 'a) bmap" where
  "present_entries ids xs =
     foldl (\<lambda>m (i, x). case x of None \<Rightarrow> m | Some v \<Rightarrow> bmap_insert i v m) [] (zip ids xs)"

definition load_descriptors :: "body_reader \<Rightarrow> string list \<Rightarrow> (string, node_body_descriptor) bmap port_result" where
  "load_descriptors rd ids =
     (if ids = [] then Inr []
      else try_bind (br_descriptors rd ids) (\<lambda>descriptors.
        if \<not> slots_kept bd_node_id descriptors ids
        then Inl (PortInvalidState ''trace descriptor batch does not preserve requested slots'')
        else Inr (present_entries ids descriptors)))"

definition load_cards :: "body_reader \<Rightarrow> string list \<Rightarrow> string option \<Rightarrow> int option \<Rightarrow> node_card option list port_result" where
  "load_cards rd ids language limit =
     (case (if ids = [] then None else language) of
        None \<Rightarrow> Inr (replicate (length ids) None)
      | Some language \<Rightarrow>
          try_bind (br_cards_at rd ids language limit) (\<lambda>cards.
            if \<not> slots_kept nc_node_id cards ids
            then Inl (PortInvalidState ''trace card batch does not preserve requested slots'')
            else Inr cards))"

definition verify_against_descriptor :: "node_detail_projection \<Rightarrow> node_body_descriptor option \<Rightarrow> unit port_result" where
  "verify_against_descriptor body descriptor =
     (case descriptor of
        None \<Rightarrow> Inl (PortInvalidState (''`'' @ nd_node_id body @ ''` was loaded without a body descriptor''))
      | Some d \<Rightarrow>
          if nd_revision body \<noteq> bd_revision d \<or> nd_content_hash body \<noteq> bd_content_hash d
             \<or> of_nat (length (nd_detail body)) \<noteq> bd_body_bytes d
          then Inl (PortInvalidState (''`'' @ nd_node_id body
            @ ''` does not match the descriptor this read admitted: descriptor revision '' @ dec_word (bd_revision d)
            @ '' ('' @ dec_word (bd_body_bytes d) @ '' bytes), body revision '' @ dec_word (nd_revision body)
            @ '' ('' @ dec (length (nd_detail body)) @ '' bytes)''))
          else Inr ())"

fun verify_bodies :: "(string, node_body_descriptor) bmap \<Rightarrow> (string, node_detail_projection) bmap
    \<Rightarrow> (string \<times> node_detail_projection option) list \<Rightarrow> (string, node_detail_projection) bmap port_result" where
  "verify_bodies descriptors bodies [] = Inr bodies"
| "verify_bodies descriptors bodies ((i, body) # rest) =
     (case body of
        None \<Rightarrow> Inl (PortInvalidState (''`'' @ i @ ''` had a body descriptor and no body; this projection is inconsistent''))
      | Some b \<Rightarrow> try_bind (verify_against_descriptor b (bmap_get descriptors i)) (\<lambda>_.
          verify_bodies descriptors (bmap_insert i b bodies) rest))"

definition load_admitted :: "body_reader \<Rightarrow> string list \<Rightarrow> (string, node_body_descriptor) bmap
    \<Rightarrow> (string, node_detail_projection) bmap port_result" where
  "load_admitted rd load descriptors =
     try_bind (if load = [] then Inr []
         else try_bind (br_verified_bodies rd load) (\<lambda>bodies. try_bind (check_body_slots bodies load) (\<lambda>_. Inr bodies)))
       (\<lambda>loaded. verify_bodies descriptors [] (zip load loaded))"

subsection \<open>Delivery\<close>

text \<open>What the two ways of delivering bodies leave for the answer.\<close>

record proof_delivery =
  dv_objects :: "trace_proof_object list"
  dv_missing_bodies :: "string bset"
  dv_omitted :: "string bset"
  dv_body_bytes :: "64 word"
  dv_manifest :: "string option"
  dv_delivery :: "trace_body_delivery option"
  dv_compact :: "trace_compact_summary option"
  dv_plan :: "trace_expansion_plan option"

definition detail_bytes :: "trace_proof_object list \<Rightarrow> 64 word" where
  "detail_bytes obs =
     foldl (\<lambda>n ob. case po_body ob of None \<Rightarrow> n | Some b \<Rightarrow> n + of_nat (length (nd_detail b))) 0 obs"

text \<open>Without options every present body is loaded and no descriptor is consulted.\<close>

definition plain_object :: "(string, temporal_coordinate list) bmap \<Rightarrow> (string \<times> node_projection) \<times> node_detail_projection option
    \<Rightarrow> trace_proof_object" where
  "plain_object coordinates p =
     (case p of ((i, node), body) \<Rightarrow> \<lparr>po_node = node, po_descriptor = None, po_body = body, po_body_state = BodyLoaded,
        po_card = None, po_coordinates = coordinates_of coordinates (np_node_id node)\<rparr>)"

definition deliver_plain :: "body_reader \<Rightarrow> gathering \<Rightarrow> proof_delivery port_result" where
  "deliver_plain rd g =
     try_bind (load_bodies rd (bmap_keys (ga_nodes g))) (\<lambda>bodies.
       let slots = zip (ga_nodes g) bodies; obs = map (plain_object (ga_coordinates g)) slots in
       Inr \<lparr>dv_objects = obs, dv_missing_bodies = bset_of (map (\<lambda>((i, _), _). i) (filter (\<lambda>(_, body). body = None) slots)),
            dv_omitted = [], dv_body_bytes = detail_bytes obs, dv_manifest = None, dv_delivery = None,
            dv_compact = None, dv_plan = None\<rparr>)"

text \<open>A named expansion is refused as a whole, before a card or a body is read.\<close>

definition unknown_refs :: "trace_body_options \<Rightarrow> string list \<Rightarrow> trace_expansion_refusal option" where
  "unknown_refs opts ids =
     (let unknown = filter (\<lambda>i. i \<notin> set ids) (case bo_refs opts of None \<Rightarrow> [] | Some refs \<Rightarrow> refs)
      in if unknown = [] then None else Some (UnknownRefs unknown))"

definition expansion_refused :: "trace_body_options \<Rightarrow> string list \<Rightarrow> string \<Rightarrow> trace_expansion_refusal option" where
  "expansion_refused opts ids manifest =
     (case bo_expect_selection opts of
        Some expected \<Rightarrow> if expected \<noteq> manifest then Some (SelectionChanged expected manifest) else unknown_refs opts ids
      | None \<Rightarrow> unknown_refs opts ids)"

definition presentations :: "trace_body_options \<Rightarrow> string list \<Rightarrow> node_card option list
    \<Rightarrow> (string, node_body_descriptor) bmap \<Rightarrow> int option \<Rightarrow> node_card_presentation option list" where
  "presentations opts ids cards descriptors limit =
     map (\<lambda>(i, c). map_option (\<lambda>_. presentation c (bmap_get descriptors i) limit) (bo_compact opts)) (zip ids cards)"

definition reusable_cards :: "string list \<Rightarrow> node_card_presentation option list \<Rightarrow> string bset" where
  "reusable_cards ids presented =
     bset_of (map fst (filter (\<lambda>(_, p). case p of None \<Rightarrow> False | Some p \<Rightarrow> cp_status p = CardValid) (zip ids presented)))"

text \<open>Card prose survives only where the card stands for the body.\<close>

definition deliver_object :: "trace_body_admission \<Rightarrow> (string, node_body_descriptor) bmap \<Rightarrow> (string, node_detail_projection) bmap
    \<Rightarrow> (string, temporal_coordinate list) bmap \<Rightarrow> (string \<times> node_projection) \<times> node_card_presentation option \<Rightarrow> trace_proof_object" where
  "deliver_object admitted descriptors bodies coordinates p =
     (case p of ((i, node), presented) \<Rightarrow>
      \<lparr>po_node = node, po_descriptor = bmap_get descriptors i, po_body = bmap_get bodies i,
       po_body_state = admission_state admitted i,
       po_card = (if admission_state admitted i \<noteq> BodyCompact then map_option (\<lambda>p. p\<lparr>cp_text := None\<rparr>) presented else presented),
       po_coordinates = coordinates_of coordinates (np_node_id node)\<rparr>)"

definition summarise :: "trace_compact_summary \<Rightarrow> trace_proof_object \<Rightarrow> trace_compact_summary" where
  "summarise s ob =
     (case po_card ob of
        None \<Rightarrow> s
      | Some p \<Rightarrow>
          let s = (case cp_status p of
              CardValid \<Rightarrow> s\<lparr>cs_valid := cs_valid s + 1\<rparr>
            | CardStale \<Rightarrow> s\<lparr>cs_stale := cs_stale s + 1\<rparr>
            | CardIsAbsent \<Rightarrow> s\<lparr>cs_absent := cs_absent s + 1\<rparr>
            | CardAfterCut \<Rightarrow> s\<lparr>cs_after_cut := cs_after_cut s + 1\<rparr>)
          in if po_body_state ob = BodyCompact then
               s\<lparr>cs_card_bytes := cs_card_bytes s + text_bytes p,
                 cs_body_bytes_omitted := cs_body_bytes_omitted s
                   + (case po_descriptor ob of None \<Rightarrow> 0 | Some d \<Rightarrow> bd_body_bytes d)\<rparr>
             else s)"

definition summary_new :: "string \<Rightarrow> trace_compact_summary" where
  "summary_new language = \<lparr>cs_language = language, cs_valid = 0, cs_stale = 0, cs_absent = 0, cs_after_cut = 0,
     cs_card_bytes = 0, cs_body_bytes_omitted = 0\<rparr>"

definition deliver_bounded :: "body_reader \<Rightarrow> int option \<Rightarrow> trace_body_options \<Rightarrow> (string, node_body_descriptor) bmap
    \<Rightarrow> string \<Rightarrow> gathering \<Rightarrow> proof_delivery port_result" where
  "deliver_bounded rd limit opts descriptors manifest g =
     (let ids = bmap_keys (ga_nodes g) in
      try_bind (load_cards rd ids (bo_compact opts) limit) (\<lambda>cards.
        let presented = presentations opts ids cards descriptors limit;
            admitted = body_admit ids descriptors opts (reusable_cards ids presented) in
        try_bind (load_admitted rd (ta_load admitted) descriptors) (\<lambda>bodies.
          let obs = map (deliver_object admitted descriptors bodies (ga_coordinates g)) (zip (ga_nodes g) presented) in
          Inr \<lparr>dv_objects = obs,
               dv_missing_bodies = bset_of (filter (\<lambda>i. admission_state admitted i = BodyMissing) ids),
               dv_omitted = bset_of (filter (\<lambda>i. is_omitted (admission_state admitted i)) ids),
               dv_body_bytes = detail_bytes obs, dv_manifest = Some manifest, dv_delivery = Some (delivery admitted),
               dv_compact = map_option (\<lambda>language. foldl summarise (summary_new language) obs) (bo_compact opts),
               dv_plan = expansion_plan ids admitted descriptors opts\<rparr>)))"


subsection \<open>The fetched table\<close>

text \<open>Entries whose own body, or the body of one of their sources, was not delivered.\<close>

definition undelivered_entries :: "string list \<Rightarrow> node_relation_projection list \<Rightarrow> string bset \<Rightarrow> string list" where
  "undelivered_entries entries supports undelivered =
     filter (\<lambda>i. i \<in> set undelivered) entries
     @ map nr_target_node_id (filter (\<lambda>edge. nr_source_node_id edge \<in> set undelivered) supports)"

definition close_table :: "string list \<Rightarrow> gathering \<Rightarrow> proof_delivery \<Rightarrow> trace_proof_result" where
  "close_table entries g dv =
     (let undelivered = bset_of (dv_missing_bodies dv @ dv_omitted dv) in
      proof_default\<lparr>tp_objects := dv_objects dv, tp_supports := ga_supports g, tp_missing_refs := ga_missing g,
        tp_missing_bodies := dv_missing_bodies dv,
        tp_incomplete_entries := foldl (\<lambda>s i. bset_insert i s) (ga_incomplete g)
          (undelivered_entries entries (ga_supports g) undelivered),
        tp_clock_unknown_entries := ga_unknown g, tp_stop := rb_stop (ga_budget g), tp_body_bytes := dv_body_bytes dv,
        tp_manifest_id := dv_manifest dv, tp_delivery := dv_delivery dv, tp_compact := dv_compact dv,
        tp_expansion_plan := dv_plan dv\<rparr>)"

definition refused_table :: "string \<Rightarrow> trace_expansion_refusal \<Rightarrow> gathering \<Rightarrow> trace_proof_result" where
  "refused_table manifest refusal g =
     proof_default\<lparr>tp_manifest_id := Some manifest, tp_refusal := Some refusal, tp_stop := rb_stop (ga_budget g)\<rparr>"

definition table_manifest :: "(string \<Rightarrow> string) \<Rightarrow> string \<Rightarrow> (string, node_body_descriptor) bmap \<Rightarrow> gathering \<Rightarrow> string" where
  "table_manifest sha seed descriptors g =
     manifest_id sha seed (bmap_keys (ga_nodes g)) (ga_nodes g) descriptors (ga_coordinates g) (ga_supports g) (ga_missing g)"

definition deliver :: "(string \<Rightarrow> string) \<Rightarrow> body_reader \<Rightarrow> admission_context \<Rightarrow> string list \<Rightarrow> trace_body_options \<Rightarrow> string
    \<Rightarrow> gathering \<Rightarrow> trace_proof_result port_result" where
  "deliver sha rd cx entries opts seed g =
     (if \<not> body_is_active opts then try_bind (deliver_plain rd g) (\<lambda>dv. Inr (close_table entries g dv))
      else try_bind (load_descriptors rd (bmap_keys (ga_nodes g))) (\<lambda>descriptors.
        let manifest = table_manifest sha seed descriptors g in
        case expansion_refused opts (bmap_keys (ga_nodes g)) manifest of
          Some refusal \<Rightarrow> Inr (refused_table manifest refusal g)
        | None \<Rightarrow>
            try_bind (deliver_bounded rd (card_cut_nanos (window_of cx (ga_admission g))) opts descriptors manifest g) (\<lambda>dv.
              Inr (close_table entries g dv))))"

definition fetch :: "(string \<Rightarrow> string) \<Rightarrow> body_reader \<Rightarrow> admission_context \<Rightarrow> string list \<Rightarrow> trace_body_options \<Rightarrow> string
    \<Rightarrow> admission \<Rightarrow> (trace_proof_result \<times> admission) port_result option" where
  "fetch sha rd cx entries opts seed ad =
     (case gather cx entries (gathering_new ad) of
        None \<Rightarrow> None
      | Some (Inl e) \<Rightarrow> Some (Inl e)
      | Some (Inr g) \<Rightarrow> Some (try_bind (deliver sha rd cx entries opts seed g) (\<lambda>r. Inr (r, ga_admission g))))"

subsection \<open>Cards to author next\<close>

definition MIN_BODY_BYTES :: "64 word" where "MIN_BODY_BYTES = 1024"

definition MAX_CANDIDATES :: nat where "MAX_CANDIDATES = 8"

text \<open>The references a route or a group uses: its members and the sources of their supports.\<close>

definition used_refs :: "node_relation_projection list \<Rightarrow> string list \<Rightarrow> string bset" where
  "used_refs supports refs =
     bset_of (refs @ map nr_source_node_id (filter (\<lambda>edge. nr_target_node_id edge \<in> set refs) supports))"

definition shared_by :: "node_relation_projection list \<Rightarrow> string list list \<Rightarrow> string \<Rightarrow> nat" where
  "shared_by supports memberships i = length (filter (\<lambda>refs. i \<in> set (used_refs supports refs)) memberships)"

definition card_expectation :: "node_card_presentation \<Rightarrow> node_card_expectation option" where
  "card_expectation p =
     (case cp_status p of
        CardIsAbsent \<Rightarrow> Some ExpectAbsent
      | CardStale \<Rightarrow> map_option (\<lambda>stored. ExpectRevision (ns_card_revision stored)) (cp_stored p)
      | _ \<Rightarrow> None)"

definition condense_object :: "node_relation_projection list \<Rightarrow> string list list \<Rightarrow> trace_condense_candidates \<Rightarrow> trace_proof_object
    \<Rightarrow> trace_condense_candidates" where
  "condense_object supports memberships l ob =
     (case (po_descriptor ob, po_card ob) of
        (Some d, Some p) \<Rightarrow>
          if cp_status p = CardValid then l\<lparr>cl_valid := cl_valid l + 1\<rparr>
          else if cp_status p = CardAfterCut then l\<lparr>cl_after_cut := cl_after_cut l + 1\<rparr>
          else (case card_expectation p of
              None \<Rightarrow> l
            | Some expect \<Rightarrow>
                if bd_body_bytes d < MIN_BODY_BYTES then l\<lparr>cl_below_floor := cl_below_floor l + 1\<rparr>
                else l\<lparr>cl_items := cl_items l @ [\<lparr>cc_descriptor = d, cc_card_status = cp_status p,
                       cc_shared_by = shared_by supports memberships (bd_node_id d), cc_expect = expect\<rparr>]\<rparr>)
      | _ \<Rightarrow> l)"

text \<open>Most shared first, then the largest body, then the name.\<close>

definition candidate_key :: "trace_condense_candidate \<Rightarrow> int \<times> int \<times> string" where
  "candidate_key c = (- int (cc_shared_by c), - uint (bd_body_bytes (cc_descriptor c)), bd_node_id (cc_descriptor c))"

definition recommend :: "trace_proof_result \<Rightarrow> string list list \<Rightarrow> trace_condense_candidates" where
  "recommend r memberships =
     (let l = foldl (condense_object (tp_supports r) memberships)
            \<lparr>cl_items = [], cl_omitted_count = 0, cl_below_floor = 0, cl_valid = 0, cl_after_cut = 0\<rparr> (tp_objects r);
          items = sort_key candidate_key (cl_items l)
      in l\<lparr>cl_omitted_count := length items - MAX_CANDIDATES, cl_items := take MAX_CANDIDATES items\<rparr>)"


subsection \<open>The bound query\<close>

text \<open>The derived \<open>Debug\<close> texts of request values: their format is the standard library's and not
  promised to be stable, so they are parameters.\<close>

record debug_formats =
  df_direction :: "relation_direction \<Rightarrow> string"
  df_temporal :: "temporal_selection \<Rightarrow> string"
  df_dimensions :: "trace_dimension_policy \<Rightarrow> string"
  df_limits :: "trace_search_limits \<Rightarrow> string"
  df_select :: "trace_material_selection option \<Rightarrow> string"
  df_stop :: "trace_search_stop \<Rightarrow> string"
  df_axis :: "temporal_axis \<Rightarrow> string"

definition digest_numbers :: "manifest_digest \<Rightarrow> nat list \<Rightarrow> manifest_digest" where
  "digest_numbers d ns = foldl (\<lambda>d n. digest_number d (of_nat n)) d ns"

definition digest_material :: "manifest_digest \<Rightarrow> trace_material_result option \<Rightarrow> manifest_digest" where
  "digest_material d material =
     (case material of
        Some m \<Rightarrow>
          let d = digest_texts (digest_flag d True) (mr_material_refs m);
              d = digest_number (digest_number (digest_number d (of_nat (mr_evaluated m)))
                    (of_nat (mr_pruned_by_width m))) (of_nat (mr_benefit m))
          in digest_numbers (digest_numbers (digest_numbers d (mr_selected_candidates m)) (mr_covered_groups m))
               (mr_incomplete_groups m)
      | None \<Rightarrow> digest_flag d False)"

definition trace_seed :: "(string \<Rightarrow> string) \<Rightarrow> debug_formats \<Rightarrow> trace_search_request \<Rightarrow> trace_search_result
    \<Rightarrow> trace_material_result option \<Rightarrow> string" where
  "trace_seed sha fmt request search material =
     (let d = digest_new ''kmp.trace.selection.target.v2'';
          d = digest_text (digest_text d (sq_about request)) (sq_from request);
          d = digest_texts d (sq_targets request);
          d = digest_text d (df_direction fmt (sq_direction request));
          d = digest_texts d (sq_relations request);
          d = digest_number d (ucast (sq_paths_per_target request));
          d = digest_number d (of_nat (length (sq_follow request)));
          d = foldl (\<lambda>d step. digest_text (digest_text d (rt_canonical (rs_relation step)))
                (df_direction fmt (rs_direction step))) d (sq_follow request);
          d = digest_text d (df_temporal fmt (sq_temporal request));
          d = digest_flag d (sq_proof request);
          d = digest_text d (df_dimensions fmt (sq_policy request));
          d = digest_text d (df_limits fmt (sq_limits request));
          d = digest_text d (df_select fmt (sq_select request));
          d = digest_text d (df_stop fmt (tr_stop search));
          d = digest_text d (df_axis fmt (tr_temporal_axis search));
          d = digest_flag d (tr_temporal_selection_resolved search);
          d = digest_text d (or_default (tr_resolved_as_of search));
          d = digest_texts (digest_texts d (tr_unreached search)) (tr_incomplete_targets search);
          d = foldl digest_relation (digest_number d (of_nat (length (tr_relations search)))) (tr_relations search);
          d = digest_number d (of_nat (length (tr_routes search)));
          d = foldl (\<lambda>d route. digest_numbers (digest_number (digest_text d (ro_target route))
                (of_nat (length (ro_edge_indexes route)))) (ro_edge_indexes route)) d (tr_routes search);
          d = digest_material d material;
          d = digest_numbers (digest_number d (of_nat (length (tr_clock_unknown_edges search)))) (tr_clock_unknown_edges search)
      in digest_finish sha d)"

subsection \<open>The groups of a target search\<close>

text \<open>Indexing that may panic.\<close>

definition nth_opt :: "'a list \<Rightarrow> nat \<Rightarrow> 'a option" where
  "nth_opt xs i = (if i < length xs then Some (xs ! i) else None)"

definition selected_routes :: "trace_search_result \<Rightarrow> trace_material_result option \<Rightarrow> trace_route list option" where
  "selected_routes search material =
     (case material of
        None \<Rightarrow> Some (tr_routes search)
      | Some m \<Rightarrow> those (map (nth_opt (tr_routes search)) (mr_selected_candidates m)))"

text \<open>The entries of a route, and whether every link of it is dated.\<close>

definition route_path :: "trace_search_result \<Rightarrow> trace_route \<Rightarrow> (string bset \<times> bool) option" where
  "route_path search route =
     map_option (\<lambda>edges. (bset_of (tr_from search # concat (map (\<lambda>e. [nr_source_node_id e, nr_target_node_id e]) edges)),
         \<forall>i \<in> set (ro_edge_indexes route). i \<notin> set (tr_clock_unknown_edges search)))
       (those (map (nth_opt (tr_relations search)) (ro_edge_indexes route)))"

definition route_paths :: "trace_search_result \<Rightarrow> trace_material_result option \<Rightarrow> (string bset \<times> bool) list option" where
  "route_paths search material =
     (case selected_routes search material of None \<Rightarrow> None | Some routes \<Rightarrow> those (map (route_path search) routes))"

definition group_complete :: "string list \<Rightarrow> trace_proof_result \<Rightarrow> bool" where
  "group_complete refs r \<longleftrightarrow> refs \<noteq> [] \<and> tp_stop r = None
     \<and> (\<forall>i \<in> set (tp_incomplete_entries r). i \<notin> set refs)
     \<and> (\<forall>i \<in> set (tp_clock_unknown_entries r). i \<notin> set refs)
     \<and> (\<forall>ob \<in> set (tp_objects r). np_node_id (po_node ob) \<in> set refs \<longrightarrow> po_body_state ob = BodyLoaded)"

definition available_refs :: "(string bset \<times> bool) list \<Rightarrow> trace_proof_result \<Rightarrow> string bset" where
  "available_refs paths r = bset_of (concat (map fst (filter (\<lambda>(refs, dated). dated \<and> group_complete refs r) paths)))"

definition declared_requirements :: "trace_search_request \<Rightarrow> trace_proof_requirement list" where
  "declared_requirements request =
     (case sq_select request of
        None \<Rightarrow> map (\<lambda>t. \<lparr>rq_alternatives = [bset_of [t]], rq_weight = 1\<rparr>) (sq_targets request)
      | Some p \<Rightarrow> requirements p (sq_targets request))"

definition requirement_met :: "string bset \<Rightarrow> trace_proof_result \<Rightarrow> trace_proof_requirement \<Rightarrow> bool" where
  "requirement_met available r q \<longleftrightarrow> tp_stop r = None
     \<and> list_ex (\<lambda>a. a \<noteq> [] \<and> set a \<subseteq> set available) (rq_alternatives q)"

definition group_result :: "trace_proof_result \<Rightarrow> nat \<times> bool \<Rightarrow> trace_proof_result" where
  "group_result r p =
     (case p of (index, complete) \<Rightarrow>
      if complete then r\<lparr>tp_complete_groups := tp_complete_groups r @ [index]\<rparr>
      else r\<lparr>tp_incomplete_groups := tp_incomplete_groups r @ [index]\<rparr>)"

definition judge_groups :: "trace_search_request \<Rightarrow> (string bset \<times> bool) list \<Rightarrow> trace_proof_result \<Rightarrow> trace_proof_result" where
  "judge_groups request paths r =
     (let qs = declared_requirements request
      in foldl group_result r (zip [0..<length qs] (map (requirement_met (available_refs paths r) r) qs)))"

definition trace_proof :: "(string \<Rightarrow> string) \<Rightarrow> debug_formats \<Rightarrow> body_reader \<Rightarrow> admission_context \<Rightarrow> trace_search_request
    \<Rightarrow> trace_search_result \<Rightarrow> trace_material_result option \<Rightarrow> admission
    \<Rightarrow> (trace_proof_result \<times> admission) port_result option" where
  "trace_proof sha fmt rd cx request search material ad =
     (case route_paths search material of
        None \<Rightarrow> None
      | Some paths \<Rightarrow>
          (case fetch sha rd cx (bset_of (concat (map fst paths))) (sq_body request)
              (trace_seed sha fmt request search material) ad of
             None \<Rightarrow> None
           | Some (Inl e) \<Rightarrow> Some (Inl e)
           | Some (Inr (r, ad)) \<Rightarrow>
               if tp_refusal r \<noteq> None then Some (Inr (r, ad))
               else
                 let r = judge_groups request paths r;
                     r = (if bo_compact (sq_body request) \<noteq> None
                          then r\<lparr>tp_condense_candidates := Some (recommend r (map fst paths))\<rparr> else r)
                 in Some (Inr (r, ad))))"

subsection \<open>The search and its proof\<close>

definition charge_proof :: "admission \<Rightarrow> trace_search_result \<Rightarrow> trace_search_result" where
  "charge_proof ad result =
     (let b = ad_budget ad in
      result\<lparr>tr_discovered_nodes := length (rb_refs b), tr_scanned_edges := rb_scanned b,
        tr_coordinate_rows := rb_coordinate_rows b,
        tr_stop := (case rb_stop b of Some stop \<Rightarrow> stop | None \<Rightarrow> tr_stop result),
        tr_routing := map_option (\<lambda>r. r\<lparr>rg_adjacency_pages := rb_adjacency_pages b,
          rg_coordinate_pages := rb_coordinate_pages b\<rparr>) (tr_routing result)\<rparr>)"

definition add_proof :: "(string \<Rightarrow> string) \<Rightarrow> debug_formats \<Rightarrow> body_reader \<Rightarrow> admission_context \<Rightarrow> trace_search_request
    \<Rightarrow> trace_search_result \<Rightarrow> trace_material_result option \<Rightarrow> admission
    \<Rightarrow> (trace_search_result \<times> trace_material_result option \<times> trace_proof_result option) port_result option" where
  "add_proof sha fmt rd cx request search material ad =
     (if \<not> sq_proof request then Some (Inr (search, material, None))
      else case trace_proof sha fmt rd cx request search material ad of
          None \<Rightarrow> None
        | Some (Inl e) \<Rightarrow> Some (Inl e)
        | Some (Inr (r, ad)) \<Rightarrow> Some (Inr (charge_proof ad search, material, Some r)))"

definition bounded_trace_search :: "(string \<Rightarrow> string) \<Rightarrow> debug_formats \<Rightarrow> body_reader \<Rightarrow> snapshot_reader \<Rightarrow> trace_search_request
    \<Rightarrow> (trace_search_result \<times> trace_material_result option \<times> trace_proof_result option) port_result option" where
  "bounded_trace_search sha fmt rd reader request =
     (case port_result (search_validate request) of
        Inl e \<Rightarrow> Some (Inl e)
      | Inr _ \<Rightarrow>
          let cx = context_of reader request in
          (case search_root request cx of
             None \<Rightarrow> None
           | Some (Inl e) \<Rightarrow> Some (Inl e)
           | Some (Inr (resolved, root_admitted, ad)) \<Rightarrow>
               (case trace_loop request cx (search_moves request) (trace_start request root_admitted ad) of
                  None \<Rightarrow> None
                | Some (Inl e) \<Rightarrow> Some (Inl e)
                | Some (Inr s) \<Rightarrow>
                    (case search_result request cx resolved s of
                       None \<Rightarrow> None
                     | Some search \<Rightarrow>
                         (case sq_select request of
                            None \<Rightarrow> add_proof sha fmt rd cx request search None (se_admission s)
                          | Some policy \<Rightarrow>
                              (case select_trace_material search (sq_targets request) policy of
                                 None \<Rightarrow> None
                               | Some (Inl e) \<Rightarrow> Some (port_result (Inl e))
                               | Some (Inr m) \<Rightarrow> add_proof sha fmt rd cx request search (Some m) (se_admission s)))))))"

end
