(* ===== verification/Spec2Isabelle.thy ===== *)
theory Spec2Isabelle
  imports TemporalGuarantees LifecycleGuarantees RelationshipPath PathSearchGuarantees ProofPlan
    MaterialGuarantees TraceProof
begin

text \<open>
  KMP is a memory for agents: entries (nodes) under an \<open>about\<close>, joined by explained relations,
  dated by coordinates on several clocks, labelled by dimensions, and read back through
  bounded searches. This library models the domain crate, \<open>src/crates/kmp-domain\<close>, which
  holds the rules; the other crates move its values to stores and over wires. Paths below are
  relative to \<open>src/crates/kmp-domain/src\<close> unless they say otherwise.

  \<^bold>\<open>Parts and theories.\<close>

  \<^item> Prelude, Numerals, BTree: Rust strings as UTF-8 bytes, \<open>Result\<close> as a sum with the error on
    the left, \<open>?\<close> as \<open>try_bind\<close>, the parsing and printing of integers, \<open>BTreeSet\<close> and
    \<open>BTreeMap\<close> as strictly ordered lists.
  \<^item> LabelIdentity: the identity of a dimensional label and its reference, percent encoding
    included (\<open>value_objects/memory_dimension_identity.rs\<close>, \<open>reference_component.rs\<close>).
  \<^item> Instants, InstantText: the civil calendar and the two stored spellings of an instant
    (\<open>model/temporal_memory/axis_key.rs\<close>), \<open>i128\<close> and \<open>i64\<close> with their wrap-around written out.
  \<^item> Relations, Explanations: relation names and classes, what an edge says of itself and its
    property map, provenance (\<open>value_objects/relation_type.rs\<close>, \<open>relation_semantic_class.rs\<close>,
    \<open>relation_explanation.rs\<close>, \<open>source_kind.rs\<close>, \<open>provenance.rs\<close>).
  \<^item> TemporalValues: coordinates, cursors, intervals and selections
    (\<open>value_objects/temporal_*.rs\<close>, \<open>coordinate_origin.rs\<close>).
  \<^item> Labels: label maps, selectors and dimension scopes (\<open>value_objects/entry_labels.rs\<close>,
    \<open>label_selector.rs\<close>, \<open>dimension_selection.rs\<close>).
  \<^item> Bundle: the checked collection a read works on (\<open>model/kmp_bundle.rs\<close> and its parts,
    \<open>model/labels/entry_labels.rs\<close>).
  \<^item> TemporalIndex, TemporalSelect, TemporalPages, TemporalTraverse, TemporalGuarantees: the
    temporal read (\<open>model/temporal_memory/\<close>): the catalogue of positions, the cursor and its
    page, the traversal and the prepared index, and what an answer guarantees.
  \<^item> Ports: the values that cross to a store (\<open>repositories/\<close>, \<open>error/\<close>).
  \<^item> Lifecycle, LifecycleGuarantees: what replaced, retracted or contradicted a memory
    (\<open>model/lifecycle/\<close>), with both sources of its links: the adjacency pages of a store and the
    bundle (\<open>src/crates/kmp-proto-mapping/.../bundle_lifecycle_links.rs\<close>).
  \<^item> RelationshipPath: the shortest path inside a bundle (\<open>model/relationship_path.rs\<close>).
  \<^item> DependencyGroup: the neighbourhood of a proof (\<open>model/proof_dependency_group.rs\<close>).
  \<^item> PathSearch, PathReplay, PathSearchGuarantees: the bounded bidirectional search over a
    store (\<open>model/bidirectional_path_search.rs\<close>, \<open>path_search_side.rs\<close>,
    \<open>context_path_search.rs\<close>, \<open>trace_search_limits.rs\<close>, \<open>trace_search_stop.rs\<close>).

  \<^item> ReadWindow, ProofPlan: what a read as of an instant or within an interval admits, and the
    bodies a temporal page needs as proof (\<open>model/temporal_read_window.rs\<close>,
    \<open>temporal_proof_plan.rs\<close>).
  \<^item> TraceRequest, TraceBudget, TracePending, TraceFrontier, TraceAdmission, TraceSearch: the
    bounded search over several destinations (\<open>model/bounded_trace_search.rs\<close> and its parts
    \<open>trace_search_request.rs\<close>, \<open>trace_read_budget.rs\<close>, \<open>trace_pending_states.rs\<close>,
    \<open>trace_candidate_frontier.rs\<close>, \<open>trace_temporal_admission.rs\<close>, \<open>trace_node_expansion.rs\<close>).
    TraceRoutes, TraceStore, TraceVisit and TraceSearchGuarantees carry its invariant, from one
    state of the frontier to the whole loop; TraceAnswers holds what an answer promises.
  \<^item> MaterialSet, TraceMaterial, MaterialGuarantees: the choice of the routes that carry most
    of a declared requirement within a bound on entries (\<open>model/select_trace_material.rs\<close>,
    \<open>trace_material_set.rs\<close>, \<open>trace_material_catalog.rs\<close>, \<open>trace_material_state.rs\<close>).
  \<^item> NodeCards: the cards a reader authors in place of a body: the compare and set of a write,
    what a compact read shows, the event of a write (\<open>model/node_card_policy.rs\<close>,
    \<open>node_card_rejection.rs\<close>, \<open>value_objects/node_card*.rs\<close>).
  \<^item> TraceBodies: which bodies a response loads under a ceiling on stored bytes, the counts of
    the delivery and the plan of the next batch (\<open>model/trace_body_admission.rs\<close>, and
    \<open>expansion_plan\<close> and \<open>delivery\<close> of \<open>model/materialize_trace_proof.rs\<close>).

  \<^bold>\<open>How the parts interact.\<close> An edge carries an explanation; the explanation of a
  \<open>contains_entry\<close> edge gives the coordinate of its target and the dimension of its source; the
  bundle collects nodes, edges and details and checks their references; the catalogue orders
  the coordinates of one axis by their canonical keys; a traversal resolves a cursor against
  the catalogue, filters by scope, selector, entry set and interval, cuts a page and reads the
  entries back from the bundle; the proof plan adds the dependency groups of the page and their
  evidence. The lifecycle walk, the relationship path and the dependency group read the same
  edges; the path search and the trace search read them through a store. The trace search
  expands the states of its frontier in the order of its pending queue, reads each page under
  its budget, keeps the edges the window and the request admit and asks the admission for the
  entries behind them; its routes are the candidates of the material selection.

  \<^bold>\<open>State and operations.\<close> A struct is a record or a datatype with the source's fields, an
  \<open>enum\<close> a datatype, \<open>u32\<close> a \<open>32 word\<close>, counters that a limit bounds \<open>nat\<close>. A
  function of the source is a definition with the source's name (a suffix where the name
  clashes), its early returns are branches. A panic is \<open>None\<close>. A loop that the types do not
  bound is a \<open>partial_function (option)\<close>, \<open>None\<close> when it does not return.

  \<^bold>\<open>What the lemmas show.\<close> Round trips of identities, instants and explanations; canonical
  keys sort as the instants do in the range the format covers; label maps, selectors and
  scopes mean what they say; a bundle that is constructed has unique nodes and no dangling
  edge; a traversal answers the entries the filters admit, on the cursor's side, in pages that
  continue each other, without panicking on intervals whose keys are ordered; the lifecycle
  walk reports declared steps only, all of them when it says it is complete, and always
  returns; the relationship path is a shortest one; the dependency group is exactly the
  reachable eligible neighbourhood when nothing is cut; a path found through a store is a walk
  of stored relations, a shortest one when no budget cut it. The invariant of the trace search
  (\<open>frontier_ok\<close>, \<open>search_ok\<close>) says that the states form a tree of admissible links, that every
  destination found is recorded up to its quota and that a state waits exactly while rows of
  its entry are unread; with a decreasing measure for every loop this gives sound routes,
  absence proved by exhaustion, bounded work and termination. The pending queue starves no
  state. The beam of the material selection keeps within its bounds, scores what it holds and
  never loses to a single route.

  \<^bold>\<open>Interfaces.\<close> The locale \<open>link_contract\<close> of LifecycleGuarantees is the trait
  \<open>LifecycleLinkSource\<close> with its laws; it is interpreted on the bundle's source, and the
  adjacency source is shown to read its links. The locale \<open>pending_queue\<close> of TracePending is what
  the frontier relies on: a push adds a state, a pop takes one that waits; it is interpreted on
  the two queues of the source. The locale \<open>index_set\<close> of MaterialSet is a finite set of
  positions; it is interpreted on the words of 64 bits.

  \<^bold>\<open>Bounds.\<close> \<open>MAX_LIFECYCLE_DEPTH\<close> 32, 256 members and 16 links of a lifecycle walk, \<open>MAX_HOPS\<close>
  2 and \<open>MAX_MEMBERS\<close> 8 of a dependency group, width 4 and at most 8 rounds of the material beam,
  and the limits of a trace search are the source's own, and part of the definitions. No fuel is
  used: every \<open>partial_function\<close> has a theorem that it returns.

  \<^bold>\<open>Hypotheses.\<close> The stores are parameters. A property of the path search assumes \<open>reads_graph\<close>,
  the documented behaviour of \<open>neighbor_ids\<close>: the ends of stored relations, and all of them when
  fewer than the limit come back. The adjacency source assumes the documented paging of
  \<open>read_page\<close>. The trace search assumes \<open>snapshot_of\<close>: the reader answers every page of one stored
  graph in the order of its keys; and \<open>typed_request\<close>: the relations of the moves to follow are
  values of their type. All are instantiated in witnesses.

  \<^bold>\<open>What modelling showed.\<close> An interval whose canonical keys cross makes the traversal panic
  (\<open>crossed_interval_panics\<close>); the proof bound of a \<open>Goto\<close> reads the default clock in another
  order than the traversal (\<open>goto_proof_bounds_disagree\<close>); clock fields accept a sign and days past
  the month's end; very large stored seconds wrap.
\<close>

text \<open>
  \<^bold>\<open>Not modelled.\<close>

  \<^item> The proof a trace search may materialise in addition, evidence paths, the proposals of
    \<open>relate\<close>, the recommendation of cards, consolidation and search summaries.
  \<^item> Label resemblance and the question language rest on Unicode tables of the standard
    library and of crates outside this repository; the bundle metrics on floating point.
  \<^item> The application services, stores, servers, transports, the protocol mapping and the
    answer ranker orchestrate, serialise or perform I/O; generated code, release tooling, tests
    and the viewer are left aside.
\<close>

end
